(* ===== verification/Prelude.thy ===== *)
theory Prelude
  imports Main "HOL-Library.Word" "HOL-Library.Monad_Syntax"
begin

text \<open>
  Shared vocabulary of the development.

  \<^item> Machine types: \<open>byte\<close> is the C++ \<open>char\<close> (signed, 8 bits, as on the x86-64 targets of the
    build), compared with \<open>\<le>s\<close> and \<open><s\<close>; \<open>u8\<close>, \<open>u16\<close>, \<open>u32\<close>, \<open>u64\<close> are the fixed-width unsigned
    integers, with \<open>+\<close>, \<open>-\<close>, \<open>*\<close> wrapping.
  \<^item> Memory: a \<open>buffer\<close> is one allocated array of bytes and a pointer into it is an offset. The read
    \<open>rd m p\<close> is \<^term>\<open>None\<close> outside the array, so \<^term>\<open>None\<close> as the value of a modelled function
    means that the C++ function reads memory it does not own. A null pointer is \<^term>\<open>None\<close> where a
    function accepts one.
  \<^item> \<open>scan_while\<close> is the loop \<open>while (p < end && P(*p)) ++p\<close> that the scanners share, and
    \<open>lower_bound\<close> is \<open>std::lower_bound\<close> as the bisection of the standard library, with the locale
    \<open>sorted_table\<close> as the contract of the tables that are searched with it.
  \<^item> \<open>contract_error\<close> is what \<open>precondition\<close> throws (\<open>core/util/dbc.h\<close>).
\<close>

unbundle bit_operations_syntax

section \<open>Machine types\<close>

type_synonym byte = "8 word"
type_synonym u8 = "8 word"
type_synonym u16 = "16 word"
type_synonym u32 = "32 word"
type_synonym u64 = "64 word"
type_synonym i32 = "32 word"
type_synonym buffer = "byte list"

text \<open>A C++ character literal and a C++ string literal without its terminator.\<close>

abbreviation asc :: "char \<Rightarrow> byte" where
  "asc c \<equiv> of_char c"

abbreviation lit :: "string \<Rightarrow> byte list" where
  "lit s \<equiv> map of_char s"

named_theorems byte_defs "definitions of predicates and functions on single bytes"
named_theorems scan_defs "definitions of the scanners that are instances of the shared loop"

section \<open>Contracts\<close>

datatype contract_type = ct_pre | ct_check | ct_post

datatype contract_error = contract_violation contract_type

type_synonym 'a result = "contract_error + 'a"

definition precondition :: "bool \<Rightarrow> 'a result \<Rightarrow> 'a result" where
  "precondition b r = (if b then r else Inl (contract_violation ct_pre))"

section \<open>Memory\<close>

definition rd :: "buffer \<Rightarrow> nat \<Rightarrow> byte option" where
  "rd m p = (if p < length m then Some (m ! p) else None)"

definition slice :: "buffer \<Rightarrow> nat \<Rightarrow> nat \<Rightarrow> byte list" where
  "slice m p e = take (e - p) (drop p m)"

text \<open>Writing is undefined outside the array, too.\<close>

definition wr :: "buffer \<Rightarrow> nat \<Rightarrow> byte \<Rightarrow> buffer option" where
  "wr m p c = (if p < length m then Some (m[p := c]) else None)"

fun wr_bytes :: "buffer \<Rightarrow> nat \<Rightarrow> byte list \<Rightarrow> buffer option" where
  "wr_bytes m p [] = Some m"
| "wr_bytes m p (c # cs) = do { m' \<leftarrow> wr m p c; wr_bytes m' (Suc p) cs }"

text \<open>A null-terminated string: its bytes, none of them 0, then the terminator.\<close>

definition cstr :: "byte list \<Rightarrow> buffer" where
  "cstr s = s @ [0]"

definition is_cstr_content :: "byte list \<Rightarrow> bool" where
  "is_cstr_content s \<longleftrightarrow> 0 \<notin> set s"

text \<open>The loop \<open>while (p < end && P(*p)) ++p; return p;\<close>\<close>

function scan_while :: "(byte \<Rightarrow> bool) \<Rightarrow> buffer \<Rightarrow> nat \<Rightarrow> nat \<Rightarrow> nat option" where
  "scan_while P m p e =
     (if p < e
      then do {
        c \<leftarrow> rd m p;
        if P c then scan_while P m (Suc p) e else Some p
      }
      else Some p)"
  by pat_completeness auto
termination
  by (relation "measure (\<lambda>(P, m, p, e). e - p)") auto

text \<open>\<open>strlen\<close>, \<open>strchr(s, c)\<close> with the terminator part of the string, and \<open>strncmp\<close>.\<close>

function strlen_from :: "buffer \<Rightarrow> nat \<Rightarrow> nat option" where
  "strlen_from m p =
     (if p < length m
      then (if m ! p = 0 then Some 0 else map_option Suc (strlen_from m (Suc p)))
      else None)"
  by pat_completeness auto
termination
  by (relation "measure (\<lambda>(m, p). length m - p)") auto

definition in_cset :: "byte list \<Rightarrow> byte \<Rightarrow> bool" where
  "in_cset cs c \<longleftrightarrow> c = 0 \<or> c \<in> set cs"

section \<open>Bisection\<close>

text \<open>\<open>std::lower_bound\<close> on the positions \<open>first .. first + count\<close> of a table; \<open>is_less i\<close> is the
  comparison of the element at position \<open>i\<close> with the value that is searched.\<close>

function lower_bound_loop :: "(nat \<Rightarrow> bool) \<Rightarrow> nat \<Rightarrow> nat \<Rightarrow> nat" where
  "lower_bound_loop is_less first count =
     (if count = 0 then first
      else if is_less (first + count div 2)
           then lower_bound_loop is_less (Suc (first + count div 2)) (count - Suc (count div 2))
           else lower_bound_loop is_less first (count div 2))"
  by pat_completeness auto
termination
  by (relation "measure (\<lambda>(is_less, first, count). count)") auto

definition lower_bound :: "('e \<Rightarrow> 'v \<Rightarrow> bool) \<Rightarrow> 'e list \<Rightarrow> 'v \<Rightarrow> nat" where
  "lower_bound lt xs v = lower_bound_loop (\<lambda>i. lt (xs ! i) v) 0 (length xs)"

declare scan_while.simps [simp del]
declare strlen_from.simps [simp del]
declare lower_bound_loop.simps [simp del]

section \<open>Lemmas on memory\<close>

lemma rd_in [simp]: "p < length m \<Longrightarrow> rd m p = Some (m ! p)"
  by (simp add: rd_def)

lemma rd_out [simp]: "length m \<le> p \<Longrightarrow> rd m p = None"
  by (simp add: rd_def)

lemma rd_eq_Some_iff: "rd m p = Some c \<longleftrightarrow> p < length m \<and> m ! p = c"
  by (auto simp: rd_def)

lemma length_slice [simp]: "e \<le> length m \<Longrightarrow> length (slice m p e) = e - p"
  by (simp add: slice_def)

lemma slice_empty [simp]: "e \<le> p \<Longrightarrow> slice m p e = []"
  by (simp add: slice_def)

lemma slice_Cons: "p < e \<Longrightarrow> e \<le> length m \<Longrightarrow> slice m p e = m ! p # slice m (Suc p) e"
  unfolding slice_def
  by (metis Cons_nth_drop_Suc Suc_diff_Suc order_less_le_trans take_Suc_Cons)

lemma slice_nth: "e \<le> length m \<Longrightarrow> i < e - p \<Longrightarrow> slice m p e ! i = m ! (p + i)"
  by (simp add: slice_def)

lemma slice_append_slice:
  "p \<le> q \<Longrightarrow> q \<le> e \<Longrightarrow> e \<le> length m \<Longrightarrow> slice m p q @ slice m q e = slice m p e"
proof (induction "q - p" arbitrary: p)
  case 0
  then show ?case by simp
next
  case (Suc n)
  then have "slice m (Suc p) q @ slice m q e = slice m (Suc p) e" by simp
  with Suc.prems Suc.hyps(2) show ?case by (simp add: slice_Cons)
qed

lemma drop_slice: "drop k (slice m p e) = slice m (p + k) e"
  by (simp add: slice_def drop_take add.commute)

lemma slice_full [simp]: "slice m 0 (length m) = m"
  by (simp add: slice_def)

lemma set_sliceD: "x \<in> set (slice m p e) \<Longrightarrow> x \<in> set m"
  unfolding slice_def by (meson in_set_dropD in_set_takeD)

lemma wr_bytes_spec:
  "p + length cs \<le> length m \<Longrightarrow> wr_bytes m p cs = Some (take p m @ cs @ drop (p + length cs) m)"
proof (induction cs arbitrary: m p)
  case Nil
  then show ?case by simp
next
  case (Cons c cs)
  then have "wr_bytes (m[p := c]) (Suc p) cs =
      Some (take (Suc p) (m[p := c]) @ cs @ drop (Suc p + length cs) (m[p := c]))" by simp
  moreover have "take (Suc p) (m[p := c]) = take p m @ [c]" using Cons.prems
    by (simp add: take_Suc_conv_app_nth)
  ultimately show ?case using Cons.prems by (simp add: wr_def)
qed

lemma scan_while_beyond [simp]: "e \<le> p \<Longrightarrow> scan_while P m p e = Some p"
  by (simp add: scan_while.simps)

text \<open>The shared loop never leaves the range, never reads outside it, and stops at the first byte
  that fails the test.\<close>

lemma scan_while_takeWhile:
  assumes "p \<le> e" and "e \<le> length m"
  shows "scan_while P m p e = Some (p + length (takeWhile P (slice m p e)))"
  using assms
proof (induction P m p e rule: scan_while.induct)
  case (1 P m p e)
  show ?case
  proof (cases "p < e")
    case True
    with "1.prems" have "rd m p = Some (m ! p)" by simp
    with True "1.prems" "1.IH" [OF True] show ?thesis
      by (simp add: scan_while.simps [of P m p e] slice_Cons)
  next
    case False
    with "1.prems" show ?thesis by simp
  qed
qed

lemma length_takeWhile_slice_le:
  "e \<le> length m \<Longrightarrow> length (takeWhile P (slice m p e)) \<le> e - p"
  by (metis length_slice length_takeWhile_le)

lemma scan_while_result:
  assumes "p \<le> e" and "e \<le> length m"
  obtains q where "scan_while P m p e = Some q" and "p \<le> q" and "q \<le> e"
    and "\<And>i. p \<le> i \<Longrightarrow> i < q \<Longrightarrow> P (m ! i)" and "q < e \<Longrightarrow> \<not> P (m ! q)"
proof -
  let ?xs = "slice m p e"
  let ?n = "length (takeWhile P ?xs)"
  have n: "?n \<le> e - p" using assms(2) by (rule length_takeWhile_slice_le)
  have all: "P (m ! i)" if "p \<le> i" "i < p + ?n" for i
  proof -
    from that have less: "i - p < ?n" by simp
    then have "takeWhile P ?xs ! (i - p) = ?xs ! (i - p)" by (rule takeWhile_nth)
    moreover from less n assms(2) that have "?xs ! (i - p) = m ! i" by (simp add: slice_nth)
    moreover from less have "takeWhile P ?xs ! (i - p) \<in> set (takeWhile P ?xs)" by (rule nth_mem)
    ultimately show ?thesis by (metis set_takeWhileD)
  qed
  have stop: "\<not> P (m ! (p + ?n))" if "p + ?n < e"
  proof -
    from that assms have "?n < length ?xs" by simp
    then have "\<not> P (?xs ! ?n)" by (rule nth_length_takeWhile)
    with that assms show ?thesis by (simp add: slice_nth)
  qed
  show thesis
    by (rule that [of "p + ?n"]) (use assms n all stop in \<open>auto simp: scan_while_takeWhile\<close>)
qed

text \<open>Facts on slices that begin with a known text.\<close>

lemma slice_appendD:
  assumes "slice m p e = xs @ ys" "p \<le> e" "e \<le> length m"
  shows "p + length xs \<le> e \<and> slice m (p + length xs) e = ys \<and> slice m p (p + length xs) = xs"
proof -
  have le: "p + length xs \<le> e" using arg_cong [OF assms(1), of length] assms(2,3) by simp
  have "drop (length xs) (slice m p e) = ys" using assms(1) by simp
  moreover have "take (length xs) (slice m p e) = xs" using assms(1) by simp
  ultimately show ?thesis using le by (simp add: drop_slice) (simp add: slice_def min_absorb1)
qed

lemma slice_ConsD:
  assumes "slice m p e = c # cs" "e \<le> length m"
  shows "p < e \<and> m ! p = c \<and> slice m (Suc p) e = cs"
proof -
  have "p < e" using assms by (cases "p < e") auto
  then show ?thesis using assms slice_Cons [of p e m] by simp
qed

lemma takeWhile_upto: "list_all P xs \<Longrightarrow> ys = [] \<or> \<not> P (hd ys) \<Longrightarrow> takeWhile P (xs @ ys) = xs"
  by (induction xs) (cases ys; auto)+

lemma scan_while_upto:
  assumes "slice m p e = xs @ ys" "list_all P xs" "ys = [] \<or> \<not> P (hd ys)" "p \<le> e" "e \<le> length m"
  shows "scan_while P m p e = Some (p + length xs)"
  using assms by (simp add: scan_while_takeWhile takeWhile_upto)

lemma strlen_from_cstr:
  "is_cstr_content s \<Longrightarrow> strlen_from (pre @ s @ 0 # rest) (length pre) = Some (length s)"
proof (induction s arbitrary: pre)
  case Nil
  then show ?case by (simp add: strlen_from.simps)
next
  case (Cons c s)
  from Cons.prems have s: "is_cstr_content s" and c: "c \<noteq> 0" by (auto simp: is_cstr_content_def)
  from Cons.IH [OF s, of "pre @ [c]"] c show ?case
    by (subst strlen_from.simps) simp
qed

section \<open>Lemmas on bytes\<close>

text \<open>A fact about every byte is a finite check.\<close>

definition all_bytes :: "byte list" where
  "all_bytes = map of_nat [0..<256]"

lemma set_all_bytes: "set all_bytes = UNIV"
proof -
  have "c \<in> set all_bytes" for c :: byte
  proof -
    have "of_nat (unat c) = c" by simp
    moreover have "unat c < 256" using unsigned_less [of c] by simp
    ultimately show ?thesis unfolding all_bytes_def by (force simp: image_iff)
  qed
  then show ?thesis by blast
qed

lemma byte_all: "list_all P all_bytes \<Longrightarrow> P c"
  using set_all_bytes by (auto simp: list_all_iff)

lemma sint_byte_diff: "- 128 \<le> sint a - sint b \<Longrightarrow> sint a - sint b < 128 \<Longrightarrow> sint (a - b) = sint a - sint b"
  for a b :: byte
  by (simp add: sint_word_ariths signed_take_bit_int_eq_self)

lemma sint_byte_sum: "- 128 \<le> sint a + sint b \<Longrightarrow> sint a + sint b < 128 \<Longrightarrow> sint (a + b) = sint a + sint b"
  for a b :: byte
  by (simp add: sint_word_ariths signed_take_bit_int_eq_self)

lemma sint_byte_bounds: "- 128 \<le> sint c" "sint c < 128" for c :: byte
  using sint_range_size [of c] by (simp_all add: word_size)

lemma sint_0_iff [simp]: "sint c = 0 \<longleftrightarrow> c = 0" for c :: byte
  by (metis sint_0 signed_word_eqI)

lemma sint_inject: "sint a = sint b \<longleftrightarrow> a = b" for a b :: byte
  by (metis signed_word_eqI)

section \<open>Lemmas on bisection\<close>

lemma lower_bound_loop_correct:
  assumes "\<And>i j. i < j \<Longrightarrow> j < first + count \<Longrightarrow> is_less j \<Longrightarrow> is_less i"
  defines "r \<equiv> lower_bound_loop is_less first count"
  shows "first \<le> r" and "r \<le> first + count"
    and "\<And>i. first \<le> i \<Longrightarrow> i < r \<Longrightarrow> is_less i"
    and "\<And>i. r \<le> i \<Longrightarrow> i < first + count \<Longrightarrow> \<not> is_less i"
proof -
  have "(\<And>i j. i < j \<Longrightarrow> j < first + count \<Longrightarrow> is_less j \<Longrightarrow> is_less i) \<Longrightarrow>
     first \<le> lower_bound_loop is_less first count \<and>
     lower_bound_loop is_less first count \<le> first + count \<and>
     (\<forall>i. first \<le> i \<longrightarrow> i < lower_bound_loop is_less first count \<longrightarrow> is_less i) \<and>
     (\<forall>i. lower_bound_loop is_less first count \<le> i \<longrightarrow> i < first + count \<longrightarrow> \<not> is_less i)"
  proof (induction is_less first count rule: lower_bound_loop.induct)
    case (1 is_less first count)
    let ?mid = "first + count div 2"
    consider "count = 0" | "count \<noteq> 0" "is_less ?mid" | "count \<noteq> 0" "\<not> is_less ?mid" by blast
    then show ?case
    proof cases
      case 1
      then show ?thesis by (simp add: lower_bound_loop.simps [of is_less first 0])
    next
      case 2
      let ?r = "lower_bound_loop is_less (Suc ?mid) (count - Suc (count div 2))"
      have tot: "Suc ?mid + (count - Suc (count div 2)) = first + count"
        using 2(1) by arith
      have IH: "Suc ?mid \<le> ?r \<and> ?r \<le> first + count \<and>
          (\<forall>i. Suc ?mid \<le> i \<longrightarrow> i < ?r \<longrightarrow> is_less i) \<and>
          (\<forall>i. ?r \<le> i \<longrightarrow> i < first + count \<longrightarrow> \<not> is_less i)"
        using "1.IH"(1) [OF 2] "1.prems" unfolding tot by blast
      have below: "is_less i" if "i \<le> ?mid" for i
        using that 2 "1.prems" [of i ?mid] by (cases "i = ?mid") auto
      from IH below have "\<forall>i. first \<le> i \<longrightarrow> i < ?r \<longrightarrow> is_less i"
        by (metis not_less_eq_eq)
      with IH 2 show ?thesis by (simp add: lower_bound_loop.simps [of is_less first count])
    next
      case 3
      let ?r = "lower_bound_loop is_less first (count div 2)"
      have IH: "first \<le> ?r \<and> ?r \<le> ?mid \<and>
          (\<forall>i. first \<le> i \<longrightarrow> i < ?r \<longrightarrow> is_less i) \<and>
          (\<forall>i. ?r \<le> i \<longrightarrow> i < ?mid \<longrightarrow> \<not> is_less i)"
        using "1.IH"(2) [OF 3] "1.prems" by fastforce
      have above: "\<not> is_less i" if "?mid \<le> i" "i < first + count" for i
        using that 3 "1.prems" [of ?mid i] by (cases "i = ?mid") auto
      from IH above have "\<forall>i. ?r \<le> i \<longrightarrow> i < first + count \<longrightarrow> \<not> is_less i"
        by (metis not_le)
      moreover have "?r \<le> first + count"
        by (rule le_trans [of _ ?mid]) (use IH in simp_all)
      ultimately show ?thesis
        using IH 3 by (simp add: lower_bound_loop.simps [of is_less first count])
    qed
  qed
  with assms show "first \<le> r" and "r \<le> first + count"
    and "\<And>i. first \<le> i \<Longrightarrow> i < r \<Longrightarrow> is_less i"
    and "\<And>i. r \<le> i \<Longrightarrow> i < first + count \<Longrightarrow> \<not> is_less i"
    by blast+
qed

lemma lower_bound_correct:
  assumes part: "\<And>i j. i < j \<Longrightarrow> j < length xs \<Longrightarrow> lt (xs ! j) v \<Longrightarrow> lt (xs ! i) v"
  shows lower_bound_le_length: "lower_bound lt xs v \<le> length xs"
    and lower_bound_below: "i < lower_bound lt xs v \<Longrightarrow> lt (xs ! i) v"
    and lower_bound_above: "lower_bound lt xs v \<le> i \<Longrightarrow> i < length xs \<Longrightarrow> \<not> lt (xs ! i) v"
proof -
  note lb = lower_bound_loop_correct [of 0 "length xs" "\<lambda>i. lt (xs ! i) v"]
  show "lower_bound lt xs v \<le> length xs"
    using lb(2) part by (simp add: lower_bound_def)
  show "i < lower_bound lt xs v \<Longrightarrow> lt (xs ! i) v"
    using lb(3) [of i] part by (simp add: lower_bound_def)
  show "lower_bound lt xs v \<le> i \<Longrightarrow> i < length xs \<Longrightarrow> \<not> lt (xs ! i) v"
    using lb(4) [of i] part by (simp add: lower_bound_def)
qed

text \<open>A table sorted strictly by a key: what the tables generated from the \<open>.tuples\<close> files promise
  to the functions that search them.\<close>

locale sorted_table =
  fixes key :: "'e \<Rightarrow> 'k::linorder" and table :: "'e list"
  assumes sorted_keys: "sorted_wrt (<) (map key table)"
begin

lemma key_less: "i < j \<Longrightarrow> j < length table \<Longrightarrow> key (table ! i) < key (table ! j)"
  using sorted_keys by (auto simp: sorted_wrt_iff_nth_less)

lemma lower_bound_position:
  fixes k :: 'k
  defines "r \<equiv> lower_bound (\<lambda>e k. key e < k) table k"
  shows "r \<le> length table"
    and "\<And>i. i < r \<Longrightarrow> key (table ! i) < k"
    and "\<And>i. r \<le> i \<Longrightarrow> i < length table \<Longrightarrow> k \<le> key (table ! i)"
proof -
  have part: "key (table ! i) < k" if "i < j" "j < length table" "key (table ! j) < k" for i j
    using key_less [OF that(1,2)] that(3) by simp
  show "r \<le> length table"
    unfolding r_def by (rule lower_bound_le_length) (rule part)
  show "key (table ! i) < k" if "i < r" for i
    using that unfolding r_def by (rule lower_bound_below [rotated]) (rule part)
  show "k \<le> key (table ! i)" if "r \<le> i" "i < length table" for i
    using lower_bound_above [of table "\<lambda>e k. key e < k" k i] part that
    unfolding r_def by (meson not_le)
qed

lemma distinct_keys: "distinct (map key table)"
  using sorted_keys by (simp add: strict_sorted_iff)

text \<open>Bisection finds an entry that is in the table.\<close>

lemma lower_bound_hit:
  assumes "i < length table"
  shows "lower_bound (\<lambda>e k. key e < k) table (key (table ! i)) = i"
proof -
  let ?r = "lower_bound (\<lambda>e k. key e < k) table (key (table ! i))"
  note lb = lower_bound_position [where k = "key (table ! i)"]
  have "\<not> i < ?r" using lb(2) by blast
  moreover have "\<not> ?r < i"
    using lb(3) [of ?r] assms key_less [of ?r i] by auto
  ultimately show ?thesis by simp
qed

text \<open>Whatever the key, the position found is the number of entries with a smaller key; it is the end
  of the table exactly when every entry has one.\<close>

lemma lower_bound_count:
  "lower_bound (\<lambda>e k. key e < k) table k = length (filter (\<lambda>e. key e < k) table)"
proof -
  let ?r = "lower_bound (\<lambda>e k. key e < k) table k"
  note lb = lower_bound_position [where k = k]
  have "filter (\<lambda>e. key e < k) (take ?r table) = take ?r table"
    using lb(1,2) by (intro filter_True) (auto simp: in_set_conv_nth)
  moreover have "filter (\<lambda>e. key e < k) (drop ?r table) = []"
    using lb(1,3) by (intro filter_False) (auto simp: in_set_conv_nth not_less)
  ultimately have "filter (\<lambda>e. key e < k) (take ?r table @ drop ?r table) = take ?r table"
    by (simp only: filter_append append_Nil2)
  with lb(1) show ?thesis by simp
qed

lemma lower_bound_end_iff:
  "lower_bound (\<lambda>e k. key e < k) table k = length table \<longleftrightarrow> (\<forall>e \<in> set table. key e < k)"
  unfolding lower_bound_count
  by (metis filter_True length_filter_less less_irrefl)

end

end
