(* ===== verification/Strutil.thy ===== *)
theory Strutil
  imports Prelude
begin

text \<open>
  \<open>core/text/strutil.h\<close>, \<open>strutil-inline.h\<close> and \<open>strutil.cpp\<close>: classification and case mapping of
  ASCII characters, bounded searches, trimming, case-insensitive comparison and \<open>split\<close>.

  The results: the searches and trims return the boundary of the longest run they are specified by;
  \<open>split\<close> returns the maximal runs of non-splitter characters; the case-insensitive comparison is the
  lexicographic comparison of the upper-cased strings as long as no character lies between \<open>Z\<close> and
  \<open>a\<close>, and is not transitive otherwise.
\<close>

section \<open>Character classification and case mapping\<close>

definition is_ascii_lower :: "byte \<Rightarrow> bool" where [byte_defs]:
  "is_ascii_lower c \<longleftrightarrow> asc CHR ''a'' \<le>s c \<and> c \<le>s asc CHR ''z''"

definition is_ascii_upper :: "byte \<Rightarrow> bool" where [byte_defs]:
  "is_ascii_upper c \<longleftrightarrow> asc CHR ''A'' \<le>s c \<and> c \<le>s asc CHR ''Z''"

definition is_ascii_alpha :: "byte \<Rightarrow> bool" where [byte_defs]:
  "is_ascii_alpha c \<longleftrightarrow>
     asc CHR ''A'' \<le>s c \<and> c \<le>s asc CHR ''z'' \<and> (asc CHR ''a'' \<le>s c \<or> c \<le>s asc CHR ''Z'')"

definition is_ascii_digit :: "byte \<Rightarrow> bool" where [byte_defs]:
  "is_ascii_digit c \<longleftrightarrow> c \<le>s asc CHR ''9'' \<and> asc CHR ''0'' \<le>s c"

definition is_ascii_alphanumeric :: "byte \<Rightarrow> bool" where [byte_defs]:
  "is_ascii_alphanumeric c \<longleftrightarrow>
     (c \<le>s asc CHR ''9'' \<and> asc CHR ''0'' \<le>s c) \<or>
     (asc CHR ''A'' \<le>s c \<and> c \<le>s asc CHR ''z'' \<and> (asc CHR ''a'' \<le>s c \<or> c \<le>s asc CHR ''Z''))"

definition is_ascii_hex :: "byte \<Rightarrow> bool" where [byte_defs]:
  "is_ascii_hex c \<longleftrightarrow>
     (if c \<le>s asc CHR ''9'' then asc CHR ''0'' \<le>s c
      else if c \<le>s asc CHR ''F'' then asc CHR ''A'' \<le>s c
      else if c \<le>s asc CHR ''f'' then asc CHR ''a'' \<le>s c
      else False)"

definition is_ascii_space_tab_or_eol :: "byte \<Rightarrow> bool" where [byte_defs]:
  "is_ascii_space_tab_or_eol c \<longleftrightarrow> c = 32 \<or> c = 9 \<or> c = 13 \<or> c = 10"

definition is_ascii_whitespace :: "byte \<Rightarrow> bool" where [byte_defs]:
  "is_ascii_whitespace c \<longleftrightarrow> c = 32 \<or> (c \<le>s 13 \<and> 9 \<le>s c)"

definition get_ascii_digit_value :: "byte \<Rightarrow> int" where [byte_defs]:
  "get_ascii_digit_value c =
     (if c \<le>s asc CHR ''9'' \<and> asc CHR ''0'' \<le>s c then sint c - sint (asc CHR ''0'') else - 1)"

definition get_ascii_hex_value :: "byte \<Rightarrow> int" where [byte_defs]:
  "get_ascii_hex_value c =
     (if c \<le>s asc CHR ''9'' \<and> asc CHR ''0'' \<le>s c then sint c - sint (asc CHR ''0'')
      else if asc CHR ''A'' \<le>s c
      then (if c \<le>s asc CHR ''F'' then sint c - sint (asc CHR ''A'') + 10
            else (if asc CHR ''a'' \<le>s c \<and> c \<le>s asc CHR ''f''
                  then sint c - sint (asc CHR ''a'') + 10 else - 1))
      else - 1)"

definition ascii_to_lower_case :: "byte \<Rightarrow> byte" where [byte_defs]:
  "ascii_to_lower_case c =
     (if c \<le>s asc CHR ''Z'' \<and> asc CHR ''A'' \<le>s c then c + 32 else c)"

definition ascii_to_upper_case :: "byte \<Rightarrow> byte" where [byte_defs]:
  "ascii_to_upper_case c =
     (if asc CHR ''a'' \<le>s c \<and> c \<le>s asc CHR ''z'' then c - 32 else c)"

text \<open>The overloads that rewrite a null-terminated string, or the range up to \<open>end\<close>, in place.\<close>

function map_cstr_in_place :: "(byte \<Rightarrow> byte) \<Rightarrow> buffer \<Rightarrow> nat \<Rightarrow> buffer option" where
  "map_cstr_in_place f m p =
     (if p < length m
      then (if m ! p = 0 then Some m else map_cstr_in_place f (m[p := f (m ! p)]) (Suc p))
      else None)"
  by pat_completeness auto
termination
  by (relation "measure (\<lambda>(f, m, p). length m - p)") auto

function map_range_in_place :: "(byte \<Rightarrow> byte) \<Rightarrow> buffer \<Rightarrow> nat \<Rightarrow> nat \<Rightarrow> buffer option" where
  "map_range_in_place f m p e =
     (if p < e
      then (if p < length m then map_range_in_place f (m[p := f (m ! p)]) (Suc p) e else None)
      else Some m)"
  by pat_completeness auto
termination
  by (relation "measure (\<lambda>(f, m, p, e). e - p)") auto

declare map_cstr_in_place.simps [simp del]
declare map_range_in_place.simps [simp del]

definition ascii_to_lower_case_cstr :: "buffer \<Rightarrow> nat option \<Rightarrow> buffer option" where
  "ascii_to_lower_case_cstr m ptr =
     (case ptr of None \<Rightarrow> Some m | Some p \<Rightarrow> map_cstr_in_place ascii_to_lower_case m p)"

definition ascii_to_lower_case_range :: "buffer \<Rightarrow> nat option \<Rightarrow> nat \<Rightarrow> buffer option" where
  "ascii_to_lower_case_range m ptr e =
     (case ptr of None \<Rightarrow> Some m | Some p \<Rightarrow> map_range_in_place ascii_to_lower_case m p e)"

definition ascii_to_upper_case_cstr :: "buffer \<Rightarrow> nat option \<Rightarrow> buffer option" where
  "ascii_to_upper_case_cstr m ptr =
     (case ptr of None \<Rightarrow> Some m | Some p \<Rightarrow> map_cstr_in_place ascii_to_upper_case m p)"

definition ascii_to_upper_case_range :: "buffer \<Rightarrow> nat option \<Rightarrow> nat \<Rightarrow> buffer option" where
  "ascii_to_upper_case_range m ptr e =
     (case ptr of None \<Rightarrow> Some m | Some p \<Rightarrow> map_range_in_place ascii_to_upper_case m p e)"

section \<open>Searching and trimming\<close>

text \<open>A null \<open>p\<close> gives a null result; \<open>end < p\<close> gives \<open>p\<close>; a search that fails gives \<open>end\<close>.\<close>

definition find_char :: "buffer \<Rightarrow> nat option \<Rightarrow> byte \<Rightarrow> nat \<Rightarrow> nat option option" where
  "find_char m ptr c e =
     (case ptr of
        None \<Rightarrow> Some None
      | Some p \<Rightarrow> if e < p then Some (Some p)
                  else map_option Some (scan_while (\<lambda>x. x \<noteq> c) m p e))"

definition find_char_in_range :: "buffer \<Rightarrow> nat \<Rightarrow> byte \<Rightarrow> u32 \<times> u32 \<Rightarrow> nat option option" where
  "find_char_in_range m p c rng = find_char m (Some (p + unat (fst rng))) c (p + unat (snd rng))"

definition find_any_char :: "buffer \<Rightarrow> nat option \<Rightarrow> byte list \<Rightarrow> nat \<Rightarrow> nat option option" where
  "find_any_char m ptr any e =
     (case ptr of
        None \<Rightarrow> Some None
      | Some p \<Rightarrow> if e < p then Some (Some p)
                  else map_option Some (scan_while (\<lambda>x. \<not> in_cset any x) m p e))"

definition find_any_char_in_range :: "buffer \<Rightarrow> nat \<Rightarrow> byte list \<Rightarrow> u32 \<times> u32 \<Rightarrow> nat option option" where
  "find_any_char_in_range m p any rng =
     find_any_char m (Some (p + unat (fst rng))) any (p + unat (snd rng))"

definition ANY_WHITESPACE :: "byte list" where
  "ANY_WHITESPACE = [32, 9, 13, 10]"

definition LINE_WHITESPACE :: "byte list" where
  "LINE_WHITESPACE = [32, 9]"

definition EIGHTY_SPACES :: "byte list" where
  "EIGHTY_SPACES = replicate 80 32"

definition chars_or_default :: "byte list option \<Rightarrow> byte list" where
  "chars_or_default chars = (case chars of None \<Rightarrow> ANY_WHITESPACE | Some cs \<Rightarrow> cs)"

definition ltrim :: "buffer \<Rightarrow> nat option \<Rightarrow> nat \<Rightarrow> byte list option \<Rightarrow> nat option option" where
  "ltrim m bgn e chars =
     (case bgn of
        None \<Rightarrow> Some None
      | Some b \<Rightarrow> if e < b then Some (Some b)
                  else map_option Some (scan_while (in_cset (chars_or_default chars)) m b e))"

fun rtrim_loop :: "byte list \<Rightarrow> buffer \<Rightarrow> nat \<Rightarrow> nat \<Rightarrow> nat option" where
  "rtrim_loop cs m b 0 = Some b"
| "rtrim_loop cs m b (Suc e) =
     (if b \<le> e
      then do {
        c \<leftarrow> rd m e;
        if in_cset cs c then rtrim_loop cs m b e else Some (Suc e)
      }
      else Some b)"

definition rtrim :: "buffer \<Rightarrow> nat option \<Rightarrow> nat \<Rightarrow> byte list option \<Rightarrow> nat option option" where
  "rtrim m bgn e chars =
     (case bgn of
        None \<Rightarrow> Some None
      | Some b \<Rightarrow> if e < b then Some (Some b)
                  else map_option Some (rtrim_loop (chars_or_default chars) m b e))"

definition is_null_or_empty :: "buffer \<Rightarrow> nat option \<Rightarrow> bool option" where
  "is_null_or_empty m ptr =
     (case ptr of None \<Rightarrow> Some True | Some p \<Rightarrow> map_option (\<lambda>c. c = 0) (rd m p))"

definition scan_spaces_and_tabs :: "buffer \<Rightarrow> nat \<Rightarrow> nat \<Rightarrow> nat option" where [scan_defs]:
  "scan_spaces_and_tabs m p e = scan_while (\<lambda>c. \<not> (c \<noteq> 32 \<and> c \<noteq> 9)) m p e"

definition consume_line_break :: "buffer \<Rightarrow> nat \<Rightarrow> nat \<Rightarrow> nat option" where
  "consume_line_break m p e =
     (if p + 1 < e
      then do {
        c \<leftarrow> rd m p;
        if c = 13
        then do { d \<leftarrow> rd m (p + 1); Some (if d = 10 then p + 2 else p + 1) }
        else Some (p + 1)
      }
      else Some (p + 1))"

section \<open>Case-insensitive comparison\<close>

text \<open>One pass of the loop: the characters after the case adjustment and their difference.\<close>

definition adjust_case :: "byte \<Rightarrow> byte \<Rightarrow> byte \<times> byte" where
  "adjust_case cha chb =
     (if sint cha - sint chb = 0 then (cha, chb)
      else if asc CHR ''a'' \<le>s cha \<and> chb \<le>s asc CHR ''Z'' \<and> asc CHR ''A'' \<le>s chb \<and>
              cha \<le>s asc CHR ''z''
      then (cha - 32, chb)
      else if asc CHR ''a'' \<le>s chb \<and> cha \<le>s asc CHR ''Z'' \<and> asc CHR ''A'' \<le>s cha \<and>
              chb \<le>s asc CHR ''z''
      then (cha, chb - 32)
      else (cha, chb))"

function compare_ci_loop :: "buffer \<Rightarrow> buffer \<Rightarrow> nat \<Rightarrow> int option" where
  "compare_ci_loop a b i =
     (if i < length a \<and> i < length b
      then let (cha, chb) = adjust_case (a ! i) (b ! i);
               n = sint cha - sint chb
           in if n \<noteq> 0 then Some (if n > 0 then 1 else - 1)
              else if cha = 0 then Some 0
              else compare_ci_loop a b (Suc i)
      else None)"
  by pat_completeness auto
termination
  by (relation "measure (\<lambda>(a, b, i). length a - i)") auto

declare compare_ci_loop.simps [simp del]

definition compare_str_ascii_case_insensitive :: "buffer option \<Rightarrow> buffer option \<Rightarrow> int option" where
  "compare_str_ascii_case_insensitive a b =
     (case a of
        Some x \<Rightarrow> (case b of Some y \<Rightarrow> compare_ci_loop x y 0 | None \<Rightarrow> Some 1)
      | None \<Rightarrow> (case b of Some y \<Rightarrow> Some (- 1) | None \<Rightarrow> Some 0))"

section \<open>Splitting\<close>

function split_loop ::
  "buffer \<Rightarrow> byte list \<Rightarrow> nat \<Rightarrow> nat option \<Rightarrow> (nat \<times> nat) list \<Rightarrow> (nat \<times> nat) list option" where
  "split_loop m splitters p bgn returned =
     (if p < length m
      then (if m ! p = 0
            then Some (case bgn of None \<Rightarrow> returned | Some b \<Rightarrow> returned @ [(b, p)])
            else if in_cset splitters (m ! p)
            then (case bgn of
                    None \<Rightarrow> split_loop m splitters (Suc p) None returned
                  | Some b \<Rightarrow> split_loop m splitters (Suc p) None (returned @ [(b, p)]))
            else (case bgn of
                    None \<Rightarrow> split_loop m splitters (Suc p) (Some p) returned
                  | Some b \<Rightarrow> split_loop m splitters (Suc p) (Some b) returned))
      else None)"
  by pat_completeness auto
termination
  by (relation "measure (\<lambda>(m, s, p, b, r). length m - p)") auto

declare split_loop.simps [simp del]

definition split_impl :: "buffer \<Rightarrow> nat option \<Rightarrow> byte list \<Rightarrow> (nat \<times> nat) list option" where
  "split_impl m txt splitters =
     (case txt of
        None \<Rightarrow> Some []
      | Some p \<Rightarrow> do {
          c \<leftarrow> rd m p;
          if c = 0 then Some [] else split_loop m splitters p None []
        })"

text \<open>\<open>split<std::string>\<close> copies each range.\<close>

definition split_strings :: "buffer \<Rightarrow> nat option \<Rightarrow> byte list \<Rightarrow> byte list list option" where
  "split_strings m txt splitters =
     map_option (map (\<lambda>(b, e). slice m b e)) (split_impl m txt splitters)"

section \<open>Reference definitions\<close>

text \<open>The maximal runs of characters that are not splitters, from left to right.\<close>

function runs :: "(byte \<Rightarrow> bool) \<Rightarrow> byte list \<Rightarrow> byte list list" where
  "runs P xs =
     (case dropWhile P xs of
        [] \<Rightarrow> []
      | y # ys \<Rightarrow> takeWhile (\<lambda>c. \<not> P c) (y # ys) # runs P (dropWhile (\<lambda>c. \<not> P c) (y # ys)))"
  by pat_completeness auto
termination
proof (relation "measure (\<lambda>(P, xs). length xs)")
  fix P and xs ys :: "byte list" and y
  assume eq: "dropWhile P xs = y # ys"
  then have "\<not> P y" by (metis dropWhile_eq_Cons_conv)
  then have "length (dropWhile (\<lambda>c. \<not> P c) (y # ys)) \<le> length ys"
    by (simp add: length_dropWhile_le)
  moreover have "length (y # ys) \<le> length xs"
    using length_dropWhile_le [of P xs] eq by simp
  ultimately show "((P, dropWhile (\<lambda>c. \<not> P c) (y # ys)), P, xs) \<in> measure (\<lambda>(P, xs). length xs)"
    by simp
qed simp

declare runs.simps [simp del]

text \<open>The sign of the first difference of two sequences of characters.\<close>

fun first_difference :: "byte list \<Rightarrow> byte list \<Rightarrow> int" where
  "first_difference (x # xs) (y # ys) =
     (if sint x = sint y then first_difference xs ys else sgn (sint x - sint y))"
| "first_difference _ _ = 0"

text \<open>Characters outside \<open>[ \ ] ^ _ `\<close>, the ones between \<open>Z\<close> and \<open>a\<close>.\<close>

definition case_stable :: "byte \<Rightarrow> bool" where [byte_defs]:
  "case_stable c \<longleftrightarrow> \<not> (91 \<le>s c \<and> c \<le>s 96)"

section \<open>Lemmas\<close>

lemma ascii_classes:
  "is_ascii_alpha c \<longleftrightarrow> is_ascii_lower c \<or> is_ascii_upper c"
  "is_ascii_alphanumeric c \<longleftrightarrow> is_ascii_alpha c \<or> is_ascii_digit c"
  "is_ascii_hex c \<longleftrightarrow> 0 \<le> get_ascii_hex_value c"
  "is_ascii_digit c \<longleftrightarrow> 0 \<le> get_ascii_digit_value c"
  "get_ascii_hex_value c < 16" "get_ascii_digit_value c < 10"
  by (auto simp: byte_defs word_sle_eq)

lemma sint_minus_32: "asc CHR ''a'' \<le>s c \<Longrightarrow> sint (c - 32) = sint c - 32"
  using sint_byte_diff [of c 32] sint_byte_bounds [of c] by (simp add: word_sle_eq)

lemma sint_plus_32: "asc CHR ''A'' \<le>s c \<Longrightarrow> c \<le>s asc CHR ''Z'' \<Longrightarrow> sint (c + 32) = sint c + 32"
  using sint_byte_sum [of c 32] by (simp add: word_sle_eq)

lemma ascii_to_upper_case_0_iff [simp]: "ascii_to_upper_case c = 0 \<longleftrightarrow> c = 0"
  using sint_minus_32 [of c] sint_0_iff [of "c - 32"]
  by (auto simp: byte_defs word_sle_eq)

lemma sint_upper_0_iff [simp]:
  "sint (ascii_to_upper_case 0) = sint (ascii_to_upper_case c) \<longleftrightarrow> c = 0"
  by (metis ascii_to_upper_case_0_iff signed_word_eqI)

lemma ascii_to_lower_case_0_iff [simp]: "ascii_to_lower_case c = 0 \<longleftrightarrow> c = 0"
  using sint_plus_32 [of c] sint_0_iff [of "c + 32"]
  by (auto simp: byte_defs word_sle_eq)

lemma ascii_case_algebra:
  "ascii_to_upper_case (ascii_to_upper_case c) = ascii_to_upper_case c"
  "ascii_to_lower_case (ascii_to_lower_case c) = ascii_to_lower_case c"
  "ascii_to_upper_case (ascii_to_lower_case c) = ascii_to_upper_case c"
  "ascii_to_lower_case (ascii_to_upper_case c) = ascii_to_lower_case c"
  using sint_minus_32 [of c] sint_plus_32 [of c]
  by (auto simp: byte_defs word_sle_eq)

lemma case_stable_0 [simp]: "case_stable 0"
  by (simp add: case_stable_def word_sle_eq)

text \<open>On characters outside the gap, one pass of the comparison loop is the comparison of the
  upper-cased characters.\<close>

lemma adjust_case_sgn:
  assumes "case_stable cha" and "case_stable chb"
    and "adjust_case cha chb = (x, y)"
  shows "sgn (sint x - sint y) = sgn (sint (ascii_to_upper_case cha) - sint (ascii_to_upper_case chb))"
  using assms sint_minus_32 [of cha] sint_minus_32 [of chb]
  by (auto simp: adjust_case_def case_stable_def ascii_to_upper_case_def word_sle_eq
      split: if_splits)

lemma adjust_case_fst_0:
  assumes "adjust_case cha chb = (x, y)" and "sint x = sint y"
  shows "x = 0 \<longleftrightarrow> cha = 0 \<and> chb = 0"
  using assms sint_minus_32 [of cha] sint_minus_32 [of chb]
    sint_0_iff [of cha] sint_0_iff [of chb] sint_0_iff [of x]
  by (auto simp: adjust_case_def word_sle_eq simp del: sint_0_iff split: if_splits)

lemma compare_ci_loop_spec:
  assumes "is_cstr_content a" and "is_cstr_content b"
    and "list_all case_stable a" and "list_all case_stable b"
    and "length pa = length pb"
  shows "compare_ci_loop (pa @ cstr a) (pb @ cstr b) (length pa) =
     Some (first_difference (map ascii_to_upper_case (cstr a)) (map ascii_to_upper_case (cstr b)))"
  using assms
proof (induction a arbitrary: b pa pb)
  case Nil
  obtain c bs where b: "cstr b = c # bs" and c: "case_stable c" "c = 0 \<longrightarrow> b = []"
    using Nil.prems by (cases b) (auto simp: cstr_def is_cstr_content_def)
  obtain x y where xy: "adjust_case 0 c = (x, y)" by (cases "adjust_case 0 c")
  from adjust_case_sgn [OF case_stable_0 c(1) xy] adjust_case_fst_0 [OF xy] c(2) Nil.prems(5) b xy
  show ?case
    by (subst compare_ci_loop.simps) (auto simp: cstr_def nth_append sgn_if split: if_splits)
next
  case (Cons d ds)
  obtain c bs where b: "cstr b = c # bs" and c: "case_stable c" "c = 0 \<longleftrightarrow> b = []"
    and bs: "c \<noteq> 0 \<longrightarrow> bs = cstr (tl b)"
    using Cons.prems by (cases b) (auto simp: cstr_def is_cstr_content_def)
  from Cons.prems have d: "d \<noteq> 0" "case_stable d" "is_cstr_content ds" "list_all case_stable ds"
    by (auto simp: is_cstr_content_def)
  obtain x y where xy: "adjust_case d c = (x, y)" by (cases "adjust_case d c")
  note sg = adjust_case_sgn [OF d(2) c(1) xy]
  have x0: "sint x = sint y \<Longrightarrow> x \<noteq> 0" using adjust_case_fst_0 [OF xy] d(1) by simp
  have at: "(pa @ cstr (d # ds)) ! length pa = d" "(pb @ cstr b) ! length pa = c"
    using b Cons.prems(5) by (auto simp: cstr_def nth_append)
  show ?case
  proof (cases "sint x = sint y")
    case False
    with sg have "sint (ascii_to_upper_case d) \<noteq> sint (ascii_to_upper_case c)" by (auto simp: sgn_0_0)
    with False sg at xy b Cons.prems(5) show ?thesis
      by (subst compare_ci_loop.simps) (auto simp: cstr_def sgn_if split: if_splits)
  next
    case True
    with sg have eq: "sint (ascii_to_upper_case d) = sint (ascii_to_upper_case c)"
      by (simp add: sgn_if split: if_splits)
    with d(1) c have "c \<noteq> 0" by (metis ascii_to_upper_case_0_iff signed_word_eqI)
    with c bs Cons.prems have tl: "is_cstr_content (tl b)" "list_all case_stable (tl b)" "b \<noteq> []"
      by (cases b; auto simp: is_cstr_content_def)+
    have step: "pa @ cstr (d # ds) = (pa @ [d]) @ cstr ds" "pb @ cstr b = (pb @ [c]) @ cstr (tl b)"
      using b bs \<open>c \<noteq> 0\<close> by (simp_all add: cstr_def)
    have "compare_ci_loop (pa @ cstr (d # ds)) (pb @ cstr b) (length pa) =
        compare_ci_loop ((pa @ [d]) @ cstr ds) ((pb @ [c]) @ cstr (tl b)) (length (pa @ [d]))"
      using True x0 xy at Cons.prems(5) unfolding step
      by (subst compare_ci_loop.simps) simp
    with Cons.IH [OF d(3) tl(1) d(4) tl(2), of "pa @ [d]" "pb @ [c]"] Cons.prems(5) eq
    show ?thesis unfolding b bs [rule_format, OF \<open>c \<noteq> 0\<close>] by (simp add: cstr_def)
  qed
qed

text \<open>Rewriting in place maps every character before the terminator and nothing else.\<close>

lemma map_cstr_in_place_spec:
  assumes "is_cstr_content s" and "\<And>c. f c = 0 \<longleftrightarrow> c = 0"
  shows "map_cstr_in_place f (xs @ s @ 0 # rest) (length xs) = Some (xs @ map f s @ 0 # rest)"
  using assms(1)
proof (induction s arbitrary: xs)
  case Nil
  then show ?case by (simp add: map_cstr_in_place.simps)
next
  case (Cons c s)
  then have "c \<noteq> 0" "is_cstr_content s" by (auto simp: is_cstr_content_def)
  with Cons.IH [of "xs @ [f c]"] show ?case
    by (subst map_cstr_in_place.simps) simp
qed

lemma map_range_in_place_spec:
  "map_range_in_place f (xs @ s @ rest) (length xs) (length xs + length s) = Some (xs @ map f s @ rest)"
proof (induction s arbitrary: xs)
  case Nil
  then show ?case by (simp add: map_range_in_place.simps)
next
  case (Cons c s)
  from Cons.IH [of "xs @ [f c]"] show ?case
    by (subst map_range_in_place.simps) simp
qed

text \<open>Trimming from the right: what remains does not end in a trimmable character, what is cut off
  consists of them.\<close>

lemma rtrim_loop_result:
  assumes "b \<le> e" and "e \<le> length m"
  obtains r where "rtrim_loop cs m b e = Some r" and "b \<le> r" and "r \<le> e"
    and "\<And>i. r \<le> i \<Longrightarrow> i < e \<Longrightarrow> in_cset cs (m ! i)" and "b < r \<Longrightarrow> \<not> in_cset cs (m ! (r - 1))"
proof -
  have "\<exists>r. rtrim_loop cs m b e = Some r \<and> b \<le> r \<and> r \<le> e \<and>
      (\<forall>i. r \<le> i \<longrightarrow> i < e \<longrightarrow> in_cset cs (m ! i)) \<and> (b < r \<longrightarrow> \<not> in_cset cs (m ! (r - 1)))"
    using assms
  proof (induction e)
    case 0
    then show ?case by simp
  next
    case (Suc e)
    show ?case
    proof (cases "b = Suc e \<or> \<not> in_cset cs (m ! e)")
      case True
      with Suc.prems show ?thesis by auto
    next
      case False
      with Suc obtain r where "rtrim_loop cs m b e = Some r" "b \<le> r" "r \<le> e"
        "\<forall>i. r \<le> i \<longrightarrow> i < e \<longrightarrow> in_cset cs (m ! i)" "b < r \<longrightarrow> \<not> in_cset cs (m ! (r - 1))"
        by auto
      with False Suc.prems show ?thesis by (auto simp: less_Suc_eq)
    qed
  qed
  with that show thesis by blast
qed

lemma rtrim_loop_exact:
  assumes "b \<le> r" "r \<le> e" "e \<le> length m" "\<And>i. r \<le> i \<Longrightarrow> i < e \<Longrightarrow> in_cset cs (m ! i)"
    "b < r \<Longrightarrow> \<not> in_cset cs (m ! (r - 1))"
  shows "rtrim_loop cs m b e = Some r"
proof -
  obtain r' where r': "rtrim_loop cs m b e = Some r'" "b \<le> r'" "r' \<le> e"
      "\<And>i. r' \<le> i \<Longrightarrow> i < e \<Longrightarrow> in_cset cs (m ! i)" "b < r' \<Longrightarrow> \<not> in_cset cs (m ! (r' - 1))"
    using rtrim_loop_result [of b e m cs] assms(1-3) by (metis le_trans)
  have "\<not> r < r'" using r'(3,5) assms(1) assms(4) [of "r' - 1"] by force
  moreover have "\<not> r' < r" using r'(2) r'(4) [of "r - 1"] assms(2,5) by force
  ultimately show ?thesis using r'(1) by simp
qed

lemma rtrim_upto:
  assumes "slice m b e = xs @ ws @ ys" "list_all (in_cset ANY_WHITESPACE) ws"
    "xs = [] \<or> \<not> in_cset ANY_WHITESPACE (last xs)" "b \<le> e" "e \<le> length m"
  shows "rtrim m (Some b) (b + length xs + length ws) None = Some (Some (b + length xs))"
proof -
  have le: "b + length xs + length ws \<le> e"
    using arg_cong [OF assms(1), of length] assms(4,5) by simp
  have nth: "m ! (b + i) = (xs @ ws @ ys) ! i" if "i < length xs + length ws" for i
    using that le assms(1,5) slice_nth [of e m i b] by simp
  have "rtrim_loop ANY_WHITESPACE m b (b + length xs + length ws) = Some (b + length xs)"
  proof (rule rtrim_loop_exact)
    fix i assume i: "b + length xs \<le> i" "i < b + length xs + length ws"
    then obtain k where k: "i = b + (length xs + k)" "k < length ws" by (metis add.assoc add_less_cancel_left le_Suc_ex)
    then have "m ! i = ws ! k" using nth [of "length xs + k"] by (simp add: nth_append)
    then show "in_cset ANY_WHITESPACE (m ! i)" using k(2) assms(2) by (simp add: list_all_length)
  next
    assume "b < b + length xs"
    then have "xs \<noteq> []" by auto
    then have "m ! (b + (length xs - 1)) = last xs"
      using nth [of "length xs - 1"] by (simp add: nth_append last_conv_nth trans_less_add1)
    moreover have "b + length xs - 1 = b + (length xs - 1)" using \<open>xs \<noteq> []\<close> by (cases xs) auto
    ultimately show "\<not> in_cset ANY_WHITESPACE (m ! (b + length xs - 1))" using assms(3) \<open>xs \<noteq> []\<close> by metis
  qed (use le assms(5) in auto)
  then show ?thesis by (simp add: rtrim_def chars_or_default_def)
qed

text \<open>Splitting: the loop with an open run has to be generalised over the text already seen.\<close>

lemma runs_Cons_splitter: "P c \<Longrightarrow> runs P (c # xs) = runs P xs"
  by (simp add: runs.simps [of P "c # xs"] runs.simps [of P xs])

lemma runs_run: "\<forall>c \<in> set ys. \<not> P c \<Longrightarrow> ys \<noteq> [] \<Longrightarrow> (xs = [] \<or> P (hd xs)) \<Longrightarrow>
  runs P (ys @ xs) = ys # runs P xs"
proof -
  assume ys: "\<forall>c \<in> set ys. \<not> P c" "ys \<noteq> []" and xs: "xs = [] \<or> P (hd xs)"
  obtain y zs where yz: "ys = y # zs" using ys(2) by (cases ys) auto
  have "dropWhile P (ys @ xs) = y # zs @ xs" using ys yz by simp
  moreover have "takeWhile (\<lambda>c. \<not> P c) (ys @ xs) = ys" "dropWhile (\<lambda>c. \<not> P c) (ys @ xs) = xs"
    using ys xs by (cases xs; simp)+
  ultimately show ?thesis using yz by (subst runs.simps) simp
qed

lemma runs_Nil [simp]: "runs P [] = []"
  by (simp add: runs.simps)

lemma split_loop_spec:
  assumes "is_cstr_content s" and "is_cstr_content open_run"
    and "\<forall>c \<in> set open_run. \<not> in_cset sp c"
    and "m = xs @ open_run @ s @ 0 # rest"
    and "bgn = (if open_run = [] then None else Some (length xs))"
  shows "map_option (map (\<lambda>(b, e). slice m b e))
      (split_loop m sp (length (xs @ open_run)) bgn returned) =
     Some (map (\<lambda>(b, e). slice m b e) returned @ runs (in_cset sp) (open_run @ s))"
  using assms
proof (induction s arbitrary: xs open_run bgn returned)
  case Nil
  have run: "runs (in_cset sp) open_run = (if open_run = [] then [] else [open_run])"
    using runs_run [of open_run "in_cset sp" "[]"] Nil.prems(3) by simp
  show ?case
    by (subst split_loop.simps) (auto simp: Nil.prems(4,5) run slice_def)
next
  case (Cons c s)
  from Cons.prems have c: "c \<noteq> 0" and s: "is_cstr_content s" by (auto simp: is_cstr_content_def)
  have at: "m ! (length xs + length open_run) = c" "length xs + length open_run < length m"
    using Cons.prems(4) by (simp_all add: nth_append)
  have sl: "slice m (length xs) (length xs + length open_run) = open_run"
    using Cons.prems(4) by (simp add: slice_def)
  show ?case
  proof (cases "in_cset sp c")
    case True
    have r: "runs (in_cset sp) (open_run @ c # s) =
        (if open_run = [] then [] else [open_run]) @ runs (in_cset sp) s"
      using runs_run [of open_run "in_cset sp" "c # s"] Cons.prems(3) True
      by (simp add: runs_Cons_splitter)
    have IH: "map_option (map (\<lambda>(b, e). slice m b e))
        (split_loop m sp (Suc (length xs + length open_run)) None ret) =
      Some (map (\<lambda>(b, e). slice m b e) ret @ runs (in_cset sp) s)" for ret
      using Cons.IH [OF s, of "[]" "xs @ open_run @ [c]"] Cons.prems(4)
      by (simp add: is_cstr_content_def)
    from IH [of returned] IH [of "returned @ [(length xs, length xs + length open_run)]"]
      r True c at sl Cons.prems(5)
    show ?thesis by (cases "open_run = []"; subst split_loop.simps) simp_all
  next
    case False
    have IH: "map_option (map (\<lambda>(b, e). slice m b e))
        (split_loop m sp (Suc (length xs + length open_run)) (Some (length xs)) returned) =
      Some (map (\<lambda>(b, e). slice m b e) returned @ runs (in_cset sp) (open_run @ c # s))"
      using Cons.IH [OF s, of "open_run @ [c]" xs] Cons.prems(2,3,4) False c
      by (simp add: is_cstr_content_def)
    from IH False c at Cons.prems(5) show ?thesis
      by (subst split_loop.simps) (simp split: if_splits)
  qed
qed

section \<open>Properties\<close>

text \<open>C25: the case-insensitive comparison of two null-terminated strings that have no character
  between \<open>Z\<close> and \<open>a\<close> terminates inside both strings and returns the sign of the lexicographic
  comparison of the upper-cased strings, terminator included.\<close>

theorem compare_ci_lexicographic:
  assumes "is_cstr_content a" and "is_cstr_content b"
    and "list_all case_stable a" and "list_all case_stable b"
  shows "compare_str_ascii_case_insensitive (Some (cstr a)) (Some (cstr b)) =
     Some (first_difference (map ascii_to_upper_case (cstr a)) (map ascii_to_upper_case (cstr b)))"
  using compare_ci_loop_spec [of a b "[]" "[]"] assms
  by (simp add: compare_str_ascii_case_insensitive_def)

theorem compare_ci_lexicographic_witness:
  "compare_str_ascii_case_insensitive (Some (cstr (lit ''Ab''))) (Some (cstr (lit ''aC''))) =
     Some (first_difference (map ascii_to_upper_case (cstr (lit ''Ab'')))
       (map ascii_to_upper_case (cstr (lit ''aC''))))"
  by (rule compare_ci_lexicographic) (simp_all add: is_cstr_content_def case_stable_def word_sle_eq)

text \<open>The comparison is not an ordering once a character between \<open>Z\<close> and \<open>a\<close> occurs: \<open>Z\<close> is
  before \<open>_\<close>, \<open>_\<close> is before \<open>a\<close>, and \<open>a\<close> is before \<open>Z\<close>.\<close>

theorem compare_ci_cycle:
  "compare_str_ascii_case_insensitive (Some (cstr (lit ''Z''))) (Some (cstr (lit ''_''))) = Some (- 1) \<and>
   compare_str_ascii_case_insensitive (Some (cstr (lit ''_''))) (Some (cstr (lit ''a''))) = Some (- 1) \<and>
   compare_str_ascii_case_insensitive (Some (cstr (lit ''a''))) (Some (cstr (lit ''Z''))) = Some (- 1)"
  by (simp add: compare_str_ascii_case_insensitive_def compare_ci_loop.simps adjust_case_def cstr_def
      word_sle_eq)

text \<open>C26: \<open>split\<close> of a null-terminated string, wherever it lies in memory, returns copies of exactly
  the maximal runs of characters that are not splitters, in order.\<close>

theorem split_strings_runs:
  assumes "is_cstr_content s"
  shows "split_strings (xs @ s @ 0 # rest) (Some (length xs)) splitters = Some (runs (in_cset splitters) s)"
  using split_loop_spec [OF assms, of "[]" splitters "xs @ s @ 0 # rest" xs rest None "[]"] assms
  by (cases s) (auto simp: split_strings_def split_impl_def is_cstr_content_def nth_append
      bind_eq_Some_conv map_option_case split: option.splits)

theorem split_strings_runs_witness:
  "split_strings ([7] @ lit ''ab, c'' @ 0 # [9]) (Some (length [7::byte])) (lit '', '') =
     Some (runs (in_cset (lit '', '')) (lit ''ab, c''))"
  by (rule split_strings_runs) (simp add: is_cstr_content_def)

text \<open>C27: \<open>ltrim\<close> and \<open>rtrim\<close> stay inside the range and cut exactly the leading, respectively
  trailing, characters of the set (the terminator counts as one of them, as \<open>strchr\<close> finds it).\<close>

theorem trim_boundaries:
  assumes "b \<le> e" and "e \<le> length m"
  shows "\<exists>l r. ltrim m (Some b) e chars = Some (Some l) \<and> rtrim m (Some b) e chars = Some (Some r) \<and>
     b \<le> l \<and> l \<le> e \<and> b \<le> r \<and> r \<le> e \<and>
     (\<forall>i. b \<le> i \<longrightarrow> i < l \<longrightarrow> in_cset (chars_or_default chars) (m ! i)) \<and>
     (l < e \<longrightarrow> \<not> in_cset (chars_or_default chars) (m ! l)) \<and>
     (\<forall>i. r \<le> i \<longrightarrow> i < e \<longrightarrow> in_cset (chars_or_default chars) (m ! i)) \<and>
     (b < r \<longrightarrow> \<not> in_cset (chars_or_default chars) (m ! (r - 1)))"
proof -
  let ?cs = "chars_or_default chars"
  obtain l where l: "scan_while (in_cset ?cs) m b e = Some l" "b \<le> l" "l \<le> e"
    "\<And>i. b \<le> i \<Longrightarrow> i < l \<Longrightarrow> in_cset ?cs (m ! i)" "l < e \<Longrightarrow> \<not> in_cset ?cs (m ! l)"
    using scan_while_result [OF assms, of "in_cset ?cs"] by metis
  obtain r where r: "rtrim_loop ?cs m b e = Some r" "b \<le> r" "r \<le> e"
    "\<And>i. r \<le> i \<Longrightarrow> i < e \<Longrightarrow> in_cset ?cs (m ! i)" "b < r \<Longrightarrow> \<not> in_cset ?cs (m ! (r - 1))"
    using rtrim_loop_result [OF assms, of ?cs] by metis
  from l r assms show ?thesis by (auto simp: ltrim_def rtrim_def)
qed

theorem trim_boundaries_witness:
  "\<exists>l r. ltrim (lit '' ab '') (Some 0) 4 None = Some (Some l) \<and>
     rtrim (lit '' ab '') (Some 0) 4 None = Some (Some r) \<and> l \<le> 4 \<and> r \<le> 4"
  using trim_boundaries [of 0 4 "lit '' ab ''" None] by auto

text \<open>C28: rewriting a null-terminated string in place maps every character up to the terminator, keeps
  the terminator, and changes no byte outside the string; upper-casing after lower-casing is
  upper-casing.\<close>

theorem case_mapping_in_place:
  assumes "is_cstr_content s"
  shows "ascii_to_upper_case_cstr (xs @ s @ 0 # rest) (Some (length xs)) =
       Some (xs @ map ascii_to_upper_case s @ 0 # rest) \<and>
     ascii_to_lower_case_cstr (xs @ s @ 0 # rest) (Some (length xs)) =
       Some (xs @ map ascii_to_lower_case s @ 0 # rest) \<and>
     Option.bind (ascii_to_lower_case_cstr (xs @ s @ 0 # rest) (Some (length xs)))
         (\<lambda>m. ascii_to_upper_case_cstr m (Some (length xs))) =
       ascii_to_upper_case_cstr (xs @ s @ 0 # rest) (Some (length xs))"
proof -
  have "is_cstr_content (map ascii_to_lower_case s)"
    using assms by (auto simp: is_cstr_content_def)
  then show ?thesis
    using map_cstr_in_place_spec [OF assms, of ascii_to_upper_case]
      map_cstr_in_place_spec [OF assms, of ascii_to_lower_case]
      map_cstr_in_place_spec [of "map ascii_to_lower_case s" ascii_to_upper_case]
    by (simp add: ascii_to_upper_case_cstr_def ascii_to_lower_case_cstr_def ascii_case_algebra o_def)
qed

theorem case_mapping_in_place_witness:
  "ascii_to_upper_case_cstr ([1] @ lit ''a_B'' @ 0 # [7]) (Some (length [1::byte])) =
     Some ([1] @ map ascii_to_upper_case (lit ''a_B'') @ 0 # [7])"
  using case_mapping_in_place [of "lit ''a_B''" "[1]" "[7]"] by (simp add: is_cstr_content_def)

end
