(* ===== verification/Scan_Numbers.thy ===== *)
theory Scan_Numbers
  imports Strutil
begin

text \<open>
  \<open>core/text/scan_numbers.h\<close>, \<open>scan_numbers.cpp\<close> and \<open>numeric_formats.h\<close>: the scanners of hexadecimal,
  binary, octal and decimal digit sequences with \<open>_\<close> as a delimiter, and \<open>scan_number\<close>, which detects
  the format of a numeric literal.

  The digit scanners are four instances of one loop; the locale \<open>digit_scanner\<close> is the contract they
  share (a base and the value of a digit) and is interpreted for each of them. \<open>double\<close> arithmetic and
  \<open>pow\<close> are parameters: a record of operations, so that nothing is assumed about rounding.
\<close>

section \<open>Digit scanners\<close>

text \<open>\<open>step c n\<close> is the body of the loop on the character \<open>c\<close>: the new value of the out parameter, or
  \<^term>\<open>None\<close> for \<open>break\<close>.\<close>

function scan_digits :: "(byte \<Rightarrow> 'a \<Rightarrow> 'a option) \<Rightarrow> buffer \<Rightarrow> nat \<Rightarrow> nat \<Rightarrow> 'a \<Rightarrow> (nat \<times> 'a) option" where
  "scan_digits step m p e n =
     (if p < e
      then do {
        c \<leftarrow> rd m p;
        (case step c n of None \<Rightarrow> Some (p, n) | Some n' \<Rightarrow> scan_digits step m (Suc p) e n')
      }
      else Some (p, n))"
  by pat_completeness auto
termination
  by (relation "measure (\<lambda>(step, m, p, e, n). e - p)") auto

declare scan_digits.simps [simp del]

definition in_chars :: "byte \<Rightarrow> byte \<Rightarrow> byte \<Rightarrow> bool" where [byte_defs]:
  "in_chars lo hi c \<longleftrightarrow> lo \<le>s c \<and> c \<le>s hi"

definition hex_step :: "byte \<Rightarrow> u64 \<Rightarrow> u64 option" where
  "hex_step c n =
     (if in_chars (asc CHR ''0'') (asc CHR ''9'') c then Some (n * 16 + scast (c - asc CHR ''0''))
      else if in_chars (asc CHR ''a'') (asc CHR ''f'') c
      then Some (n * 16 + 10 + scast (c - asc CHR ''a''))
      else if in_chars (asc CHR ''A'') (asc CHR ''F'') c
      then Some (n * 16 + 10 + scast (c - asc CHR ''A''))
      else if c \<noteq> asc CHR ''_'' then None else Some n)"

definition binary_step :: "byte \<Rightarrow> u64 \<Rightarrow> u64 option" where
  "binary_step c n =
     (if c = asc CHR ''0'' then Some (push_bit 1 n)
      else if c = asc CHR ''1'' then Some (push_bit 1 n OR 1)
      else if c \<noteq> asc CHR ''_'' then None else Some n)"

definition octal_step :: "byte \<Rightarrow> u64 \<Rightarrow> u64 option" where
  "octal_step c n =
     (if in_chars (asc CHR ''0'') (asc CHR ''7'') c then Some (n * 8 + scast (c - asc CHR ''0''))
      else if c \<noteq> asc CHR ''_'' then None else Some n)"

definition decimal_step :: "byte \<Rightarrow> u64 \<Rightarrow> u64 option" where
  "decimal_step c n =
     (if in_chars (asc CHR ''0'') (asc CHR ''9'') c then Some (n * 10 + scast (c - asc CHR ''0''))
      else if c \<noteq> asc CHR ''_'' then None else Some n)"

definition scan_hex_digits :: "buffer \<Rightarrow> nat \<Rightarrow> nat \<Rightarrow> (nat \<times> u64) option" where
  "scan_hex_digits m p e = scan_digits hex_step m p e 0"

definition scan_binary_digits :: "buffer \<Rightarrow> nat \<Rightarrow> nat \<Rightarrow> (nat \<times> u64) option" where
  "scan_binary_digits m p e = scan_digits binary_step m p e 0"

definition scan_octal_digits :: "buffer \<Rightarrow> nat \<Rightarrow> nat \<Rightarrow> (nat \<times> u64) option" where
  "scan_octal_digits m p e = scan_digits octal_step m p e 0"

definition scan_decimal_digits_pre_radix :: "buffer \<Rightarrow> nat \<Rightarrow> nat \<Rightarrow> (nat \<times> u64) option" where
  "scan_decimal_digits_pre_radix m p e = scan_digits decimal_step m p e 0"

section \<open>Numbers\<close>

text \<open>The operations on \<open>double\<close> that the scanners use.\<close>

record 'd double_ops =
  d_of_int :: "int \<Rightarrow> 'd"
  d_add :: "'d \<Rightarrow> 'd \<Rightarrow> 'd"
  d_mul :: "'d \<Rightarrow> 'd \<Rightarrow> 'd"
  d_div :: "'d \<Rightarrow> 'd \<Rightarrow> 'd"
  d_pow :: "'d \<Rightarrow> 'd \<Rightarrow> 'd"

text \<open>Truncating integer arithmetic, an instance that evaluates.\<close>

definition int_ops :: "int double_ops" where
  "int_ops = \<lparr> d_of_int = id, d_add = (+), d_mul = (*), d_div = (div), d_pow = (\<lambda>x y. x ^ nat y) \<rparr>"

text \<open>The state is the pair of \<open>n\<close> and \<open>divisor\<close>.\<close>

definition post_radix_step :: "'d double_ops \<Rightarrow> byte \<Rightarrow> 'd \<times> 'd \<Rightarrow> ('d \<times> 'd) option" where
  "post_radix_step fp c s =
     (case s of (n, divisor) \<Rightarrow>
       if in_chars (asc CHR ''0'') (asc CHR ''9'') c
       then Some (d_add fp n (d_div fp (d_of_int fp (sint c - sint (asc CHR ''0''))) divisor),
                  d_mul fp divisor (d_of_int fp 10))
       else if c \<noteq> asc CHR ''_'' then None else Some (n, divisor))"

definition scan_decimal_digits_post_radix ::
  "'d double_ops \<Rightarrow> buffer \<Rightarrow> nat \<Rightarrow> nat \<Rightarrow> (nat \<times> 'd) option" where
  "scan_decimal_digits_post_radix fp m p e =
     map_option (\<lambda>(q, n, divisor). (q, n))
       (scan_digits (post_radix_step fp) m p e (d_of_int fp 0, d_of_int fp 10))"

text \<open>The result is the returned pointer, \<open>negative\<close> and \<open>n\<close>.\<close>

definition scan_decimal_number ::
  "buffer \<Rightarrow> nat option \<Rightarrow> nat \<Rightarrow> (nat option \<times> bool \<times> u64) option" where
  "scan_decimal_number m ptr e =
     (case ptr of
        None \<Rightarrow> Some (None, False, 0)
      | Some p \<Rightarrow>
          if p < e
          then do {
            c \<leftarrow> rd m p;
            (q, n) \<leftarrow> scan_decimal_digits_pre_radix m
               (if c = asc CHR ''+'' \<or> c = asc CHR ''-'' then Suc p else p) e;
            Some (Some q, c = asc CHR ''-'', n)
          }
          else Some (Some p, False, 0))"

text \<open>The bit mask \<open>numeric_formats\<close>.\<close>

definition nf_decimal :: u32 where "nf_decimal = 1"
definition nf_octal :: u32 where "nf_octal = 2"
definition nf_hex :: u32 where "nf_hex = 4"
definition nf_binary :: u32 where "nf_binary = 8"
definition nf_floating_point_only :: u32 where "nf_floating_point_only = 16"
definition nf_floating_point :: u32 where "nf_floating_point = 16 OR 1"
definition nf_all :: u32 where "nf_all = 16 OR 8 OR 4 OR 2 OR 1"

lemmas nf_defs = nf_decimal_def nf_octal_def nf_hex_def nf_binary_def nf_floating_point_only_def
  nf_floating_point_def nf_all_def

text \<open>The union of \<open>number_info\<close>.\<close>

datatype 'd number_value = whole_number u64 | floating_point 'd

record 'd number_info =
  ni_format :: u32
  ni_value :: "'d number_value"
  ni_negative :: bool

text \<open>The literals with a prefix: the position after the digits, the value and the format, or no such
  literal.\<close>

definition scan_prefixed_number :: "buffer \<Rightarrow> nat \<Rightarrow> nat \<Rightarrow> (nat \<times> u64 \<times> u32) option option" where
  "scan_prefixed_number m p e =
     (if p + 2 < e
      then do {
        c \<leftarrow> rd m (p + 1);
        if c = asc CHR ''x'' \<or> c = asc CHR ''X''
        then map_option (\<lambda>(q, n). Some (q, n, nf_hex)) (scan_hex_digits m (p + 2) e)
        else if c = asc CHR ''b'' \<or> c = asc CHR ''B''
        then map_option (\<lambda>(q, n). Some (q, n, nf_binary)) (scan_binary_digits m (p + 2) e)
        else if in_chars (asc CHR ''0'') (asc CHR ''7'') c
        then map_option (\<lambda>(q, n). Some (q, n, nf_octal)) (scan_octal_digits m (p + 2) e)
        else Some None
      }
      else Some None)"

text \<open>The part after the whole number: fraction and exponent. The result is the position and the
  floating point value, if the number turned out to be one.\<close>

definition scan_fraction_and_exponent ::
  "'d double_ops \<Rightarrow> buffer \<Rightarrow> nat \<Rightarrow> nat \<Rightarrow> bool \<Rightarrow> bool \<Rightarrow> u64 \<Rightarrow> (nat \<times> 'd option) option" where
  "scan_fraction_and_exponent fp m p e negative dot whole = do {
     radix \<leftarrow> (if \<not> dot \<and> p < e then map_option (\<lambda>c. c = asc CHR ''.'') (rd m p) else Some False);
     (p, significand) \<leftarrow>
       (if radix then scan_decimal_digits_post_radix fp m (Suc p) e else Some (p, d_of_int fp 0));
     let significand = (if dot \<or> radix then d_add fp significand (d_of_int fp (uint whole))
                        else significand);
     has_exp \<leftarrow> (if p + 1 < e
                then map_option (\<lambda>c. c = asc CHR ''e'' \<or> c = asc CHR ''E'') (rd m p) else Some False);
     (if has_exp
      then do {
        (q, negative_exponent, exponent) \<leftarrow> scan_decimal_number m (Some (Suc p)) e;
        let exp = (if negative_exponent
                   then d_mul fp (d_of_int fp (uint exponent)) (d_of_int fp (- 1))
                   else d_of_int fp (uint exponent));
        let v = d_mul fp significand (d_pow fp (d_of_int fp 10) exp);
        Some (the q, Some (if negative then d_mul fp v (d_of_int fp (- 1)) else v))
      }
      else Some (p, if dot \<or> radix then Some significand else None))
   }"

definition scan_number ::
  "'d double_ops \<Rightarrow> buffer \<Rightarrow> nat \<Rightarrow> nat \<Rightarrow> u32 \<Rightarrow> (nat \<times> 'd number_info) option" where
  "scan_number fp m text e allowed_formats = do {
     c0 \<leftarrow> rd m text;
     let negative = (c0 = asc CHR ''-'');
     let p = (if c0 = asc CHR ''+'' \<or> c0 = asc CHR ''-'' then Suc text else text);
     c \<leftarrow> rd m p;
     let dot = (c = asc CHR ''.'');
     prefixed \<leftarrow> (if \<not> dot \<and> c = asc CHR ''0'' then scan_prefixed_number m p e else Some None);
     (case prefixed of
        Some (q, n, fmt) \<Rightarrow>
          Some (if fmt AND allowed_formats \<noteq> 0 then q else text,
                \<lparr> ni_format = fmt, ni_value = whole_number n, ni_negative = negative \<rparr>)
      | None \<Rightarrow> do {
          (p, whole) \<leftarrow> (if dot then Some (p, 0) else scan_decimal_digits_pre_radix m p e);
          (p, fl) \<leftarrow> scan_fraction_and_exponent fp m p e negative dot whole;
          let fmt = (case fl of None \<Rightarrow> nf_decimal | Some _ \<Rightarrow> nf_floating_point_only);
          let v = (case fl of None \<Rightarrow> whole_number whole | Some d \<Rightarrow> floating_point d);
          Some (if fmt AND allowed_formats \<noteq> 0 then p else text,
                \<lparr> ni_format = fmt, ni_value = v, ni_negative = negative \<rparr>)
        })
   }"

section \<open>Reference definitions\<close>

text \<open>The digits of a base: the value of a digit character.\<close>

definition hex_digit :: "byte \<Rightarrow> nat option" where
  "hex_digit c = (if 0 \<le> get_ascii_hex_value c then Some (nat (get_ascii_hex_value c)) else None)"

definition small_digit :: "nat \<Rightarrow> byte \<Rightarrow> nat option" where
  "small_digit base c =
     (if 0 \<le> get_ascii_digit_value c \<and> get_ascii_digit_value c < int base
      then Some (nat (get_ascii_digit_value c)) else None)"

definition digits_value :: "nat \<Rightarrow> nat list \<Rightarrow> nat" where
  "digits_value base ds = foldl (\<lambda>n d. n * base + d) 0 ds"

text \<open>The longest prefix of digits and delimiters.\<close>

definition digit_run :: "(byte \<Rightarrow> nat option) \<Rightarrow> byte list \<Rightarrow> byte list" where
  "digit_run digit xs = takeWhile (\<lambda>c. digit c \<noteq> None \<or> c = asc CHR ''_'') xs"

definition run_value :: "(byte \<Rightarrow> nat option) \<Rightarrow> nat \<Rightarrow> byte list \<Rightarrow> nat" where
  "run_value digit base xs = digits_value base (List.map_filter digit (digit_run digit xs))"

section \<open>The contract of the digit scanners\<close>

locale digit_scanner =
  fixes step :: "byte \<Rightarrow> u64 \<Rightarrow> u64 option" and base :: nat and digit :: "byte \<Rightarrow> nat option"
  assumes step_law: "step c n = (case digit c of
      Some d \<Rightarrow> Some (n * of_nat base + of_nat d)
    | None \<Rightarrow> if c = asc CHR ''_'' then Some n else None)"
begin

lemma scan_digits_acc:
  assumes "p \<le> e" and "e \<le> length m"
  shows "scan_digits step m p e (of_nat a) =
     Some (p + length (digit_run digit (slice m p e)),
           of_nat (foldl (\<lambda>n d. n * base + d) a (List.map_filter digit (digit_run digit (slice m p e)))))"
  using assms
proof (induction "e - p" arbitrary: p a)
  case 0
  then show ?case by (simp add: scan_digits.simps digit_run_def List.map_filter_simps)
next
  case (Suc k)
  then have less: "p < e" and IH: "scan_digits step m (Suc p) e (of_nat b) =
     Some (Suc p + length (digit_run digit (slice m (Suc p) e)),
       of_nat (foldl (\<lambda>n d. n * base + d) b
         (List.map_filter digit (digit_run digit (slice m (Suc p) e)))))" for b
    by simp_all
  from less Suc.prems have sl: "slice m p e = m ! p # slice m (Suc p) e" and rd: "rd m p = Some (m ! p)"
    by (simp_all add: slice_Cons)
  show ?case
  proof (cases "digit (m ! p)")
    case (Some d)
    with IH [of "a * base + d"] sl rd less show ?thesis
      by (simp add: scan_digits.simps [of step m p] step_law digit_run_def List.map_filter_simps)
  next
    case None
    with IH [of a] sl rd less show ?thesis
      by (auto simp: scan_digits.simps [of step m p] step_law digit_run_def List.map_filter_simps)
  qed
qed

text \<open>The scanner stops at the first character that is neither digit nor delimiter, and its value is
  the value of the digits modulo \<open>2 ^ 64\<close>.\<close>

lemma scan_digits_value:
  assumes "p \<le> e" and "e \<le> length m"
  shows "scan_digits step m p e 0 =
     Some (p + length (digit_run digit (slice m p e)), of_nat (run_value digit base (slice m p e)))"
  using scan_digits_acc [OF assms, of 0] by (simp add: run_value_def digits_value_def)

end

lemma scast_digit: "sint (b :: byte) \<le> sint c \<Longrightarrow> 0 \<le> sint b \<Longrightarrow>
  (scast (c - b) :: u64) = of_nat (nat (sint c - sint b))"
proof -
  assume *: "sint b \<le> sint c" "0 \<le> sint b"
  then have "sint (c - b) = sint c - sint b"
    using sint_byte_bounds [of c] by (intro sint_byte_diff) arith+
  with * show ?thesis by (simp only: scast_eq of_nat_nat diff_ge_0_iff_ge)
qed

interpretation hex_scan: digit_scanner hex_step 16 hex_digit
proof
  fix c n
  show "hex_step c n = (case hex_digit c of Some d \<Rightarrow> Some (n * of_nat 16 + of_nat d)
    | None \<Rightarrow> if c = asc CHR ''_'' then Some n else None)"
    using scast_digit [of "asc CHR ''0''" c] scast_digit [of "asc CHR ''a''" c]
      scast_digit [of "asc CHR ''A''" c]
    by (auto simp: hex_step_def hex_digit_def get_ascii_hex_value_def in_chars_def word_sle_eq)
qed

interpretation octal_scan: digit_scanner octal_step 8 "small_digit 8"
  using scast_digit [of "asc CHR ''0''"]
  by unfold_locales
    (auto simp: octal_step_def small_digit_def get_ascii_digit_value_def in_chars_def word_sle_eq)

interpretation decimal_scan: digit_scanner decimal_step 10 "small_digit 10"
  using scast_digit [of "asc CHR ''0''"]
  by unfold_locales
    (auto simp: decimal_step_def small_digit_def get_ascii_digit_value_def in_chars_def word_sle_eq)

lemma double_or_1: "n * 2 OR 1 = n * 2 + (1 :: u64)"
  unfolding or_one_eq by simp

lemma small_digit_2: "small_digit 2 c = (if c = asc CHR ''0'' then Some 0
  else if c = asc CHR ''1'' then Some 1 else None)"
proof (cases "c = asc CHR ''0'' \<or> c = asc CHR ''1''")
  case True
  then show ?thesis by (auto simp: small_digit_def get_ascii_digit_value_def word_sle_eq)
next
  case False
  then have "sint c \<noteq> 48" "sint c \<noteq> 49"
    using sint_inject [of c "asc CHR ''0''"] sint_inject [of c "asc CHR ''1''"] by simp_all
  then have "\<not> (0 \<le> get_ascii_digit_value c \<and> get_ascii_digit_value c < int 2)"
    by (simp add: get_ascii_digit_value_def word_sle_eq)
  with False show ?thesis by (simp only: small_digit_def if_False de_Morgan_disj)
qed

interpretation binary_scan: digit_scanner binary_step 2 "small_digit 2"
  by unfold_locales (auto simp: binary_step_def small_digit_2 double_or_1)

lemmas scan_digits_values =
  hex_scan.scan_digits_value octal_scan.scan_digits_value decimal_scan.scan_digits_value
  binary_scan.scan_digits_value

lemmas scan_number_defs = scan_hex_digits_def scan_octal_digits_def scan_binary_digits_def
  scan_decimal_digits_pre_radix_def

lemma digit_run_le: "e \<le> length m \<Longrightarrow> length (digit_run digit (slice m p e)) \<le> e - p"
  unfolding digit_run_def by (rule length_takeWhile_slice_le)

lemma scan_digits_in_range:
  assumes "p \<le> e" and "e \<le> length m"
  shows "\<exists>q s'. scan_digits step m p e s = Some (q, s') \<and> p \<le> q \<and> q \<le> e"
  using assms
proof (induction "e - p" arbitrary: p s)
  case 0
  then show ?case by (simp add: scan_digits.simps)
next
  case (Suc k)
  then have p: "rd m p = Some (m ! p)" "p < e" by simp_all
  show ?case
  proof (cases "step (m ! p) s")
    case None
    with p show ?thesis by (simp add: scan_digits.simps [of step m p])
  next
    case (Some s1)
    have "k = e - Suc p" using Suc.hyps(2) by simp
    from Suc.hyps(1) [OF this, of s1] Suc.prems p
    obtain q s' where "scan_digits step m (Suc p) e s1 = Some (q, s')" "Suc p \<le> q" "q \<le> e" by auto
    with Some p show ?thesis by (simp add: scan_digits.simps [of step m p])
  qed
qed

lemma scan_decimal_number_in_range:
  assumes "p \<le> e" and "e \<le> length m"
  shows "\<exists>q neg n. scan_decimal_number m (Some p) e = Some (Some q, neg, n) \<and> p \<le> q \<and> q \<le> e"
proof (cases "p < e")
  case True
  let ?p = "if m ! p = asc CHR ''+'' \<or> m ! p = asc CHR ''-'' then Suc p else p"
  from True assms have "?p \<le> e" "p \<le> ?p" by auto
  with scan_digits_in_range [of ?p e m decimal_step 0] assms(2)
  obtain q n where "scan_digits decimal_step m ?p e 0 = Some (q, n)" "p \<le> q" "q \<le> e"
    by (metis le_trans)
  with True assms show ?thesis
    by (simp add: scan_decimal_number_def scan_decimal_digits_pre_radix_def split: if_splits)
next
  case False
  with assms show ?thesis by (auto simp: scan_decimal_number_def)
qed

lemma scan_decimal_digits_post_radix_in_range:
  assumes "p \<le> e" and "e \<le> length m"
  shows "\<exists>q d. scan_decimal_digits_post_radix fp m p e = Some (q, d) \<and> p \<le> q \<and> q \<le> e"
  using scan_digits_in_range [OF assms, of "post_radix_step fp" "(d_of_int fp 0, d_of_int fp 10)"]
  by (auto simp: scan_decimal_digits_post_radix_def)

lemma scan_prefixed_number_in_range:
  assumes "p + 2 < e" and "e \<le> length m"
  shows "\<exists>pref. scan_prefixed_number m p e = Some pref \<and>
    (\<forall>q n fmt. pref = Some (q, n, fmt) \<longrightarrow> p \<le> q \<and> q \<le> e \<and> fmt \<in> {nf_hex, nf_binary, nf_octal})"
proof -
  have at: "rd m (p + 1) = Some (m ! (p + 1))" using assms by simp
  obtain qh nh where h: "scan_hex_digits m (p + 2) e = Some (qh, nh)" "p \<le> qh" "qh \<le> e"
    using scan_digits_in_range [of "p + 2" e m hex_step 0] assms by (auto simp: scan_number_defs)
  obtain qb nb where b: "scan_binary_digits m (p + 2) e = Some (qb, nb)" "p \<le> qb" "qb \<le> e"
    using scan_digits_in_range [of "p + 2" e m binary_step 0] assms by (auto simp: scan_number_defs)
  obtain qo no where o: "scan_octal_digits m (p + 2) e = Some (qo, no)" "p \<le> qo" "qo \<le> e"
    using scan_digits_in_range [of "p + 2" e m octal_step 0] assms by (auto simp: scan_number_defs)
  show ?thesis
    unfolding scan_prefixed_number_def using assms(1) at h b o by simp
qed

lemma scan_fraction_and_exponent_in_range:
  assumes "p \<le> e" and "e \<le> length m"
  shows "\<exists>q fl. scan_fraction_and_exponent fp m p e neg dot whole = Some (q, fl) \<and> p \<le> q \<and> q \<le> e"
proof -
  define radix where "radix \<longleftrightarrow> \<not> dot \<and> p < e \<and> m ! p = asc CHR ''.''"
  have r: "(if \<not> dot \<and> p < e then map_option (\<lambda>c. c = asc CHR ''.'') (rd m p) else Some False) = Some radix"
    using assms by (auto simp: radix_def)
  have "\<exists>p1 sg. (if radix then scan_decimal_digits_post_radix fp m (Suc p) e
      else Some (p, d_of_int fp 0)) = Some (p1, sg) \<and> p \<le> p1 \<and> p1 \<le> e"
    using scan_decimal_digits_post_radix_in_range [of "Suc p" e m fp] assms
    by (auto simp: radix_def)
  then obtain p1 sg where p1: "(if radix then scan_decimal_digits_post_radix fp m (Suc p) e
      else Some (p, d_of_int fp 0)) = Some (p1, sg)" "p \<le> p1" "p1 \<le> e" by blast
  define hx where "hx \<longleftrightarrow> p1 + 1 < e \<and> (m ! p1 = asc CHR ''e'' \<or> m ! p1 = asc CHR ''E'')"
  have h: "(if p1 + 1 < e then map_option (\<lambda>c. c = asc CHR ''e'' \<or> c = asc CHR ''E'') (rd m p1)
      else Some False) = Some hx"
    using assms p1 by (auto simp: hx_def)
  show ?thesis
  proof (cases hx)
    case True
    then have "Suc p1 \<le> e" by (simp add: hx_def)
    from scan_decimal_number_in_range [OF this assms(2)]
    obtain q neg n where "scan_decimal_number m (Some (Suc p1)) e = Some (Some q, neg, n)" "p1 \<le> q" "q \<le> e"
      by (auto dest: Suc_leD)
    with True p1(2) show ?thesis
      unfolding scan_fraction_and_exponent_def r bind.bind_lunit p1(1) prod.case Let_def h by simp
  next
    case False
    with p1 show ?thesis
      unfolding scan_fraction_and_exponent_def r bind.bind_lunit p1(1) prod.case Let_def h by simp
  qed
qed

section \<open>Properties\<close>

text \<open>C20: each digit scanner stops at the first character of the range that is neither a digit of its
  base nor \<open>_\<close>, and returns the value of the digits, delimiters ignored, modulo \<open>2 ^ 64\<close>.\<close>

theorem digit_scanners_value:
  assumes "p \<le> e" and "e \<le> length m"
  shows "scan_hex_digits m p e = Some (p + length (digit_run hex_digit (slice m p e)),
       of_nat (run_value hex_digit 16 (slice m p e))) \<and>
     scan_binary_digits m p e = Some (p + length (digit_run (small_digit 2) (slice m p e)),
       of_nat (run_value (small_digit 2) 2 (slice m p e))) \<and>
     scan_octal_digits m p e = Some (p + length (digit_run (small_digit 8) (slice m p e)),
       of_nat (run_value (small_digit 8) 8 (slice m p e))) \<and>
     scan_decimal_digits_pre_radix m p e = Some (p + length (digit_run (small_digit 10) (slice m p e)),
       of_nat (run_value (small_digit 10) 10 (slice m p e)))"
  unfolding scan_number_defs using scan_digits_values [OF assms] by blast

theorem digit_scanners_value_witness:
  "scan_hex_digits (lit ''1_fG'') 0 4 = Some (0 + length (digit_run hex_digit (slice (lit ''1_fG'') 0 4)),
     of_nat (run_value hex_digit 16 (slice (lit ''1_fG'') 0 4)))"
  using digit_scanners_value [of 0 4 "lit ''1_fG''"] by simp

text \<open>C21: on a nonempty range with one readable byte behind it, \<open>scan_number\<close> returns, reads nothing
  else, and gives a position inside the range; the format it reports is exactly one of the five formats,
  and the position is the start whenever that format is not allowed.\<close>

theorem scan_number_in_range:
  assumes "text < e" and "e < length m"
  shows "\<exists>q info. scan_number fp m text e allowed = Some (q, info) \<and> text \<le> q \<and> q \<le> e \<and>
     ni_format info \<in> {nf_hex, nf_binary, nf_octal, nf_decimal, nf_floating_point_only} \<and>
     (ni_format info AND allowed = 0 \<longrightarrow> q = text) \<and>
     ni_negative info = (m ! text = asc CHR ''-'')"
proof -
  let ?sign = "m ! text = asc CHR ''+'' \<or> m ! text = asc CHR ''-''"
  define p where "p = (if ?sign then Suc text else text)"
  have p: "text \<le> p" "p \<le> e" "p < length m" using assms by (auto simp: p_def)
  let ?dot = "m ! p = asc CHR ''.''"
  have "\<exists>pref. (if \<not> ?dot \<and> m ! p = asc CHR ''0'' then scan_prefixed_number m p e
      else Some None) = Some pref \<and>
    (\<forall>q n fmt. pref = Some (q, n, fmt) \<longrightarrow> p \<le> q \<and> q \<le> e \<and> fmt \<in> {nf_hex, nf_binary, nf_octal})"
  proof (cases "p + 2 < e")
    case True
    with scan_prefixed_number_in_range [of p e m] assms show ?thesis by auto
  next
    case False
    then show ?thesis by (auto simp: scan_prefixed_number_def)
  qed
  then obtain pref where pref: "(if \<not> ?dot \<and> m ! p = asc CHR ''0'' then scan_prefixed_number m p e
      else Some None) = Some pref"
    and inr: "\<And>q n fmt. pref = Some (q, n, fmt) \<Longrightarrow> p \<le> q \<and> q \<le> e \<and> fmt \<in> {nf_hex, nf_binary, nf_octal}"
    by blast
  obtain p1 whole where p1: "(if ?dot then Some (p, 0) else scan_decimal_digits_pre_radix m p e) = Some (p1, whole)"
      "p \<le> p1" "p1 \<le> e"
    using scan_digits_in_range [of p e m decimal_step 0] p assms
    by (cases ?dot) (auto simp: scan_decimal_digits_pre_radix_def)
  obtain q fl where q: "scan_fraction_and_exponent fp m p1 e (m ! text = asc CHR ''-'') ?dot whole = Some (q, fl)"
      "p1 \<le> q" "q \<le> e"
    using scan_fraction_and_exponent_in_range [OF p1(3)] assms by (metis less_imp_le)
  have rds: "rd m text = Some (m ! text)" "rd m p = Some (m ! p)" using assms p by simp_all
  have eq: "scan_number fp m text e allowed =
     (case pref of
        Some (q, n, fmt) \<Rightarrow> Some (if fmt AND allowed \<noteq> 0 then q else text,
          \<lparr> ni_format = fmt, ni_value = whole_number n, ni_negative = (m ! text = asc CHR ''-'') \<rparr>)
      | None \<Rightarrow>
          let fmt = (case fl of None \<Rightarrow> nf_decimal | Some _ \<Rightarrow> nf_floating_point_only);
              v = (case fl of None \<Rightarrow> whole_number whole | Some d \<Rightarrow> floating_point d)
          in Some (if fmt AND allowed \<noteq> 0 then q else text,
            \<lparr> ni_format = fmt, ni_value = v, ni_negative = (m ! text = asc CHR ''-'') \<rparr>))"
    unfolding scan_number_def rds bind.bind_lunit Let_def p_def [symmetric] pref p1(1) prod.case q(1) ..
  show ?thesis
  proof (cases pref)
    case None
    with eq p p1 q show ?thesis by (auto simp: Let_def split: option.splits)
  next
    case (Some a)
    with eq p inr show ?thesis by (cases a) auto
  qed
qed

theorem scan_number_in_range_witness:
  "\<exists>q info. scan_number int_ops (cstr (lit ''-0x1F'')) 0 5 nf_all = Some (q, info) \<and> q \<le> 5"
  using scan_number_in_range [of 0 5 "cstr (lit ''-0x1F'')" int_ops nf_all] by (auto simp: cstr_def)

text \<open>An octal literal loses its first digit after the leading 0, a negative number with a fraction
  loses its sign, and a number with an exponent and no fraction has significand 0, whatever the
  arithmetic on \<open>double\<close>.\<close>

theorem scan_number_divergences:
  "scan_number fp (cstr (lit ''0777'')) 0 4 nf_all =
     Some (4, \<lparr> ni_format = nf_octal, ni_value = whole_number 63, ni_negative = False \<rparr>) \<and>
   map_option (ni_value \<circ> snd) (scan_number fp (cstr (lit ''-3.5'')) 0 4 nf_all) =
     map_option (ni_value \<circ> snd) (scan_number fp (cstr (lit ''3.5'')) 0 3 nf_all) \<and>
   map_option (ni_value \<circ> snd) (scan_number fp (cstr (lit ''6e3'')) 0 3 nf_all) =
     Some (floating_point (d_mul fp (d_of_int fp 0) (d_pow fp (d_of_int fp 10) (d_of_int fp 3))))"
proof (intro conjI)
  note evals = scan_number_def scan_prefixed_number_def scan_fraction_and_exponent_def
    scan_decimal_number_def scan_decimal_digits_post_radix_def scan_number_defs cstr_def Let_def
    scan_digits.simps octal_step_def decimal_step_def post_radix_step_def in_chars_def word_sle_eq nf_defs
  show "scan_number fp (cstr (lit ''0777'')) 0 4 nf_all =
     Some (4, \<lparr> ni_format = nf_octal, ni_value = whole_number 63, ni_negative = False \<rparr>)"
    by (simp add: evals)
  show "map_option (ni_value \<circ> snd) (scan_number fp (cstr (lit ''-3.5'')) 0 4 nf_all) =
     map_option (ni_value \<circ> snd) (scan_number fp (cstr (lit ''3.5'')) 0 3 nf_all)"
    by (simp add: evals)
  show "map_option (ni_value \<circ> snd) (scan_number fp (cstr (lit ''6e3'')) 0 3 nf_all) =
     Some (floating_point (d_mul fp (d_of_int fp 0) (d_pow fp (d_of_int fp 10) (d_of_int fp 3))))"
    by (simp add: evals)
qed

end
