(* ===== verification/Unicode.thy ===== *)
theory Unicode
  imports Scan_Numbers
begin

text \<open>
  \<open>core/text/unicode.h\<close>, \<open>unicode-inline.h\<close> and \<open>unicode.cpp\<close>: classification of UTF-8 bytes, the decoder
  and encoder of single code points, the loops over null-terminated strings, and escape sequences.

  Output functions take the reference parameters \<open>buf\<close> and \<open>buf_length\<close>; they are the record
  \<open>cursor\<close> together with the memory behind \<open>buf\<close>. \<^term>\<open>None\<close> is a read or a write outside memory.
\<close>

type_synonym codepoint_t = u32

definition MAX_UNICODE_CHAR :: codepoint_t where
  "MAX_UNICODE_CHAR = 0x10FFFF"

definition UNICODE_REPLACEMENT_CHAR :: codepoint_t where
  "UNICODE_REPLACEMENT_CHAR = 0xFFFD"

section \<open>Classification\<close>

definition is_utf8_continuation_byte :: "u8 \<Rightarrow> bool" where [byte_defs]:
  "is_utf8_continuation_byte c \<longleftrightarrow> c AND 0xC0 = 0x80"

definition is_utf8_lead_byte :: "u8 \<Rightarrow> bool" where [byte_defs]:
  "is_utf8_lead_byte c \<longleftrightarrow> 0xC2 \<le> c \<and> c \<le> 0xF4"

definition predict_length_of_codepoint_from_lead_byte :: "byte \<Rightarrow> nat" where
  "predict_length_of_codepoint_from_lead_byte c =
     (if c < 0x80 then (if c \<noteq> 0 then 1 else 0)
      else if c AND 0xE0 = 0xC0 then (if 0xC2 \<le> c then 2 else 0)
      else if c AND 0xF0 = 0xE0 then 3
      else if c AND 0xF0 = 0xF0 \<and> c \<le> 0xF4 then 4
      else 0)"

definition proper_length_of_codepoint :: "codepoint_t \<Rightarrow> nat" where
  "proper_length_of_codepoint cp =
     (if cp \<le> 0x7F then 1 else if cp \<le> 0x7FF then 2 else if cp \<le> 0xFFFF then 3 else 4)"

definition is_surrogate :: "codepoint_t \<Rightarrow> bool" where
  "is_surrogate cp \<longleftrightarrow> 0xD800 \<le> cp \<and> cp \<le> 0xDFFF"

definition is_low_surrogate :: "codepoint_t \<Rightarrow> bool" where
  "is_low_surrogate cp \<longleftrightarrow> 0xDC00 \<le> cp \<and> cp \<le> 0xDFFF"

definition is_high_surrogate :: "codepoint_t \<Rightarrow> bool" where
  "is_high_surrogate cp \<longleftrightarrow> 0xD800 \<le> cp \<and> cp \<le> 0xDBFF"

section \<open>Decoding\<close>

text \<open>The macro \<open>or_continuation_byte()\<close>, expanded \<open>n\<close> times: the position and the code point, or the
  position of the offending byte.\<close>

fun continuation_bytes :: "nat \<Rightarrow> buffer \<Rightarrow> nat \<Rightarrow> codepoint_t \<Rightarrow> (nat + nat \<times> codepoint_t) option" where
  "continuation_bytes 0 m p cp = Some (Inr (p, cp))"
| "continuation_bytes (Suc n) m p cp = do {
     c \<leftarrow> rd m p;
     if \<not> is_utf8_continuation_byte c then Some (Inl p)
     else continuation_bytes n m (Suc p) (push_bit 6 cp OR ucast (c AND 0x3F))
   }"

text \<open>Leaving the function at an offending byte, and the range check after a four-byte sequence.\<close>

definition or_replacement :: "nat + nat \<times> codepoint_t \<Rightarrow> nat \<times> codepoint_t" where
  "or_replacement r = (case r of Inl q \<Rightarrow> (q, UNICODE_REPLACEMENT_CHAR) | Inr x \<Rightarrow> x)"

definition or_replacement_4 :: "nat + nat \<times> codepoint_t \<Rightarrow> nat \<times> codepoint_t" where
  "or_replacement_4 r = (case r of
     Inl q \<Rightarrow> (q, UNICODE_REPLACEMENT_CHAR)
   | Inr (q, cp) \<Rightarrow> if MAX_UNICODE_CHAR < cp then (q - 3, UNICODE_REPLACEMENT_CHAR) else (q, cp))"

definition decode_utf8 :: "buffer \<Rightarrow> nat \<Rightarrow> (nat \<times> codepoint_t) option" where
  "decode_utf8 m p = do {
     c \<leftarrow> rd m p;
     let byte_count = predict_length_of_codepoint_from_lead_byte c;
     if byte_count = 1 then Some (Suc p, scast c)
     else if byte_count = 2
     then map_option or_replacement (continuation_bytes 1 m (Suc p) (ucast (c AND 0x1F)))
     else if byte_count = 3
     then map_option or_replacement (continuation_bytes 2 m (Suc p) (ucast (c AND 0x0F)))
     else if byte_count = 4
     then map_option or_replacement_4 (continuation_bytes 3 m (Suc p) (ucast (c AND 0x07)))
     else Some (Suc p, UNICODE_REPLACEMENT_CHAR)
   }"

definition get_codepoint_from_utf8 :: "buffer \<Rightarrow> nat option \<Rightarrow> (nat option \<times> codepoint_t) option" where
  "get_codepoint_from_utf8 m utf8 =
     (case utf8 of
        None \<Rightarrow> Some (None, UNICODE_REPLACEMENT_CHAR)
      | Some p \<Rightarrow> map_option (\<lambda>(q, cp). (Some q, cp)) (decode_utf8 m p))"

definition length_of_codepoint :: "buffer \<Rightarrow> nat option \<Rightarrow> nat option" where
  "length_of_codepoint m txt =
     (case txt of
        None \<Rightarrow> Some 0
      | Some p \<Rightarrow> do {
          c \<leftarrow> rd m p;
          let n = predict_length_of_codepoint_from_lead_byte c;
          if n = 1 then Some 1
          else if n = 2
          then do { c1 \<leftarrow> rd m (p + 1); Some (if is_utf8_continuation_byte c1 then 2 else 0) }
          else if n = 3
          then do {
            c1 \<leftarrow> rd m (p + 1);
            if is_utf8_continuation_byte c1
            then do { c2 \<leftarrow> rd m (p + 2); Some (if is_utf8_continuation_byte c2 then 3 else 0) }
            else Some 0
          }
          else if n = 4
          then do {
            c1 \<leftarrow> rd m (p + 1);
            if \<not> is_utf8_continuation_byte c1 then Some 0
            else do {
              c2 \<leftarrow> rd m (p + 2);
              if \<not> is_utf8_continuation_byte c2 then Some 0
              else do {
                c3 \<leftarrow> rd m (p + 3);
                if \<not> is_utf8_continuation_byte c3 then Some 0
                else do {
                  (q, cp) \<leftarrow> decode_utf8 m p;
                  Some (if MAX_UNICODE_CHAR < cp then 0 else 4)
                }
              }
            }
          }
          else Some 0
        })"

text \<open>The loop of \<open>next_utf8_char_inline\<close> increments before it reads; it has no bound but memory.\<close>

definition next_utf8_char_inline :: "buffer \<Rightarrow> nat \<Rightarrow> nat option" where
  "next_utf8_char_inline m txt = scan_while (\<lambda>c. 0x80 \<le> c \<and> \<not> is_utf8_lead_byte c) m (Suc txt) (txt + length m + 2)"

definition next_utf8_char :: "buffer \<Rightarrow> nat \<Rightarrow> nat option" where
  "next_utf8_char m txt = next_utf8_char_inline m txt"

section \<open>Encoding\<close>

record cursor =
  mem :: buffer
  buf :: "nat option"
  buf_length :: u64

text \<open>\<open>*buf++ = c\<close> for each byte in turn.\<close>

definition put :: "byte list \<Rightarrow> cursor \<Rightarrow> cursor option" where
  "put cs s = (case buf s of
     None \<Rightarrow> None
   | Some p \<Rightarrow> map_option (\<lambda>m. s\<lparr>mem := m, buf := Some (p + length cs)\<rparr>) (wr_bytes (mem s) p cs))"

definition add_codepoint_to_utf8 :: "cursor \<Rightarrow> codepoint_t \<Rightarrow> (bool \<times> cursor) option" where
  "add_codepoint_to_utf8 s cp =
     (if buf s = None \<or> buf_length s < 1 then Some (False, s)
      else if cp < 0x80 then map_option (Pair True) (put [ucast cp] s)
      else if cp < 0x800
      then (if buf_length s < 2 then Some (False, s)
            else map_option (Pair True)
              (put [ucast (drop_bit 6 cp OR 0xC0), ucast ((cp AND 0x3F) OR 0x80)] s))
      else if cp < 0x10000
      then (if buf_length s < 3 then Some (False, s)
            else map_option (Pair True)
              (put [ucast (drop_bit 12 cp OR 0xE0), ucast ((drop_bit 6 cp AND 0x3F) OR 0x80),
                    ucast ((cp AND 0x3F) OR 0x80)] s))
      else if cp < 0x110000
      then (if buf_length s < 4 then Some (False, s)
            else map_option (Pair True)
              (put [ucast (drop_bit 18 cp OR 0xF0), ucast ((drop_bit 12 cp AND 0x3F) OR 0x80),
                    ucast ((drop_bit 6 cp AND 0x3F) OR 0x80), ucast ((cp AND 0x3F) OR 0x80)] s))
      else Some (True, s))"

text \<open>The \<open>cat_\<close> functions run the \<open>add_\<close> function with one byte less and append the terminator.\<close>

definition cat_with :: "(cursor \<Rightarrow> codepoint_t \<Rightarrow> (bool \<times> cursor) option) \<Rightarrow> cursor \<Rightarrow> codepoint_t \<Rightarrow>
    (bool \<times> cursor) option" where
  "cat_with add s cp = do {
     (ok, s') \<leftarrow> add (s\<lparr>buf_length := buf_length s - 1\<rparr>) cp;
     if ok then map_option (Pair True) (put [0] s')
     else Some (False, s'\<lparr>buf_length := buf_length s\<rparr>)
   }"

definition cat_codepoint_to_utf8 :: "cursor \<Rightarrow> codepoint_t \<Rightarrow> (bool \<times> cursor) option" where
  "cat_codepoint_to_utf8 s cp =
     (if buf_length s \<noteq> 0 then cat_with add_codepoint_to_utf8 s cp else Some (False, s))"

section \<open>Loops over strings\<close>

lemma continuation_bytes_advance:
  "continuation_bytes n m p cp = Some r \<Longrightarrow>
     (case r of Inl q \<Rightarrow> p \<le> q \<and> q < p + n | Inr (q, cp') \<Rightarrow> q = p + n)"
proof (induction n m p cp rule: continuation_bytes.induct)
  case (1 m p cp)
  then show ?case by auto
next
  case (2 n m p cp)
  from "2.prems" obtain c where c: "rd m p = Some c" by (auto simp: bind_eq_Some_conv)
  show ?case
  proof (cases "is_utf8_continuation_byte c")
    case True
    with c "2.prems" "2.IH" [of c] show ?thesis by (auto split: sum.splits)
  next
    case False
    with c "2.prems" show ?thesis by auto
  qed
qed

lemma or_replacement_D: "or_replacement r = (q, cp) \<Longrightarrow>
    r = Inr (q, cp) \<or> r = Inl q \<and> cp = UNICODE_REPLACEMENT_CHAR"
  by (auto simp: or_replacement_def split: sum.splits)

lemma or_replacement_4_D: "or_replacement_4 r = (q, cp) \<Longrightarrow>
    r = Inr (q, cp) \<and> cp \<le> MAX_UNICODE_CHAR \<or> r = Inl q \<and> cp = UNICODE_REPLACEMENT_CHAR \<or>
    (\<exists>q' cp'. r = Inr (q', cp') \<and> q = q' - 3 \<and> cp = UNICODE_REPLACEMENT_CHAR)"
  by (auto simp: or_replacement_4_def not_less split: sum.splits if_splits)

text \<open>The decoder always moves forward, by at most four bytes.\<close>

lemma decode_utf8_advance: "decode_utf8 m p = Some (q, cp) \<Longrightarrow> p < q \<and> q \<le> p + 4"
  by (auto simp: decode_utf8_def bind_eq_Some_conv Let_def numeral_eq_Suc
      dest!: continuation_bytes_advance or_replacement_D or_replacement_4_D split: if_splits)

function count_codepoints_in_utf8 :: "buffer \<Rightarrow> nat \<Rightarrow> nat \<Rightarrow> nat option" where
  "count_codepoints_in_utf8 m utf8 e =
     (if utf8 < e
      then do {
        (q, cp) \<leftarrow> decode_utf8 m utf8;
        map_option Suc (count_codepoints_in_utf8 m q e)
      }
      else Some 0)"
  by pat_completeness auto
termination
  by (relation "measure (\<lambda>(m, p, e). e - p)") (auto dest!: decode_utf8_advance)

text \<open>The search up to the terminator, and its overload with an end pointer. The outer option is the
  memory error, the inner one the null result.\<close>

function find_codepoint_loop :: "buffer \<Rightarrow> nat \<Rightarrow> codepoint_t \<Rightarrow> nat option option" where
  "find_codepoint_loop m utf8 cp = do {
     c \<leftarrow> rd m utf8;
     if c = 0 then Some None
     else do {
       (q, found) \<leftarrow> decode_utf8 m utf8;
       if cp = found then Some (Some utf8) else find_codepoint_loop m q cp
     }
   }"
  by pat_completeness auto
termination
  by (relation "measure (\<lambda>(m, p, cp). length m - p)")
    (auto simp: rd_eq_Some_iff dest!: decode_utf8_advance)

definition find_codepoint_in_utf8 :: "buffer \<Rightarrow> nat option \<Rightarrow> codepoint_t \<Rightarrow> nat option option" where
  "find_codepoint_in_utf8 m utf8 cp =
     (case utf8 of None \<Rightarrow> Some None | Some p \<Rightarrow> find_codepoint_loop m p cp)"

function find_codepoint_range_loop :: "buffer \<Rightarrow> nat \<Rightarrow> nat \<Rightarrow> codepoint_t \<Rightarrow> nat option option" where
  "find_codepoint_range_loop m utf8 e cp =
     (if e \<le> utf8 then Some None
      else do {
        (q, found) \<leftarrow> decode_utf8 m utf8;
        if cp = found then Some (Some utf8) else find_codepoint_range_loop m q e cp
      })"
  by pat_completeness auto
termination
  by (relation "measure (\<lambda>(m, p, e, cp). e - p)") (auto dest!: decode_utf8_advance)

definition find_codepoint_in_utf8_range ::
  "buffer \<Rightarrow> nat option \<Rightarrow> nat \<Rightarrow> codepoint_t \<Rightarrow> nat option option" where
  "find_codepoint_in_utf8_range m utf8 e cp =
     (case utf8 of None \<Rightarrow> Some None | Some p \<Rightarrow> find_codepoint_range_loop m p e cp)"

function is_well_formed_loop :: "buffer \<Rightarrow> nat \<Rightarrow> bool option" where
  "is_well_formed_loop m txt = do {
     c \<leftarrow> rd m txt;
     if c = 0 then Some True
     else do {
       (q, cp) \<leftarrow> decode_utf8 m txt;
       if cp = UNICODE_REPLACEMENT_CHAR \<and> q = txt + 1 then Some False
       else if q - txt > 1 \<and> proper_length_of_codepoint cp < q - txt then Some False
       else if is_surrogate cp then Some False
       else is_well_formed_loop m q
     }
   }"
  by pat_completeness auto
termination
  by (relation "measure (\<lambda>(m, p). length m - p)")
    (auto simp: rd_eq_Some_iff dest!: decode_utf8_advance)

definition is_well_formed_utf8 :: "buffer \<Rightarrow> nat option \<Rightarrow> bool option" where
  "is_well_formed_utf8 m txt =
     (case txt of None \<Rightarrow> Some False | Some p \<Rightarrow> is_well_formed_loop m p)"

declare count_codepoints_in_utf8.simps [simp del]
declare find_codepoint_loop.simps [simp del]
declare find_codepoint_range_loop.simps [simp del]
declare is_well_formed_loop.simps [simp del]

section \<open>Escape sequences\<close>

definition NEED_1CHAR_ESCAPES :: "byte list" where
  "NEED_1CHAR_ESCAPES = [10, 13, 9, 12, 11, 8, 7]"

definition CHARS_FOR_1CHAR_ESCAPES :: "byte list" where
  "CHARS_FOR_1CHAR_ESCAPES = lit ''nrtfvba''"

text \<open>\<open>strchr(from, c)\<close> followed by the lookup of the same position in \<open>to\<close>; both include the
  terminator.\<close>

fun translate :: "byte list \<Rightarrow> byte list \<Rightarrow> byte \<Rightarrow> byte option" where
  "translate (x # xs) (y # ys) c = (if c = x then Some y else translate xs ys c)"
| "translate _ _ c = (if c = 0 then Some 0 else None)"

definition scan_unicode_escape_sequence ::
  "buffer \<Rightarrow> nat option \<Rightarrow> (nat option \<times> codepoint_t option) option" where
  "scan_unicode_escape_sequence m sq =
     (case sq of
        None \<Rightarrow> Some (None, None)
      | Some p0 \<Rightarrow> do {
          c \<leftarrow> rd m p0;
          (if c = asc CHR 0x5C \<or> c = asc CHR 0x22 \<or> c = asc CHR 0x27
           then Some (Some (p0 + 1), Some (scast c))
           else do {
             let scan_plan = (if c = asc CHR ''x'' then Some (p0 + 1, p0 + 3, scan_hex_digits)
               else if c = asc CHR ''u'' then Some (p0 + 1, p0 + 5, scan_hex_digits)
               else if c = asc CHR ''U'' then Some (p0 + 1, p0 + 9, scan_hex_digits)
               else if asc CHR ''0'' \<le>s c \<and> c \<le>s asc CHR ''7'' then Some (p0, p0 + 3, scan_octal_digits)
               else None);
             (case scan_plan of
                None \<Rightarrow>
                  Some (Some (p0 + 1), Some
                    (case (if c \<noteq> 0 then translate CHARS_FOR_1CHAR_ESCAPES NEED_1CHAR_ESCAPES c else None) of
                       Some k \<Rightarrow> scast k
                     | None \<Rightarrow> UNICODE_REPLACEMENT_CHAR))
              | Some (p, e, scan_func) \<Rightarrow> do {
                  (q, n) \<leftarrow> scan_func m p e;
                  Some (if q = e
                        then (if e = p + 8 \<and> ucast MAX_UNICODE_CHAR < n
                              then (Some p, Some UNICODE_REPLACEMENT_CHAR)
                              else (Some q, Some (ucast n)))
                        else (Some p, Some UNICODE_REPLACEMENT_CHAR))
                })
           })
        })"

text \<open>\<open>"%.wX"\<close>: upper-case hexadecimal digits, at least \<open>w\<close> of them.\<close>

definition hex_char :: "nat \<Rightarrow> byte" where
  "hex_char d = (if d < 10 then of_nat (48 + d) else of_nat (55 + d))"

fun hex_chars :: "nat \<Rightarrow> byte list" where
  "hex_chars n = (if n < 16 then [hex_char n] else hex_chars (n div 16) @ [hex_char (n mod 16)])"

declare hex_chars.simps [simp del]

definition format_hex :: "nat \<Rightarrow> nat \<Rightarrow> byte list" where
  "format_hex w n = replicate (w - length (hex_chars n)) (asc CHR ''0'') @ hex_chars n"

text \<open>\<open>snprintf(buf, n, ...)\<close> of the given text: at most \<open>n - 1\<close> characters and the terminator.\<close>

definition snprintf :: "byte list \<Rightarrow> cursor \<Rightarrow> cursor option" where
  "snprintf text s = (case buf s of
     None \<Rightarrow> None
   | Some p \<Rightarrow>
       if buf_length s = 0 then Some s
       else map_option (\<lambda>m. s\<lparr>mem := m\<rparr>)
         (wr_bytes (mem s) p (take (unat (buf_length s) - 1) text @ [0])))"

text \<open>The macro \<open>advance_and_return_true(n)\<close>: it adds to \<open>buf_length\<close>, as the source does.\<close>

definition advance_and_return_true :: "nat \<Rightarrow> cursor \<Rightarrow> bool \<times> cursor" where
  "advance_and_return_true n s =
     (True, s\<lparr>buf := map_option (\<lambda>p. p + n) (buf s), buf_length := buf_length s + of_nat n\<rparr>)"

text \<open>\<open>memcpy\<close> and stores through \<open>buf[i]\<close> that do not move \<open>buf\<close>.\<close>

definition store :: "byte list \<Rightarrow> cursor \<Rightarrow> cursor option" where
  "store cs s = (case buf s of
     None \<Rightarrow> None
   | Some p \<Rightarrow> map_option (\<lambda>m. s\<lparr>mem := m\<rparr>) (wr_bytes (mem s) p cs))"

definition write_2byte_sequence :: "cursor \<Rightarrow> byte \<Rightarrow> (bool \<times> cursor) option" where
  "write_2byte_sequence s c =
     (if 2 \<le> buf_length s
      then map_option (advance_and_return_true 2) (store [asc CHR 0x5C, c] s)
      else Some (False, s))"

definition add_escape_sequence :: "cursor \<Rightarrow> codepoint_t \<Rightarrow> (bool \<times> cursor) option" where
  "add_escape_sequence s cp =
     (case (if cp < 32 then translate NEED_1CHAR_ESCAPES CHARS_FOR_1CHAR_ESCAPES (ucast cp) else None) of
        Some c \<Rightarrow> write_2byte_sequence s c
      | None \<Rightarrow>
          if cp = 0 \<or> cp \<le> 0x7F
          then (if 4 < buf_length s
                then map_option (advance_and_return_true 4)
                  (snprintf ([asc CHR 0x5C, asc CHR ''x''] @ format_hex 2 (unat (ucast cp :: u8))) s)
                else Some (False, s))
          else if cp \<le> 0xFFFF
          then (if 6 \<le> buf_length s
                then map_option (advance_and_return_true 6)
                  (snprintf ([asc CHR 0x5C, asc CHR ''u''] @ format_hex 4 (unat (ucast cp :: u16))) s)
                else Some (False, s))
          else if 10 \<le> buf_length s
          then map_option (advance_and_return_true 10)
            (snprintf ([asc CHR 0x5C, asc CHR ''U''] @ format_hex 8 (unat cp)) s)
          else Some (False, s))"

definition cat_escape_sequence :: "cursor \<Rightarrow> codepoint_t \<Rightarrow> (bool \<times> cursor) option" where
  "cat_escape_sequence s cp = cat_with add_escape_sequence s cp"

definition add_utf8_or_escape_sequence :: "cursor \<Rightarrow> codepoint_t \<Rightarrow> (bool \<times> cursor) option" where
  "add_utf8_or_escape_sequence s cp =
     (if buf s = None \<or> buf_length s < 1 then Some (False, s)
      else if cp < 0x80
      then (if cp < 32
            then (case (if cp \<noteq> 0 then translate NEED_1CHAR_ESCAPES CHARS_FOR_1CHAR_ESCAPES (ucast cp)
                        else None) of
                    Some c \<Rightarrow> write_2byte_sequence s c
                  | None \<Rightarrow>
                      if 4 < buf_length s
                      then map_option (advance_and_return_true 4)
                        (snprintf ([asc CHR 0x5C, asc CHR ''x''] @ format_hex 2 (unat (ucast cp :: u8))) s)
                      else Some (False, s))
            else if in_cset [asc CHR 0x5C, asc CHR 0x22, asc CHR 0x27] (ucast cp)
            then write_2byte_sequence s (ucast cp)
            else if cp = 0x7F
            then (if 4 \<le> buf_length s
                  then map_option (advance_and_return_true 4)
                    (store [asc CHR 0x5C, asc CHR ''x'', asc CHR ''7'', asc CHR ''F''] s)
                  else Some (False, s))
            else map_option (advance_and_return_true 1) (store [ucast cp] s))
      else if cp \<le> 0xFFFF
      then (if 6 \<le> buf_length s
            then map_option (advance_and_return_true 6)
              (snprintf ([asc CHR 0x5C, asc CHR ''u''] @ format_hex 4 (unat (ucast cp :: u16))) s)
            else Some (False, s))
      else if 10 \<le> buf_length s
      then map_option (advance_and_return_true 10)
        (snprintf ([asc CHR 0x5C, asc CHR ''U''] @ format_hex 8 (unat cp)) s)
      else Some (False, s))"

definition cat_utf8_or_escape_sequence :: "cursor \<Rightarrow> codepoint_t \<Rightarrow> (bool \<times> cursor) option" where
  "cat_utf8_or_escape_sequence s cp =
     (if buf_length s \<noteq> 0 then cat_with add_utf8_or_escape_sequence s cp else Some (False, s))"

section \<open>Reference encoding\<close>

text \<open>A continuation byte with the low six bits of \<open>x\<close>, the inverse step of decoding, and the UTF-8
  encoding of a code point.\<close>

definition trail :: "codepoint_t \<Rightarrow> byte" where
  "trail x = ucast ((x AND 0x3F) OR 0x80)"

definition append_6_bits :: "codepoint_t \<Rightarrow> codepoint_t \<Rightarrow> codepoint_t" where
  "append_6_bits a x = push_bit 6 a OR (x AND 0x3F)"

definition utf8_encode :: "codepoint_t \<Rightarrow> byte list" where
  "utf8_encode cp =
     (if cp < 0x80 then [ucast cp]
      else if cp < 0x800 then ucast (drop_bit 6 cp OR 0xC0) # map trail [cp]
      else if cp < 0x10000 then ucast (drop_bit 12 cp OR 0xE0) # map trail [drop_bit 6 cp, cp]
      else ucast (drop_bit 18 cp OR 0xF0) # map trail [drop_bit 12 cp, drop_bit 6 cp, cp])"

definition is_scalar :: "codepoint_t \<Rightarrow> bool" where
  "is_scalar cp \<longleftrightarrow> 0 < cp \<and> cp \<le> MAX_UNICODE_CHAR \<and> \<not> is_surrogate cp"

text \<open>What \<open>add_utf8_or_escape_sequence\<close> is to append for a code point.\<close>

definition escaped_form :: "codepoint_t \<Rightarrow> byte list" where
  "escaped_form cp =
     (if cp < 0x80
      then (if cp < 32
            then (case (if cp \<noteq> 0 then translate NEED_1CHAR_ESCAPES CHARS_FOR_1CHAR_ESCAPES (ucast cp)
                        else None) of
                    Some c \<Rightarrow> [asc CHR 0x5C, c]
                  | None \<Rightarrow> [asc CHR 0x5C, asc CHR ''x''] @ format_hex 2 (unat cp))
            else if in_cset [asc CHR 0x5C, asc CHR 0x22, asc CHR 0x27] (ucast cp)
            then [asc CHR 0x5C, ucast cp]
            else if cp = 0x7F then [asc CHR 0x5C, asc CHR ''x''] @ format_hex 2 0x7F
            else [ucast cp])
      else if cp \<le> 0xFFFF then [asc CHR 0x5C, asc CHR ''u''] @ format_hex 4 (unat cp)
      else [asc CHR 0x5C, asc CHR ''U''] @ format_hex 8 (unat cp))"

section \<open>Lemmas on bits\<close>

lemma bit_push_mask: "bit (push_bit k (mask w) :: int) n \<longleftrightarrow> k \<le> n \<and> n < k + w"
  by (auto simp: bit_push_bit_iff bit_mask_iff possible_bit_def)

lemma bit_patterns:
  "bit (0x80::int) n \<longleftrightarrow> n = 7" "bit (0xC0::int) n \<longleftrightarrow> 6 \<le> n \<and> n < 8"
  "bit (0x3F::int) n \<longleftrightarrow> n < 6"
proof -
  have eqs: "push_bit 7 (mask 1) = (0x80::int)" "push_bit 6 (mask 2) = (0xC0::int)"
    "push_bit 0 (mask 6) = (0x3F::int)"
    by (simp_all add: mask_eq_exp_minus_1)
  show "bit (0x80::int) n \<longleftrightarrow> n = 7" "bit (0xC0::int) n \<longleftrightarrow> 6 \<le> n \<and> n < 8"
    "bit (0x3F::int) n \<longleftrightarrow> n < 6"
    unfolding eqs [symmetric] bit_push_mask by auto
qed

lemmas utf8_bits = bit_patterns bit_and_iff bit_or_iff bit_unsigned_iff bit_drop_bit_eq bit_push_bit_iff

lemma trail_payload [simp]: "ucast (trail x AND 0x3F) = (x AND 0x3F :: codepoint_t)"
  unfolding trail_def by (rule bit_word_eqI) (auto simp: utf8_bits)

lemma trail_continuation [simp]: "is_utf8_continuation_byte (trail x)"
  unfolding is_utf8_continuation_byte_def trail_def by (rule bit_word_eqI) (auto simp: utf8_bits)

lemma continuation_nonzero [simp]: "\<not> is_utf8_continuation_byte 0"
  by (simp add: is_utf8_continuation_byte_def)

lemma join_payload:
  "append_6_bits (drop_bit 6 x) x = x"
  "append_6_bits (drop_bit 12 x) (drop_bit 6 x) = drop_bit 6 x"
  "append_6_bits (drop_bit 18 x) (drop_bit 12 x) = drop_bit 12 x"
  unfolding append_6_bits_def by (rule bit_word_eqI; auto simp: utf8_bits)+

text \<open>The lead bytes are few enough to be checked one by one.\<close>

lemma lead_bytes:
  "list_all (\<lambda>k. predict_length_of_codepoint_from_lead_byte (ucast ((of_nat k :: u32) OR 0xC0)) = 2 \<and>
     ucast ((ucast ((of_nat k :: u32) OR 0xC0) :: byte) AND 0x1F) = (of_nat k :: u32)) [2..<32]"
  "list_all (\<lambda>k. predict_length_of_codepoint_from_lead_byte (ucast ((of_nat k :: u32) OR 0xE0)) = 3 \<and>
     ucast ((ucast ((of_nat k :: u32) OR 0xE0) :: byte) AND 0x0F) = (of_nat k :: u32)) [0..<16]"
  "list_all (\<lambda>k. predict_length_of_codepoint_from_lead_byte (ucast ((of_nat k :: u32) OR 0xF0)) = 4 \<and>
     ucast ((ucast ((of_nat k :: u32) OR 0xF0) :: byte) AND 0x07) = (of_nat k :: u32)) [0..<5]"
  by (simp_all add: upt_rec predict_length_of_codepoint_from_lead_byte_def)

lemma unat_drop_bit: "unat (drop_bit n (x :: codepoint_t)) = unat x div 2 ^ n"
  unfolding unat_drop_bit_eq by (rule drop_bit_eq_div)

lemma lead_2:
  assumes "0x80 \<le> cp" and "cp < 0x800"
  shows "predict_length_of_codepoint_from_lead_byte (ucast (drop_bit 6 cp OR 0xC0)) = 2"
    and "ucast ((ucast (drop_bit 6 cp OR 0xC0) :: byte) AND 0x1F) = (drop_bit 6 cp :: codepoint_t)"
proof -
  have "unat (drop_bit 6 cp) \<in> set [2..<32]"
    unfolding set_upt atLeastLessThan_iff unat_drop_bit
    using assms by (auto simp: word_le_nat_alt word_less_nat_alt)
  with lead_bytes(1) show "predict_length_of_codepoint_from_lead_byte (ucast (drop_bit 6 cp OR 0xC0)) = 2"
    and "ucast ((ucast (drop_bit 6 cp OR 0xC0) :: byte) AND 0x1F) = (drop_bit 6 cp :: codepoint_t)"
    unfolding list_all_iff by fastforce+
qed

lemma lead_3:
  assumes "cp < 0x10000"
  shows "predict_length_of_codepoint_from_lead_byte (ucast (drop_bit 12 cp OR 0xE0)) = 3"
    and "ucast ((ucast (drop_bit 12 cp OR 0xE0) :: byte) AND 0x0F) = (drop_bit 12 cp :: codepoint_t)"
proof -
  have "unat (drop_bit 12 cp) \<in> set [0..<16]"
    unfolding set_upt atLeastLessThan_iff unat_drop_bit
    using assms by (auto simp: word_less_nat_alt)
  with lead_bytes(2) show "predict_length_of_codepoint_from_lead_byte (ucast (drop_bit 12 cp OR 0xE0)) = 3"
    and "ucast ((ucast (drop_bit 12 cp OR 0xE0) :: byte) AND 0x0F) = (drop_bit 12 cp :: codepoint_t)"
    unfolding list_all_iff by fastforce+
qed

lemma lead_4:
  assumes "cp \<le> MAX_UNICODE_CHAR"
  shows "predict_length_of_codepoint_from_lead_byte (ucast (drop_bit 18 cp OR 0xF0)) = 4"
    and "ucast ((ucast (drop_bit 18 cp OR 0xF0) :: byte) AND 0x07) = (drop_bit 18 cp :: codepoint_t)"
proof -
  have "unat (drop_bit 18 cp) \<in> set [0..<5]"
    unfolding set_upt atLeastLessThan_iff unat_drop_bit
    using assms by (auto simp: word_le_nat_alt MAX_UNICODE_CHAR_def)
  with lead_bytes(3) show "predict_length_of_codepoint_from_lead_byte (ucast (drop_bit 18 cp OR 0xF0)) = 4"
    and "ucast ((ucast (drop_bit 18 cp OR 0xF0) :: byte) AND 0x07) = (drop_bit 18 cp :: codepoint_t)"
    unfolding list_all_iff by fastforce+
qed

lemma lead_1:
  assumes "0 < cp" and "cp < 0x80"
  shows "predict_length_of_codepoint_from_lead_byte (ucast cp) = 1" and "scast (ucast cp :: byte) = (cp :: codepoint_t)"
proof -
  have *: "unat cp < 128" "unat cp \<noteq> 0" using assms by (auto simp: word_less_nat_alt unat_eq_0)
  then have u: "unat (ucast cp :: byte) = unat cp" by (simp add: unsigned_ucast_eq unsigned_take_bit_eq take_bit_nat_eq_self)
  with * have "ucast cp < (0x80 :: byte)" "ucast cp \<noteq> (0 :: byte)"
    by (auto simp: word_less_nat_alt simp flip: unat_eq_0)
  then show "predict_length_of_codepoint_from_lead_byte (ucast cp) = 1"
    by (simp add: predict_length_of_codepoint_from_lead_byte_def)
  define b where "b = (ucast cp :: byte)"
  have ub: "uint b = int (unat cp)" using u unfolding b_def uint_nat by (rule arg_cong)
  have "sint b = signed_take_bit 7 (uint b)" by (simp add: sint_uint)
  also have "\<dots> = uint b" unfolding ub using *(1) by (intro signed_take_bit_int_eq_self) (simp_all del: of_nat_unat)
  also note ub
  finally have "scast b = (word_of_int (uint cp) :: codepoint_t)" unfolding scast_eq uint_nat by (rule arg_cong)
  then show "scast (ucast cp :: byte) = (cp :: codepoint_t)" by (simp add: b_def)
qed

section \<open>Lemmas on encoding and decoding\<close>

lemma continuation_bytes_trail:
  "continuation_bytes (length ps) (xs @ map trail ps @ ys) (length xs) cp =
     Some (Inr (length xs + length ps, foldl append_6_bits cp ps))"
proof (induction ps arbitrary: xs cp)
  case Nil
  then show ?case by simp
next
  case (Cons x ps)
  from Cons.IH [of "xs @ [trail x]"] show ?case by (simp add: append_6_bits_def)
qed

declare continuation_bytes.simps [simp del]

lemma continuation_bytes_numeral:
  "continuation_bytes (numeral k) m p cp = do {
     c \<leftarrow> rd m p;
     if \<not> is_utf8_continuation_byte c then Some (Inl p)
     else continuation_bytes (pred_numeral k) m (Suc p) (push_bit 6 cp OR ucast (c AND 0x3F))
   }"
  by (simp add: numeral_eq_Suc continuation_bytes.simps)

lemma length_utf8_encode: "length (utf8_encode cp) = proper_length_of_codepoint cp"
  by (auto simp: utf8_encode_def proper_length_of_codepoint_def word_le_nat_alt word_less_nat_alt)

lemma decode_utf8_sequences:
  shows decode_utf8_1: "predict_length_of_codepoint_from_lead_byte b = 1 \<Longrightarrow>
      decode_utf8 (xs @ [b] @ ys) (length xs) = Some (Suc (length xs), scast b)"
    and decode_utf8_2: "predict_length_of_codepoint_from_lead_byte b = 2 \<Longrightarrow>
      decode_utf8 (xs @ (b # map trail [x]) @ ys) (length xs) =
        Some (length xs + 2, append_6_bits (ucast (b AND 0x1F)) x)"
    and decode_utf8_3: "predict_length_of_codepoint_from_lead_byte b = 3 \<Longrightarrow>
      decode_utf8 (xs @ (b # map trail [x, y]) @ ys) (length xs) =
        Some (length xs + 3, append_6_bits (append_6_bits (ucast (b AND 0x0F)) x) y)"
    and decode_utf8_4: "predict_length_of_codepoint_from_lead_byte b = 4 \<Longrightarrow>
      v = append_6_bits (append_6_bits (append_6_bits (ucast (b AND 0x07)) x) y) z \<Longrightarrow>
      v \<le> MAX_UNICODE_CHAR \<Longrightarrow>
      decode_utf8 (xs @ (b # map trail [x, y, z]) @ ys) (length xs) = Some (length xs + 4, v)"
proof -
  have shift: "continuation_bytes (length ps) (xs @ (b # map trail ps) @ ys) (Suc (length xs)) a =
     Some (Inr (Suc (length xs) + length ps, foldl append_6_bits a ps))" for ps a
    using continuation_bytes_trail [of ps "xs @ [b]" ys a] by simp
  have rd: "rd (xs @ (b # cs) @ ys) (length xs) = Some b" for cs by simp
  show "predict_length_of_codepoint_from_lead_byte b = 1 \<Longrightarrow>
      decode_utf8 (xs @ [b] @ ys) (length xs) = Some (Suc (length xs), scast b)"
    by (simp add: decode_utf8_def)
  show "predict_length_of_codepoint_from_lead_byte b = 2 \<Longrightarrow>
      decode_utf8 (xs @ (b # map trail [x]) @ ys) (length xs) =
        Some (length xs + 2, append_6_bits (ucast (b AND 0x1F)) x)"
    using shift [of "[x]" "ucast (b AND 0x1F)"] unfolding decode_utf8_def rd by (simp add: Let_def or_replacement_def or_replacement_4_def)
  show "predict_length_of_codepoint_from_lead_byte b = 3 \<Longrightarrow>
      decode_utf8 (xs @ (b # map trail [x, y]) @ ys) (length xs) =
        Some (length xs + 3, append_6_bits (append_6_bits (ucast (b AND 0x0F)) x) y)"
    using shift [of "[x, y]" "ucast (b AND 0x0F)"] unfolding decode_utf8_def rd by (simp add: Let_def or_replacement_def or_replacement_4_def numeral_eq_Suc)
  show "predict_length_of_codepoint_from_lead_byte b = 4 \<Longrightarrow>
      v = append_6_bits (append_6_bits (append_6_bits (ucast (b AND 0x07)) x) y) z \<Longrightarrow>
      v \<le> MAX_UNICODE_CHAR \<Longrightarrow>
      decode_utf8 (xs @ (b # map trail [x, y, z]) @ ys) (length xs) = Some (length xs + 4, v)"
    using shift [of "[x, y, z]" "ucast (b AND 0x07)"] unfolding decode_utf8_def rd by (simp add: Let_def or_replacement_def or_replacement_4_def numeral_eq_Suc)
qed

lemma decode_utf8_encode:
  assumes "0 < cp" and "cp \<le> MAX_UNICODE_CHAR"
  shows "decode_utf8 (xs @ utf8_encode cp @ ys) (length xs) = Some (length xs + length (utf8_encode cp), cp)"
proof -
  consider "cp < 0x80" | "\<not> cp < 0x80" "cp < 0x800" | "\<not> cp < 0x80" "\<not> cp < 0x800" "cp < 0x10000"
    | "\<not> cp < 0x80" "\<not> cp < 0x800" "\<not> cp < 0x10000" by blast
  then show ?thesis
  proof cases
    case 1
    then have enc: "utf8_encode cp = [ucast cp]" by (simp add: utf8_encode_def)
    show ?thesis unfolding enc decode_utf8_1 [OF lead_1(1) [OF assms(1) 1]] lead_1(2) [OF assms(1) 1] by simp
  next
    case 2
    then have enc: "utf8_encode cp = ucast (drop_bit 6 cp OR 0xC0) # map trail [cp]"
      by (simp add: utf8_encode_def)
    from 2 have "0x80 \<le> cp" by simp
    note l = lead_2 [OF this 2(2)]
    show ?thesis unfolding enc decode_utf8_2 [OF l(1)] l(2) join_payload by simp
  next
    case 3
    then have enc: "utf8_encode cp = ucast (drop_bit 12 cp OR 0xE0) # map trail [drop_bit 6 cp, cp]"
      by (simp add: utf8_encode_def)
    note l = lead_3 [OF 3(3)]
    show ?thesis unfolding enc decode_utf8_3 [OF l(1)] l(2) join_payload by simp
  next
    case 4
    then have enc: "utf8_encode cp =
        ucast (drop_bit 18 cp OR 0xF0) # map trail [drop_bit 12 cp, drop_bit 6 cp, cp]"
      by (simp add: utf8_encode_def)
    note l = lead_4 [OF assms(2)]
    have "cp = append_6_bits (append_6_bits (append_6_bits
        (ucast ((ucast (drop_bit 18 cp OR 0xF0) :: byte) AND 0x07)) (drop_bit 12 cp)) (drop_bit 6 cp)) cp"
      unfolding l(2) join_payload ..
    from decode_utf8_4 [OF l(1) this assms(2)] show ?thesis unfolding enc by simp
  qed
qed

lemma utf8_encode_nonzero:
  assumes "0 < cp" and "cp \<le> MAX_UNICODE_CHAR"
  obtains b bs where "utf8_encode cp = b # bs" and "b \<noteq> 0"
proof -
  obtain b bs where eq: "utf8_encode cp = b # bs"
    using length_utf8_encode [of cp] by (cases "utf8_encode cp") (auto simp: proper_length_of_codepoint_def split: if_splits)
  have "b \<noteq> 0"
  proof
    assume "b = 0"
    with eq have "decode_utf8 (utf8_encode cp) 0 = Some (1, UNICODE_REPLACEMENT_CHAR)"
      by (simp add: decode_utf8_def predict_length_of_codepoint_from_lead_byte_def)
    with decode_utf8_encode [OF assms, of "[]" "[]"]
    have "length (utf8_encode cp) = 1" "cp = UNICODE_REPLACEMENT_CHAR" by simp_all
    then show False
      by (simp add: length_utf8_encode proper_length_of_codepoint_def UNICODE_REPLACEMENT_CHAR_def)
  qed
  with eq that show thesis by blast
qed

text \<open>Before a terminator at position \<open>t\<close>, decoding never passes it.\<close>

lemma continuation_bytes_terminated:
  assumes "t < length m" and "m ! t = 0" and "p \<le> t"
  shows "\<exists>r. continuation_bytes n m p cp = Some r \<and> (case r of Inl q \<Rightarrow> q \<le> t | Inr (q, cp') \<Rightarrow> q \<le> t)"
  using assms(3)
proof (induction n arbitrary: p cp)
  case 0
  then show ?case by (simp add: continuation_bytes.simps)
next
  case (Suc n)
  then have rd: "rd m p = Some (m ! p)" using assms by simp
  show ?case
  proof (cases "is_utf8_continuation_byte (m ! p)")
    case True
    with assms(2) have "p \<noteq> t" by (metis continuation_nonzero)
    with Suc.prems Suc.IH [of "Suc p"] True rd show ?thesis by (simp add: continuation_bytes.simps)
  next
    case False
    with rd Suc.prems show ?thesis by (simp add: continuation_bytes.simps)
  qed
qed

lemma decode_utf8_terminated:
  assumes "t < length m" and "m ! t = 0" and "p < t"
  shows "\<exists>q cp. decode_utf8 m p = Some (q, cp) \<and> p < q \<and> q \<le> t"
proof -
  have rd: "rd m p = Some (m ! p)" using assms by simp
  have cb: "\<exists>r. continuation_bytes n m (Suc p) cp = Some r \<and> (case r of Inl q \<Rightarrow> q \<le> t | Inr (q, cp') \<Rightarrow> q \<le> t)"
    for n cp using continuation_bytes_terminated [OF assms(1,2), of "Suc p"] assms(3) by simp
  obtain r1 where r1: "continuation_bytes 1 m (Suc p) (ucast (m ! p AND 0x1F)) = Some r1"
    "case r1 of Inl q \<Rightarrow> q \<le> t | Inr (q, cp') \<Rightarrow> q \<le> t" using cb by blast
  obtain r2 where r2: "continuation_bytes 2 m (Suc p) (ucast (m ! p AND 0x0F)) = Some r2"
    "case r2 of Inl q \<Rightarrow> q \<le> t | Inr (q, cp') \<Rightarrow> q \<le> t" using cb by blast
  obtain r3 where r3: "continuation_bytes 3 m (Suc p) (ucast (m ! p AND 0x07)) = Some r3"
    "case r3 of Inl q \<Rightarrow> q \<le> t | Inr (q, cp') \<Rightarrow> q \<le> t" using cb by blast
  have "\<exists>q cp. decode_utf8 m p = Some (q, cp) \<and> q \<le> t"
    using r1 r2 r3 assms(3) unfolding decode_utf8_def rd bind.bind_lunit Let_def
    by (auto simp: or_replacement_def or_replacement_4_def simp del: One_nat_def
        split: sum.splits prod.splits)
  then show ?thesis by (meson decode_utf8_advance)
qed

lemma append_byte_bound:
  assumes "uint cp < 2 ^ k"
  shows "uint (push_bit 6 cp OR ucast ((c :: byte) AND 0x3F) :: codepoint_t) < 2 ^ (k + 6)"
proof -
  have "uint (push_bit 6 cp) = take_bit 32 (push_bit 6 (uint cp))"
    by (simp add: unsigned_push_bit_eq)
  also have "\<dots> \<le> uint cp * 2 ^ 6"
    unfolding push_bit_eq_mult by (subst take_bit_int_less_eq_self_iff) simp
  also have "\<dots> < 2 ^ (k + 6)" using assms by (simp add: power_add)
  finally have a: "uint (push_bit 6 cp) < 2 ^ (k + 6)" .
  have "uint (ucast (c AND 0x3F) :: codepoint_t) = take_bit 6 (uint c)"
    by (rule bit_eqI) (auto simp: utf8_bits bit_take_bit_iff bit_uint_iff)
  also have "\<dots> < 2 ^ 6" by (rule take_bit_int_less_exp)
  also have "(2::int) ^ 6 \<le> 2 ^ (k + 6)" by (rule power_increasing) simp_all
  finally have b: "uint (ucast (c AND 0x3F) :: codepoint_t) < 2 ^ (k + 6)" .
  show ?thesis unfolding unsigned_or_eq by (rule OR_upper [OF _ a b]) simp
qed

lemma continuation_bytes_bound:
  "continuation_bytes n m p cp = Some (Inr (q, v)) \<Longrightarrow> uint cp < 2 ^ k \<Longrightarrow> uint v < 2 ^ (k + 6 * n)"
proof (induction n arbitrary: p cp k)
  case 0
  then show ?case by (simp add: continuation_bytes.simps)
next
  case (Suc n)
  from Suc.prems(1) obtain c :: byte where "continuation_bytes n m (Suc p) (push_bit 6 cp OR ucast (c AND 0x3F)) = Some (Inr (q, v))"
    by (auto simp: continuation_bytes.simps bind_eq_Some_conv split: if_splits)
  from Suc.IH [OF this append_byte_bound [OF Suc.prems(2)]] show ?case by (simp add: algebra_simps)
qed

lemma mask_byte_bound: "uint (ucast ((c :: byte) AND 0x1F) :: codepoint_t) < 2 ^ 5"
  "uint (ucast ((c :: byte) AND 0x0F) :: codepoint_t) < 2 ^ 4"
proof -
  have "uint (ucast ((c :: byte) AND mask k) :: codepoint_t) = take_bit k (uint c)" for k
    by (rule bit_eqI) (auto simp: utf8_bits bit_take_bit_iff bit_uint_iff bit_mask_iff dest: bit_imp_le_length)
  from this [of 5] this [of 4] show "uint (ucast ((c :: byte) AND 0x1F) :: codepoint_t) < 2 ^ 5"
  "uint (ucast ((c :: byte) AND 0x0F) :: codepoint_t) < 2 ^ 4" 
    using take_bit_int_less_exp [of 5 "uint c"] take_bit_int_less_exp [of 4 "uint c"]
    by (simp_all add: mask_eq_exp_minus_1)
qed

lemma decode_utf8_bound:
  assumes "decode_utf8 m p = Some (q, cp)"
  shows "cp \<le> MAX_UNICODE_CHAR"
proof -
  have s: "(scast c :: codepoint_t) \<le> 0x10FFFF" if "predict_length_of_codepoint_from_lead_byte c = 1" for c
  proof -
   from that have "c < 0x80" by (auto simp: predict_length_of_codepoint_from_lead_byte_def split: if_splits)
   then have "uint c < 2 ^ 7" by (simp add: word_less_def)
   then have "sint c = uint c" 
     unfolding sint_uint by (intro signed_take_bit_int_eq_self order_trans [OF _ uint_ge_0]) simp_all
   then have "uint (scast c :: codepoint_t) \<le> uint c"
     by (simp only: scast_eq uint_word_of_int_eq take_bit_int_less_eq_self_iff uint_ge_0)
   with \<open>uint c < 2 ^ 7\<close> show ?thesis unfolding word_le_def by simp
  qed
  have b2: "v \<le> 0x10FFFF" if "continuation_bytes 1 m p' (ucast (c AND 0x1F)) = Some (Inr (q', v))" for c :: byte and p' q' v
    using continuation_bytes_bound [OF that mask_byte_bound(1)] by (simp add: word_le_def)
  have b3: "v \<le> 0x10FFFF" if "continuation_bytes 2 m p' (ucast (c AND 0x0F)) = Some (Inr (q', v))" for c :: byte and p' q' v
    using continuation_bytes_bound [OF that mask_byte_bound(2)] by (simp add: word_le_def)
  from assms show ?thesis
    by (auto simp: decode_utf8_def bind_eq_Some_conv Let_def MAX_UNICODE_CHAR_def UNICODE_REPLACEMENT_CHAR_def
        simp del: One_nat_def intro: b2 b3 s
        dest!: or_replacement_D or_replacement_4_D split: if_split_asm)
qed

lemma add_codepoint_cases:
  assumes "buf s = Some p" and "cp \<le> MAX_UNICODE_CHAR"
  shows "add_codepoint_to_utf8 s cp =
     (if unat (buf_length s) < length (utf8_encode cp) then Some (False, s)
      else map_option (Pair True) (put (utf8_encode cp) s))"
proof -
  have "cp < 0x110000" using assms(2) by (simp add: MAX_UNICODE_CHAR_def word_le_nat_alt word_less_nat_alt)
  with assms(1) show ?thesis
    by (auto simp: add_codepoint_to_utf8_def utf8_encode_def trail_def word_less_nat_alt)
qed

lemma put_result:
  assumes "buf s = Some p" and "p + length cs \<le> length (mem s)"
  shows "put cs s = Some (s\<lparr>mem := take p (mem s) @ cs @ drop (p + length cs) (mem s),
    buf := Some (p + length cs)\<rparr>)"
  using assms by (simp add: put_def wr_bytes_spec)

text \<open>A string of encoded scalar values, behind any text: the loops see exactly the code points.\<close>

lemma scalar_encoding:
  assumes "is_scalar cp"
  shows "decode_utf8 (xs @ utf8_encode cp @ ys) (length xs) = Some (length xs + length (utf8_encode cp), cp)"
    and "rd (xs @ utf8_encode cp @ ys) (length xs) = Some (hd (utf8_encode cp))"
    and "hd (utf8_encode cp) \<noteq> 0"
proof -
  from assms have cp: "0 < cp" "cp \<le> MAX_UNICODE_CHAR" by (auto simp: is_scalar_def)
  from decode_utf8_encode [OF cp]
  show "decode_utf8 (xs @ utf8_encode cp @ ys) (length xs) = Some (length xs + length (utf8_encode cp), cp)" .
  obtain b bs where "utf8_encode cp = b # bs" "b \<noteq> 0" by (rule utf8_encode_nonzero [OF cp])
  then show "rd (xs @ utf8_encode cp @ ys) (length xs) = Some (hd (utf8_encode cp))"
    and "hd (utf8_encode cp) \<noteq> 0" by simp_all
qed

lemma is_well_formed_loop_encoded:
  "list_all is_scalar cps \<Longrightarrow>
     is_well_formed_loop (xs @ concat (map utf8_encode cps) @ 0 # rest) (length xs) = Some True"
proof (induction cps arbitrary: xs)
  case Nil
  then show ?case by (simp add: is_well_formed_loop.simps)
next
  case (Cons cp cps)
  let ?m = "xs @ utf8_encode cp @ concat (map utf8_encode cps) @ 0 # rest"
  from Cons.prems have sc: "is_scalar cp" and scs: "list_all is_scalar cps" by simp_all
  note enc = scalar_encoding(1,2) [OF sc, of xs "concat (map utf8_encode cps) @ 0 # rest"]
    scalar_encoding(3) [OF sc]
  have one: "\<not> (cp = UNICODE_REPLACEMENT_CHAR \<and> length xs + length (utf8_encode cp) = length xs + 1)"
    by (auto simp: length_utf8_encode proper_length_of_codepoint_def UNICODE_REPLACEMENT_CHAR_def)
  have "is_well_formed_loop ?m (length xs) = is_well_formed_loop ?m (length xs + length (utf8_encode cp))"
    using enc one sc by (subst is_well_formed_loop.simps) (auto simp: is_scalar_def length_utf8_encode)
  with Cons.IH [OF scs, of "xs @ utf8_encode cp"] show ?case by simp
qed

lemma count_codepoints_encoded:
  assumes "list_all is_scalar cps"
  shows "count_codepoints_in_utf8 (xs @ concat (map utf8_encode cps) @ rest) (length xs)
     (length xs + length (concat (map utf8_encode cps))) = Some (length cps)"
  using assms
proof (induction cps arbitrary: xs)
  case Nil
  then show ?case by (simp add: count_codepoints_in_utf8.simps)
next
  case (Cons cp cps)
  let ?m = "xs @ utf8_encode cp @ concat (map utf8_encode cps) @ rest"
  let ?e = "length xs + length (concat (map utf8_encode (cp # cps)))"
  from Cons.prems have sc: "is_scalar cp" and scs: "list_all is_scalar cps" by simp_all
  note enc = scalar_encoding(1) [OF sc, of xs "concat (map utf8_encode cps) @ rest"]
  have pos: "length xs < ?e"
    using length_utf8_encode [of cp] by (simp add: proper_length_of_codepoint_def split: if_splits)
  have "count_codepoints_in_utf8 ?m (length xs) ?e =
      map_option Suc (count_codepoints_in_utf8 ?m (length xs + length (utf8_encode cp)) ?e)"
    using enc pos by (subst count_codepoints_in_utf8.simps) simp
  with Cons.IH [OF scs, of "xs @ utf8_encode cp"] show ?case by (simp add: add.assoc)
qed

lemma is_well_formed_loop_total:
  assumes "t < length m" and "m ! t = 0"
  shows "p \<le> t \<Longrightarrow> \<exists>b. is_well_formed_loop m p = Some b"
proof (induction "t - p" arbitrary: p rule: less_induct)
  case less
  then have rd: "rd m p = Some (m ! p)" using assms by simp
  show ?case
  proof (cases "m ! p = 0")
    case True
    with rd show ?thesis by (auto simp: is_well_formed_loop.simps)
  next
    case False
    with less.prems assms(2) have "p < t" by (metis le_neq_implies_less)
    with decode_utf8_terminated [OF assms] obtain q cp where "decode_utf8 m p = Some (q, cp)" "p < q" "q \<le> t" by blast
    with less.hyps [of q] rd False show ?thesis by (subst is_well_formed_loop.simps) auto
  qed
qed

section \<open>Lemmas on escape sequences\<close>

lemma map_filter_append: "List.map_filter f (xs @ ys) = List.map_filter f xs @ List.map_filter f ys"
  by (simp add: List.map_filter_def)

lemma hex_digit_hex_char: "d < 16 \<Longrightarrow> hex_digit (hex_char d) = Some d"
proof -
  have "list_all (\<lambda>d. hex_digit (hex_char d) = Some d) [0..<16]"
    by (simp add: upt_rec hex_digit_def hex_char_def get_ascii_hex_value_def word_sle_eq)
  then show "d < 16 \<Longrightarrow> hex_digit (hex_char d) = Some d" by (simp add: list_all_iff)
qed

lemma hex_chars_digits:
  "list_all (\<lambda>c. hex_digit c \<noteq> None) (hex_chars n) \<and> digits_value 16 (List.map_filter hex_digit (hex_chars n)) = n"
proof (induction n rule: hex_chars.induct)
  case (1 n)
  show ?case
  proof (cases "n < 16")
    case True
    then show ?thesis
      by (simp add: hex_chars.simps [of n] hex_digit_hex_char digits_value_def List.map_filter_simps)
  next
    case False
    with 1 show ?thesis
      by (simp add: hex_chars.simps [of n] hex_digit_hex_char digits_value_def List.map_filter_simps
          map_filter_append)
  qed
qed

lemma length_hex_chars: "n < 16 ^ w \<Longrightarrow> 0 < w \<Longrightarrow> length (hex_chars n) \<le> w"
proof (induction n arbitrary: w rule: hex_chars.induct)
  case (1 n)
  show ?case
  proof (cases "n < 16")
    case True
    with "1.prems" show ?thesis by (simp add: hex_chars.simps [of n])
  next
    case False
    with "1.prems" obtain v where v: "w = Suc v" "0 < v" by (cases w; cases "w - 1") auto
    with "1.prems" have "n div 16 < 16 ^ v" by (simp add: less_mult_imp_div_less mult.commute)
    with "1.IH" [OF False, of v] v False show ?thesis by (simp add: hex_chars.simps [of n])
  qed
qed

lemma digits_value_zeros: "digits_value b (replicate k 0 @ ds) = digits_value b ds"
  by (induction k) (simp_all add: digits_value_def)

lemma format_hex_value:
  assumes "n < 16 ^ w" and "0 < w"
  shows "length (format_hex w n) = w" and "digit_run hex_digit (format_hex w n) = format_hex w n"
    and "run_value hex_digit 16 (format_hex w n) = n"
proof -
  show len: "length (format_hex w n) = w"
    using length_hex_chars [OF assms] by (simp add: format_hex_def)
  have z: "hex_digit 48 = Some 0" by (simp add: hex_digit_def get_ascii_hex_value_def word_sle_eq)
  show run: "digit_run hex_digit (format_hex w n) = format_hex w n"
    unfolding digit_run_def takeWhile_eq_all_conv
    using hex_chars_digits [of n] z by (auto simp: format_hex_def list_all_iff)
  have "List.map_filter hex_digit (replicate k (asc CHR ''0'')) = replicate k 0" for k
    by (induction k) (simp_all add: List.map_filter_simps z)
  then show "run_value hex_digit 16 (format_hex w n) = n"
    unfolding run_value_def run using hex_chars_digits [of n]
    by (simp add: format_hex_def map_filter_append digits_value_zeros)
qed

lemma scan_hex_format:
  assumes "slice m p (p + w) = format_hex w n" and "p + w \<le> length m" and "n < 16 ^ w" and "0 < w"
  shows "scan_hex_digits m p (p + w) = Some (p + w, of_nat n)"
  using hex_scan.scan_digits_value [of p "p + w" m] assms format_hex_value [OF assms(3,4)]
  by (simp add: scan_hex_digits_def)

lemma unat_ucast_small:
  "cp < 0x80 \<Longrightarrow> unat (ucast cp :: u8) = unat cp" "cp \<le> 0xFFFF \<Longrightarrow> unat (ucast cp :: u16) = unat cp" for cp :: codepoint_t
  by (simp_all add: unsigned_ucast_eq unsigned_take_bit_eq take_bit_nat_eq_self word_less_nat_alt word_le_nat_alt)

lemma written:
  assumes "buf s = Some p" and "length cs < unat (buf_length s)" and "p + unat (buf_length s) \<le> length (mem s)"
  obtains m where "snprintf cs s = Some (s\<lparr>mem := m\<rparr>)" and "slice m p (p + length cs) = cs"
      and "length m = length (mem s)"
    and "store cs s = Some (s\<lparr>mem := take p (mem s) @ cs @ drop (p + length cs) (mem s)\<rparr>)"
proof
  let ?m = "take p (mem s) @ (cs @ [0]) @ drop (p + Suc (length cs)) (mem s)"
  show "snprintf cs s = Some (s\<lparr>mem := ?m\<rparr>)"
    using assms wr_bytes_spec [of p "cs @ [0]" "mem s"] by (auto simp: snprintf_def)
  show "slice ?m p (p + length cs) = cs" "length ?m = length (mem s)"
    using assms by (simp_all add: slice_def)
  show "store cs s = Some (s\<lparr>mem := take p (mem s) @ cs @ drop (p + length cs) (mem s)\<rparr>)"
    using assms wr_bytes_spec [of p cs "mem s"] by (simp add: store_def)
qed

lemma length_escaped_form:
  "length (escaped_form cp) = (if cp < 0x80
     then (if cp < 32 then (if cp \<noteq> 0 \<and> translate NEED_1CHAR_ESCAPES CHARS_FOR_1CHAR_ESCAPES (ucast cp) \<noteq> None
                            then 2 else 4)
           else if in_cset [asc CHR 0x5C, asc CHR 0x22, asc CHR 0x27] (ucast cp) then 2
           else if cp = 0x7F then 4 else 1)
     else if cp \<le> 0xFFFF then 6 else 10)"
proof -
  have "unat cp < 16 ^ 8" using unsigned_less [of cp] by simp
  moreover have "cp < 0x80 \<Longrightarrow> unat cp < 16 ^ 2" "cp \<le> 0xFFFF \<Longrightarrow> unat cp < 16 ^ 4"
    by (simp_all add: word_less_nat_alt word_le_nat_alt)
  ultimately show ?thesis
    by (auto simp: escaped_form_def format_hex_value split: option.splits)
qed

lemma format_hex_del: "format_hex 2 0x7F = [asc CHR ''7'', asc CHR ''F'']"
  by (simp add: format_hex_def hex_chars.simps hex_char_def)

lemma store_slice: "p + length cs \<le> length m \<Longrightarrow>
    slice (take p m @ cs @ drop (p + length cs) m) p (p + length cs) = cs"
  by (simp add: slice_def)

lemma escape_written:
  assumes "buf s = Some p" and "length (escaped_form cp) < unat (buf_length s)"
    and "p + unat (buf_length s) \<le> length (mem s)"
  shows "\<exists>s'. add_utf8_or_escape_sequence s cp = Some (True, s') \<and>
     buf s' = Some (p + length (escaped_form cp)) \<and> length (mem s') = length (mem s) \<and>
     slice (mem s') p (p + length (escaped_form cp)) = escaped_form cp"
proof -
  let ?f = "escaped_form cp"
  obtain m where sn: "snprintf ?f s = Some (s\<lparr>mem := m\<rparr>)" and m: "slice m p (p + length ?f) = ?f"
      "length m = length (mem s)"
    and st: "store ?f s = Some (s\<lparr>mem := take p (mem s) @ ?f @ drop (p + length ?f) (mem s)\<rparr>)"
    by (rule written [OF assms])
  have sl: "slice (take p (mem s) @ ?f @ drop (p + length ?f) (mem s)) p (p + length ?f) = ?f"
    using assms by (intro store_slice) simp
  have "add_utf8_or_escape_sequence s cp = map_option (advance_and_return_true (length ?f)) (snprintf ?f s) \<or>
     add_utf8_or_escape_sequence s cp = map_option (advance_and_return_true (length ?f)) (store ?f s)"
    using assms(1,2) unfolding length_escaped_form
    by (auto simp: add_utf8_or_escape_sequence_def escaped_form_def write_2byte_sequence_def unat_ucast_small format_hex_del
       word_less_nat_alt word_le_nat_alt split: option.splits if_splits)
  then show ?thesis
    using sn m st sl assms by (auto simp: advance_and_return_true_def)
qed
lemma one_char_escapes:
  fixes cp :: codepoint_t
  assumes "translate NEED_1CHAR_ESCAPES CHARS_FOR_1CHAR_ESCAPES (ucast cp) = Some c" and "0 < cp" and "cp < 0x80"
  shows "translate CHARS_FOR_1CHAR_ESCAPES NEED_1CHAR_ESCAPES c = Some (ucast cp)" and "c \<in> set (lit ''nrtfvba'')"
  using assms(1) lead_1(1) [OF assms(2,3)]
  by (auto simp: NEED_1CHAR_ESCAPES_def CHARS_FOR_1CHAR_ESCAPES_def predict_length_of_codepoint_from_lead_byte_def
      split: if_splits)

lemma scan_escape_hex:
  assumes "p0 < length m" and "m ! p0 = k"
    and "(k, w) \<in> {(asc CHR ''x'', 2), (asc CHR ''u'', 4), (asc CHR ''U'', 8)}"
    and "slice m (p0 + 1) (p0 + 1 + w) = format_hex w (unat cp)" and "p0 + 1 + w \<le> length m"
    and "unat cp < 16 ^ w" and "cp \<le> MAX_UNICODE_CHAR"
  shows "scan_unicode_escape_sequence m (Some p0) = Some (Some (p0 + 1 + w), Some cp)"
proof -
  have "0 < w" using assms(3) by auto
  note sc = scan_hex_format [OF assms(4,5,6) this]
  have "take_bit 64 (unat cp) = unat cp"
    using unsigned_less [of cp, where ?'a = nat] by (intro take_bit_nat_eq_self) simp
  then have n: "\<not> ucast MAX_UNICODE_CHAR < (of_nat (unat cp) :: u64)"
    using assms(7)
    by (simp add: MAX_UNICODE_CHAR_def word_le_nat_alt word_less_nat_alt unsigned_ucast_eq unsigned_take_bit_eq)
  have u: "ucast (of_nat (unat cp) :: u64) = cp"
    by (rule bit_word_eqI) (auto simp: bit_simps)
  define e where "e = p0 + 1 + w"
  have sc: "scan_hex_digits m (Suc p0) e = Some (e, of_nat (unat cp))" using sc by (simp add: e_def)
  consider "k = asc CHR ''x''" "p0 + 3 = e" | "k = asc CHR ''u''" "p0 + 5 = e" | "k = asc CHR ''U''" "p0 + 9 = e"
    using assms(3) by (auto simp: e_def)
  then have "scan_unicode_escape_sequence m (Some p0) = Some (Some e, Some cp)"
    using assms(1,2) sc n u by cases (simp_all add: scan_unicode_escape_sequence_def)
  then show ?thesis by (simp add: e_def)
qed
lemma scan_escaped_form:
  assumes sl: "slice m p (p + length (escaped_form cp)) = escaped_form cp"
    and len: "p + length (escaped_form cp) \<le> length m" and "1 < length (escaped_form cp)"
    and "cp \<le> MAX_UNICODE_CHAR"
  shows "scan_unicode_escape_sequence m (Some (p + 1)) = Some (Some (p + length (escaped_form cp)), Some cp)"
proof -
  let ?f = "escaped_form cp" and ?n = "length (escaped_form cp)"
  have at: "m ! (p + 1) = ?f ! 1" using slice_nth [of "p + ?n" m 1 p] assms by simp
  have sl2: "slice m (p + 2) (p + ?n) = drop 2 ?f" using drop_slice [of 2 m p "p + ?n"] unfolding sl by (rule sym)
  have hex: "scan_unicode_escape_sequence m (Some (p + 1)) = Some (Some (p + ?n), Some cp)"
    if "?f = [asc CHR 0x5C, k] @ format_hex w (unat cp)" "unat cp < 16 ^ w"
      "(k, w) \<in> {(asc CHR ''x'', 2), (asc CHR ''u'', 4), (asc CHR ''U'', 8)}" for k w
  proof -
    have "0 < w" using that(3) by auto
    with that(1) format_hex_value(1) [OF that(2)] have n: "?n = w + 2" by simp
    from that(1) at sl2 have "m ! (p + 1) = k" "slice m (p + 1 + 1) (p + 1 + 1 + w) = format_hex w (unat cp)"
      unfolding n by (simp_all add: add.commute)
    from scan_escape_hex [OF _ this(1) that(3) this(2) _ that(2) assms(4)] len n show ?thesis by simp
  qed
  have small: "unat cp < 16 ^ 8" "cp < 0x80 \<Longrightarrow> unat cp < 16 ^ 2" "cp \<le> 0xFFFF \<Longrightarrow> unat cp < 16 ^ 4"
    using unsigned_less [of cp, where ?'a = nat] by (simp_all add: word_less_nat_alt word_le_nat_alt)
  consider (one) c where "0 < cp" "cp < 32"
      "translate NEED_1CHAR_ESCAPES CHARS_FOR_1CHAR_ESCAPES (ucast cp) = Some c" "?f = [asc CHR 0x5C, c]"
    | (x) "cp < 0x80" "?f = [asc CHR 0x5C, asc CHR ''x''] @ format_hex 2 (unat cp)"
    | (quote) "0 < cp" "cp < 0x80" "in_cset [asc CHR 0x5C, asc CHR 0x22, asc CHR 0x27] (ucast cp)"
       "?f = [asc CHR 0x5C, ucast cp]"
    | (u) "cp \<le> 0xFFFF" "?f = [asc CHR 0x5C, asc CHR ''u''] @ format_hex 4 (unat cp)"
    | (U) "?f = [asc CHR 0x5C, asc CHR ''U''] @ format_hex 8 (unat cp)"
    using assms(3) by (cases "cp = 0") (auto simp: escaped_form_def word_gt_0 split: if_splits option.splits)
  then show ?thesis
  proof cases
    case one
    from one(2) have "cp < 0x80" by (simp add: word_less_nat_alt)
    note oc = one_char_escapes [OF one(3,1) this] and l = lead_1(2) [OF one(1) \<open>cp < 0x80\<close>]
    have "m ! Suc p = c" "?n = 2" "Suc p < length m" using at one(4) len by auto
    with oc l show ?thesis
      by (auto simp: scan_unicode_escape_sequence_def word_sle_eq)
  next
    case x
    with hex [of _ 2] small show ?thesis by blast
  next
    case quote
    have "m ! Suc p = ucast cp" "?n = 2" "Suc p < length m" using at quote(4) len by auto
    moreover have "ucast cp \<noteq> (0 :: byte)" using lead_1(1) [OF quote(1,2)]
      by (auto simp: predict_length_of_codepoint_from_lead_byte_def)
    ultimately show ?thesis using quote(3) lead_1(2) [OF quote(1,2)]
      by (auto simp: scan_unicode_escape_sequence_def in_cset_def)
  next
    case u
    with hex [of _ 4] small show ?thesis by blast
  next
    case U
    with hex [of _ 8] small show ?thesis by blast
  qed
qed

section \<open>Properties\<close>



text \<open>C17: whatever the bytes before a terminator, decoding below it stays in memory, moves forward by one
  to four bytes and never past the terminator, and yields a value of at most \<open>U+10FFFF\<close>; so every loop
  over a null-terminated string ends, and \<open>is_well_formed_utf8\<close> always returns.\<close>

theorem decoder_safe:
  assumes "t < length m" and "m ! t = 0" and "p < t"
  shows "(\<exists>q cp. get_codepoint_from_utf8 m (Some p) = Some (Some q, cp) \<and> p < q \<and> q \<le> t \<and> q \<le> p + 4 \<and>
       cp \<le> MAX_UNICODE_CHAR) \<and>
     (\<exists>b. is_well_formed_utf8 m (Some p) = Some b)"
proof -
  obtain q cp where d: "decode_utf8 m p = Some (q, cp)" "p < q" "q \<le> t"
    using decode_utf8_terminated [OF assms] by blast
  with decode_utf8_bound [OF d(1)] decode_utf8_advance [OF d(1)]
    is_well_formed_loop_total [OF assms(1,2) less_imp_le [OF assms(3)]]
  show ?thesis by (auto simp: get_codepoint_from_utf8_def is_well_formed_utf8_def)
qed

theorem decoder_safe_witness:
  "\<exists>q cp. get_codepoint_from_utf8 [0xF0, 0x9F, 0, 7] (Some 0) = Some (Some q, cp) \<and> q \<le> 2"
  using decoder_safe [of 2 "[0xF0, 0x9F, 0, 7]" 0] by auto

text \<open>C19: a null-terminated string that encodes a sequence of scalar values (no surrogates) is
  well-formed, and the number of code points counted in it is the length of that sequence.\<close>

theorem encoded_text_well_formed:
  assumes "list_all is_scalar cps"
  shows "is_well_formed_utf8 (cstr (concat (map utf8_encode cps))) (Some 0) = Some True \<and>
     count_codepoints_in_utf8 (cstr (concat (map utf8_encode cps))) 0 (length (concat (map utf8_encode cps))) =
       Some (length cps)"
  using is_well_formed_loop_encoded [OF assms, of "[]" "[]"] count_codepoints_encoded [OF assms, of "[]" "[0]"]
  by (simp add: is_well_formed_utf8_def cstr_def)

theorem encoded_text_well_formed_witness:
  "is_well_formed_utf8 (cstr (concat (map utf8_encode [0x41, 0x20AC, 0x1F600]))) (Some 0) = Some True"
  using encoded_text_well_formed [of "[0x41, 0x20AC, 0x1F600]"]
  by (simp add: is_scalar_def MAX_UNICODE_CHAR_def is_surrogate_def)

text \<open>The well-formedness test also accepts a three-byte sequence that is broken off after its first
  continuation byte, and \<open>length_of_codepoint\<close> accepts the overlong three-byte encoding of \<open>U+0000\<close>,
  which its documentation excludes.\<close>

theorem ill_formed_accepted:
  "is_well_formed_utf8 (cstr [0xE0, 0xA0, 0x41]) (Some 0) = Some True \<and>
   length_of_codepoint (cstr [0xE0, 0x80, 0x80]) (Some 0) = Some 3"
proof
  let ?m = "[0xE0, 0xA0, 0x41, 0] :: buffer"
  note evals = decode_utf8_def Let_def predict_length_of_codepoint_from_lead_byte_def
    continuation_bytes_numeral continuation_bytes.simps is_utf8_continuation_byte_def or_replacement_def
  have d: "decode_utf8 ?m 0 = Some (2, UNICODE_REPLACEMENT_CHAR)" "decode_utf8 ?m 2 = Some (3, 0x41)"
    by (simp_all add: evals)
  have "is_well_formed_loop ?m 3 = Some True" by (subst is_well_formed_loop.simps) simp
  then have "is_well_formed_loop ?m 2 = Some True"
    by (subst is_well_formed_loop.simps)
      (simp add: d UNICODE_REPLACEMENT_CHAR_def is_surrogate_def)
  then have "is_well_formed_loop ?m 0 = Some True"
    by (subst is_well_formed_loop.simps)
      (simp add: d UNICODE_REPLACEMENT_CHAR_def is_surrogate_def proper_length_of_codepoint_def)
  then show "is_well_formed_utf8 (cstr [0xE0, 0xA0, 0x41]) (Some 0) = Some True"
    by (simp add: is_well_formed_utf8_def cstr_def)
  show "length_of_codepoint (cstr [0xE0, 0x80, 0x80]) (Some 0) = Some 3"
    by (simp add: evals length_of_codepoint_def cstr_def)
qed

text \<open>C18: with room for the form of the code point (\<open>escaped_form\<close>, 1 to 10 bytes) and one more byte,
  \<open>add_utf8_or_escape_sequence\<close> advances the buffer by the length of that form and writes either a printable ASCII character itself or an escape sequence that starts with a backslash and that
  \<open>scan_unicode_escape_sequence\<close> reads back to the code point, up to the new position of the buffer.\<close>

theorem escape_round_trip:
  assumes "buf s = Some p" and "cp \<le> MAX_UNICODE_CHAR" and "length (escaped_form cp) < unat (buf_length s)"
    and "p + unat (buf_length s) \<le> length (mem s)"
  shows "\<exists>s' q. add_utf8_or_escape_sequence s cp = Some (True, s') \<and> buf s' = Some q \<and> q = p + length (escaped_form cp) \<and>
     (if q = p + 1 then 32 \<le> cp \<and> cp < 0x7F \<and> mem s' ! p = ucast cp
      else mem s' ! p = asc CHR 0x5C \<and>
        scan_unicode_escape_sequence (mem s') (Some (p + 1)) = Some (Some q, Some cp))"
proof -
  let ?f = "escaped_form cp"
  note room = assms(3)
  obtain s' where s': "add_utf8_or_escape_sequence s cp = Some (True, s')" "buf s' = Some (p + length ?f)"
      "length (mem s') = length (mem s)" "slice (mem s') p (p + length ?f) = ?f"
    using escape_written [OF assms(1) room assms(4)] by blast
  have len: "p + length ?f \<le> length (mem s')" using room assms(4) s'(3) by simp
  have pos: "0 < length ?f" by (simp add: length_escaped_form)
  have at: "mem s' ! p = ?f ! 0" using slice_nth [OF len, of 0 p] pos s'(4) by simp
  show ?thesis
  proof (cases "length ?f = 1")
    case True
    then have c: "32 \<le> cp \<and> cp \<noteq> 0x7F \<and> cp < 0x80 \<and> ?f = [ucast cp]"
      by (auto simp: escaped_form_def format_hex_value split: if_splits option.splits)
    then have "unat cp \<noteq> 127" "unat cp < 128" by (simp_all add: word_unat_eq_iff word_less_nat_alt)
    then have "cp < 0x7F" by (simp add: word_less_nat_alt)
    with c True s' at show ?thesis by simp
  next
    case False
    then have "?f ! 0 = asc CHR 0x5C"
      by (auto simp: length_escaped_form escaped_form_def split: if_splits option.splits)
    moreover have "1 < length ?f" using False pos by linarith
    ultimately show ?thesis
      using False s' at scan_escaped_form [OF s'(4) len _ assms(2)] by simp
  qed
qed

theorem escape_round_trip_witness:
  "\<exists>s'. add_utf8_or_escape_sequence \<lparr>mem = replicate 8 0, buf = Some 1, buf_length = 7\<rparr> 0x20AC = Some (True, s') \<and>
     buf s' = Some 7 \<and> scan_unicode_escape_sequence (mem s') (Some 2) = Some (Some 7, Some 0x20AC)"
proof -
  have "length (escaped_form 0x20AC) = 6" by (simp add: length_escaped_form)
  then show ?thesis
    using escape_round_trip [of "\<lparr>mem = replicate 8 0, buf = Some 1, buf_length = 7\<rparr>" 1 "0x20AC"]
    by (auto simp: MAX_UNICODE_CHAR_def simp flip: numeral_2_eq_2)
qed

text \<open>With \<open>buf_length\<close> exactly six, the escape of a code point between \<open>U+0080\<close> and \<open>U+FFFF\<close> is
  reported as written but its last digit is a null byte, because \<open>snprintf\<close> needs a seventh byte; and
  \<open>buf_length\<close> has grown to twelve, although six bytes have been used up.\<close>

theorem escape_truncated:
  "add_utf8_or_escape_sequence \<lparr>mem = [1, 1, 1, 1, 1, 1], buf = Some 0, buf_length = 6\<rparr> 0x20AC =
     Some (True, \<lparr>mem = [asc CHR 0x5C, asc CHR ''u'', asc CHR ''2'', asc CHR ''0'', asc CHR ''A'', 0],
       buf = Some 6, buf_length = 12\<rparr>)"
proof -
  have "format_hex 4 0x20AC = [asc CHR ''2'', asc CHR ''0'', asc CHR ''A'', asc CHR ''C'']"
    by (simp add: format_hex_def hex_chars.simps hex_char_def)
  then show ?thesis
    by (simp add: add_utf8_or_escape_sequence_def snprintf_def advance_and_return_true_def wr_def)
qed

end
