(* ===== verification/Str_View.thy ===== *)
theory Str_View
  imports Prelude
begin

text \<open>
  \<open>core/text/str_view.h\<close> and \<open>str_view-inline.h\<close>: a view is a pointer and a length. Constructors,
  repositioning, and comparison with C strings and with other views. \<open>strncmp\<close> is the function of the C
  library on \<open>unsigned char\<close>, reduced to its sign.
\<close>

record str_view =
  sv_begin :: "nat option"
  sv_length :: nat

section \<open>Construction\<close>

definition strview_default :: str_view where
  "strview_default = \<lparr> sv_begin = None, sv_length = 0 \<rparr>"

definition assign_range :: "nat option \<Rightarrow> nat \<Rightarrow> str_view" where
  "assign_range bgn e =
     \<lparr> sv_begin = bgn,
       sv_length = (case bgn of None \<Rightarrow> 0 | Some b \<Rightarrow> if b < e then e - b else 0) \<rparr>"

definition assign_length :: "nat option \<Rightarrow> nat \<Rightarrow> str_view" where
  "assign_length bgn len = \<lparr> sv_begin = bgn, sv_length = len \<rparr>"

definition assign_cstr :: "buffer \<Rightarrow> nat option \<Rightarrow> str_view option" where
  "assign_cstr m bgn =
     (case bgn of
        None \<Rightarrow> Some \<lparr> sv_begin = None, sv_length = 0 \<rparr>
      | Some b \<Rightarrow> map_option (\<lambda>n. \<lparr> sv_begin = bgn, sv_length = n \<rparr>) (strlen_from m b))"

definition strview_range :: "nat option \<Rightarrow> nat \<Rightarrow> str_view" where
  "strview_range bgn e = assign_range bgn e"

definition strview_length :: "nat option \<Rightarrow> nat \<Rightarrow> str_view" where
  "strview_length bgn len = \<lparr> sv_begin = bgn, sv_length = len \<rparr>"

definition strview_cstr :: "buffer \<Rightarrow> nat option \<Rightarrow> str_view option" where
  "strview_cstr m bgn = assign_cstr m bgn"

text \<open>From a \<open>std::string\<close>, given by the address of its characters and its size. The overload with a
  length takes the minimum with the member \<open>length\<close>, which is not initialised at that point; its
  indeterminate value is the argument \<open>uninit\<close>.\<close>

definition strview_string :: "nat \<Rightarrow> nat \<Rightarrow> str_view" where
  "strview_string c_str sz = assign_length (Some c_str) sz"

definition strview_string_length :: "nat \<Rightarrow> nat \<Rightarrow> nat \<Rightarrow> nat \<Rightarrow> str_view" where
  "strview_string_length uninit c_str sz len = assign_length (Some c_str) (min uninit sz)"

definition make_null :: "str_view \<Rightarrow> str_view" where
  "make_null v = v\<lparr> sv_begin := None, sv_length := 0 \<rparr>"

section \<open>Repositioning\<close>

text \<open>Pointers compare like addresses, the null pointer below all others.\<close>

definition ptr_less :: "nat option \<Rightarrow> nat option \<Rightarrow> bool" where
  "ptr_less a b = (case b of None \<Rightarrow> False | Some y \<Rightarrow> (case a of None \<Rightarrow> True | Some x \<Rightarrow> x < y))"

definition ptr_diff :: "nat option \<Rightarrow> nat option \<Rightarrow> nat" where
  "ptr_diff a b = (case a of None \<Rightarrow> 0 | Some x \<Rightarrow> (case b of None \<Rightarrow> x | Some y \<Rightarrow> x - y))"

definition begin_at :: "nat option \<Rightarrow> str_view \<Rightarrow> str_view" where
  "begin_at new_begin v =
     (if ptr_less (sv_begin v) new_begin
      then let shortened = ptr_diff new_begin (sv_begin v)
           in v\<lparr> sv_length := (if sv_length v \<le> shortened then 0 else sv_length v - shortened),
                 sv_begin := new_begin \<rparr>
      else if ptr_less new_begin (sv_begin v)
      then v\<lparr> sv_length := (if new_begin \<noteq> None then sv_length v + ptr_diff (sv_begin v) new_begin else 0),
              sv_begin := new_begin \<rparr>
      else v)"

definition end_at :: "nat \<Rightarrow> str_view \<Rightarrow> str_view" where
  "end_at new_end v =
     (case sv_begin v of
        None \<Rightarrow> v
      | Some b \<Rightarrow> v\<lparr> sv_length := (if b \<le> new_end then new_end - b else 0) \<rparr>)"

definition sv_end :: "str_view \<Rightarrow> nat option" where
  "sv_end v = map_option (\<lambda>b. b + sv_length v) (sv_begin v)"

definition is_empty :: "str_view \<Rightarrow> bool" where
  "is_empty v \<longleftrightarrow> sv_length v = 0"

definition is_null :: "str_view \<Rightarrow> bool" where
  "is_null v \<longleftrightarrow> sv_begin v = None"

definition sv_bool :: "str_view \<Rightarrow> bool" where
  "sv_bool v \<longleftrightarrow> \<not> is_empty v"

definition sv_equal :: "str_view \<Rightarrow> str_view \<Rightarrow> bool" where
  "sv_equal v w \<longleftrightarrow> sv_begin v = sv_begin w \<and> sv_length v = sv_length w"

section \<open>Comparison\<close>

fun c_strncmp :: "buffer \<Rightarrow> nat \<Rightarrow> nat \<Rightarrow> nat \<Rightarrow> int option" where
  "c_strncmp m a b 0 = Some 0"
| "c_strncmp m a b (Suc n) = do {
     x \<leftarrow> rd m a;
     y \<leftarrow> rd m b;
     if x \<noteq> y then Some (if y < x then 1 else - 1)
     else if x = 0 then Some 0
     else c_strncmp m (Suc a) (Suc b) n
   }"

definition strcmp_cv :: "buffer \<Rightarrow> nat option \<Rightarrow> str_view \<Rightarrow> int option" where
  "strcmp_cv m a v =
     (case a of
        Some x \<Rightarrow>
          (case sv_begin v of
             Some b \<Rightarrow> do {
               n \<leftarrow> c_strncmp m x b (sv_length v);
               if n = 0 then do { c \<leftarrow> rd m (x + sv_length v); Some (if c \<noteq> 0 then 1 else 0) } else Some n
             }
           | None \<Rightarrow> Some 1)
      | None \<Rightarrow> Some (if \<not> is_null v then - 1 else 0))"

definition strcmp_vc :: "buffer \<Rightarrow> str_view \<Rightarrow> nat option \<Rightarrow> int option" where
  "strcmp_vc m v b =
     (case sv_begin v of
        Some x \<Rightarrow>
          (case b of
             Some y \<Rightarrow> do {
               n \<leftarrow> c_strncmp m x y (sv_length v);
               if n = 0 then do { c \<leftarrow> rd m (y + sv_length v); Some (if c \<noteq> 0 then - 1 else 0) } else Some n
             }
           | None \<Rightarrow> Some 1)
      | None \<Rightarrow> Some (if b \<noteq> None then - 1 else 0))"

text \<open>The difference of two lengths, each cast to \<open>int\<close>; the overflow of the subtraction has no value.\<close>

definition int_difference :: "nat \<Rightarrow> nat \<Rightarrow> int option" where
  "int_difference a b =
     (let d = sint (of_nat a :: 32 word) - sint (of_nat b :: 32 word)
      in if - (2 ^ 31) \<le> d \<and> d < 2 ^ 31 then Some d else None)"

definition strcmp_vv :: "buffer \<Rightarrow> str_view \<Rightarrow> str_view \<Rightarrow> int option" where
  "strcmp_vv m v w =
     (case sv_begin v of
        Some x \<Rightarrow>
          (case sv_begin w of
             Some y \<Rightarrow> do {
               n \<leftarrow> c_strncmp m x y (min (sv_length v) (sv_length w));
               if n = 0 then int_difference (sv_length v) (sv_length w) else Some n
             }
           | None \<Rightarrow> Some 1)
      | None \<Rightarrow> Some (if sv_bool w then - 1 else 0))"

definition strncmp_cv :: "buffer \<Rightarrow> nat option \<Rightarrow> str_view \<Rightarrow> nat \<Rightarrow> int option" where
  "strncmp_cv m a v len =
     (case a of
        Some x \<Rightarrow>
          (case sv_begin v of Some b \<Rightarrow> c_strncmp m x b (min len (sv_length v)) | None \<Rightarrow> Some 1)
      | None \<Rightarrow> Some (if sv_length v \<noteq> 0 then - 1 else 0))"

definition strncmp_vc :: "buffer \<Rightarrow> str_view \<Rightarrow> nat option \<Rightarrow> nat \<Rightarrow> int option" where
  "strncmp_vc m v b len =
     (case sv_begin v of
        Some x \<Rightarrow> (case b of Some y \<Rightarrow> c_strncmp m x y (min len (sv_length v)) | None \<Rightarrow> Some 1)
      | None \<Rightarrow> Some (if b \<noteq> None then - 1 else 0))"

definition strncmp_vv :: "buffer \<Rightarrow> str_view \<Rightarrow> str_view \<Rightarrow> nat \<Rightarrow> int option" where
  "strncmp_vv m v w len =
     (case sv_begin v of
        Some x \<Rightarrow>
          (case sv_begin w of
             Some y \<Rightarrow> c_strncmp m x y (min len (min (sv_length v) (sv_length w)))
           | None \<Rightarrow> Some 1)
      | None \<Rightarrow> Some (if sv_bool w then - 1 else 0))"

section \<open>Lemmas\<close>

text \<open>The text of a view, and the lexicographic order on \<open>unsigned char\<close> that the comparison is to be.\<close>

definition view_text :: "buffer \<Rightarrow> str_view \<Rightarrow> byte list" where
  "view_text m v = (case sv_begin v of None \<Rightarrow> [] | Some b \<Rightarrow> slice m b (b + sv_length v))"

definition view_in :: "buffer \<Rightarrow> str_view \<Rightarrow> bool" where
  "view_in m v = (case sv_begin v of None \<Rightarrow> False | Some b \<Rightarrow> b + sv_length v \<le> length m)"

fun text_order :: "byte list \<Rightarrow> byte list \<Rightarrow> int" where
  "text_order [] [] = 0"
| "text_order [] (y # ys) = - 1"
| "text_order (x # xs) [] = 1"
| "text_order (x # xs) (y # ys) = (if x = y then text_order xs ys else if y < x then 1 else - 1)"

lemma text_order_prefix:
  "text_order (take (min (length xs) (length ys)) xs) (take (min (length xs) (length ys)) ys) = 0 \<Longrightarrow>
     text_order xs ys = sgn (int (length xs) - int (length ys))"
  by (induction xs ys rule: text_order.induct) (auto split: if_splits)

lemma text_order_prefix_nonzero:
  "text_order (take (min (length xs) (length ys)) xs) (take (min (length xs) (length ys)) ys) \<noteq> 0 \<Longrightarrow>
     text_order xs ys = text_order (take (min (length xs) (length ys)) xs) (take (min (length xs) (length ys)) ys)"
  by (induction xs ys rule: text_order.induct) (auto split: if_splits)

lemma text_order_sgn: "sgn (text_order xs ys) = text_order xs ys"
  by (induction xs ys rule: text_order.induct) auto

lemma c_strncmp_text_order:
  assumes "a + n \<le> length m" and "b + n \<le> length m" and "0 \<notin> set (slice m a (a + n))"
  shows "c_strncmp m a b n = Some (text_order (slice m a (a + n)) (slice m b (b + n)))"
  using assms
proof (induction n arbitrary: a b)
  case 0
  then show ?case by simp
next
  case (Suc n)
  then have sl: "slice m a (a + Suc n) = m ! a # slice m (Suc a) (Suc a + n)"
      "slice m b (b + Suc n) = m ! b # slice m (Suc b) (Suc b + n)"
    by (simp_all add: slice_Cons)
  with Suc.prems Suc.IH [of "Suc a" "Suc b"] show ?case by auto
qed

lemma sint_length: "n < 2 ^ 31 \<Longrightarrow> sint (of_nat n :: 32 word) = int n"
  by (simp add: sint_uint uint_nat unat_of_nat signed_take_bit_int_eq_self)

lemma int_difference_short:
  assumes "a < 2 ^ 31" "b < 2 ^ 31"
  shows "int_difference a b = Some (int a - int b)"
  using assms by (simp add: int_difference_def sint_length)

lemma take_slice: "k \<le> e - p \<Longrightarrow> take k (slice m p e) = slice m p (p + k)"
  by (simp add: slice_def min_def)

section \<open>Properties\<close>

text \<open>C23: on views of less than \<open>2 ^ 31\<close> characters that lie in memory and hold no null character, \<open>strcmp\<close> of two
  views has the sign of the lexicographic comparison of their texts. Without the bound the cast of the lengths to
  \<open>int\<close> loses the sign (\<open>strcmp_long_views\<close>).\<close>

theorem strcmp_views:
  assumes "view_in m v" and "view_in m w" and "0 \<notin> set (view_text m v)" and "0 \<notin> set (view_text m w)"
    and "sv_length v < 2 ^ 31" and "sv_length w < 2 ^ 31"
  shows "map_option sgn (strcmp_vv m v w) = Some (text_order (view_text m v) (view_text m w))"
proof -
  obtain x y where b: "sv_begin v = Some x" "sv_begin w = Some y"
    using assms(1,2) by (auto simp: view_in_def split: option.splits)
  let ?n = "min (sv_length v) (sv_length w)"
  have le: "x + sv_length v \<le> length m" "y + sv_length w \<le> length m"
    using assms(1,2) b by (simp_all add: view_in_def)
  have t: "view_text m v = slice m x (x + sv_length v)" "view_text m w = slice m y (y + sv_length w)"
    by (simp_all add: view_text_def b)
  then have len: "min (length (view_text m v)) (length (view_text m w)) = ?n" using le by simp
  have pre: "slice m x (x + ?n) = take ?n (view_text m v)" "slice m y (y + ?n) = take ?n (view_text m w)"
    unfolding t by (simp_all add: take_slice)
  have "0 \<notin> set (slice m x (x + ?n))" unfolding pre using assms(3) by (meson in_set_takeD)
  from c_strncmp_text_order [OF _ _ this, of y] le
  have c: "c_strncmp m x y ?n = Some (text_order (take ?n (view_text m v)) (take ?n (view_text m w)))"
    by (simp add: pre)
  show ?thesis
    using text_order_prefix [of "view_text m v" "view_text m w"]
      text_order_prefix_nonzero [of "view_text m v" "view_text m w"] c b t le
    unfolding len by (auto simp: strcmp_vv_def text_order_sgn int_difference_short [OF assms(5,6)])
qed

theorem strcmp_views_witness:
  "map_option sgn (strcmp_vv (lit ''abcabd'') \<lparr> sv_begin = Some 0, sv_length = 3 \<rparr> \<lparr> sv_begin = Some 3, sv_length = 3 \<rparr>) =
     Some (text_order (view_text (lit ''abcabd'') \<lparr> sv_begin = Some 0, sv_length = 3 \<rparr>)
       (view_text (lit ''abcabd'') \<lparr> sv_begin = Some 3, sv_length = 3 \<rparr>))"
  by (rule strcmp_views) (simp_all add: view_in_def view_text_def slice_def)

text \<open>A view of \<open>2 ^ 32\<close> characters compares equal to an empty one.\<close>

lemma strcmp_long_views:
  "strcmp_vv m \<lparr> sv_begin = Some p, sv_length = 2 ^ 32 \<rparr> \<lparr> sv_begin = Some q, sv_length = 0 \<rparr> = Some 0"
  by (simp add: strcmp_vv_def int_difference_def)

text \<open>Moving an end of a view moves only that end. \<open>end_at\<close> keeps the beginning and puts the end at
  the new position, or at the beginning if that is later; \<open>begin_at\<close> puts the beginning at the new
  position and keeps the end, or moves it along if the new beginning is behind it.\<close>

theorem reposition_view:
  assumes "sv_begin v = Some b" and "sv_end v = Some e"
  shows "sv_begin (end_at p v) = Some b \<and> sv_end (end_at p v) = Some (max b p) \<and>
     sv_begin (begin_at (Some p) v) = Some p \<and> sv_end (begin_at (Some p) v) = Some (max p e)"
  using assms by (auto simp: end_at_def begin_at_def sv_end_def ptr_less_def ptr_diff_def Let_def)

theorem reposition_view_witness:
  "sv_end (end_at 7 \<lparr> sv_begin = Some 3, sv_length = 2 \<rparr>) = Some (max 3 7)"
proof -
  have "sv_begin \<lparr> sv_begin = Some 3, sv_length = 2 \<rparr> = Some 3" "sv_end \<lparr> sv_begin = Some 3, sv_length = 2 \<rparr> = Some 5"
    by (simp_all add: sv_end_def)
  from reposition_view [OF this, of 7] show ?thesis by blast
qed

text \<open>Comparing a null view with an empty view gives equality in one direction and a difference in
  the other, and the view built from a string and a length depends on an uninitialised member, not on
  the length.\<close>

theorem view_divergences:
  "strcmp_vv m strview_default \<lparr> sv_begin = Some 0, sv_length = 0 \<rparr> = Some 0 \<and>
   strcmp_vv m \<lparr> sv_begin = Some 0, sv_length = 0 \<rparr> strview_default = Some 1 \<and>
   strview_string_length uninit p n len = strview_string_length uninit p n len'"
  by (simp add: strcmp_vv_def strview_default_def sv_bool_def is_empty_def strview_string_length_def)

end
