(* ===== verification/Token_Type.thy ===== *)
theory Token_Type
  imports Strutil
begin

text \<open>
  \<open>lang/token_type.h\<close>, \<open>token_type-inline.h\<close>, \<open>token_type.cpp\<close>, \<open>issue.h\<close> and \<open>issue.cpp\<close>: the enumerators of
  \<open>token_type\<close> and \<open>issue_id\<close>, the tables that the preprocessor builds from \<open>token_type.tuples\<close>,
  \<open>operator.tuples\<close> and \<open>issue.tuples\<close>, and the searches in them.

  The tables are interpretations of the locale \<open>sorted_table\<close>, so a search by number finds exactly the
  entry with that number when there is one.
\<close>

type_synonym token_type = u32
type_synonym issue_id = u32

named_theorems tt_defs "values of the enumerators"

datatype operator_associativity = oa_left_to_right | oa_right_to_left

section \<open>The tuples\<close>

definition token_type_tuples :: "(u32 \<times> string \<times> byte list \<times> byte list) list" where
  "token_type_tuples =
    [(0x0, ''none'', [], lit ''placeholder or uninitialized token value''),
     (0x1, ''error'', lit ''<error>'', lit ''represents a tokenization error, typically caused by invalid syntax''),
     (0x2, ''indent'', [9], lit ''increase nesting''),
     (0x3, ''dedent'', [8], lit ''decrease nesting''),
     (0x4, ''line_break'', [10], lit ''separate one line from another''),
     (0x5, ''soft_break'', lit ''... '', lit ''continue current statement on new line''),
     (0x6, ''noun'', lit ''foo'', []),
     (0x7, ''verb'', lit ''Do something'', []),
     (0x1000, ''keyword_mask'', [], []),
     (0x1001, ''if'', lit ''if'', []),
     (0x1002, ''else'', lit ''else'', []),
     (0x1003, ''end'', lit ''end'', lit ''assert end of block''),
     (0x1004, ''while'', lit ''while'', []),
     (0x1005, ''handle'', lit ''handle'', []),
     (0x1006, ''when'', lit ''when'', []),
     (0x1007, ''try'', lit ''try'', []),
     (0x1008, ''catch'', lit ''catch'', []),
     (0x1009, ''finally'', lit ''finally'', []),
     (0x100A, ''return'', lit ''return'', []),
     (0x2000, ''literal_mask'', [], []),
     (0x2100, ''number_literal_mask'', [], []),
     (0x2101, ''binary_number'', lit ''0b0111001'', []),
     (0x2102, ''decimal_number'', lit ''42'', []),
     (0x2103, ''hex_number'', lit ''0xdeadbeef'', []),
     (0x2104, ''octal_number'', lit ''033'', []),
     (0x2105, ''floating_point_number'', lit ''3.14159'', []),
     (0x2200, ''string_literal_mask'', [], []),
     (0x2201, ''quoted_string'', [34, 97, 98, 99, 34], []),
     (0x2202, ''char_literal'', [], []),
     (0x2203, ''regex'', [], []),
     (0x2400, ''date_literal_mask'', [], []),
     (0x2401, ''iso8601_date'', lit ''2014-06-12 8:25:00.12345Z'', []),
     (0x2402, ''epoch_date'', lit ''1970+23y4m2d'', []),
     (0x2403, ''duration'', lit ''5h3m2s'', []),
     (0x4000, ''comment_mask'', [], []),
     (0x4001, ''comment'', lit ''#'', []),
     (0x4002, ''doc_comment'', lit ''###'', []),
     (0x4003, ''heredoc'', [], []),
     (0x4004, ''explanation'', [], []),
     (0x8000, ''operator_mask'', [], [])]"

definition operator_tuples ::
  "(u32 \<times> int \<times> operator_associativity \<times> string \<times> byte list \<times> byte list) list" where
  "operator_tuples =
    [(0x101, 1, oa_left_to_right, ''paren'', lit ''('', lit ''group''),
     (0x102, 1, oa_left_to_right, ''close_paren'', lit '')'', lit ''ungroup''),
     (0x103, 1, oa_left_to_right, ''dot'', lit ''.'', lit ''navigate a namespace''),
     (0x104, 1, oa_left_to_right, ''safe_dot'', lit ''?.'', lit ''navigate a possibly null namespace''),
     (0x105, 1, oa_left_to_right, ''spread'', lit ''*.'', lit ''spread across all members of a container''),
     (0x110, 1, oa_left_to_right, ''brace'', lit ''['', lit ''subscript''),
     (0x111, 1, oa_left_to_right, ''safe_subscript'', lit ''?['', lit ''subscript on a possibly null container''),
     (0x112, 1, oa_left_to_right, ''safe_empty'', lit ''[?'', lit ''subscript in a possibly empty container''),
     (0x113, 1, oa_left_to_right, ''safe_subscript_safe_empty'', lit ''?[?'', lit ''subscript in a possibly null, possibly empty container''),
     (0x114, 1, oa_left_to_right, ''close_brace'', lit '']'', lit ''end of subscript''),
     (0x201, 2, oa_right_to_left, ''positive_mark'', lit ''+<'', lit ''positive mark''),
     (0x202, 2, oa_right_to_left, ''negative_mark'', lit ''-<'', lit ''negative mark''),
     (0x203, 2, oa_right_to_left, ''double_positive_mark'', lit ''++<'', lit ''double positive mark''),
     (0x204, 2, oa_right_to_left, ''double_negative_mark'', lit ''--<'', lit ''double negative mark''),
     (0x210, 2, oa_right_to_left, ''bit_not'', lit ''~'', lit ''bitwise not''),
     (0x211, 2, oa_right_to_left, ''bool_not'', lit ''!'', lit ''logical not''),
     (0x401, 4, oa_left_to_right, ''star'', lit ''*'', lit ''multiply''),
     (0x402, 4, oa_left_to_right, ''slash'', lit ''/'', lit ''divide''),
     (0x403, 4, oa_left_to_right, ''mod'', lit ''%'', lit ''remainder''),
     (0x501, 5, oa_left_to_right, ''plus'', lit ''+'', lit ''add''),
     (0x502, 5, oa_left_to_right, ''minus'', lit ''-'', lit ''subtract''),
     (0x503, 5, oa_left_to_right, ''increment'', lit ''++'', lit ''increment''),
     (0x504, 5, oa_left_to_right, ''decrement'', lit ''--'', lit ''decrement''),
     (0x601, 6, oa_left_to_right, ''lshift'', lit ''<<'', lit ''shift left''),
     (0x602, 6, oa_left_to_right, ''rshift'', lit ''>>'', lit ''shift right''),
     (0x603, 6, oa_left_to_right, ''unsigned_rshift'', lit ''>>>'', lit ''unsigned shift right''),
     (0x701, 7, oa_left_to_right, ''greater'', lit ''>'', lit ''greater than''),
     (0x702, 7, oa_left_to_right, ''less'', lit ''<'', lit ''less than''),
     (0x703, 7, oa_left_to_right, ''greater_equal'', lit ''>='', lit ''greater than or equal to''),
     (0x704, 7, oa_left_to_right, ''less_equal'', lit ''<='', lit ''less than or equal to''),
     (0x710, 7, oa_left_to_right, ''instance_of'', lit ''::'', lit ''is an instance of''),
     (0x801, 8, oa_left_to_right, ''bool_equal'', lit ''=='', lit ''test equality''),
     (0x802, 8, oa_left_to_right, ''not_equal'', lit ''!='', lit ''test non-equality''),
     (0x810, 8, oa_left_to_right, ''spaceship'', lit ''<=>'', lit ''compare -1 0 or 1''),
     (0x811, 8, oa_left_to_right, ''qspaceship'', lit ''?<=>'', lit ''compare tolerating null; nulls sort first''),
     (0x812, 8, oa_left_to_right, ''spaceshipq'', lit ''<=>?'', lit ''compare tolerating null; nulls sort last''),
     (0x820, 8, oa_left_to_right, ''in'', lit ''-['', lit ''in (test set membership)''),
     (0x821, 8, oa_left_to_right, ''not_in'', lit ''!-['', lit ''not in (negate set membership)''),
     (0x901, 9, oa_left_to_right, ''bit_and'', lit ''&'', lit ''bitwise and''),
     (0xA01, 10, oa_left_to_right, ''bit_xor'', lit ''^'', lit ''bitwise xor''),
     (0xB01, 11, oa_left_to_right, ''bit_or'', lit ''|'', lit ''bitwise or''),
     (0xC01, 12, oa_left_to_right, ''bool_and'', lit ''&&'', lit ''boolean and''),
     (0xD01, 13, oa_left_to_right, ''bool_or'', lit ''||'', lit ''boolean or''),
     (0xE01, 14, oa_right_to_left, ''ternary'', lit ''?'', lit ''if ... else ...''),
     (0xE02, 14, oa_right_to_left, ''elvis'', lit ''?:'', lit ''collapse ternary operator''),
     (0xF01, 15, oa_right_to_left, ''colon'', lit '':'', lit ''define''),
     (0xF02, 15, oa_right_to_left, ''gets'', lit '':='', lit ''define and assign''),
     (0xF03, 15, oa_right_to_left, ''assign_equals'', lit ''='', lit ''assignment''),
     (0xF20, 15, oa_right_to_left, ''plus_equals'', lit ''+='', lit ''increment''),
     (0xF21, 15, oa_right_to_left, ''minus_equals'', lit ''-='', lit ''decrement''),
     (0xF22, 15, oa_right_to_left, ''times_equals'', lit ''*='', lit ''times equals''),
     (0xF23, 15, oa_right_to_left, ''divide_equals'', lit ''/='', lit ''divide equals''),
     (0xF24, 15, oa_right_to_left, ''mod_equals'', lit ''%='', lit ''remainder equals''),
     (0xF25, 15, oa_right_to_left, ''bit_and_equals'', lit ''&='', lit ''bitwise and''),
     (0xF26, 15, oa_right_to_left, ''bit_xor_equals'', lit ''^='', lit ''bitwise xor''),
     (0xF27, 15, oa_right_to_left, ''bit_or_equals'', lit ''|='', lit ''bitwise or''),
     (0xF28, 15, oa_right_to_left, ''lshift_equals'', lit ''<<='', lit ''shift left and assign''),
     (0xF29, 15, oa_right_to_left, ''rshift_equals'', lit ''>>='', lit ''shift right and assign''),
     (0xFFF, 15, oa_left_to_right, ''comma'', lit '','', lit ''sequence'')]"

definition issue_tuples :: "(u32 \<times> string \<times> byte list) list" where
  "issue_tuples =
    [(1, ''unterminated_string_literal'', lit ''String literal ends without a closing quote.''),
     (2, ''unexpected_continuation'', lit ''It makes no sense for a line continuation to appear here.'')]"

section \<open>The enumerators\<close>

definition tt_none :: token_type where [tt_defs]: "tt_none = 0x0"
definition tt_error :: token_type where [tt_defs]: "tt_error = 0x1"
definition tt_indent :: token_type where [tt_defs]: "tt_indent = 0x2"
definition tt_dedent :: token_type where [tt_defs]: "tt_dedent = 0x3"
definition tt_line_break :: token_type where [tt_defs]: "tt_line_break = 0x4"
definition tt_soft_break :: token_type where [tt_defs]: "tt_soft_break = 0x5"
definition tt_noun :: token_type where [tt_defs]: "tt_noun = 0x6"
definition tt_verb :: token_type where [tt_defs]: "tt_verb = 0x7"
definition tt_keyword_mask :: token_type where [tt_defs]: "tt_keyword_mask = 0x1000"
definition tt_if :: token_type where [tt_defs]: "tt_if = 0x1001"
definition tt_else :: token_type where [tt_defs]: "tt_else = 0x1002"
definition tt_end :: token_type where [tt_defs]: "tt_end = 0x1003"
definition tt_while :: token_type where [tt_defs]: "tt_while = 0x1004"
definition tt_handle :: token_type where [tt_defs]: "tt_handle = 0x1005"
definition tt_when :: token_type where [tt_defs]: "tt_when = 0x1006"
definition tt_try :: token_type where [tt_defs]: "tt_try = 0x1007"
definition tt_catch :: token_type where [tt_defs]: "tt_catch = 0x1008"
definition tt_finally :: token_type where [tt_defs]: "tt_finally = 0x1009"
definition tt_return :: token_type where [tt_defs]: "tt_return = 0x100A"
definition tt_literal_mask :: token_type where [tt_defs]: "tt_literal_mask = 0x2000"
definition tt_number_literal_mask :: token_type where [tt_defs]: "tt_number_literal_mask = 0x2100"
definition tt_binary_number :: token_type where [tt_defs]: "tt_binary_number = 0x2101"
definition tt_decimal_number :: token_type where [tt_defs]: "tt_decimal_number = 0x2102"
definition tt_hex_number :: token_type where [tt_defs]: "tt_hex_number = 0x2103"
definition tt_octal_number :: token_type where [tt_defs]: "tt_octal_number = 0x2104"
definition tt_floating_point_number :: token_type where [tt_defs]: "tt_floating_point_number = 0x2105"
definition tt_string_literal_mask :: token_type where [tt_defs]: "tt_string_literal_mask = 0x2200"
definition tt_quoted_string :: token_type where [tt_defs]: "tt_quoted_string = 0x2201"
definition tt_char_literal :: token_type where [tt_defs]: "tt_char_literal = 0x2202"
definition tt_regex :: token_type where [tt_defs]: "tt_regex = 0x2203"
definition tt_date_literal_mask :: token_type where [tt_defs]: "tt_date_literal_mask = 0x2400"
definition tt_iso8601_date :: token_type where [tt_defs]: "tt_iso8601_date = 0x2401"
definition tt_epoch_date :: token_type where [tt_defs]: "tt_epoch_date = 0x2402"
definition tt_duration :: token_type where [tt_defs]: "tt_duration = 0x2403"
definition tt_comment_mask :: token_type where [tt_defs]: "tt_comment_mask = 0x4000"
definition tt_comment :: token_type where [tt_defs]: "tt_comment = 0x4001"
definition tt_doc_comment :: token_type where [tt_defs]: "tt_doc_comment = 0x4002"
definition tt_heredoc :: token_type where [tt_defs]: "tt_heredoc = 0x4003"
definition tt_explanation :: token_type where [tt_defs]: "tt_explanation = 0x4004"
definition tt_operator_mask :: token_type where [tt_defs]: "tt_operator_mask = 0x8000"
definition tt_operator_paren :: token_type where [tt_defs]: "tt_operator_paren = 0x8101"
definition tt_operator_close_paren :: token_type where [tt_defs]: "tt_operator_close_paren = 0x8102"
definition tt_operator_dot :: token_type where [tt_defs]: "tt_operator_dot = 0x8103"
definition tt_operator_safe_dot :: token_type where [tt_defs]: "tt_operator_safe_dot = 0x8104"
definition tt_operator_spread :: token_type where [tt_defs]: "tt_operator_spread = 0x8105"
definition tt_operator_brace :: token_type where [tt_defs]: "tt_operator_brace = 0x8110"
definition tt_operator_safe_subscript :: token_type where [tt_defs]: "tt_operator_safe_subscript = 0x8111"
definition tt_operator_safe_empty :: token_type where [tt_defs]: "tt_operator_safe_empty = 0x8112"
definition tt_operator_safe_subscript_safe_empty :: token_type where [tt_defs]: "tt_operator_safe_subscript_safe_empty = 0x8113"
definition tt_operator_close_brace :: token_type where [tt_defs]: "tt_operator_close_brace = 0x8114"
definition tt_operator_positive_mark :: token_type where [tt_defs]: "tt_operator_positive_mark = 0x8201"
definition tt_operator_negative_mark :: token_type where [tt_defs]: "tt_operator_negative_mark = 0x8202"
definition tt_operator_double_positive_mark :: token_type where [tt_defs]: "tt_operator_double_positive_mark = 0x8203"
definition tt_operator_double_negative_mark :: token_type where [tt_defs]: "tt_operator_double_negative_mark = 0x8204"
definition tt_operator_bit_not :: token_type where [tt_defs]: "tt_operator_bit_not = 0x8210"
definition tt_operator_bool_not :: token_type where [tt_defs]: "tt_operator_bool_not = 0x8211"
definition tt_operator_star :: token_type where [tt_defs]: "tt_operator_star = 0x8401"
definition tt_operator_slash :: token_type where [tt_defs]: "tt_operator_slash = 0x8402"
definition tt_operator_mod :: token_type where [tt_defs]: "tt_operator_mod = 0x8403"
definition tt_operator_plus :: token_type where [tt_defs]: "tt_operator_plus = 0x8501"
definition tt_operator_minus :: token_type where [tt_defs]: "tt_operator_minus = 0x8502"
definition tt_operator_increment :: token_type where [tt_defs]: "tt_operator_increment = 0x8503"
definition tt_operator_decrement :: token_type where [tt_defs]: "tt_operator_decrement = 0x8504"
definition tt_operator_lshift :: token_type where [tt_defs]: "tt_operator_lshift = 0x8601"
definition tt_operator_rshift :: token_type where [tt_defs]: "tt_operator_rshift = 0x8602"
definition tt_operator_unsigned_rshift :: token_type where [tt_defs]: "tt_operator_unsigned_rshift = 0x8603"
definition tt_operator_greater :: token_type where [tt_defs]: "tt_operator_greater = 0x8701"
definition tt_operator_less :: token_type where [tt_defs]: "tt_operator_less = 0x8702"
definition tt_operator_greater_equal :: token_type where [tt_defs]: "tt_operator_greater_equal = 0x8703"
definition tt_operator_less_equal :: token_type where [tt_defs]: "tt_operator_less_equal = 0x8704"
definition tt_operator_instance_of :: token_type where [tt_defs]: "tt_operator_instance_of = 0x8710"
definition tt_operator_bool_equal :: token_type where [tt_defs]: "tt_operator_bool_equal = 0x8801"
definition tt_operator_not_equal :: token_type where [tt_defs]: "tt_operator_not_equal = 0x8802"
definition tt_operator_spaceship :: token_type where [tt_defs]: "tt_operator_spaceship = 0x8810"
definition tt_operator_qspaceship :: token_type where [tt_defs]: "tt_operator_qspaceship = 0x8811"
definition tt_operator_spaceshipq :: token_type where [tt_defs]: "tt_operator_spaceshipq = 0x8812"
definition tt_operator_in :: token_type where [tt_defs]: "tt_operator_in = 0x8820"
definition tt_operator_not_in :: token_type where [tt_defs]: "tt_operator_not_in = 0x8821"
definition tt_operator_bit_and :: token_type where [tt_defs]: "tt_operator_bit_and = 0x8901"
definition tt_operator_bit_xor :: token_type where [tt_defs]: "tt_operator_bit_xor = 0x8A01"
definition tt_operator_bit_or :: token_type where [tt_defs]: "tt_operator_bit_or = 0x8B01"
definition tt_operator_bool_and :: token_type where [tt_defs]: "tt_operator_bool_and = 0x8C01"
definition tt_operator_bool_or :: token_type where [tt_defs]: "tt_operator_bool_or = 0x8D01"
definition tt_operator_ternary :: token_type where [tt_defs]: "tt_operator_ternary = 0x8E01"
definition tt_operator_elvis :: token_type where [tt_defs]: "tt_operator_elvis = 0x8E02"
definition tt_operator_colon :: token_type where [tt_defs]: "tt_operator_colon = 0x8F01"
definition tt_operator_gets :: token_type where [tt_defs]: "tt_operator_gets = 0x8F02"
definition tt_operator_assign_equals :: token_type where [tt_defs]: "tt_operator_assign_equals = 0x8F03"
definition tt_operator_plus_equals :: token_type where [tt_defs]: "tt_operator_plus_equals = 0x8F20"
definition tt_operator_minus_equals :: token_type where [tt_defs]: "tt_operator_minus_equals = 0x8F21"
definition tt_operator_times_equals :: token_type where [tt_defs]: "tt_operator_times_equals = 0x8F22"
definition tt_operator_divide_equals :: token_type where [tt_defs]: "tt_operator_divide_equals = 0x8F23"
definition tt_operator_mod_equals :: token_type where [tt_defs]: "tt_operator_mod_equals = 0x8F24"
definition tt_operator_bit_and_equals :: token_type where [tt_defs]: "tt_operator_bit_and_equals = 0x8F25"
definition tt_operator_bit_xor_equals :: token_type where [tt_defs]: "tt_operator_bit_xor_equals = 0x8F26"
definition tt_operator_bit_or_equals :: token_type where [tt_defs]: "tt_operator_bit_or_equals = 0x8F27"
definition tt_operator_lshift_equals :: token_type where [tt_defs]: "tt_operator_lshift_equals = 0x8F28"
definition tt_operator_rshift_equals :: token_type where [tt_defs]: "tt_operator_rshift_equals = 0x8F29"
definition tt_operator_comma :: token_type where [tt_defs]: "tt_operator_comma = 0x8FFF"

definition ii_none :: issue_id where [tt_defs]: "ii_none = 0"
definition ii_unterminated_string_literal :: issue_id where [tt_defs]: "ii_unterminated_string_literal = 1"
definition ii_unexpected_continuation :: issue_id where [tt_defs]: "ii_unexpected_continuation = 2"

section \<open>Classification\<close>

definition is_comment :: "token_type \<Rightarrow> bool" where
  "is_comment tt \<longleftrightarrow> tt AND tt_comment_mask = tt_comment_mask"

definition is_literal :: "token_type \<Rightarrow> bool" where
  "is_literal tt \<longleftrightarrow> tt AND tt_literal_mask = tt_literal_mask"

definition is_number_literal :: "token_type \<Rightarrow> bool" where
  "is_number_literal tt \<longleftrightarrow> tt AND tt_number_literal_mask = tt_number_literal_mask"

definition is_string_literal :: "token_type \<Rightarrow> bool" where
  "is_string_literal tt \<longleftrightarrow> tt AND tt_string_literal_mask = tt_string_literal_mask"

definition is_date_literal :: "token_type \<Rightarrow> bool" where
  "is_date_literal tt \<longleftrightarrow> tt AND tt_date_literal_mask = tt_date_literal_mask"

definition is_operator :: "token_type \<Rightarrow> bool" where
  "is_operator tt \<longleftrightarrow> tt AND tt_operator_mask = tt_operator_mask"

section \<open>The tables\<close>

record token_type_info =
  tti_name :: "byte list"
  tti_number :: token_type
  tti_example :: "byte list"
  tti_comment :: "byte list"

record operator_info =
  oi_number :: token_type
  oi_precedence :: int
  oi_associativity :: operator_associativity

record issue_info =
  iss_id :: issue_id
  iss_name :: "byte list"
  iss_msg :: "byte list"

definition tt_infos :: "token_type_info list" where
  "tt_infos =
     map (\<lambda>(number, name, example, comment).
       \<lparr> tti_name = lit (''tt_'' @ name), tti_number = number, tti_example = example, tti_comment = comment \<rparr>)
       token_type_tuples @
     map (\<lambda>(number, prec, assoc, name, example, comment).
       \<lparr> tti_name = lit (''tt_operator_'' @ name), tti_number = 0x8000 OR number, tti_example = example,
         tti_comment = comment \<rparr>)
       operator_tuples"

definition op_infos :: "operator_info list" where
  "op_infos =
     map (\<lambda>(number, prec, assoc, name, example, comment).
       \<lparr> oi_number = 0x8000 OR number, oi_precedence = prec, oi_associativity = assoc \<rparr>) operator_tuples"

definition issue_infos :: "issue_info list" where
  "issue_infos =
     map (\<lambda>(number, name, msg). \<lparr> iss_id = number, iss_name = lit (''ii_'' @ name), iss_msg = msg \<rparr>) issue_tuples"

section \<open>Operations\<close>

definition get_token_type_count :: nat where
  "get_token_type_count = length tt_infos"

definition get_token_type_by_index :: "nat \<Rightarrow> token_type" where
  "get_token_type_by_index i = (if i < get_token_type_count then tti_number (tt_infos ! i) else tt_none)"

text \<open>The linear search by name: a null or empty name is not searched.\<close>

fun find_name :: "('e \<Rightarrow> byte list) \<Rightarrow> 'e list \<Rightarrow> byte list \<Rightarrow> 'e option" where
  "find_name nm [] name = None"
| "find_name nm (x # xs) name = (if nm x = name then Some x else find_name nm xs name)"

definition get_token_type_from_name :: "byte list option \<Rightarrow> token_type" where
  "get_token_type_from_name name =
     (case name of
        None \<Rightarrow> tt_none
      | Some s \<Rightarrow>
          if s = [] then tt_none
          else (case find_name tti_name tt_infos s of Some i \<Rightarrow> tti_number i | None \<Rightarrow> tt_none))"

definition find_tt_info :: "token_type \<Rightarrow> nat" where
  "find_tt_info tt = lower_bound (\<lambda>tti tt. tti_number tti < tt) tt_infos tt"

definition get_token_type_name :: "token_type \<Rightarrow> byte list option" where
  "get_token_type_name tt =
     (let i = find_tt_info tt in if i \<noteq> length tt_infos then Some (tti_name (tt_infos ! i)) else None)"

definition get_token_type_example :: "token_type \<Rightarrow> byte list option" where
  "get_token_type_example tt =
     (let i = find_tt_info tt in if i \<noteq> length tt_infos then Some (tti_example (tt_infos ! i)) else None)"

definition get_token_type_comment :: "token_type \<Rightarrow> byte list option" where
  "get_token_type_comment tt =
     (let i = find_tt_info tt in if i \<noteq> length tt_infos then Some (tti_comment (tt_infos ! i)) else None)"

definition find_op_info :: "token_type \<Rightarrow> nat" where
  "find_op_info tt = lower_bound (\<lambda>oi tt. oi_number oi < tt) op_infos tt"

definition get_operator_precedence :: "token_type \<Rightarrow> int" where
  "get_operator_precedence tt =
     (let i = find_op_info tt in if i \<noteq> length op_infos then oi_precedence (op_infos ! i) else 100)"

definition get_operator_associativity :: "token_type \<Rightarrow> operator_associativity" where
  "get_operator_associativity tt =
     (let i = find_op_info tt
      in if i \<noteq> length op_infos then oi_associativity (op_infos ! i) else oa_left_to_right)"

definition get_issue_count :: nat where
  "get_issue_count = length issue_infos"

definition get_issue_id_by_index :: "nat \<Rightarrow> issue_id" where
  "get_issue_id_by_index i = (if i < get_issue_count then iss_id (issue_infos ! i) else ii_none)"

definition get_issue_id_from_name :: "byte list option \<Rightarrow> issue_id" where
  "get_issue_id_from_name name =
     (case name of
        None \<Rightarrow> ii_none
      | Some s \<Rightarrow>
          if s = [] then ii_none
          else (case find_name iss_name issue_infos s of Some i \<Rightarrow> iss_id i | None \<Rightarrow> ii_none))"

definition find_issue :: "issue_id \<Rightarrow> nat" where
  "find_issue iid = lower_bound (\<lambda>ii i. iss_id ii < i) issue_infos iid"

definition get_issue_name :: "issue_id \<Rightarrow> byte list option" where
  "get_issue_name iid =
     (let i = find_issue iid in if i \<noteq> length issue_infos then Some (iss_name (issue_infos ! i)) else None)"

definition get_issue_msg :: "issue_id \<Rightarrow> byte list option" where
  "get_issue_msg iid =
     (let i = find_issue iid in if i \<noteq> length issue_infos then Some (iss_msg (issue_infos ! i)) else None)"

section \<open>Lemmas\<close>

lemma tt_numbers: "map tti_number tt_infos =
    map fst token_type_tuples @ map (\<lambda>t. 0x8000 OR fst t) operator_tuples"
  by (simp add: tt_infos_def case_prod_beta)

lemma op_numbers: "map oi_number op_infos = map (\<lambda>t. 0x8000 OR fst t) operator_tuples"
  by (simp add: op_infos_def case_prod_beta)

lemmas tuple_projections = token_type_tuples_def operator_tuples_def list.map fst_conv snd_conv append.simps

lemma tt_numbers_successive: "successively (<) (map tti_number tt_infos)"
  unfolding tt_numbers by (simp only: tuple_projections) code_simp

lemma op_numbers_successive: "successively (<) (map oi_number op_infos)"
  unfolding op_numbers by (simp only: tuple_projections) code_simp

lemma tuple_names_distinct:
  "distinct (map (\<lambda>t. fst (snd t)) token_type_tuples)"
  "distinct (map (\<lambda>t. fst (snd (snd (snd t)))) operator_tuples)"
  by (simp_all only: tuple_projections; code_simp)+

lemma unat_of_char: "unat (of_char c :: byte) = of_char c"
proof -
  have "unat (of_nat (of_char c) :: byte) = of_char c mod 2 ^ 8" by (simp only: unat_of_nat) simp
  then have "unat (of_nat (of_char c) :: byte) = of_char c" by simp
  then show ?thesis by (simp only: of_nat_of_char)
qed

lemma lit_inj: "lit s = lit t \<longleftrightarrow> s = t"
  by (rule inj_map_eq_map) (metis injI of_char_eq_iff unat_of_char)

text \<open>No name of the first group starts with \<open>operator_\<close> and continues like a name of the second one:
  the only candidate is \<open>operator_mask\<close>.\<close>

lemma tt_names: "map tti_name tt_infos =
    map lit (map (\<lambda>t. ''tt_'' @ fst (snd t)) token_type_tuples @
      map (\<lambda>t. ''tt_operator_'' @ fst (snd (snd (snd t)))) operator_tuples)"
  by (simp add: tt_infos_def case_prod_beta)

lemma no_operator_prefix:
  "list_all (\<lambda>t. take 9 (fst (snd t)) = ''operator_'' \<longrightarrow> fst (snd t) = ''operator_mask'') token_type_tuples"
  "list_all (\<lambda>t. fst (snd (snd (snd t))) \<noteq> ''mask'') operator_tuples"
  by (simp_all only: tuple_projections; code_simp)+

lemma tt_names_distinct: "distinct (map tti_name tt_infos)"
proof -
  have "''tt_'' @ fst (snd t) \<noteq> ''tt_operator_'' @ fst (snd (snd (snd u)))"
    if "t \<in> set token_type_tuples" "u \<in> set operator_tuples" for t u
  proof
    assume "''tt_'' @ fst (snd t) = ''tt_operator_'' @ fst (snd (snd (snd u)))"
    then have eq: "fst (snd t) = ''operator_'' @ fst (snd (snd (snd u)))" by simp
    with no_operator_prefix(1) that(1) have "fst (snd t) = ''operator_mask''" by (auto simp: list_all_iff)
    with eq have "fst (snd (snd (snd u))) = ''mask''" by simp
    with no_operator_prefix(2) that(2) show False by (auto simp: list_all_iff)
  qed
  then have "distinct (map (\<lambda>t. ''tt_'' @ fst (snd t)) token_type_tuples @
      map (\<lambda>t. ''tt_operator_'' @ fst (snd (snd (snd t)))) operator_tuples)"
    using tuple_names_distinct by (auto simp: distinct_map inj_on_def)
  then show ?thesis unfolding tt_names by (simp only: distinct_map) (simp add: inj_on_def lit_inj)
qed

lemma find_name_distinct:
  "distinct (map nm xs) \<Longrightarrow> x \<in> set xs \<Longrightarrow> find_name nm xs (nm x) = Some x"
  by (induction xs) (auto simp: image_iff)

interpretation tt_table: sorted_table tti_number tt_infos
  using tt_numbers_successive by unfold_locales (simp add: successively_conv_sorted_wrt)

interpretation op_table: sorted_table oi_number op_infos
  using op_numbers_successive by unfold_locales (simp add: successively_conv_sorted_wrt)

interpretation issue_table: sorted_table iss_id issue_infos
  by unfold_locales (simp add: issue_infos_def issue_tuples_def)

lemma tt_name_nonempty: "i \<in> set tt_infos \<Longrightarrow> tti_name i \<noteq> []"
  by (auto simp: tt_infos_def)

lemma tt_info_hit: "i < length tt_infos \<Longrightarrow> find_tt_info (tti_number (tt_infos ! i)) = i"
  unfolding find_tt_info_def by (rule tt_table.lower_bound_hit)

lemma op_info_hit: "i < length op_infos \<Longrightarrow> find_op_info (oi_number (op_infos ! i)) = i"
  unfolding find_op_info_def by (rule op_table.lower_bound_hit)

section \<open>Properties\<close>

text \<open>C22: for every entry of the table of token types, searching by its number gives its name, example
  and comment, searching by its name gives its number, and the indices enumerate the table.\<close>

theorem token_type_table:
  assumes "i < get_token_type_count"
  shows "get_token_type_by_index i = tti_number (tt_infos ! i) \<and>
     get_token_type_name (get_token_type_by_index i) = Some (tti_name (tt_infos ! i)) \<and>
     get_token_type_example (get_token_type_by_index i) = Some (tti_example (tt_infos ! i)) \<and>
     get_token_type_comment (get_token_type_by_index i) = Some (tti_comment (tt_infos ! i)) \<and>
     get_token_type_from_name (get_token_type_name (get_token_type_by_index i)) = get_token_type_by_index i"
proof -
  let ?e = "tt_infos ! i"
  from assms have i: "i < length tt_infos" by (simp add: get_token_type_count_def)
  then have "?e \<in> set tt_infos" by simp
  then have "find_name tti_name tt_infos (tti_name ?e) = Some ?e" "tti_name ?e \<noteq> []"
    by (simp_all add: find_name_distinct tt_names_distinct tt_name_nonempty)
  with i tt_info_hit [OF i] assms show ?thesis
    by (simp add: get_token_type_by_index_def get_token_type_name_def get_token_type_example_def
        get_token_type_comment_def get_token_type_from_name_def Let_def)
qed

theorem token_type_table_witness:
  "get_token_type_name (get_token_type_by_index 3) = Some (tti_name (tt_infos ! 3))"
proof -
  have "3 < get_token_type_count" by (simp add: get_token_type_count_def tt_infos_def token_type_tuples_def)
  from token_type_table [OF this] show ?thesis by blast
qed

text \<open>C24: every operator of \<open>operator.tuples\<close> is found with the precedence and associativity of its tuple,
  and the precedence never decreases along the table, so a larger number never binds tighter.\<close>

theorem operator_table:
  "(\<forall>i < length operator_tuples.
     get_operator_precedence (0x8000 OR fst (operator_tuples ! i)) = fst (snd (operator_tuples ! i)) \<and>
     get_operator_associativity (0x8000 OR fst (operator_tuples ! i)) = fst (snd (snd (operator_tuples ! i)))) \<and>
   sorted (map oi_precedence op_infos)"
proof (intro conjI allI impI)
  fix i
  assume "i < length operator_tuples"
  then have i: "i < length op_infos" and nth: "op_infos ! i =
      \<lparr> oi_number = 0x8000 OR fst (operator_tuples ! i), oi_precedence = fst (snd (operator_tuples ! i)),
        oi_associativity = fst (snd (snd (operator_tuples ! i))) \<rparr>"
    by (simp_all add: op_infos_def case_prod_beta)
  from op_info_hit [OF i] i
  show "get_operator_precedence (0x8000 OR fst (operator_tuples ! i)) = fst (snd (operator_tuples ! i))"
    and "get_operator_associativity (0x8000 OR fst (operator_tuples ! i)) = fst (snd (snd (operator_tuples ! i)))"
    by (simp_all add: nth get_operator_precedence_def get_operator_associativity_def)
next
  have "map oi_precedence op_infos = map (\<lambda>t. fst (snd t)) operator_tuples"
    by (simp add: op_infos_def case_prod_beta)
  moreover have "sorted (map (\<lambda>t. fst (snd t)) operator_tuples)"
    by (simp only: tuple_projections) simp
  ultimately show "sorted (map oi_precedence op_infos)" by simp
qed

theorem operator_table_witness:
  "get_operator_precedence (0x8000 OR fst (operator_tuples ! 5)) = fst (snd (operator_tuples ! 5))"
proof -
  have "5 < length operator_tuples" by (simp add: operator_tuples_def)
  then show ?thesis using operator_table by blast
qed

text \<open>A number that is not in a table is answered with the next larger entry instead of a null
  pointer, because the searches do not compare the number they find.\<close>

theorem missing_number_answered:
  "get_token_type_name 8 = Some (lit ''tt_keyword_mask'') \<and> get_issue_name 0 = Some (lit ''ii_unterminated_string_literal'')"
proof
  have "map tti_number tt_infos = map fst token_type_tuples @ map (\<lambda>t. 0x8000 OR fst t) operator_tuples"
    by (rule tt_numbers)
  then have nums: "\<exists>ns. map tti_number tt_infos = [0, 1, 2, 3, 4, 5, 6, 7, 0x1000] @ ns \<and> (\<forall>n \<in> set ns. \<not> n < 8)"
    by (simp only: tuple_projections) simp
  then obtain ns where ns: "map tti_number tt_infos = [0, 1, 2, 3, 4, 5, 6, 7, 0x1000] @ ns" "\<forall>n \<in> set ns. \<not> n < 8"
    by blast
  have "find_tt_info 8 = length (filter (\<lambda>n. n < 8) (map tti_number tt_infos))"
    unfolding find_tt_info_def tt_table.lower_bound_count by (simp add: filter_map o_def)
  also have "\<dots> = 8" unfolding ns(1) using ns(2) by (simp add: filter_empty_conv)
  finally have "find_tt_info 8 = 8" .
  moreover have "8 < length tt_infos" using arg_cong [OF ns(1), of length] by simp
  moreover have "tti_name (tt_infos ! 8) = lit ''tt_keyword_mask''"
  proof -
    have "tti_name (tt_infos ! 8) = map tti_name tt_infos ! 8" using \<open>8 < length tt_infos\<close> by simp
    also have "\<dots> = lit ''tt_keyword_mask''" unfolding tt_names by (simp only: tuple_projections) simp
    finally show ?thesis .
  qed
  ultimately show "get_token_type_name 8 = Some (lit ''tt_keyword_mask'')"
    by (simp add: get_token_type_name_def)
  have "find_issue 0 = 0"
    unfolding find_issue_def issue_table.lower_bound_count by simp
  then show "get_issue_name 0 = Some (lit ''ii_unterminated_string_literal'')"
    by (simp add: get_issue_name_def issue_infos_def issue_tuples_def)
qed

end
