(* ===== verification/Lexer.thy ===== *)
theory Lexer
  imports Str_View Unicode Token_Type
begin

text \<open>
  \<open>lang/lexer.h\<close>, \<open>lexer-inline.h\<close>, \<open>lexer.cpp\<close>, \<open>token.h\<close> and \<open>note.cpp\<close>: the tokenizer. The object is the
  record \<open>lexer\<close>; its methods take the memory that holds the text and the object and return the changed
  object. \<^term>\<open>None\<close> stands for a read outside memory, a store outside \<open>indent_stack\<close>, or (in \<open>advance\<close>,
  which calls itself) for a run that does not end.

  \<open>double\<close> arithmetic is the record of operations of \<open>Scan_Numbers\<close>; the character classes of
  \<open>ctype.h\<close> are those of the C locale, which are the ASCII classes of \<open>Strutil\<close>.
\<close>

section \<open>Data\<close>

text \<open>The values that the lexer stores in an \<open>arg\<close>.\<close>

datatype 'd token_value = tv_empty | tv_text "byte list" | tv_unsigned u64 | tv_signed u64 | tv_double 'd

record 'd token =
  tk_type :: token_type
  tk_substr :: str_view
  tk_value :: "'d token_value"

record lex_note =
  note_issue :: issue_id
  note_line :: u32
  note_offset :: u32

record 'd lexer =
  lx_txt :: str_view
  lx_t :: "'d token"
  unwrapped_text :: "byte list"
  line_begin :: nat
  lx_p :: nat
  inconsistent_indent :: "nat option"
  line_number :: u32
  total_indent_width :: u32
  indent_dedent_delta :: i32
  last_stack_insert_idx :: u32
  indent_stack :: "u8 list"
  pending_error :: "lex_note option"

definition NO_INDENT_YET :: u32 where
  "NO_INDENT_YET = 0xFFFFFFFF"

definition EMPTY_INDENT_STACK :: u32 where
  "EMPTY_INDENT_STACK = 0"

text \<open>\<open>txt.end()\<close>; the text of a lexer that scans anything is not null.\<close>

definition lx_end :: "'d lexer \<Rightarrow> nat" where
  "lx_end s = (case sv_end (lx_txt s) of None \<Rightarrow> 0 | Some e \<Rightarrow> e)"

definition is_line_break :: "byte \<Rightarrow> bool" where
  "is_line_break c \<longleftrightarrow> c = 10 \<or> c = 13"

text \<open>\<open>note::to_string\<close> for a note without a url.\<close>

fun dec_chars :: "nat \<Rightarrow> byte list" where
  "dec_chars n = (if n < 10 then [of_nat (48 + n)] else dec_chars (n div 10) @ [of_nat (48 + n mod 10)])"

declare dec_chars.simps [simp del]

definition note_to_string :: "lex_note \<Rightarrow> byte list option" where
  "note_to_string n = do {
     msg \<leftarrow> get_issue_msg (note_issue n);
     Some (lit ''line '' @ dec_chars (unat (note_line n)) @ lit '', offset '' @ dec_chars (unat (note_offset n)) @
           lit '': error '' @ dec_chars (unat (note_issue n)) @ lit '' -- '' @ msg)
   }"

section \<open>Lines and indents\<close>

definition end_token_at :: "nat \<Rightarrow> 'd lexer \<Rightarrow> 'd lexer" where
  "end_token_at q s = s\<lparr> lx_t := (lx_t s)\<lparr> tk_substr := end_at q (tk_substr (lx_t s)) \<rparr> \<rparr>"

definition set_type :: "token_type \<Rightarrow> 'd lexer \<Rightarrow> 'd lexer" where
  "set_type tt s = s\<lparr> lx_t := (lx_t s)\<lparr> tk_type := tt \<rparr> \<rparr>"

definition set_value :: "'d token_value \<Rightarrow> 'd lexer \<Rightarrow> 'd lexer" where
  "set_value v s = s\<lparr> lx_t := (lx_t s)\<lparr> tk_value := v \<rparr> \<rparr>"

definition get_indent_char :: "'d lexer \<Rightarrow> u8 option" where
  "get_indent_char s = rd (indent_stack s) 0"

function get_indent_width ::
  "buffer \<Rightarrow> nat \<Rightarrow> nat \<Rightarrow> byte \<Rightarrow> u32 \<Rightarrow> nat option \<Rightarrow> (u32 \<times> nat option) option" where
  "get_indent_width m p e indent_char val inconsistent =
     (if p < e
      then do {
        c \<leftarrow> rd m p;
        get_indent_width m (Suc p) e indent_char (val + (if c = 9 then 4 else 1))
          (if inconsistent = None \<and> c \<noteq> indent_char then Some p else inconsistent)
      }
      else Some (val, inconsistent))"
  by pat_completeness auto
termination
  by (relation "measure (\<lambda>(m, p, e, c, v, i). e - p)") auto

declare get_indent_width.simps [simp del]

text \<open>The width is stored in a \<open>uint8_t\<close>; an index of 64 or more is outside the array.\<close>

definition push_indent :: "u32 \<Rightarrow> 'd lexer \<Rightarrow> 'd lexer option" where
  "push_indent new_indent_width s =
     (let i = last_stack_insert_idx s + 1
      in if unat i < length (indent_stack s)
         then Some (s\<lparr> last_stack_insert_idx := i,
                       indent_stack := (indent_stack s)[unat i := ucast new_indent_width],
                       total_indent_width := total_indent_width s + new_indent_width,
                       indent_dedent_delta := 1 \<rparr>)
         else None)"

text \<open>The popped width and the object.\<close>

definition pop_indent :: "'d lexer \<Rightarrow> (u32 \<times> 'd lexer) option" where
  "pop_indent s =
     (if EMPTY_INDENT_STACK < last_stack_insert_idx s
      then do {
        w \<leftarrow> rd (indent_stack s) (unat (last_stack_insert_idx s));
        Some (ucast w, s\<lparr> last_stack_insert_idx := last_stack_insert_idx s - 1,
                          total_indent_width := total_indent_width s - ucast w \<rparr>)
      }
      else Some (0, s))"

text \<open>The reaction to the indent of a line that is not empty.\<close>

definition update_indent :: "buffer \<Rightarrow> nat \<Rightarrow> 'd lexer \<Rightarrow> 'd lexer option" where
  "update_indent m end_of_indent s = do {
     ic \<leftarrow> get_indent_char s;
     (indent_width, inc) \<leftarrow> get_indent_width m (line_begin s) end_of_indent ic 0 None;
     let s = s\<lparr> inconsistent_indent := inc \<rparr>;
     (if total_indent_width s < indent_width
      then do {
        s \<leftarrow> (if last_stack_insert_idx s = NO_INDENT_YET
               then do {
                 c \<leftarrow> rd m (line_begin s);
                 (if 0 < length (indent_stack s)
                  then Some (s\<lparr> indent_stack := (indent_stack s)[0 := c],
                                last_stack_insert_idx := EMPTY_INDENT_STACK \<rparr>)
                  else None)
               }
               else Some s);
        push_indent (indent_width - total_indent_width s) s
      }
      else if indent_width < total_indent_width s
      then Some (s\<lparr> indent_dedent_delta := - (total_indent_width s - indent_width) \<rparr>)
      else Some s)
   }"

lemma scan_spaces_and_tabs_le: "scan_spaces_and_tabs m p e = Some q \<Longrightarrow> p \<le> q"
proof -
  have "scan_while P m p e = Some q \<Longrightarrow> p \<le> q" for P
  proof (induction P m p e rule: scan_while.induct)
    case (1 P m p e)
    from "1.prems" show ?case
      by (subst (asm) scan_while.simps)
        (auto simp: bind_eq_Some_conv split: if_splits dest!: "1.IH")
  qed
  then show "scan_spaces_and_tabs m p e = Some q \<Longrightarrow> p \<le> q" by (simp add: scan_spaces_and_tabs_def)
qed

lemma consume_line_break_less: "consume_line_break m p e = Some q \<Longrightarrow> p < q \<and> q \<le> p + 2"
  by (auto simp: consume_line_break_def bind_eq_Some_conv split: if_splits)

text \<open>The result is the returned pointer and the object.\<close>

function scan_beginning_of_line :: "buffer \<Rightarrow> 'd lexer \<Rightarrow> (nat \<times> 'd lexer) option" where
  "scan_beginning_of_line m s =
     (if lx_p s < lx_end s
      then do {
        let s1 = s\<lparr> line_number := line_number s + 1, line_begin := lx_p s \<rparr>;
        end_of_indent \<leftarrow> scan_spaces_and_tabs m (lx_p s) (lx_end s);
        (if end_of_indent = lx_end s then Some (lx_end s, s1)
         else do {
           c \<leftarrow> rd m end_of_indent;
           (if is_line_break c
            then do {
              q \<leftarrow> consume_line_break m end_of_indent (lx_end s);
              scan_beginning_of_line m (s1\<lparr> lx_p := q \<rparr>)
            }
            else do {
              s2 \<leftarrow> update_indent m end_of_indent (s1\<lparr> lx_p := end_of_indent \<rparr>);
              Some (lx_p s2, s2)
            })
         })
      }
      else Some (lx_p s, s))"
  by pat_completeness auto
termination
  by (relation "measure (\<lambda>(m, s). lx_end s - lx_p s)")
    (auto simp: lx_end_def dest!: scan_spaces_and_tabs_le consume_line_break_less)

declare scan_beginning_of_line.simps [simp del]

definition next_line_continues :: "buffer \<Rightarrow> nat \<Rightarrow> 'd lexer \<Rightarrow> (bool \<times> 'd lexer) option" where
  "next_line_continues m beginning_of_next_line s = do {
     (nxt, s') \<leftarrow> scan_beginning_of_line m (s\<lparr> lx_p := beginning_of_next_line \<rparr>);
     (if line_number s + 1 \<noteq> line_number s' \<or> total_indent_width s \<noteq> total_indent_width s'
      then Some (False, s')
      else if lx_end s' \<le> nxt + 3 then Some (False, s')
      else do {
        c0 \<leftarrow> rd m nxt;
        c1 \<leftarrow> rd m (nxt + 1);
        c2 \<leftarrow> rd m (nxt + 2);
        Some (if [c0, c1, c2] = lit ''...'' then (True, s'\<lparr> lx_p := nxt + 3 \<rparr>) else (False, s'))
      })
   }"

section \<open>Operators\<close>

definition consume :: "nat \<Rightarrow> token_type \<Rightarrow> 'd lexer \<Rightarrow> 'd lexer" where
  "consume char_count tt s = end_token_at (lx_p s + char_count) (set_type tt (s\<lparr> lx_p := lx_p s + char_count \<rparr>))"

text \<open>\<open>p[k]\<close> behind the guard \<open>p + k < end\<close>; the inner \<^term>\<open>None\<close> is the failed guard.\<close>

definition look :: "buffer \<Rightarrow> 'd lexer \<Rightarrow> nat \<Rightarrow> byte option option" where
  "look m s k = (if lx_p s + k < lx_end s then map_option Some (rd m (lx_p s + k)) else Some None)"

definition scan_lt :: "buffer \<Rightarrow> 'd lexer \<Rightarrow> 'd lexer option" where
  "scan_lt m s = do {
     c1 \<leftarrow> look m s 1;
     if c1 = Some (asc CHR ''<'')
     then do {
       c2 \<leftarrow> look m s 2;
       Some (if c2 = Some (asc CHR ''='') then consume 3 tt_operator_lshift_equals s
             else consume 2 tt_operator_lshift s)
     }
     else if c1 = Some (asc CHR ''='')
     then do {
       c2 \<leftarrow> look m s 2;
       if c2 = Some (asc CHR ''>'')
       then do {
         c3 \<leftarrow> look m s 3;
         Some (if c3 = Some (asc CHR ''?'') then consume 4 tt_operator_spaceshipq s
               else consume 3 tt_operator_spaceship s)
       }
       else Some (consume 2 tt_operator_less_equal s)
     }
     else Some (consume 1 tt_operator_less s)
   }"

definition scan_brace :: "buffer \<Rightarrow> 'd lexer \<Rightarrow> 'd lexer option" where
  "scan_brace m s = do {
     c1 \<leftarrow> look m s 1;
     Some (if c1 = Some (asc CHR ''?'') then consume 2 tt_operator_safe_empty s
           else consume 1 tt_operator_brace s)
   }"

definition scan_gt :: "buffer \<Rightarrow> 'd lexer \<Rightarrow> 'd lexer option" where
  "scan_gt m s = do {
     c1 \<leftarrow> look m s 1;
     if c1 = Some (asc CHR ''>'')
     then do {
       c2 \<leftarrow> look m s 2;
       Some (if c2 = Some (asc CHR ''='') then consume 3 tt_operator_rshift_equals s
             else if c2 = Some (asc CHR ''>'') then consume 3 tt_operator_unsigned_rshift s
             else consume 2 tt_operator_rshift s)
     }
     else if c1 = Some (asc CHR ''='') then Some (consume 2 tt_operator_greater_equal s)
     else Some (consume 1 tt_operator_greater s)
   }"

definition scan_colon :: "buffer \<Rightarrow> 'd lexer \<Rightarrow> 'd lexer option" where
  "scan_colon m s = do {
     c1 \<leftarrow> look m s 1;
     Some (if c1 = Some (asc CHR ''='') then consume 2 tt_operator_gets s
           else if c1 = Some (asc CHR '':'') then consume 2 tt_operator_instance_of s
           else consume 1 tt_operator_colon s)
   }"

definition scan_star :: "buffer \<Rightarrow> 'd lexer \<Rightarrow> 'd lexer option" where
  "scan_star m s = do {
     c1 \<leftarrow> look m s 1;
     Some (if c1 = Some (asc CHR ''.'') then consume 2 tt_operator_spread s
           else if c1 = Some (asc CHR ''='') then consume 2 tt_operator_times_equals s
           else consume 1 tt_operator_star s)
   }"

definition scan_slash :: "buffer \<Rightarrow> 'd lexer \<Rightarrow> 'd lexer option" where
  "scan_slash m s = do {
     c1 \<leftarrow> look m s 1;
     Some (if c1 = Some (asc CHR ''='') then consume 2 tt_operator_divide_equals s
           else consume 1 tt_operator_slash s)
   }"

definition scan_amper :: "buffer \<Rightarrow> 'd lexer \<Rightarrow> 'd lexer option" where
  "scan_amper m s = do {
     c1 \<leftarrow> look m s 1;
     Some (if c1 = Some (asc CHR ''&'') then consume 2 tt_operator_bool_and s
           else if c1 = Some (asc CHR ''='') then consume 2 tt_operator_bit_and_equals s
           else consume 1 tt_operator_bit_and s)
   }"

definition scan_equals :: "buffer \<Rightarrow> 'd lexer \<Rightarrow> 'd lexer option" where
  "scan_equals m s = do {
     c1 \<leftarrow> look m s 1;
     Some (if c1 = Some (asc CHR ''='') then consume 2 tt_operator_bool_equal s
           else consume 1 tt_operator_assign_equals s)
   }"

definition scan_bang :: "buffer \<Rightarrow> 'd lexer \<Rightarrow> 'd lexer option" where
  "scan_bang m s = do {
     c1 \<leftarrow> look m s 1;
     if c1 = Some (asc CHR ''='') then Some (consume 2 tt_operator_not_equal s)
     else if c1 = Some (asc CHR ''-'')
     then do {
       c2 \<leftarrow> look m s 2;
       Some (if c2 = Some (asc CHR ''['') then consume 3 tt_operator_not_in s
             else consume 1 tt_operator_bool_not s)
     }
     else Some (consume 1 tt_operator_bool_not s)
   }"

definition scan_pipe :: "buffer \<Rightarrow> 'd lexer \<Rightarrow> 'd lexer option" where
  "scan_pipe m s = do {
     c1 \<leftarrow> look m s 1;
     Some (if c1 = Some (asc CHR ''|'') then consume 2 tt_operator_bool_or s
           else if c1 = Some (asc CHR ''='') then consume 2 tt_operator_bit_or_equals s
           else consume 1 tt_operator_bit_or s)
   }"

definition scan_caret :: "buffer \<Rightarrow> 'd lexer \<Rightarrow> 'd lexer option" where
  "scan_caret m s = do {
     c1 \<leftarrow> look m s 1;
     Some (if c1 = Some (asc CHR ''='') then consume 2 tt_operator_bit_xor_equals s
           else consume 1 tt_operator_bit_xor s)
   }"

definition scan_percent :: "buffer \<Rightarrow> 'd lexer \<Rightarrow> 'd lexer option" where
  "scan_percent m s = do {
     c1 \<leftarrow> look m s 1;
     Some (if c1 = Some (asc CHR ''='') then consume 2 tt_operator_mod_equals s
           else consume 1 tt_operator_mod s)
   }"

definition scan_question :: "buffer \<Rightarrow> 'd lexer \<Rightarrow> 'd lexer option" where
  "scan_question m s = do {
     c1 \<leftarrow> look m s 1;
     if c1 = Some (asc CHR ''.'') then Some (consume 2 tt_operator_safe_dot s)
     else if c1 = Some (asc CHR ''['')
     then do {
       c2 \<leftarrow> look m s 2;
       Some (if c2 = Some (asc CHR ''?'') then consume 3 tt_operator_safe_subscript_safe_empty s
             else consume 2 tt_operator_safe_subscript s)
     }
     else if c1 = Some (asc CHR '':'') then Some (consume 2 tt_operator_elvis s)
     else if c1 = Some (asc CHR ''<'')
     then do {
       c3 \<leftarrow> look m s 3;
       (if c3 = Some (asc CHR ''>'')
        then do {
          c2 \<leftarrow> look m s 2;
          Some (if c2 = Some (asc CHR ''='') then consume 4 tt_operator_qspaceship s
                else consume 1 tt_operator_ternary s)
        }
        else Some (consume 1 tt_operator_ternary s))
     }
     else Some (consume 1 tt_operator_ternary s)
   }"

section \<open>Numbers\<close>

definition set_possibly_signed_value :: "bool \<Rightarrow> u64 \<Rightarrow> 'd token \<Rightarrow> 'd token" where
  "set_possibly_signed_value negative n t =
     t\<lparr> tk_value := (if negative then tv_signed (- 1 * n) else tv_unsigned n) \<rparr>"

text \<open>The literals with a prefix: position, value and type, or no such literal.\<close>

definition scan_prefixed_token :: "buffer \<Rightarrow> nat \<Rightarrow> nat \<Rightarrow> (nat \<times> u64 \<times> token_type) option option" where
  "scan_prefixed_token m p e =
     (if p + 2 < e
      then do {
        c \<leftarrow> rd m (p + 1);
        if c = asc CHR ''x'' \<or> c = asc CHR ''X''
        then map_option (\<lambda>(q, n). Some (q, n, tt_hex_number)) (scan_hex_digits m (p + 2) e)
        else if c = asc CHR ''b'' \<or> c = asc CHR ''B''
        then map_option (\<lambda>(q, n). Some (q, n, tt_binary_number)) (scan_binary_digits m (p + 2) e)
        else if in_chars (asc CHR ''0'') (asc CHR ''7'') c
        then map_option (\<lambda>(q, n). Some (q, n, tt_octal_number)) (scan_octal_digits m (p + 2) e)
        else Some None
      }
      else Some None)"

text \<open>Fraction and exponent after the whole part, for a token whose type is still \<open>tt_none\<close>.\<close>

definition scan_fraction_token ::
  "'d double_ops \<Rightarrow> buffer \<Rightarrow> nat \<Rightarrow> nat \<Rightarrow> bool \<Rightarrow> bool \<Rightarrow> token_type \<Rightarrow> u64 \<Rightarrow> (nat \<times> 'd option) option" where
  "scan_fraction_token fp m p e negative dot tt whole = do {
     radix \<leftarrow> (if dot then Some True
               else if tt = tt_none \<and> p < e then map_option (\<lambda>c. c = asc CHR ''.'') (rd m p)
               else Some False);
     (p, v) \<leftarrow> (if radix then scan_decimal_digits_post_radix fp m (Suc p) e else Some (p, d_of_int fp 0));
     let v = (if radix then d_add fp v (d_of_int fp (uint whole)) else v);
     has_exp \<leftarrow> (if p + 1 < e
                then map_option (\<lambda>c. c = asc CHR ''e'' \<or> c = asc CHR ''E'') (rd m p) else Some False);
     (if has_exp
      then do {
        (q, negative_exponent, exponent) \<leftarrow> scan_decimal_number m (Some (Suc p)) e;
        let exp = (if negative_exponent
                   then d_mul fp (d_of_int fp (uint exponent)) (d_of_int fp (- 1))
                   else d_of_int fp (uint exponent));
        let v = d_mul fp v (d_pow fp (d_of_int fp 10) exp);
        Some (the q, Some (if negative then d_mul fp v (d_of_int fp (- 1)) else v))
      }
      else Some (p, if radix then Some v else None))
   }"

definition get_number_token :: "'d double_ops \<Rightarrow> buffer \<Rightarrow> nat \<Rightarrow> nat \<Rightarrow> 'd token \<Rightarrow> 'd token option" where
  "get_number_token fp m p0 e t = do {
     c0 \<leftarrow> rd m p0;
     let negative = (c0 = asc CHR ''-'');
     let p = (if c0 = asc CHR ''+'' \<or> c0 = asc CHR ''-'' then Suc p0 else p0);
     c \<leftarrow> rd m p;
     let dot = (c = asc CHR ''.'');
     prefixed \<leftarrow> (if \<not> dot \<and> c = asc CHR ''0'' then scan_prefixed_token m p e else Some None);
     (case prefixed of
        Some (q, n, tt) \<Rightarrow>
          Some (set_possibly_signed_value negative n (t\<lparr> tk_substr := end_at q (tk_substr t), tk_type := tt \<rparr>))
      | None \<Rightarrow> do {
          (p, whole) \<leftarrow> (if dot then Some (p, 0) else scan_decimal_digits_pre_radix m p e);
          (q, fl) \<leftarrow> scan_fraction_token fp m p e negative dot (tk_type t) whole;
          let t = t\<lparr> tk_substr := end_at q (tk_substr t) \<rparr>;
          Some (case fl of
                  Some d \<Rightarrow> t\<lparr> tk_type := tt_floating_point_number, tk_value := tv_double d \<rparr>
                | None \<Rightarrow> set_possibly_signed_value negative whole (t\<lparr> tk_type := tt_decimal_number \<rparr>))
        })
   }"

definition number_token :: "'d double_ops \<Rightarrow> buffer \<Rightarrow> 'd lexer \<Rightarrow> 'd lexer option" where
  "number_token fp m s =
     map_option (\<lambda>t. s\<lparr> lx_t := t \<rparr>) (get_number_token fp m (lx_p s) (lx_end s) (lx_t s))"

definition scan_dot :: "'d double_ops \<Rightarrow> buffer \<Rightarrow> 'd lexer \<Rightarrow> 'd lexer option" where
  "scan_dot fp m s = do {
     c1 \<leftarrow> look m s 1;
     (if (case c1 of Some c \<Rightarrow> is_ascii_digit c | None \<Rightarrow> False) then number_token fp m s
      else Some (consume 1 tt_operator_dot s))
   }"

definition scan_minus :: "'d double_ops \<Rightarrow> buffer \<Rightarrow> 'd lexer \<Rightarrow> 'd lexer option" where
  "scan_minus fp m s = do {
     c1 \<leftarrow> look m s 1;
     if c1 = Some (asc CHR ''-'')
     then do {
       c2 \<leftarrow> look m s 2;
       Some (if c2 = Some (asc CHR ''<'') then consume 3 tt_operator_double_negative_mark s
             else consume 2 tt_operator_decrement s)
     }
     else if c1 = Some (asc CHR ''='') then Some (consume 2 tt_operator_minus_equals s)
     else if c1 = Some (asc CHR ''['') then Some (consume 2 tt_operator_in s)
     else if c1 = Some (asc CHR ''<'') then Some (consume 2 tt_operator_negative_mark s)
     else if (case c1 of Some c \<Rightarrow> is_ascii_digit c | None \<Rightarrow> False) then number_token fp m s
     else Some (consume 1 tt_operator_minus s)
   }"

definition scan_plus :: "'d double_ops \<Rightarrow> buffer \<Rightarrow> 'd lexer \<Rightarrow> 'd lexer option" where
  "scan_plus fp m s = do {
     c1 \<leftarrow> look m s 1;
     if c1 = Some (asc CHR ''+'')
     then do {
       c2 \<leftarrow> look m s 2;
       Some (if c2 = Some (asc CHR ''<'') then consume 3 tt_operator_double_positive_mark s
             else consume 2 tt_operator_increment s)
     }
     else if c1 = Some (asc CHR ''='') then Some (consume 2 tt_operator_plus_equals s)
     else if c1 = Some (asc CHR ''<'') then Some (consume 2 tt_operator_positive_mark s)
     else if (case c1 of Some c \<Rightarrow> is_ascii_digit c | None \<Rightarrow> False) then number_token fp m s
     else Some (consume 1 tt_operator_plus s)
   }"

section \<open>Phrases, comments and strings\<close>

definition push_error :: "issue_id \<Rightarrow> 'd lexer \<Rightarrow> 'd lexer" where
  "push_error issue s =
     s\<lparr> pending_error := Some \<lparr> note_issue = issue, note_line = line_number s,
          note_offset = of_nat (lx_p s) - of_nat (line_begin s) \<rparr> \<rparr>"

definition is_phrase_char :: "byte \<Rightarrow> bool" where
  "is_phrase_char c \<longleftrightarrow> is_ascii_alphanumeric c \<or> c = asc CHR 0x27 \<or> c = 32"

function phrase_loop :: "buffer \<Rightarrow> 'd lexer \<Rightarrow> 'd lexer option" where
  "phrase_loop m s =
     (if lx_p s \<noteq> lx_end s
      then do {
        c \<leftarrow> rd m (lx_p s);
        (if is_phrase_char c
         then phrase_loop m (s\<lparr> unwrapped_text := unwrapped_text s @ [c], lx_p := Suc (lx_p s) \<rparr>)
         else if is_line_break c
         then do {
           q \<leftarrow> consume_line_break m (lx_p s) (lx_end s);
           (continues, s') \<leftarrow> next_line_continues m q s;
           Some (if continues then s'\<lparr> unwrapped_text := unwrapped_text s' @ [32] \<rparr> else s')
         }
         else Some s)
      }
      else Some s)"
  by pat_completeness auto
termination
  by (relation "measure (\<lambda>(m, s). length m - lx_p s)") (auto simp: rd_eq_Some_iff)

declare phrase_loop.simps [simp del]

definition get_phrase_token :: "buffer \<Rightarrow> 'd lexer \<Rightarrow> 'd lexer option" where
  "get_phrase_token m s = do {
     c \<leftarrow> rd m (lx_p s);
     let s = set_type (if is_ascii_upper c then tt_verb else tt_noun) (s\<lparr> unwrapped_text := [] \<rparr>);
     s \<leftarrow> phrase_loop m s;
     Some (set_value (tv_text (unwrapped_text s)) (end_token_at (lx_p s) s))
   }"

definition scan_rest_of_line :: "buffer \<Rightarrow> nat \<Rightarrow> nat \<Rightarrow> nat option" where [scan_defs]:
  "scan_rest_of_line m p e = scan_while (\<lambda>c. \<not> is_line_break c) m p e"

definition scan_phrase :: "buffer \<Rightarrow> nat \<Rightarrow> nat \<Rightarrow> nat option" where [scan_defs]:
  "scan_phrase m p e = scan_while is_ascii_alpha m p e"

lemma scan_while_le: "scan_while P m p e = Some q \<Longrightarrow> p \<le> q"
proof (induction P m p e rule: scan_while.induct)
  case (1 P m p e)
  from "1.prems" show ?case
    by (subst (asm) scan_while.simps)
      (auto simp: bind_eq_Some_conv split: if_splits dest!: "1.IH")
qed

lemma update_indent_frame:
  "update_indent m q s = Some s' \<Longrightarrow> lx_txt s' = lx_txt s \<and> lx_p s' = lx_p s"
  by (auto simp: update_indent_def push_indent_def Let_def bind_eq_Some_conv split: if_splits)

lemma scan_beginning_of_line_frame:
  "scan_beginning_of_line m s = Some (q, s') \<Longrightarrow>
     lx_txt s' = lx_txt s \<and> lx_p s \<le> lx_p s' \<and> lx_p s' \<le> q"
proof (induction m s rule: scan_beginning_of_line.induct)
  case (1 m s)
  show ?case
  proof (cases "lx_p s < lx_end s")
    case False
    with "1.prems" show ?thesis by (subst (asm) scan_beginning_of_line.simps) auto
  next
    case True
    let ?s1 = "s\<lparr> line_number := line_number s + 1, line_begin := lx_p s \<rparr>"
    from True "1.prems" obtain eoi where eoi: "scan_spaces_and_tabs m (lx_p s) (lx_end s) = Some eoi"
      by (subst (asm) scan_beginning_of_line.simps) (auto simp: bind_eq_Some_conv Let_def)
    then have le: "lx_p s \<le> eoi" by (rule scan_spaces_and_tabs_le)
    consider "eoi = lx_end s"
      | c b where "eoi \<noteq> lx_end s" "rd m eoi = Some c" "is_line_break c" "consume_line_break m eoi (lx_end s) = Some b"
          "scan_beginning_of_line m (?s1\<lparr> lx_p := b \<rparr>) = Some (q, s')"
      | c where "eoi \<noteq> lx_end s" "rd m eoi = Some c" "\<not> is_line_break c"
          "update_indent m eoi (?s1\<lparr> lx_p := eoi \<rparr>) = Some s'" "q = lx_p s'"
      using True "1.prems" eoi
      by (subst (asm) scan_beginning_of_line.simps) (auto simp: bind_eq_Some_conv Let_def split: if_splits)
    then show ?thesis
    proof cases
      case 1
      with True "1.prems" eoi show ?thesis
        by (subst (asm) scan_beginning_of_line.simps) (auto simp: Let_def)
    next
      case (2 c b)
      from "1.IH" [OF True refl eoi 2(1,2,3,4,5)] 2(4) le show ?thesis
        by (auto dest!: consume_line_break_less)
    next
      case (3 c)
      from update_indent_frame [OF 3(4)] 3(5) le show ?thesis by simp
    qed
  qed
qed

lemma next_line_continues_frame:
  "next_line_continues m q s = Some (b, s') \<Longrightarrow>
     lx_txt s' = lx_txt s \<and> q \<le> lx_p s' \<and> (b \<longrightarrow> q + 3 \<le> lx_p s' \<and> lx_p s' < lx_end s')"
  by (auto simp: next_line_continues_def bind_eq_Some_conv lx_end_def
      dest!: scan_beginning_of_line_frame split: if_splits)

lemma lx_end_cong: "lx_txt s' = lx_txt s \<Longrightarrow> lx_end s' = lx_end s"
  by (simp add: lx_end_def)

text \<open>The comment loop enters with \<open>p\<close> on the last character of the comment mark or of the
  continuation mark.\<close>

function comment_loop :: "buffer \<Rightarrow> 'd lexer \<Rightarrow> 'd lexer option" where
  "comment_loop m s0 = do {
     let s = s0\<lparr> lx_p := Suc (lx_p s0) \<rparr>;
     end_of_line \<leftarrow> scan_rest_of_line m (lx_p s) (lx_end s);
     after_spaces \<leftarrow> scan_spaces_and_tabs m (lx_p s) (lx_end s);
     s1 \<leftarrow> (if after_spaces < end_of_line
            then do {
              r \<leftarrow> rtrim m (Some after_spaces) end_of_line None;
              Some (s\<lparr> unwrapped_text := unwrapped_text s @ (if unwrapped_text s \<noteq> [] then [32] else []) @
                         slice m after_spaces (the r) \<rparr>)
            }
            else Some s);
     (continues, s2) \<leftarrow> next_line_continues m (end_of_line + 1) s1;
     (if continues then comment_loop m s2 else Some s2)
   }"
  by pat_completeness auto
termination
proof (relation "measure (\<lambda>(m, s). lx_end s - lx_p s)", goal_cases)
  case 1
  show ?case by simp
next
  case (2 m s0 s eol aft s1 x continues s2)
  from 2(2) have "Suc (lx_p s0) \<le> eol"
    using scan_while_le [of _ m "lx_p s" "lx_end s" eol] 2(1) by (simp add: scan_rest_of_line_def)
  moreover from 2(1,4) have "lx_txt s1 = lx_txt s0" by (auto simp: bind_eq_Some_conv split: if_splits)
  moreover from 2(5,6,7) have "lx_txt s2 = lx_txt s1" "eol + 1 + 3 \<le> lx_p s2" "lx_p s2 < lx_end s2"
    by (auto dest: next_line_continues_frame)
  ultimately show ?case by (auto simp: lx_end_def)
qed

declare comment_loop.simps [simp del]

definition get_comment_token :: "buffer \<Rightarrow> 'd lexer \<Rightarrow> (nat \<times> 'd lexer) option" where
  "get_comment_token m s =
     map_option (\<lambda>s. (lx_p s, set_value (tv_text (unwrapped_text s)) s))
       (comment_loop m (s\<lparr> unwrapped_text := [] \<rparr>))"

definition scan_hash :: "buffer \<Rightarrow> 'd lexer \<Rightarrow> 'd lexer option" where
  "scan_hash m s = do {
     doc \<leftarrow> (if lx_p s + 2 < lx_end s
             then do {
               c1 \<leftarrow> rd m (lx_p s + 1);
               c2 \<leftarrow> rd m (lx_p s + 2);
               Some (c1 = asc CHR ''#'' \<and> c2 = asc CHR ''#'')
             }
             else Some False);
     let s = (if doc then set_type tt_doc_comment (s\<lparr> lx_p := lx_p s + 2 \<rparr>) else set_type tt_comment s);
     (q, s) \<leftarrow> get_comment_token m s;
     Some (end_token_at q s)
   }"

text \<open>The sixteen-byte buffer of \<open>get_string_literal\<close>, read back as a C string.\<close>

definition codepoint_text :: "codepoint_t \<Rightarrow> byte list option" where
  "codepoint_text cp = do {
     (ok, c) \<leftarrow> cat_codepoint_to_utf8 \<lparr> mem = replicate 16 0, buf = Some 0, buf_length = 16 \<rparr> cp;
     n \<leftarrow> strlen_from (mem c) 0;
     Some (take n (mem c))
   }"

function string_loop :: "buffer \<Rightarrow> byte \<Rightarrow> 'd lexer \<Rightarrow> 'd lexer option" where
  "string_loop m ch s =
     (if lx_p s < lx_end s
      then do {
        c \<leftarrow> rd m (lx_p s);
        (if c = ch then Some (s\<lparr> lx_p := Suc (lx_p s) \<rparr>)
         else if c = asc CHR 0x5C
         then do {
           (sq, cp) \<leftarrow> scan_unicode_escape_sequence m (Some (Suc (lx_p s)));
           (if cp \<noteq> Some UNICODE_REPLACEMENT_CHAR \<and> lx_p s < the sq \<and> the sq \<le> lx_end s
            then do {
              txt \<leftarrow> codepoint_text (the cp);
              string_loop m ch (s\<lparr> unwrapped_text := unwrapped_text s @ txt, lx_p := the sq \<rparr>)
            }
            else string_loop m ch (s\<lparr> unwrapped_text := unwrapped_text s @ [c], lx_p := Suc (lx_p s) \<rparr>))
         }
         else if is_line_break c
         then do {
           q \<leftarrow> consume_line_break m (lx_p s) (lx_end s);
           (continues, s') \<leftarrow> next_line_continues m q s;
           (if continues
            then string_loop m ch (s'\<lparr> unwrapped_text := unwrapped_text s' @ [32], lx_p := Suc (lx_p s') \<rparr>)
            else Some (push_error ii_unterminated_string_literal s'))
         }
         else string_loop m ch (s\<lparr> unwrapped_text := unwrapped_text s @ [c], lx_p := Suc (lx_p s) \<rparr>))
      }
      else Some s)"
  by pat_completeness auto
termination
  by (relation "measure (\<lambda>(m, ch, s). lx_end s - lx_p s)")
    (auto simp: lx_end_def dest!: next_line_continues_frame consume_line_break_less)

declare string_loop.simps [simp del]

definition get_string_literal :: "buffer \<Rightarrow> byte \<Rightarrow> 'd lexer \<Rightarrow> (nat \<times> 'd lexer) option" where
  "get_string_literal m ch s =
     map_option (\<lambda>s. (lx_p s, set_value (tv_text (unwrapped_text s)) s))
       (string_loop m ch (s\<lparr> unwrapped_text := [] \<rparr>))"

definition scan_quote :: "buffer \<Rightarrow> 'd lexer \<Rightarrow> 'd lexer option" where
  "scan_quote m s = do {
     c \<leftarrow> rd m (lx_p s);
     (q, s) \<leftarrow> get_string_literal m c ((set_type tt_quoted_string s)\<lparr> lx_p := Suc (lx_p s) \<rparr>);
     Some (end_token_at q s)
   }"

section \<open>The next token\<close>

text \<open>The switch of \<open>advance\<close> on a character \<open>c\<close> that is neither null, nor a line break, nor blank.\<close>

definition scan_token :: "'d double_ops \<Rightarrow> buffer \<Rightarrow> byte \<Rightarrow> 'd lexer \<Rightarrow> 'd lexer option" where
  "scan_token fp m c s =
     (if c = asc CHR ''<'' then scan_lt m s
      else if c = asc CHR ''>'' then scan_gt m s
      else if c = asc CHR ''?'' then scan_question m s
      else if c = asc CHR ''.'' then scan_dot fp m s
      else if c = asc CHR ''='' then scan_equals m s
      else if c = asc CHR ''~'' then Some (consume 1 tt_operator_bit_not s)
      else if c = asc CHR ''['' then scan_brace m s
      else if c = asc CHR '']'' then Some (consume 1 tt_operator_close_brace s)
      else if c = asc CHR ''('' then Some (consume 1 tt_operator_paren s)
      else if c = asc CHR '')'' then Some (consume 1 tt_operator_close_paren s)
      else if c = asc CHR ''/'' then scan_slash m s
      else if c = asc CHR ''%'' then scan_percent m s
      else if c = asc CHR ''*'' then scan_star m s
      else if c = asc CHR ''&'' then scan_amper m s
      else if c = asc CHR ''!'' then scan_bang m s
      else if c = asc CHR ''|'' then scan_pipe m s
      else if c = asc CHR ''^'' then scan_caret m s
      else if c = asc CHR ''#'' then scan_hash m s
      else if c = asc CHR 0x22 \<or> c = asc CHR 0x27 \<or> c = asc CHR 0x60 then scan_quote m s
      else if c = asc CHR ''-'' then scan_minus fp m s
      else if c = asc CHR ''+'' then scan_plus fp m s
      else if c = asc CHR '':'' then scan_colon m s
      else if c = asc CHR '','' then Some (consume 1 tt_operator_comma s)
      else if is_ascii_alpha c then get_phrase_token m s
      else if is_ascii_digit c then number_token fp m s
      else Some (end_token_at (lx_p s + 1) (set_type tt_error s)))"

text \<open>The beginning of \<open>advance\<close>: an empty token behind the previous one.\<close>

definition start_token :: "'d lexer \<Rightarrow> 'd lexer" where
  "start_token s =
     (let v = begin_at (sv_end (tk_substr (lx_t s))) (tk_substr (lx_t s))
      in s\<lparr> lx_t := \<lparr> tk_type = tt_none, tk_substr = v, tk_value = tv_empty \<rparr>,
            lx_p := (case sv_begin v of None \<Rightarrow> 0 | Some b \<Rightarrow> b) \<rparr>)"

text \<open>An error, indent or dedent that is queued up is returned first; the inner \<^term>\<open>None\<close> means that
  nothing is queued.\<close>

definition queued_token :: "'d lexer \<Rightarrow> 'd lexer option option" where
  "queued_token s =
     (case pending_error s of
        Some n \<Rightarrow> do {
          txt \<leftarrow> note_to_string n;
          Some (Some ((set_value (tv_text txt) (set_type tt_error s))\<lparr> unwrapped_text := txt, pending_error := None \<rparr>))
        }
      | None \<Rightarrow>
          if indent_dedent_delta s = 0 then Some None
          else if 0 <s indent_dedent_delta s
          then Some (Some (set_type tt_indent (s\<lparr> indent_dedent_delta := 0 \<rparr>)))
          else do {
            (w, s') \<leftarrow> pop_indent s;
            let d = indent_dedent_delta s' + w;
            Some (Some (set_type tt_dedent (s'\<lparr> indent_dedent_delta := (if 0 <s d then 0 else d) \<rparr>)))
          })"

definition line_break_step :: "buffer \<Rightarrow> byte \<Rightarrow> 'd lexer \<Rightarrow> 'd lexer option" where
  "line_break_step m c s = do {
     p \<leftarrow> (if c = 13 \<and> lx_p s + 1 < lx_end s
           then map_option (\<lambda>d. if d = 10 then lx_p s + 1 else lx_p s) (rd m (lx_p s + 1))
           else Some (lx_p s));
     let s = s\<lparr> lx_p := Suc p \<rparr>;
     (if lx_p s < lx_end s
      then map_option (\<lambda>(q, s). end_token_at q s) (scan_beginning_of_line m s)
      else Some ((end_token_at (lx_end s) s)\<lparr> indent_dedent_delta := - total_indent_width s \<rparr>))
   }"

partial_function (option) advance :: "'d double_ops \<Rightarrow> buffer \<Rightarrow> 'd lexer \<Rightarrow> (bool \<times> 'd lexer) option" where
  "advance fp m s0 =
     queued_token (start_token s0) \<bind> (\<lambda>queued.
       case queued of
         Some s \<Rightarrow> Some (True, s)
       | None \<Rightarrow>
           if lx_end s0 < lx_p (start_token s0) then Some (False, start_token s0)
           else rd m (lx_p (start_token s0)) \<bind> (\<lambda>c.
             if c = 0 then Some (False, start_token s0)
             else if c = 13 \<or> c = 10 then line_break_step m c (start_token s0) \<bind> (\<lambda>s. advance fp m s)
             else if c = 9 \<or> c = 32
             then scan_spaces_and_tabs m (lx_p (start_token s0) + 1) (lx_end s0) \<bind> (\<lambda>q.
               advance fp m (end_token_at q (start_token s0)))
             else scan_token fp m c (start_token s0) \<bind> (\<lambda>s. Some (True, s))))"

declare advance.simps [code]

text \<open>The constructor. \<open>indent_stack\<close> is not initialised; its indeterminate contents are the argument
  \<open>uninit\<close>.\<close>

definition lexer_new :: "'d double_ops \<Rightarrow> buffer \<Rightarrow> u8 list \<Rightarrow> str_view \<Rightarrow> 'd lexer option" where
  "lexer_new fp m uninit txt =
     (let s = \<lparr> lx_txt = txt, lx_t = \<lparr> tk_type = tt_none, tk_substr = strview_default, tk_value = tv_empty \<rparr>,
                unwrapped_text = [], line_begin = (case sv_begin txt of None \<Rightarrow> 0 | Some b \<Rightarrow> b),
                lx_p = (case sv_begin txt of None \<Rightarrow> 0 | Some b \<Rightarrow> b), inconsistent_indent = None,
                line_number = 0, total_indent_width = 0, indent_dedent_delta = 0,
                last_stack_insert_idx = NO_INDENT_YET, indent_stack = uninit, pending_error = None \<rparr>
      in case sv_begin txt of
           None \<Rightarrow> Some s
         | Some b \<Rightarrow> do {
             (q, s) \<leftarrow> scan_beginning_of_line m s;
             (r, s) \<leftarrow> advance fp m (s\<lparr> lx_t := (lx_t s)\<lparr> tk_substr := end_at q \<lparr> sv_begin = Some b, sv_length = 0 \<rparr> \<rparr> \<rparr>);
             Some s
           })"

text \<open>The iterator: \<open>begin()\<close> is the end for an empty text, and each increment calls \<open>advance\<close>. The tokens
  of at most \<open>n\<close> increments; the flag tells whether the end was reached.\<close>

fun tokens_from :: "nat \<Rightarrow> 'd double_ops \<Rightarrow> buffer \<Rightarrow> 'd lexer \<Rightarrow> ('d token list \<times> bool) option" where
  "tokens_from 0 fp m s = Some ([], False)"
| "tokens_from (Suc n) fp m s = do {
     (more, s') \<leftarrow> advance fp m s;
     (if more then map_option (\<lambda>(ts, fin). (lx_t s' # ts, fin)) (tokens_from n fp m s')
      else Some ([], True))
   }"

end
