(* ===== verification/Lexer_Operators.thy ===== *)
theory Lexer_Operators
  imports Lexer
begin

text \<open>
  The operator scanners of the lexer against \<open>operator.tuples\<close>: at an operator character the lexer
  consumes the longest example text of the table that the input starts with, and gives the token the
  number of that tuple.
\<close>

section \<open>The table of operator texts\<close>

definition op_texts :: "(byte list \<times> token_type) list" where
  "op_texts = map (\<lambda>(number, prec, assoc, name, example, comment). (example, 0x8000 OR number)) operator_tuples"

text \<open>\<open>(n, tt)\<close> is the longest operator text at the beginning of \<open>rest\<close>.\<close>

definition longest_operator :: "byte list \<Rightarrow> nat \<Rightarrow> token_type \<Rightarrow> bool" where
  "longest_operator rest n tt \<longleftrightarrow>
     (take n rest, tt) \<in> set op_texts \<and> n \<le> length rest \<and>
     (\<forall>(ex, tt') \<in> set op_texts. take (length ex) rest = ex \<longrightarrow> length ex \<le> n)"

definition ops_starting :: "byte \<Rightarrow> (byte list \<times> token_type) list" where
  "ops_starting c = filter (\<lambda>(ex, tt). hd ex = c) op_texts"

definition rest_of :: "buffer \<Rightarrow> 'd lexer \<Rightarrow> byte list" where
  "rest_of m s = slice m (lx_p s) (lx_end s)"

definition nth_opt :: "byte list \<Rightarrow> nat \<Rightarrow> byte option" where
  "nth_opt xs k = (if k < length xs then Some (xs ! k) else None)"

section \<open>Lemmas\<close>

lemma op_texts_eval: "op_texts = map (\<lambda>t. (fst (snd (snd (snd (snd t)))), 0x8000 OR fst t)) operator_tuples"
  by (simp add: op_texts_def case_prod_beta)

lemma op_texts_nonempty: "list_all (\<lambda>e. fst e \<noteq> []) op_texts"
  unfolding op_texts_eval by (simp only: tuple_projections) simp

lemma ops_table:
  "ops_starting 33 = [([33], 0x8211), ([33, 61], 0x8802), ([33, 45, 91], 0x8821)]"
  "ops_starting 37 = [([37], 0x8403), ([37, 61], 0x8F24)]"
  "ops_starting 38 = [([38], 0x8901), ([38, 38], 0x8C01), ([38, 61], 0x8F25)]"
  "ops_starting 40 = [([40], 0x8101)]"
  "ops_starting 41 = [([41], 0x8102)]"
  "ops_starting 42 = [([42, 46], 0x8105), ([42], 0x8401), ([42, 61], 0x8F22)]"
  "ops_starting 43 = [([43, 60], 0x8201), ([43, 43, 60], 0x8203), ([43], 0x8501), ([43, 43], 0x8503), ([43, 61], 0x8F20)]"
  "ops_starting 44 = [([44], 0x8FFF)]"
  "ops_starting 45 = [([45, 60], 0x8202), ([45, 45, 60], 0x8204), ([45], 0x8502), ([45, 45], 0x8504), ([45, 91], 0x8820), ([45, 61], 0x8F21)]"
  "ops_starting 46 = [([46], 0x8103)]"
  "ops_starting 47 = [([47], 0x8402), ([47, 61], 0x8F23)]"
  "ops_starting 58 = [([58, 58], 0x8710), ([58], 0x8F01), ([58, 61], 0x8F02)]"
  "ops_starting 60 = [([60, 60], 0x8601), ([60], 0x8702), ([60, 61], 0x8704), ([60, 61, 62], 0x8810), ([60, 61, 62, 63], 0x8812), ([60, 60, 61], 0x8F28)]"
  "ops_starting 61 = [([61, 61], 0x8801), ([61], 0x8F03)]"
  "ops_starting 62 = [([62, 62], 0x8602), ([62, 62, 62], 0x8603), ([62], 0x8701), ([62, 61], 0x8703), ([62, 62, 61], 0x8F29)]"
  "ops_starting 63 = [([63, 46], 0x8104), ([63, 91], 0x8111), ([63, 91, 63], 0x8113), ([63, 60, 61, 62], 0x8811), ([63], 0x8E01), ([63, 58], 0x8E02)]"
  "ops_starting 91 = [([91], 0x8110), ([91, 63], 0x8112)]"
  "ops_starting 93 = [([93], 0x8114)]"
  "ops_starting 94 = [([94], 0x8A01), ([94, 61], 0x8F26)]"
  "ops_starting 124 = [([124], 0x8B01), ([124, 124], 0x8D01), ([124, 61], 0x8F27)]"
  "ops_starting 126 = [([126], 0x8210)]"
  unfolding ops_starting_def op_texts_eval by (simp_all only: tuple_projections) simp_all

lemma longest_operatorI:
  assumes "(take n (c # r), tt) \<in> set (ops_starting c)" and "n \<le> Suc (length r)"
    and "\<forall>(ex, tt') \<in> set (ops_starting c). take (length ex) (c # r) = ex \<longrightarrow> length ex \<le> n"
  shows "longest_operator (c # r) n tt"
  unfolding longest_operator_def
proof (intro conjI ballI)
  show "(take n (c # r), tt) \<in> set op_texts" using assms(1) by (simp add: ops_starting_def)
  show "n \<le> length (c # r)" using assms(2) by simp
  fix e
  assume e: "e \<in> set op_texts"
  obtain ex tt' where ee: "e = (ex, tt')" by (cases e)
  from e op_texts_nonempty ee have "ex \<noteq> []" by (auto simp: list_all_iff)
  then have "take (length ex) (c # r) = ex \<Longrightarrow> hd ex = c" by (cases ex) auto
  with assms(3) e ee show "case e of (ex, tt') \<Rightarrow> take (length ex) (c # r) = ex \<longrightarrow> length ex \<le> n"
    by (auto simp: ops_starting_def)
qed

lemma look_rest: "lx_end s \<le> length m \<Longrightarrow> look m s k = Some (nth_opt (rest_of m s) k)"
  by (auto simp: look_def nth_opt_def rest_of_def slice_nth)

text \<open>Only the first four characters matter.\<close>

lemma rest_cases:
  obtains "r = []" | c1 where "r = [c1]" | c1 c2 where "r = [c1, c2]" | c1 c2 c3 r' where "r = c1 # c2 # c3 # r'"
  by (cases r; cases "tl r"; cases "tl (tl r)") auto

lemma operator_chars:
  "c \<in> set (map (hd \<circ> fst) op_texts) \<longleftrightarrow>
     c \<in> set [33, 37, 38, 40, 41, 42, 43, 44, 45, 46, 47, 58, 60, 61, 62, 63, 91, 93, 94, 124, 126]"
  unfolding op_texts_eval by (simp only: tuple_projections o_apply) auto

text \<open>The scanners one by one, on the characters that follow.\<close>

lemma scan_token_operators:
  "scan_token fp m 60 = scan_lt m"
  "scan_token fp m 62 = scan_gt m"
  "scan_token fp m 63 = scan_question m"
  "scan_token fp m 61 = scan_equals m"
  "scan_token fp m 91 = scan_brace m"
  "scan_token fp m 47 = scan_slash m"
  "scan_token fp m 37 = scan_percent m"
  "scan_token fp m 42 = scan_star m"
  "scan_token fp m 38 = scan_amper m"
  "scan_token fp m 33 = scan_bang m"
  "scan_token fp m 124 = scan_pipe m"
  "scan_token fp m 94 = scan_caret m"
  "scan_token fp m 58 = scan_colon m"
  "scan_token fp m 126 s = Some (consume 1 tt_operator_bit_not s)"
  "scan_token fp m 93 s = Some (consume 1 tt_operator_close_brace s)"
  "scan_token fp m 40 s = Some (consume 1 tt_operator_paren s)"
  "scan_token fp m 41 s = Some (consume 1 tt_operator_close_paren s)"
  "scan_token fp m 44 s = Some (consume 1 tt_operator_comma s)"
  by (simp_all add: scan_token_def fun_eq_iff)

lemma munch_lt:
  assumes "lx_end s \<le> length m" and "rest_of m s = 60 # r"
  shows "\<exists>n tt. scan_lt m s = Some (consume n tt s) \<and> longest_operator (60 # r) n tt"
  unfolding scan_lt_def look_rest [OF assms(1)] assms(2)
  by (cases r rule: rest_cases) (auto simp: nth_opt_def tt_defs ops_table intro!: longest_operatorI exI)

lemma munch_gt:
  assumes "lx_end s \<le> length m" and "rest_of m s = 62 # r"
  shows "\<exists>n tt. scan_gt m s = Some (consume n tt s) \<and> longest_operator (62 # r) n tt"
  unfolding scan_gt_def look_rest [OF assms(1)] assms(2)
  by (cases r rule: rest_cases) (auto simp: nth_opt_def tt_defs ops_table intro!: longest_operatorI exI)

lemma munch_question:
  assumes "lx_end s \<le> length m" and "rest_of m s = 63 # r"
  shows "\<exists>n tt. scan_question m s = Some (consume n tt s) \<and> longest_operator (63 # r) n tt"
  unfolding scan_question_def look_rest [OF assms(1)] assms(2)
  by (cases r rule: rest_cases) (auto simp: nth_opt_def tt_defs ops_table intro!: longest_operatorI exI)

lemma munch_equals:
  assumes "lx_end s \<le> length m" and "rest_of m s = 61 # r"
  shows "\<exists>n tt. scan_equals m s = Some (consume n tt s) \<and> longest_operator (61 # r) n tt"
  unfolding scan_equals_def look_rest [OF assms(1)] assms(2)
  by (cases r rule: rest_cases) (auto simp: nth_opt_def tt_defs ops_table intro!: longest_operatorI exI)

lemma munch_brace:
  assumes "lx_end s \<le> length m" and "rest_of m s = 91 # r"
  shows "\<exists>n tt. scan_brace m s = Some (consume n tt s) \<and> longest_operator (91 # r) n tt"
  unfolding scan_brace_def look_rest [OF assms(1)] assms(2)
  by (cases r rule: rest_cases) (auto simp: nth_opt_def tt_defs ops_table intro!: longest_operatorI exI)

lemma munch_slash:
  assumes "lx_end s \<le> length m" and "rest_of m s = 47 # r"
  shows "\<exists>n tt. scan_slash m s = Some (consume n tt s) \<and> longest_operator (47 # r) n tt"
  unfolding scan_slash_def look_rest [OF assms(1)] assms(2)
  by (cases r rule: rest_cases) (auto simp: nth_opt_def tt_defs ops_table intro!: longest_operatorI exI)

lemma munch_percent:
  assumes "lx_end s \<le> length m" and "rest_of m s = 37 # r"
  shows "\<exists>n tt. scan_percent m s = Some (consume n tt s) \<and> longest_operator (37 # r) n tt"
  unfolding scan_percent_def look_rest [OF assms(1)] assms(2)
  by (cases r rule: rest_cases) (auto simp: nth_opt_def tt_defs ops_table intro!: longest_operatorI exI)

lemma munch_star:
  assumes "lx_end s \<le> length m" and "rest_of m s = 42 # r"
  shows "\<exists>n tt. scan_star m s = Some (consume n tt s) \<and> longest_operator (42 # r) n tt"
  unfolding scan_star_def look_rest [OF assms(1)] assms(2)
  by (cases r rule: rest_cases) (auto simp: nth_opt_def tt_defs ops_table intro!: longest_operatorI exI)

lemma munch_amper:
  assumes "lx_end s \<le> length m" and "rest_of m s = 38 # r"
  shows "\<exists>n tt. scan_amper m s = Some (consume n tt s) \<and> longest_operator (38 # r) n tt"
  unfolding scan_amper_def look_rest [OF assms(1)] assms(2)
  by (cases r rule: rest_cases) (auto simp: nth_opt_def tt_defs ops_table intro!: longest_operatorI exI)

lemma munch_bang:
  assumes "lx_end s \<le> length m" and "rest_of m s = 33 # r"
  shows "\<exists>n tt. scan_bang m s = Some (consume n tt s) \<and> longest_operator (33 # r) n tt"
  unfolding scan_bang_def look_rest [OF assms(1)] assms(2)
  by (cases r rule: rest_cases) (auto simp: nth_opt_def tt_defs ops_table intro!: longest_operatorI exI)

lemma munch_pipe:
  assumes "lx_end s \<le> length m" and "rest_of m s = 124 # r"
  shows "\<exists>n tt. scan_pipe m s = Some (consume n tt s) \<and> longest_operator (124 # r) n tt"
  unfolding scan_pipe_def look_rest [OF assms(1)] assms(2)
  by (cases r rule: rest_cases) (auto simp: nth_opt_def tt_defs ops_table intro!: longest_operatorI exI)

lemma munch_caret:
  assumes "lx_end s \<le> length m" and "rest_of m s = 94 # r"
  shows "\<exists>n tt. scan_caret m s = Some (consume n tt s) \<and> longest_operator (94 # r) n tt"
  unfolding scan_caret_def look_rest [OF assms(1)] assms(2)
  by (cases r rule: rest_cases) (auto simp: nth_opt_def tt_defs ops_table intro!: longest_operatorI exI)

lemma munch_colon:
  assumes "lx_end s \<le> length m" and "rest_of m s = 58 # r"
  shows "\<exists>n tt. scan_colon m s = Some (consume n tt s) \<and> longest_operator (58 # r) n tt"
  unfolding scan_colon_def look_rest [OF assms(1)] assms(2)
  by (cases r rule: rest_cases) (auto simp: nth_opt_def tt_defs ops_table intro!: longest_operatorI exI)

lemmas munch_scanners = munch_lt munch_gt munch_question munch_equals munch_brace munch_slash munch_percent munch_star munch_amper munch_bang munch_pipe munch_caret munch_colon

lemma munch:
  assumes "lx_end s \<le> length m" and "rest_of m s = c # r"
    and "c \<in> set [33, 37, 38, 40, 41, 42, 44, 47, 58, 60, 61, 62, 63, 91, 93, 94, 124, 126]"
  shows "\<exists>n tt. scan_token fp m c s = Some (consume n tt s) \<and> longest_operator (c # r) n tt"
proof -
  consider "c \<in> set [40, 41, 44, 93, 126]" | "c \<in> set [33, 37, 38, 42, 47, 58, 60, 61, 62, 63, 91, 94, 124]"
    using assms(3) by auto
  then show ?thesis
  proof cases
    case 1
    then show ?thesis
      by (simp only: list.set insert_iff empty_iff, elim disjE FalseE)
        (auto simp: scan_token_operators ops_table tt_defs intro!: longest_operatorI exI)
  next
    case 2
    then show ?thesis
      using assms(1,2) by (auto simp: scan_token_operators intro!: munch_scanners)
  qed
qed

lemma munch_sign:
  fixes s :: "'d lexer"
  assumes "lx_end s \<le> length m" and "rest_of m s = c # r" and "c \<in> set [43, 45, 46]"
    and "r = [] \<or> \<not> is_ascii_digit (hd r)"
  shows "\<exists>n tt. scan_token fp m c s = Some (consume n tt s) \<and> longest_operator (c # r) n tt"
proof -
  have lk: "look m s k = Some (nth_opt (c # r) k)" for k using look_rest [OF assms(1)] assms(2) by simp
  show ?thesis
    using assms(3,4) unfolding scan_token_def scan_minus_def scan_plus_def scan_dot_def lk list.set
    by (elim insertE emptyE; cases r rule: rest_cases)
      (auto simp: nth_opt_def tt_defs ops_table intro!: longest_operatorI exI)
qed

section \<open>Properties\<close>

text \<open>C3: at a character that starts an operator of \<open>operator.tuples\<close> (and, for \<open>+\<close>, \<open>-\<close> and \<open>.\<close>, is not followed
  by a digit), the lexer consumes the longest operator text that the remaining input starts with, and
  the type of the token is the number of that operator.\<close>

theorem operator_maximal_munch:
  assumes "lx_end s \<le> length m" and "rest_of m s = c # r"
    and "c \<in> set (map (hd \<circ> fst) op_texts)"
    and "c \<in> set (lit ''+-.'') \<longrightarrow> r = [] \<or> \<not> is_ascii_digit (hd r)"
  shows "\<exists>n tt. scan_token fp m c s = Some (consume n tt s) \<and> longest_operator (c # r) n tt"
proof (cases "c \<in> set [43, 45, 46]")
  case True
  then have "c \<in> set (lit ''+-.'')" by auto
  with True assms show ?thesis by (intro munch_sign) auto
next
  case False
  with assms(3) show ?thesis unfolding operator_chars by (intro munch [OF assms(1,2)]) auto
qed

theorem operator_maximal_munch_witness:
  "\<exists>n tt. scan_token int_ops (cstr (lit ''<=>?x'')) 60
     \<lparr> lx_txt = \<lparr> sv_begin = Some 0, sv_length = 5 \<rparr>,
       lx_t = \<lparr> tk_type = tt_none, tk_substr = \<lparr> sv_begin = Some 0, sv_length = 0 \<rparr>, tk_value = tv_empty \<rparr>,
       unwrapped_text = [], line_begin = 0, lx_p = 0, inconsistent_indent = None, line_number = 1,
       total_indent_width = 0, indent_dedent_delta = 0, last_stack_insert_idx = NO_INDENT_YET,
       indent_stack = replicate 64 0, pending_error = None \<rparr> =
     Some (consume n tt
       \<lparr> lx_txt = \<lparr> sv_begin = Some 0, sv_length = 5 \<rparr>,
         lx_t = \<lparr> tk_type = tt_none, tk_substr = \<lparr> sv_begin = Some 0, sv_length = 0 \<rparr>, tk_value = tv_empty \<rparr>,
         unwrapped_text = [], line_begin = 0, lx_p = 0, inconsistent_indent = None, line_number = 1,
         total_indent_width = 0, indent_dedent_delta = 0, last_stack_insert_idx = NO_INDENT_YET,
         indent_stack = replicate 64 0, pending_error = None \<rparr>) \<and>
     longest_operator (lit ''<=>?x'') n tt"
proof -
  let ?s = "\<lparr> lx_txt = \<lparr> sv_begin = Some 0, sv_length = 5 \<rparr>,
       lx_t = \<lparr> tk_type = tt_none, tk_substr = \<lparr> sv_begin = Some 0, sv_length = 0 \<rparr>, tk_value = tv_empty \<rparr>,
       unwrapped_text = [], line_begin = 0, lx_p = 0, inconsistent_indent = None, line_number = 1,
       total_indent_width = 0, indent_dedent_delta = 0, last_stack_insert_idx = NO_INDENT_YET,
       indent_stack = replicate 64 0, pending_error = None \<rparr>"
  have "lx_end ?s \<le> length (cstr (lit ''<=>?x''))" by (simp add: lx_end_def sv_end_def cstr_def)
  moreover have "rest_of (cstr (lit ''<=>?x'')) ?s = 60 # lit ''=>?x''"
    by (simp add: rest_of_def lx_end_def sv_end_def cstr_def slice_def)
  moreover have "(60 :: byte) \<in> set (map (hd \<circ> fst) op_texts)" unfolding operator_chars by simp
  ultimately show ?thesis
    using operator_maximal_munch [of ?s "cstr (lit ''<=>?x'')" 60 "lit ''=>?x''" int_ops] by simp
qed

end
