(* ===== verification/Lexer_Safety.thy ===== *)
theory Lexer_Safety
  imports Lexer_Operators
begin

text \<open>
  The lexer on a null-terminated text whose indents are at most 63 columns wide: every call of \<open>advance\<close>
  returns, stays in memory and inside \<open>indent_stack\<close>, keeps the invariant of the indent stack, and either
  moves forward in the text or takes one item off the queue of errors, indents and dedents. So
  tokenization ends. Wider indents overflow the \<open>uint8_t\<close> entries of the stack, and then it need not end.
\<close>

section \<open>Invariants\<close>

definition blank :: "byte \<Rightarrow> bool" where
  "blank c \<longleftrightarrow> c = 32 \<or> c = 9"

definition indent_of :: "byte list \<Rightarrow> nat" where
  "indent_of cs = sum_list (map (\<lambda>c. if c = 9 then 4 else 1) cs)"

definition narrow_indents :: "buffer \<Rightarrow> nat \<Rightarrow> bool" where
  "narrow_indents m e \<longleftrightarrow> list_all (\<lambda>p. indent_of (takeWhile blank (slice m p e)) \<le> 63) [0..<e]"

definition stack_widths :: "'d lexer \<Rightarrow> nat list" where
  "stack_widths s = map unat (take (unat (last_stack_insert_idx s)) (drop 1 (indent_stack s)))"

definition indents_ok :: "'d lexer \<Rightarrow> bool" where
  "indents_ok s \<longleftrightarrow>
     length (indent_stack s) = 64 \<and> unat (total_indent_width s) \<le> 63 \<and>
     (if last_stack_insert_idx s = NO_INDENT_YET then total_indent_width s = 0 \<and> indent_dedent_delta s = 0
      else unat (last_stack_insert_idx s) \<le> 63 \<and> unat (total_indent_width s) = sum_list (stack_widths s) \<and>
        0 \<notin> set (stack_widths s)) \<and>
     (indent_dedent_delta s = 0 \<or> indent_dedent_delta s = 1 \<or>
      (sint (indent_dedent_delta s) < 0 \<and> - sint (indent_dedent_delta s) \<le> uint (total_indent_width s)))"

definition lexer_ok :: "buffer \<Rightarrow> 'd lexer \<Rightarrow> bool" where
  "lexer_ok m s \<longleftrightarrow>
     sv_begin (lx_txt s) \<noteq> None \<and> lx_end s < length m \<and> m ! lx_end s = 0 \<and> narrow_indents m (lx_end s) \<and>
     indents_ok s \<and> (\<forall>n. pending_error s = Some n \<longrightarrow> get_issue_msg (note_issue n) \<noteq> None)"

definition token_at :: "'d lexer \<Rightarrow> nat \<Rightarrow> nat \<Rightarrow> bool" where
  "token_at s b q \<longleftrightarrow> sv_begin (tk_substr (lx_t s)) = Some b \<and> sv_end (tk_substr (lx_t s)) = Some q"

definition queue_length :: "'d lexer \<Rightarrow> nat" where
  "queue_length s = (if pending_error s = None then 0 else 1) + nat \<bar>sint (indent_dedent_delta s)\<bar>"

section \<open>The indent stack\<close>

lemma indent_of_Nil [simp]: "indent_of [] = 0"
  by (simp add: indent_of_def)

lemma indent_of_Cons [simp]: "indent_of (c # cs) = (if c = 9 then 4 else 1) + indent_of cs"
  by (simp add: indent_of_def)

lemma get_indent_width_value:
  assumes "p \<le> e" and "e \<le> length m"
  shows "\<exists>inc'. get_indent_width m p e ic v inc = Some (v + of_nat (indent_of (slice m p e)), inc')"
  using assms
proof (induction "e - p" arbitrary: p v inc)
  case 0
  then show ?case by (simp add: get_indent_width.simps)
next
  case (Suc k)
  let ?w = "if m ! p = 9 then 4 else 1 :: u32"
  from Suc have "p < e" "k = e - Suc p" "Suc p \<le> e" by simp_all
  from Suc.hyps(1) [OF this(2,3) Suc.prems(2), of "v + ?w"
      "if inc = None \<and> m ! p \<noteq> ic then Some p else inc"] \<open>p < e\<close> Suc.prems
  show ?case
    by (subst get_indent_width.simps) (auto simp: slice_Cons algebra_simps)
qed

lemma indents_ok_cong:
  "last_stack_insert_idx s' = last_stack_insert_idx s \<Longrightarrow> indent_stack s' = indent_stack s \<Longrightarrow>
   total_indent_width s' = total_indent_width s \<Longrightarrow> indent_dedent_delta s' = indent_dedent_delta s \<Longrightarrow>
   indents_ok s' = indents_ok s"
  unfolding indents_ok_def stack_widths_def by simp

lemma small_sint:
  fixes x :: u32
  assumes "unat x \<le> 63"
  shows "sint x = int (unat x)" and "sint (- x) = - int (unat x)"
proof -
  have "sint x = signed_take_bit 31 (uint x)" by (simp add: sint_uint)
  also have "\<dots> = uint x"
    using assms unfolding uint_nat by (intro signed_take_bit_int_eq_self) (simp_all del: of_nat_unat)
  finally show sx: "sint x = int (unat x)" by (simp only: uint_nat)
  have "sint (- x) = signed_take_bit 31 (- sint x)" by (simp add: sint_word_ariths)
  also have "\<dots> = - int (unat x)"
    using assms unfolding sx by (intro signed_take_bit_int_eq_self) (simp_all del: of_nat_unat)
  finally show "sint (- x) = - int (unat x)" .
qed

lemma sum_list_pos: "0 \<notin> set xs \<Longrightarrow> length xs \<le> sum_list (xs :: nat list)"
  by (induction xs) auto

lemma depth_le_total:
  assumes "indents_ok s" and "last_stack_insert_idx s \<noteq> NO_INDENT_YET"
  shows "unat (last_stack_insert_idx s) \<le> unat (total_indent_width s)"
proof -
  have "length (stack_widths s) = unat (last_stack_insert_idx s)"
    using assms by (auto simp: indents_ok_def stack_widths_def)
  with sum_list_pos [of "stack_widths s"] assms show ?thesis by (auto simp: indents_ok_def)
qed

lemma unat_less_add:
  fixes a b :: u32
  assumes "unat a + unat b < 2 ^ 32"
  shows "unat (a + b) = unat a + unat b"
  using assms by (simp add: unat_word_ariths)

lemma push_indent_ok:
  fixes s :: "'d lexer"
  assumes ok: "indents_ok s" "last_stack_insert_idx s \<noteq> NO_INDENT_YET"
    and w: "0 < unat w" "unat (total_indent_width s) + unat w \<le> 63"
  shows "\<exists>s'. push_indent w s = Some s' \<and> indents_ok s' \<and> lx_txt s' = lx_txt s \<and> lx_t s' = lx_t s \<and>
    lx_p s' = lx_p s \<and> pending_error s' = pending_error s"
proof -
  let ?i = "last_stack_insert_idx s"
  have d: "unat ?i \<le> unat (total_indent_width s)" by (rule depth_le_total [OF ok])
  with w have i: "unat (?i + 1) = Suc (unat ?i)" by (subst unat_less_add) auto
  have lt: "Suc (unat ?i) < 64" "length (indent_stack s) = 64" using d w ok by (auto simp: indents_ok_def)
  let ?st = "(indent_stack s)[Suc (unat ?i) := ucast w]"
  have len: "unat ?i < length (drop 1 (indent_stack s))" using lt by simp
  have "drop 1 ?st = (drop 1 (indent_stack s))[unat ?i := ucast w]"
    by (simp add: drop_update_swap)
  then have st: "take (Suc (unat ?i)) (drop 1 ?st) = take (unat ?i) (drop 1 (indent_stack s)) @ [ucast w]"
    using len by (simp add: take_Suc_conv_app_nth)
  have uw: "unat (ucast w :: u8) = unat w"
    using w by (simp add: unsigned_ucast_eq unsigned_take_bit_eq take_bit_nat_eq_self)
  have tot: "unat (total_indent_width s + w) = unat (total_indent_width s) + unat w"
    using w by (intro unat_less_add) simp
  have nn: "?i + 1 \<noteq> NO_INDENT_YET" using i lt by (auto simp: NO_INDENT_YET_def)
  let ?s' = "s\<lparr> last_stack_insert_idx := ?i + 1, indent_stack := ?st,
      total_indent_width := total_indent_width s + w, indent_dedent_delta := 1 \<rparr>"
  have sw: "stack_widths ?s' = stack_widths s @ [unat w]" using st uw by (simp add: stack_widths_def i)
  have "push_indent w s = Some ?s'" using lt i by (simp add: push_indent_def)
  moreover have "indents_ok ?s'"
    using ok w lt i tot nn unfolding indents_ok_def sw by (simp add: sw)
  ultimately show ?thesis by auto
qed

lemma pop_indent_ok:
  fixes s :: "'d lexer"
  assumes ok: "indents_ok s" and d: "sint (indent_dedent_delta s) < 0"
  shows "\<exists>w s'. pop_indent s = Some (w, s') \<and> 0 < unat w \<and> unat w \<le> 63 \<and>
    unat (total_indent_width s') = unat (total_indent_width s) - unat w \<and> unat w \<le> unat (total_indent_width s) \<and>
    lx_txt s' = lx_txt s \<and> lx_t s' = lx_t s \<and> lx_p s' = lx_p s \<and> pending_error s' = pending_error s \<and>
    indent_stack s' = indent_stack s \<and> indent_dedent_delta s' = indent_dedent_delta s \<and>
    last_stack_insert_idx s' \<noteq> NO_INDENT_YET \<and> unat (last_stack_insert_idx s') \<le> 63 \<and>
    unat (total_indent_width s') = sum_list (stack_widths s') \<and> 0 \<notin> set (stack_widths s')"
proof -
  let ?i = "last_stack_insert_idx s"
  from ok d have nn: "?i \<noteq> NO_INDENT_YET" and "0 < uint (total_indent_width s)"
    by (auto simp: indents_ok_def split: if_splits)
  then have "total_indent_width s \<noteq> 0" by auto
  then have pos: "0 < unat (total_indent_width s)" by (simp add: unat_gt_0)
  from ok nn have i63: "unat ?i \<le> 63" and sum: "unat (total_indent_width s) = sum_list (stack_widths s)"
    and nz: "0 \<notin> set (stack_widths s)" and len: "length (indent_stack s) = 64"
    by (auto simp: indents_ok_def)
  from pos sum have "stack_widths s \<noteq> []" by auto
  then obtain k where k: "unat ?i = Suc k" by (cases "unat ?i") (auto simp: stack_widths_def)
  define w where "w = indent_stack s ! Suc k"
  have lt: "k < length (drop 1 (indent_stack s))" using k i63 len by simp
  have sw: "stack_widths s = map unat (take k (drop 1 (indent_stack s))) @ [unat w]"
    using lt by (simp add: stack_widths_def k take_Suc_conv_app_nth w_def)
  have i1: "unat (?i - 1) = k"
    using k by (metis diff_Suc_1 unat_1 unat_sub word_le_nat_alt le_add1 plus_1_eq_Suc)
  let ?s' = "s\<lparr> last_stack_insert_idx := ?i - 1, total_indent_width := total_indent_width s - ucast w \<rparr>"
  have sw': "stack_widths ?s' = map unat (take k (drop 1 (indent_stack s)))" by (simp add: stack_widths_def i1)
  have uw: "unat (ucast w :: u32) = unat w"
    using unsigned_less [of w, where ?'a = nat]
    by (simp add: unsigned_ucast_eq unsigned_take_bit_eq take_bit_nat_eq_self)
  have le: "unat w \<le> unat (total_indent_width s)" unfolding sum sw by simp
  then have tot: "unat (total_indent_width s - ucast w) = unat (total_indent_width s) - unat w"
    by (simp add: unat_sub uw word_le_nat_alt)
  have "pop_indent s = Some (ucast w, ?s')"
    using k i63 len by (simp add: pop_indent_def EMPTY_INDENT_STACK_def word_less_nat_alt w_def)
  moreover have "0 < unat w" using nz sw by auto
  moreover have "unat w \<le> 63" using le ok by (auto simp: indents_ok_def)
  moreover have "?i - 1 \<noteq> NO_INDENT_YET" using i1 k i63 by (auto simp: NO_INDENT_YET_def)
  moreover have "unat (total_indent_width s) - unat w = sum_list (stack_widths ?s')"
    unfolding sw' sum sw by simp
  moreover have "0 \<notin> set (stack_widths ?s')" using nz unfolding sw sw' by auto
  ultimately show ?thesis using uw tot le i1 k i63 by auto
qed

text \<open>The reaction to a new line keeps the invariant and changes nothing but the indents.\<close>

lemma update_indent_ok:
  fixes s :: "'d lexer"
  assumes ok: "indents_ok s" and q: "line_begin s \<le> q" "q \<le> length m"
    and narrow: "indent_of (slice m (line_begin s) q) \<le> 63"
  shows "\<exists>s'. update_indent m q s = Some s' \<and> indents_ok s' \<and> lx_txt s' = lx_txt s \<and> lx_t s' = lx_t s \<and>
    lx_p s' = lx_p s \<and> pending_error s' = pending_error s"
proof -
  let ?w = "of_nat (indent_of (slice m (line_begin s) q)) :: u32"
  have len: "length (indent_stack s) = 64" using ok by (simp add: indents_ok_def)
  then have ic: "get_indent_char s = Some (indent_stack s ! 0)" by (simp add: get_indent_char_def)
  obtain inc where gw: "get_indent_width m (line_begin s) q (indent_stack s ! 0) 0 None = Some (?w, inc)"
    using get_indent_width_value [OF q, of "indent_stack s ! 0" 0 None] by auto
  have uw: "unat ?w = indent_of (slice m (line_begin s) q)"
    using narrow by (simp add: unat_of_nat)
  define s1 where "s1 = s\<lparr> inconsistent_indent := inc \<rparr>"
  have ok1: "indents_ok s1" using ok indents_ok_cong [of s1 s] by (simp add: s1_def)
  have un: "update_indent m q s =
     (if total_indent_width s1 < ?w
      then (if last_stack_insert_idx s1 = NO_INDENT_YET
            then do { c \<leftarrow> rd m (line_begin s1);
                      if 0 < length (indent_stack s1)
                      then Some (s1\<lparr> indent_stack := (indent_stack s1)[0 := c],
                               last_stack_insert_idx := EMPTY_INDENT_STACK \<rparr>) else None }
            else Some s1) \<bind> (\<lambda>s. push_indent (?w - total_indent_width s) s)
      else if ?w < total_indent_width s1
      then Some (s1\<lparr> indent_dedent_delta := - (total_indent_width s1 - ?w) \<rparr>)
      else Some s1)"
    unfolding update_indent_def ic bind.bind_lunit gw prod.case Let_def s1_def by simp
  consider (push) "total_indent_width s1 < ?w" | (pop) "?w < total_indent_width s1" | (same) "?w = total_indent_width s1"
    by (meson linorder_less_linear)
  then show ?thesis
  proof cases
    case push
    then have lt: "unat (total_indent_width s1) < unat ?w" by (simp add: word_less_nat_alt)
    then have sub: "unat (?w - total_indent_width s1) = unat ?w - unat (total_indent_width s1)"
      by (simp add: unat_sub word_le_nat_alt)
    have pos: "line_begin s < length m"
      using lt q uw by (cases "line_begin s < q") auto
    define c where "c = m ! line_begin s"
    define s2 where "s2 = (if last_stack_insert_idx s1 = NO_INDENT_YET
       then s1\<lparr> indent_stack := (indent_stack s1)[0 := c], last_stack_insert_idx := EMPTY_INDENT_STACK \<rparr> else s1)"
    have ok2: "indents_ok s2" "last_stack_insert_idx s2 \<noteq> NO_INDENT_YET"
      using ok1 by (auto simp: indents_ok_def s2_def EMPTY_INDENT_STACK_def NO_INDENT_YET_def stack_widths_def)
    have same2: "total_indent_width s2 = total_indent_width s1" by (simp add: s2_def)
    have "update_indent m q s = push_indent (?w - total_indent_width s2) s2"
      unfolding un using push pos len by (simp add: s2_def s1_def c_def)
    moreover have "0 < unat (?w - total_indent_width s2)"
      "unat (total_indent_width s2) + unat (?w - total_indent_width s2) \<le> 63"
      using lt sub narrow uw by (simp_all add: same2)
    from push_indent_ok [OF ok2 this] obtain s' where "push_indent (?w - total_indent_width s2) s2 = Some s'"
      "indents_ok s'" "lx_txt s' = lx_txt s2" "lx_t s' = lx_t s2" "lx_p s' = lx_p s2"
      "pending_error s' = pending_error s2"
      by blast
    ultimately show ?thesis by (simp add: s2_def s1_def)
  next
    case pop
    then have lt: "unat ?w < unat (total_indent_width s1)" by (simp add: word_less_nat_alt)
    let ?d = "total_indent_width s1 - ?w"
    have sub: "unat ?d = unat (total_indent_width s1) - unat ?w"
      using lt by (simp add: unat_sub word_le_nat_alt)
    have t63: "unat (total_indent_width s1) \<le> 63" using ok1 by (simp add: indents_ok_def)
    have sd: "sint (- ?d) = - int (unat ?d)" using t63 sub by (intro small_sint) simp
    let ?s' = "s1\<lparr> indent_dedent_delta := - ?d \<rparr>"
    have "last_stack_insert_idx s1 \<noteq> NO_INDENT_YET" using ok1 lt by (auto simp: indents_ok_def)
    then have "indents_ok ?s'"
      using ok1 sd sub lt t63 unfolding indents_ok_def stack_widths_def by (simp add: uint_nat del: of_nat_unat)
    moreover have "\<not> total_indent_width s1 < ?w" using pop by (rule less_not_sym)
    then have "update_indent m q s = Some ?s'" unfolding un using pop by (simp only: if_False if_True)
    ultimately show ?thesis by (simp add: s1_def)
  next
    case same
    with ok1 show ?thesis unfolding un by (simp add: s1_def)
  qed
qed

section \<open>Lines\<close>

lemma scan_spaces_result:
  assumes "p \<le> e" and "e \<le> length m"
  shows "\<exists>q. scan_spaces_and_tabs m p e = Some q \<and> p \<le> q \<and> q \<le> e \<and>
     slice m p q = takeWhile blank (slice m p e)"
proof -
  let ?n = "length (takeWhile blank (slice m p e))"
  have "(\<lambda>c. \<not> (c \<noteq> 32 \<and> c \<noteq> 9)) = blank" by (auto simp: blank_def)
  then have "scan_spaces_and_tabs m p e = Some (p + ?n)"
    using scan_while_takeWhile [OF assms, of blank] by (simp add: scan_spaces_and_tabs_def)
  moreover have "?n \<le> e - p" using assms(2) by (rule length_takeWhile_slice_le)
  moreover have "slice m p (p + ?n) = take ?n (slice m p e)"
    using \<open>?n \<le> e - p\<close> by (simp add: slice_def min_def)
  ultimately show ?thesis using assms by (simp add: takeWhile_eq_take [symmetric])
qed

lemma narrow_at: "narrow_indents m e \<Longrightarrow> p < e \<Longrightarrow> indent_of (takeWhile blank (slice m p e)) \<le> 63"
  by (auto simp: narrow_indents_def list_all_iff)

lemma consume_line_break_in_range:
  assumes "p < e" and "e \<le> length m"
  shows "\<exists>q. consume_line_break m p e = Some q \<and> p < q \<and> q \<le> e"
  using assms by (auto simp: consume_line_break_def)

lemma lexer_ok_cong:
  assumes "lexer_ok m s" and "lx_txt s' = lx_txt s" and "indents_ok s'"
    and "\<And>n. pending_error s' = Some n \<Longrightarrow> get_issue_msg (note_issue n) \<noteq> None"
  shows "lexer_ok m s'"
  using assms by (auto simp: lexer_ok_def lx_end_def)

text \<open>The invariant is about the text, the indents and the pending error only.\<close>

lemma lexer_ok_updates [simp]:
  "lexer_ok m (s\<lparr> lx_p := p \<rparr>) = lexer_ok m s" "lexer_ok m (s\<lparr> line_number := n \<rparr>) = lexer_ok m s"
  "lexer_ok m (s\<lparr> line_begin := p \<rparr>) = lexer_ok m s" "lexer_ok m (s\<lparr> unwrapped_text := u \<rparr>) = lexer_ok m s"
  "lexer_ok m (s\<lparr> lx_t := t \<rparr>) = lexer_ok m s"
  unfolding lexer_ok_def indents_ok_def stack_widths_def lx_end_def by simp_all

lemma lx_end_updates [simp]:
  "lx_end (s\<lparr> lx_p := p \<rparr>) = lx_end s" "lx_end (s\<lparr> line_number := n \<rparr>) = lx_end s"
  "lx_end (s\<lparr> line_begin := p \<rparr>) = lx_end s" "lx_end (s\<lparr> unwrapped_text := u \<rparr>) = lx_end s"
  "lx_end (s\<lparr> lx_t := t \<rparr>) = lx_end s" "lx_end (s\<lparr> pending_error := e \<rparr>) = lx_end s"
  "lx_end (s\<lparr> indent_dedent_delta := d \<rparr>) = lx_end s"
  by (simp_all add: lx_end_def)

lemma scan_beginning_of_line_ok:
  fixes s :: "'d lexer"
  assumes "lexer_ok m s"
  shows "\<exists>q s'. scan_beginning_of_line m s = Some (q, s') \<and> lexer_ok m s' \<and> lx_txt s' = lx_txt s \<and>
     lx_t s' = lx_t s \<and> pending_error s' = pending_error s \<and> lx_p s \<le> lx_p s' \<and> lx_p s' \<le> q \<and>
     q \<le> max (lx_p s) (lx_end s)"
  using assms
proof (induction "lx_end s - lx_p s" arbitrary: s rule: less_induct)
  case less
  let ?e = "lx_end s" and ?p = "lx_p s"
  show ?case
  proof (cases "?p < ?e")
    case False
    with less.prems show ?thesis by (subst scan_beginning_of_line.simps) auto
  next
    case True
    let ?s1 = "s\<lparr> line_number := line_number s + 1, line_begin := ?p \<rparr>"
    from less.prems have e: "?e < length m" and nar: "narrow_indents m ?e" and ind: "indents_ok s"
      and pend: "\<And>n. pending_error s = Some n \<Longrightarrow> get_issue_msg (note_issue n) \<noteq> None"
      by (auto simp: lexer_ok_def)
    from scan_spaces_result [of ?p ?e m] True e obtain i where
      i: "scan_spaces_and_tabs m ?p ?e = Some i" "?p \<le> i" "i \<le> ?e" "slice m ?p i = takeWhile blank (slice m ?p ?e)"
      by auto
    have ok1: "lexer_ok m (?s1\<lparr> lx_p := q \<rparr>)" "lexer_ok m ?s1" for q
      using less.prems by simp_all
    have unf: "scan_beginning_of_line m s =
       (if i = ?e then Some (?e, ?s1)
        else do {
          c \<leftarrow> rd m i;
          (if is_line_break c
           then do { q \<leftarrow> consume_line_break m i ?e; scan_beginning_of_line m (?s1\<lparr> lx_p := q \<rparr>) }
           else do { s2 \<leftarrow> update_indent m i (?s1\<lparr> lx_p := i \<rparr>); Some (lx_p s2, s2) })
        })"
      using True i(1) by (subst scan_beginning_of_line.simps) (simp add: Let_def)
    consider (last) "i = ?e" | (break) "i < ?e" "is_line_break (m ! i)" | (line) "i < ?e" "\<not> is_line_break (m ! i)"
      using i(3) by fastforce
    then show ?thesis
    proof cases
      case last
      with ok1 True show ?thesis unfolding unf by simp
    next
      case break
      then obtain q where q: "consume_line_break m i ?e = Some q" "i < q" "q \<le> ?e"
        using consume_line_break_in_range [of i ?e m] e by auto
      let ?s2 = "?s1\<lparr> lx_p := q \<rparr>"
      have "lx_end ?s2 - lx_p ?s2 < ?e - ?p" using q i True by (simp add: lx_end_def)
      from less.hyps [OF this ok1(1)] obtain r s' where
        "scan_beginning_of_line m ?s2 = Some (r, s')" "lexer_ok m s'" "lx_txt s' = lx_txt s" "lx_t s' = lx_t s"
        "pending_error s' = pending_error s" "q \<le> lx_p s'" "lx_p s' \<le> r" "r \<le> max q ?e"
        by (auto simp: lx_end_def)
      with break q i e True show ?thesis unfolding unf by simp
    next
      case line
      have "indent_of (slice m (line_begin (?s1\<lparr> lx_p := i \<rparr>)) i) \<le> 63"
        using narrow_at [OF nar True] i(4) by simp
      from update_indent_ok [OF _ _ _ this] ok1(1) [of i] i(2) line(1) e
      obtain s' where s': "update_indent m i (?s1\<lparr> lx_p := i \<rparr>) = Some s'" "indents_ok s'" "lx_txt s' = lx_txt s"
        "lx_t s' = lx_t s" "lx_p s' = i" "pending_error s' = pending_error s"
        by (auto simp: lexer_ok_def)
      have "lexer_ok m s'" using lexer_ok_cong [OF less.prems s'(3,2)] pend s'(6) by simp
      with s' line i e True show ?thesis unfolding unf by simp
    qed
  qed
qed

lemma next_line_continues_ok:
  fixes s :: "'d lexer"
  assumes "lexer_ok m s" and "q \<le> Suc (lx_end s)"
  shows "\<exists>b s'. next_line_continues m q s = Some (b, s') \<and> lexer_ok m s' \<and> lx_txt s' = lx_txt s \<and>
     lx_t s' = lx_t s \<and> pending_error s' = pending_error s \<and> q \<le> lx_p s' \<and> lx_p s' \<le> Suc (lx_end s) \<and>
     (b \<longrightarrow> q + 3 \<le> lx_p s' \<and> lx_p s' < lx_end s)"
proof -
  let ?s = "s\<lparr> lx_p := q \<rparr>"
  have "lexer_ok m ?s" using assms(1) by simp
  from scan_beginning_of_line_ok [OF this] obtain r s' where
    s': "scan_beginning_of_line m ?s = Some (r, s')" "lexer_ok m s'" "lx_txt s' = lx_txt s" "lx_t s' = lx_t s"
      "pending_error s' = pending_error s" "q \<le> lx_p s'" "lx_p s' \<le> r" "r \<le> max q (lx_end s)"
    by (auto simp: lx_end_def)
  have e: "lx_end s' = lx_end s" "lx_end s < length m" using s'(3) assms(1) by (auto simp: lx_end_def lexer_ok_def)
  have "\<exists>b. next_line_continues m q s = Some (b, if b then s'\<lparr> lx_p := r + 3 \<rparr> else s') \<and> (b \<longrightarrow> r + 3 < lx_end s)"
  proof (cases "lx_end s \<le> r + 3")
    case True
    with e have "next_line_continues m q s = Some (False, s')"
      unfolding next_line_continues_def s'(1) by simp
    then show ?thesis by (intro exI [of _ False]) simp
  next
    case False
    then have rds: "rd m r = Some (m ! r)" "rd m (r + 1) = Some (m ! (r + 1))" "rd m (r + 2) = Some (m ! (r + 2))"
      using e by simp_all
    define A where "A \<longleftrightarrow> line_number s + 1 \<noteq> line_number s' \<or> total_indent_width s \<noteq> total_indent_width s'"
    define B where "B \<longleftrightarrow> [m ! r, m ! (r + 1), m ! (r + 2)] = lit ''...''"
    define b where "b \<longleftrightarrow> \<not> A \<and> B"
    have "next_line_continues m q s = Some (b, if b then s'\<lparr> lx_p := r + 3 \<rparr> else s')"
      unfolding next_line_continues_def s'(1) bind.bind_lunit prod.case rds e b_def A_def [symmetric] B_def [symmetric]
      using False by (cases A; cases B) simp_all
    with False show ?thesis by (intro exI [of _ b]) simp
  qed
  then obtain b where b: "next_line_continues m q s = Some (b, if b then s'\<lparr> lx_p := r + 3 \<rparr> else s')"
    "b \<longrightarrow> r + 3 < lx_end s" by blast
  show ?thesis
  proof (cases b)
    case True
    with b s' assms(2) show ?thesis by (intro exI [of _ True] exI [of _ "s'\<lparr> lx_p := r + 3 \<rparr>"]) simp
  next
    case False
    with b s' assms(2) show ?thesis by (intro exI [of _ False] exI [of _ s']) simp
  qed
qed

section \<open>Phrases, comments and strings\<close>

lemma phrase_loop_ok:
  fixes s :: "'d lexer"
  assumes "lexer_ok m s" and "lx_p s \<le> lx_end s"
  shows "\<exists>s'. phrase_loop m s = Some s' \<and> lexer_ok m s' \<and> lx_txt s' = lx_txt s \<and> lx_t s' = lx_t s \<and>
     lx_p s \<le> lx_p s' \<and> lx_p s' \<le> Suc (lx_end s) \<and>
     (lx_p s < lx_end s \<longrightarrow> is_phrase_char (m ! lx_p s) \<longrightarrow> lx_p s < lx_p s')"
  using assms
proof (induction "lx_end s - lx_p s" arbitrary: s rule: less_induct)
  case less
  let ?p = "lx_p s" and ?e = "lx_end s"
  have e: "?e < length m" using less.prems by (simp add: lexer_ok_def)
  then have rd: "rd m ?p = Some (m ! ?p)" using less.prems by simp
  consider (fin) "?p = ?e" | (char) "?p < ?e" "is_phrase_char (m ! ?p)"
    | (break) "?p < ?e" "\<not> is_phrase_char (m ! ?p)" "is_line_break (m ! ?p)"
    | (other) "?p < ?e" "\<not> is_phrase_char (m ! ?p)" "\<not> is_line_break (m ! ?p)"
    using less.prems(2) by fastforce
  then show ?case
  proof cases
    case fin
    with less.prems show ?thesis by (subst phrase_loop.simps) simp
  next
    case char
    let ?s = "s\<lparr> unwrapped_text := unwrapped_text s @ [m ! ?p], lx_p := Suc ?p \<rparr>"
    have "lx_end ?s - lx_p ?s < ?e - ?p" "lexer_ok m ?s" "lx_p ?s \<le> lx_end ?s" using char less.prems by auto
    from less.hyps [OF this] obtain s' where "phrase_loop m ?s = Some s'" "lexer_ok m s'" "lx_txt s' = lx_txt s"
      "lx_t s' = lx_t s" "Suc ?p \<le> lx_p s'" "lx_p s' \<le> Suc ?e" by auto
    with char rd show ?thesis by (subst phrase_loop.simps) simp
  next
    case break
    obtain q where q: "consume_line_break m ?p ?e = Some q" "?p < q" "q \<le> ?e"
      using consume_line_break_in_range [of ?p ?e m] break e by auto
    from next_line_continues_ok [OF less.prems(1), of q] q(3) obtain b s' where
      s': "next_line_continues m q s = Some (b, s')" "lexer_ok m s'" "lx_txt s' = lx_txt s" "lx_t s' = lx_t s"
      "q \<le> lx_p s'" "lx_p s' \<le> Suc ?e" by auto
    let ?r = "if b then s'\<lparr> unwrapped_text := unwrapped_text s' @ [32] \<rparr> else s'"
    have "phrase_loop m s = Some ?r" using break rd q(1) s'(1) by (subst phrase_loop.simps) simp
    with s' q break show ?thesis by simp
  next
    case other
    with less.prems rd show ?thesis by (subst phrase_loop.simps) simp
  qed
qed

lemma comment_loop_ok:
  fixes s :: "'d lexer"
  assumes "lexer_ok m s" and "lx_p s < lx_end s"
  shows "\<exists>s'. comment_loop m s = Some s' \<and> lexer_ok m s' \<and> lx_txt s' = lx_txt s \<and> lx_t s' = lx_t s \<and>
     lx_p s < lx_p s' \<and> lx_p s' \<le> Suc (lx_end s)"
  using assms
proof (induction "lx_end s - lx_p s" arbitrary: s rule: less_induct)
  case less
  let ?e = "lx_end s" and ?p = "Suc (lx_p s)"
  let ?s = "s\<lparr> lx_p := ?p \<rparr>"
  have e: "?e < length m" and pe: "?p \<le> ?e" using less.prems by (auto simp: lexer_ok_def)
  obtain eol where eol: "scan_rest_of_line m ?p ?e = Some eol" "?p \<le> eol" "eol \<le> ?e"
    using scan_while_takeWhile [of ?p ?e m "\<lambda>c. \<not> is_line_break c"] pe e
      length_takeWhile_slice_le [of ?e m "\<lambda>c. \<not> is_line_break c" ?p]
    by (auto simp: scan_rest_of_line_def)
  obtain aft where aft: "scan_spaces_and_tabs m ?p ?e = Some aft" "?p \<le> aft" "aft \<le> ?e"
    using scan_spaces_result [of ?p ?e m] pe e by auto
  have "\<exists>u. (if aft < eol
      then do {
        r \<leftarrow> rtrim m (Some aft) eol None;
        Some (?s\<lparr> unwrapped_text := unwrapped_text ?s @ (if unwrapped_text ?s \<noteq> [] then [32] else []) @
                   slice m aft (the r) \<rparr>)
      }
      else Some ?s) = Some (?s\<lparr> unwrapped_text := u \<rparr>)"
  proof (cases "aft < eol")
    case True
    with eol e obtain r where "rtrim_loop (chars_or_default None) m aft eol = Some r"
      using rtrim_loop_result [of aft eol m "chars_or_default None"] by auto
    with True show ?thesis by (auto simp: rtrim_def)
  next
    case False
    then show ?thesis by (intro exI [of _ "unwrapped_text s"]) simp
  qed
  then obtain u where u: "(if aft < eol
      then do {
        r \<leftarrow> rtrim m (Some aft) eol None;
        Some (?s\<lparr> unwrapped_text := unwrapped_text ?s @ (if unwrapped_text ?s \<noteq> [] then [32] else []) @
                   slice m aft (the r) \<rparr>)
      }
      else Some ?s) = Some (?s\<lparr> unwrapped_text := u \<rparr>)" by blast
  let ?s1 = "?s\<lparr> unwrapped_text := u \<rparr>"
  have ok1: "lexer_ok m ?s1" "eol + 1 \<le> Suc (lx_end ?s1)" using less.prems eol by auto
  from next_line_continues_ok [OF ok1] obtain b s2 where
    s2: "next_line_continues m (eol + 1) ?s1 = Some (b, s2)" "lexer_ok m s2" "lx_txt s2 = lx_txt s" "lx_t s2 = lx_t s"
      "eol + 1 \<le> lx_p s2" "lx_p s2 \<le> Suc ?e" "b \<longrightarrow> lx_p s2 < ?e" by auto
  have unf: "comment_loop m s = (if b then comment_loop m s2 else Some s2)"
    using eol(1) aft(1) u s2(1) by (subst comment_loop.simps) simp
  show ?case
  proof (cases b)
    case True
    have end2: "lx_end s2 = ?e" using s2(3) by (simp add: lx_end_def)
    have "lx_end s2 - lx_p s2 < ?e - lx_p s" "lx_p s2 < lx_end s2"
      using True s2 eol pe by (auto simp: end2)
    from less.hyps [OF this(1) s2(2) this(2)] obtain s' where "comment_loop m s2 = Some s'" "lexer_ok m s'"
      "lx_txt s' = lx_txt s2" "lx_t s' = lx_t s2" "lx_p s2 < lx_p s'" "lx_p s' \<le> Suc ?e" by (auto simp: end2)
    with True s2 eol show ?thesis unfolding unf by auto
  next
    case False
    with s2 eol show ?thesis unfolding unf by simp
  qed
qed

lemma scan_digits_terminated:
  assumes "t < length m" and "m ! t = 0" and "\<And>s. step 0 s = None" and "p \<le> t"
  shows "\<exists>q n. scan_digits step m p e s = Some (q, n)"
  using assms(4)
proof (induction "t - p" arbitrary: p s rule: less_induct)
  case less
  have rd: "rd m p = Some (m ! p)" using less.prems assms(1) by simp
  show ?case
  proof (cases "p < e \<and> step (m ! p) s \<noteq> None")
    case True
    then obtain s1 where s1: "step (m ! p) s = Some s1" by auto
    with assms(2,3) have "p \<noteq> t" by auto
    with less.prems have "t - Suc p < t - p" "Suc p \<le> t" by auto
    from less.hyps [OF this, of s1] True s1 rd show ?thesis by (subst scan_digits.simps) simp
  next
    case False
    with rd show ?thesis by (subst scan_digits.simps) (auto split: option.splits)
  qed
qed

lemma scan_unicode_escape_terminated:
  assumes "t < length m" and "m ! t = 0" and "p \<le> t"
  shows "\<exists>sq cp. scan_unicode_escape_sequence m (Some p) = Some (Some sq, Some cp)"
proof -
  have rd: "rd m p = Some (m ! p)" using assms by simp
  have hx: "\<exists>q n. scan_hex_digits m (Suc p) e = Some (q, n)" if "m ! p \<noteq> 0" for e
  proof -
    from that assms have "Suc p \<le> t" by (metis Suc_leI le_neq_implies_less)
    then show ?thesis unfolding scan_hex_digits_def
      by (intro scan_digits_terminated [OF assms(1,2)]) (simp_all add: hex_step_def in_chars_def word_sle_eq)
  qed
  have oc: "\<exists>q n. scan_octal_digits m p e = Some (q, n)" for e
    unfolding scan_octal_digits_def
    by (intro scan_digits_terminated [OF assms(1,2)]) (simp_all add: octal_step_def in_chars_def word_sle_eq assms(3))
  let ?c = "m ! p"
  define quote where "quote \<longleftrightarrow> ?c = asc CHR 0x5C \<or> ?c = asc CHR 0x22 \<or> ?c = asc CHR 0x27"
  define scan_plan where "scan_plan = (if ?c = asc CHR ''x'' then Some (p + 1, p + 3, scan_hex_digits)
     else if ?c = asc CHR ''u'' then Some (p + 1, p + 5, scan_hex_digits)
     else if ?c = asc CHR ''U'' then Some (p + 1, p + 9, scan_hex_digits)
     else if asc CHR ''0'' \<le>s ?c \<and> ?c \<le>s asc CHR ''7'' then Some (p, p + 3, scan_octal_digits)
     else None)"
  have total: "\<exists>q n. f m b e = Some (q, n)" if "scan_plan = Some (b, e, f)" for b e f
  proof (cases "f = scan_octal_digits \<and> b = p")
    case True
    then show ?thesis using oc by simp
  next
    case False
    with that have "f = scan_hex_digits" "b = Suc p" "?c \<noteq> 0"
      by (auto simp: scan_plan_def split: if_splits)
    then show ?thesis using hx by simp
  qed
  show ?thesis
  proof (cases "quote \<or> scan_plan = None")
    case True
    then show ?thesis
      unfolding scan_unicode_escape_sequence_def option.case rd bind.bind_lunit Let_def
        quote_def [symmetric] scan_plan_def [symmetric] by (cases quote) simp_all
  next
    case False
    then obtain b e f where s: "scan_plan = Some (b, e, f)" by auto
    with total obtain q n where "f m b e = Some (q, n)" by blast
    with False s show ?thesis
      unfolding scan_unicode_escape_sequence_def option.case rd bind.bind_lunit Let_def
        quote_def [symmetric] scan_plan_def [symmetric] by simp
  qed
qed

lemma strlen_from_total: "i < length m \<Longrightarrow> m ! i = 0 \<Longrightarrow> p \<le> i \<Longrightarrow> \<exists>n. strlen_from m p = Some n"
proof (induction "i - p" arbitrary: p)
  case 0
  then show ?case by (simp add: strlen_from.simps)
next
  case (Suc k)
  then have "k = i - Suc p" "Suc p \<le> i" by simp_all
  with Suc.hyps(1) [OF this(1) Suc.prems(1,2) this(2)] Suc.prems show ?case
    by (subst strlen_from.simps) auto
qed

lemma codepoint_text_total: "\<exists>u. codepoint_text cp = Some u"
proof -
  let ?c = "\<lparr> mem = replicate 16 (0 :: byte), buf = Some 0, buf_length = 15 \<rparr>"
  have "\<exists>bs. length bs \<le> 4 \<and> add_codepoint_to_utf8 ?c cp =
      Some (True, ?c\<lparr> mem := bs @ replicate (16 - length bs) 0, buf := Some (length bs) \<rparr>)"
  proof (cases "cp \<le> MAX_UNICODE_CHAR")
    case True
    have len: "length (utf8_encode cp) \<le> 4" by (simp add: length_utf8_encode proper_length_of_codepoint_def)
    with put_result [of ?c 0 "utf8_encode cp"] add_codepoint_cases [of ?c 0 cp] True
    show ?thesis by (intro exI [of _ "utf8_encode cp"]) auto
  next
    case False
    then have "\<not> cp < 0x110000" "\<not> cp < 0x10000" "\<not> cp < 0x800" "\<not> cp < 0x80"
      by (auto simp: MAX_UNICODE_CHAR_def word_le_nat_alt word_less_nat_alt)
    then show ?thesis by (intro exI [of _ "[]"]) (simp add: add_codepoint_to_utf8_def)
  qed
  then obtain bs where bs: "length bs \<le> 4" "add_codepoint_to_utf8 ?c cp =
      Some (True, ?c\<lparr> mem := bs @ replicate (16 - length bs) 0, buf := Some (length bs) \<rparr>)" by blast
  let ?d = "?c\<lparr> mem := bs @ replicate (16 - length bs) 0, buf := Some (length bs) \<rparr>"
  have upd: "(bs @ replicate (16 - length bs) 0)[length bs := 0] = bs @ replicate (16 - length bs) (0 :: byte)"
    by (intro nth_equalityI) (auto simp: nth_append nth_list_update)
  have "put [0] ?d = Some (?d\<lparr> buf := Some (Suc (length bs)) \<rparr>)"
    using bs(1) by (simp add: put_def wr_def upd)
  then have cat: "cat_codepoint_to_utf8 (?c\<lparr> buf_length := 16 \<rparr>) cp = Some (True, ?d\<lparr> buf := Some (Suc (length bs)) \<rparr>)"
    using bs(2) by (simp add: cat_codepoint_to_utf8_def cat_with_def)
  have "\<exists>n. strlen_from (bs @ replicate (16 - length bs) 0) 0 = Some n"
    using bs(1) by (intro strlen_from_total [of 15]) (auto simp: nth_append)
  with cat show ?thesis by (auto simp: codepoint_text_def)
qed

lemma push_error_ok:
  "lexer_ok m s \<Longrightarrow> lexer_ok m (push_error ii_unterminated_string_literal s)"
proof -
  assume ok: "lexer_ok m s"
  have "get_issue_msg ii_unterminated_string_literal \<noteq> None"
    using issue_table.lower_bound_hit [of 0]
    by (simp add: get_issue_msg_def find_issue_def issue_infos_def issue_tuples_def tt_defs)
  then show ?thesis
    using ok indents_ok_cong [of "push_error ii_unterminated_string_literal s" s]
    by (intro lexer_ok_cong [OF ok]) (auto simp: push_error_def lexer_ok_def)
qed

lemma string_loop_ok:
  fixes s :: "'d lexer"
  assumes "lexer_ok m s" and "lx_p s \<le> Suc (lx_end s)"
  shows "\<exists>s'. string_loop m ch s = Some s' \<and> lexer_ok m s' \<and> lx_txt s' = lx_txt s \<and> lx_t s' = lx_t s \<and>
     lx_p s \<le> lx_p s' \<and> lx_p s' \<le> Suc (lx_end s)"
  using assms
proof (induction "lx_end s - lx_p s" arbitrary: s rule: less_induct)
  case less
  let ?p = "lx_p s" and ?e = "lx_end s" and ?c = "m ! lx_p s"
  have e: "?e < length m" "m ! ?e = 0" using less.prems by (auto simp: lexer_ok_def)
  have go: "\<exists>s'. string_loop m ch s = Some s' \<and> lexer_ok m s' \<and> lx_txt s' = lx_txt s \<and> lx_t s' = lx_t s \<and>
     ?p \<le> lx_p s' \<and> lx_p s' \<le> Suc ?e"
    if "string_loop m ch s = string_loop m ch s1" "lexer_ok m s1" "lx_txt s1 = lx_txt s" "lx_t s1 = lx_t s"
      "?p < lx_p s1" "?p < ?e" "lx_p s1 \<le> ?e" for s1
  proof -
    have e1: "lx_end s1 = ?e" using that(3) by (simp add: lx_end_def)
    have "lx_end s1 - lx_p s1 < ?e - ?p" "lx_p s1 \<le> Suc (lx_end s1)" using that by (auto simp: e1)
    from less.hyps [OF this(1) that(2) this(2)] that show ?thesis by (auto simp: e1)
  qed
  consider (fin) "?e \<le> ?p" | (close) "?p < ?e" "?c = ch"
    | (esc) "?p < ?e" "?c \<noteq> ch" "?c = asc CHR 0x5C"
    | (break) "?p < ?e" "?c \<noteq> ch" "?c \<noteq> asc CHR 0x5C" "is_line_break ?c"
    | (other) "?p < ?e" "?c \<noteq> ch" "?c \<noteq> asc CHR 0x5C" "\<not> is_line_break ?c"
    by (cases "?p < ?e"; cases "?c = ch"; cases "?c = asc CHR 0x5C"; cases "is_line_break ?c") auto
  then show ?case
  proof cases
    case fin
    with less.prems show ?thesis by (subst string_loop.simps) simp
  next
    case close
    with less.prems e show ?thesis by (subst string_loop.simps) simp
  next
    case other
    let ?s1 = "s\<lparr> unwrapped_text := unwrapped_text s @ [?c], lx_p := Suc ?p \<rparr>"
    have "string_loop m ch s = string_loop m ch ?s1" using other e by (subst string_loop.simps) simp
    from go [OF this] other less.prems show ?thesis by simp
  next
    case break
    obtain q where q: "consume_line_break m ?p ?e = Some q" "?p < q" "q \<le> ?e"
      using consume_line_break_in_range [of ?p ?e m] break e by auto
    from next_line_continues_ok [OF less.prems(1), of q] q(3) obtain b s' where
      s': "next_line_continues m q s = Some (b, s')" "lexer_ok m s'" "lx_txt s' = lx_txt s" "lx_t s' = lx_t s"
      "q \<le> lx_p s'" "lx_p s' \<le> Suc ?e" "b \<longrightarrow> lx_p s' < ?e" by auto
    let ?s1 = "s'\<lparr> unwrapped_text := unwrapped_text s' @ [32], lx_p := Suc (lx_p s') \<rparr>"
    have unf: "string_loop m ch s = (if b then string_loop m ch ?s1
        else Some (push_error ii_unterminated_string_literal s'))"
      using break e q(1) s'(1) by (subst string_loop.simps) simp
    show ?thesis
    proof (cases b)
      case True
      with unf have "string_loop m ch s = string_loop m ch ?s1" by simp
      from go [OF this] True s' q break show ?thesis by auto
    next
      case False
      have "lx_txt (push_error i s') = lx_txt s'" "lx_t (push_error i s') = lx_t s'" "lx_p (push_error i s') = lx_p s'" for i
        by (simp_all add: push_error_def)
      with False s' q push_error_ok [OF s'(2)] show ?thesis unfolding unf by simp
    qed
  next
    case esc
    obtain sq cp where sc: "scan_unicode_escape_sequence m (Some (Suc ?p)) = Some (Some sq, Some cp)"
      using scan_unicode_escape_terminated [OF e, of "Suc ?p"] esc by auto
    obtain cpt where cpt: "codepoint_text cp = Some cpt" using codepoint_text_total by blast
    let ?s1 = "s\<lparr> unwrapped_text := unwrapped_text s @ cpt, lx_p := sq \<rparr>"
    let ?s2 = "s\<lparr> unwrapped_text := unwrapped_text s @ [?c], lx_p := Suc ?p \<rparr>"
    have unf: "string_loop m ch s =
        (if cp \<noteq> UNICODE_REPLACEMENT_CHAR \<and> ?p < sq \<and> sq \<le> ?e then string_loop m ch ?s1 else string_loop m ch ?s2)"
      using esc e sc cpt by (subst string_loop.simps) simp
    show ?thesis
    proof (cases "cp \<noteq> UNICODE_REPLACEMENT_CHAR \<and> ?p < sq \<and> sq \<le> ?e")
      case True
      with unf have "string_loop m ch s = string_loop m ch ?s1" by simp
      from go [OF this] True esc less.prems show ?thesis by simp
    next
      case False
      with unf have "string_loop m ch s = string_loop m ch ?s2" by presburger
      from go [OF this] esc less.prems show ?thesis by simp
    qed
  qed
qed

section \<open>Numbers\<close>

lemma scan_prefixed_token_in_range:
  assumes "p + 2 < e" and "e \<le> length m"
  shows "\<exists>pref. scan_prefixed_token m p e = Some pref \<and>
    (\<forall>q n tt. pref = Some (q, n, tt) \<longrightarrow> p + 2 \<le> q \<and> q \<le> e)"
proof -
  have at: "rd m (p + 1) = Some (m ! (p + 1))" using assms by simp
  obtain qh nh where h: "scan_hex_digits m (p + 2) e = Some (qh, nh)" "p + 2 \<le> qh" "qh \<le> e"
    using scan_digits_in_range [of "p + 2" e m hex_step 0] assms by (auto simp: scan_number_defs)
  obtain qb nb where b: "scan_binary_digits m (p + 2) e = Some (qb, nb)" "p + 2 \<le> qb" "qb \<le> e"
    using scan_digits_in_range [of "p + 2" e m binary_step 0] assms by (auto simp: scan_number_defs)
  obtain qo no where o: "scan_octal_digits m (p + 2) e = Some (qo, no)" "p + 2 \<le> qo" "qo \<le> e"
    using scan_digits_in_range [of "p + 2" e m octal_step 0] assms by (auto simp: scan_number_defs)
  show ?thesis
    unfolding scan_prefixed_token_def using assms(1) at h b o by simp
qed

lemma scan_fraction_token_in_range:
  assumes "p \<le> e" and "e \<le> length m" and "dot \<longrightarrow> p < e"
  shows "\<exists>q fl. scan_fraction_token fp m p e neg dot tt whole = Some (q, fl) \<and> p \<le> q \<and> q \<le> e \<and> (dot \<longrightarrow> p < q)"
proof -
  define radix where "radix \<longleftrightarrow> dot \<or> (tt = tt_none \<and> p < e \<and> m ! p = asc CHR ''.'')"
  have r: "(if dot then Some True
       else if tt = tt_none \<and> p < e then map_option (\<lambda>c. c = asc CHR ''.'') (rd m p) else Some False) = Some radix"
    using assms by (auto simp: radix_def)
  have "\<exists>p1 sg. (if radix then scan_decimal_digits_post_radix fp m (Suc p) e
      else Some (p, d_of_int fp 0)) = Some (p1, sg) \<and> p \<le> p1 \<and> p1 \<le> e \<and> (dot \<longrightarrow> p < p1)"
    using scan_decimal_digits_post_radix_in_range [of "Suc p" e m fp] assms
    by (auto simp: radix_def)
  then obtain p1 sg where p1: "(if radix then scan_decimal_digits_post_radix fp m (Suc p) e
      else Some (p, d_of_int fp 0)) = Some (p1, sg)" "p \<le> p1" "p1 \<le> e" "dot \<longrightarrow> p < p1" by blast
  define hx where "hx \<longleftrightarrow> p1 + 1 < e \<and> (m ! p1 = asc CHR ''e'' \<or> m ! p1 = asc CHR ''E'')"
  have h: "(if p1 + 1 < e then map_option (\<lambda>c. c = asc CHR ''e'' \<or> c = asc CHR ''E'') (rd m p1)
      else Some False) = Some hx"
    using assms p1 by (auto simp: hx_def)
  show ?thesis
  proof (cases hx)
    case True
    then have "Suc p1 \<le> e" by (simp add: hx_def)
    from scan_decimal_number_in_range [OF this assms(2)]
    obtain q neg n where "scan_decimal_number m (Some (Suc p1)) e = Some (Some q, neg, n)" "Suc p1 \<le> q" "q \<le> e"
      by auto
    with True p1(2,4) show ?thesis
      unfolding scan_fraction_token_def r bind.bind_lunit p1(1) prod.case Let_def h by auto
  next
    case False
    with p1 show ?thesis
      unfolding scan_fraction_token_def r bind.bind_lunit p1(1) prod.case Let_def h by simp
  qed
qed

end
