(* ===== verification/Lexer_Progress.thy ===== *)
theory Lexer_Progress
  imports Lexer_Safety
begin

text \<open>
  One call of \<open>advance\<close>, and all of them, on a null-terminated text with narrow indents: every token scanner
  returns a token that begins where the previous one ended and that is not empty, queued items are
  finite in number, so the calls of \<open>advance\<close> reach the end of the text. The last part shows that the
  bound on indents is needed.
\<close>

section \<open>Numbers\<close>

lemma scan_decimal_first:
  assumes "p < e" and "e \<le> length m" and "is_ascii_digit (m ! p)"
  shows "\<exists>q n. scan_decimal_digits_pre_radix m p e = Some (q, n) \<and> p < q \<and> q \<le> e"
proof -
  have rd: "rd m p = Some (m ! p)" using assms by simp
  have "in_chars (asc CHR ''0'') (asc CHR ''9'') (m ! p)" using assms(3) by (simp add: byte_defs)
  then obtain n where n: "decimal_step (m ! p) 0 = Some n" by (simp add: decimal_step_def)
  obtain q k where "scan_digits decimal_step m (Suc p) e n = Some (q, k)" "Suc p \<le> q" "q \<le> e"
    using scan_digits_in_range [of "Suc p" e m decimal_step n] assms by auto
  with n rd assms(1) show ?thesis
    unfolding scan_decimal_digits_pre_radix_def by (subst scan_digits.simps) simp
qed

lemma token_at_end_at:
  "sv_begin v = Some b \<Longrightarrow> b \<le> q \<Longrightarrow> sv_begin (end_at q v) = Some b \<and> sv_end (end_at q v) = Some q"
  by (simp add: end_at_def sv_end_def)

text \<open>Where the lexer calls \<open>get_number_token\<close>: at a digit, or at a sign or a point before a digit.\<close>

definition number_here :: "buffer \<Rightarrow> nat \<Rightarrow> nat \<Rightarrow> bool" where
  "number_here m p e \<longleftrightarrow> p < e \<and> (is_ascii_digit (m ! p) \<or>
     (m ! p \<in> set (lit ''+-.'') \<and> p + 1 < e \<and> is_ascii_digit (m ! (p + 1))))"

lemma number_body_in_range:
  assumes "p < e" and "e \<le> length m" and "is_ascii_digit (m ! p) \<or> m ! p = asc CHR ''.''"
  shows "\<exists>pref. (if m ! p \<noteq> asc CHR ''.'' \<and> m ! p = asc CHR ''0'' then scan_prefixed_token m p e else Some None) = Some pref \<and>
    (\<forall>q n tt. pref = Some (q, n, tt) \<longrightarrow> p < q \<and> q \<le> e)"
    and "\<exists>q whole r fl. (if m ! p = asc CHR ''.'' then Some (p, 0) else scan_decimal_digits_pre_radix m p e) = Some (q, whole) \<and>
      scan_fraction_token fp m q e neg (m ! p = asc CHR ''.'') tt whole = Some (r, fl) \<and> p < r \<and> r \<le> e"
proof -
  show "\<exists>pref. (if m ! p \<noteq> asc CHR ''.'' \<and> m ! p = asc CHR ''0'' then scan_prefixed_token m p e else Some None) = Some pref \<and>
    (\<forall>q n tt. pref = Some (q, n, tt) \<longrightarrow> p < q \<and> q \<le> e)"
  proof (cases "p + 2 < e")
    case True
    from scan_prefixed_token_in_range [OF this assms(2)] show ?thesis by fastforce
  next
    case False
    then show ?thesis by (simp add: scan_prefixed_token_def)
  qed
  show "\<exists>q whole r fl. (if m ! p = asc CHR ''.'' then Some (p, 0) else scan_decimal_digits_pre_radix m p e) = Some (q, whole) \<and>
      scan_fraction_token fp m q e neg (m ! p = asc CHR ''.'') tt whole = Some (r, fl) \<and> p < r \<and> r \<le> e"
  proof (cases "m ! p = asc CHR ''.''")
    case True
    from scan_fraction_token_in_range [of p e m True fp neg tt 0] True assms show ?thesis by auto
  next
    case False
    with assms obtain q n where q: "scan_decimal_digits_pre_radix m p e = Some (q, n)" "p < q" "q \<le> e"
      using scan_decimal_first [of p e m] by auto
    from scan_fraction_token_in_range [of q e m False fp neg tt n] q assms(2)
    obtain r fl where "scan_fraction_token fp m q e neg False tt n = Some (r, fl)" "q \<le> r" "r \<le> e" by auto
    with False q show ?thesis by simp
  qed
qed

lemma sign_not_digit: "\<not> is_ascii_digit 43" "\<not> is_ascii_digit 45"
  by (simp_all add: byte_defs word_sle_eq)

lemma get_number_token_in_range:
  assumes h: "number_here m p0 e" and e: "e \<le> length m" and b: "sv_begin (tk_substr t) = Some p0"
  shows "\<exists>t' q. get_number_token fp m p0 e t = Some t' \<and> sv_begin (tk_substr t') = Some p0 \<and>
    sv_end (tk_substr t') = Some q \<and> p0 < q \<and> q \<le> e"
proof -
  let ?sign = "m ! p0 = asc CHR ''+'' \<or> m ! p0 = asc CHR ''-''"
  define p where "p = (if ?sign then Suc p0 else p0)"
  define neg where "neg \<longleftrightarrow> m ! p0 = asc CHR ''-''"
  have p: "p0 \<le> p" "p < e" "is_ascii_digit (m ! p) \<or> m ! p = asc CHR ''.''"
    using h sign_not_digit by (auto simp: number_here_def p_def)
  obtain pref where pref: "(if m ! p \<noteq> asc CHR ''.'' \<and> m ! p = asc CHR ''0'' then scan_prefixed_token m p e else Some None) = Some pref"
    "\<forall>q n tt. pref = Some (q, n, tt) \<longrightarrow> p < q \<and> q \<le> e"
    using number_body_in_range(1) [OF p(2) e p(3)] by blast
  obtain q whole r fl where q: "(if m ! p = asc CHR ''.'' then Some (p, 0) else scan_decimal_digits_pre_radix m p e) = Some (q, whole)"
    "scan_fraction_token fp m q e neg (m ! p = asc CHR ''.'') (tk_type t) whole = Some (r, fl)" "p < r" "r \<le> e"
    using number_body_in_range(2) [OF p(2) e p(3), of fp neg "tk_type t"] by blast
  have rds: "rd m p0 = Some (m ! p0)" "rd m p = Some (m ! p)" using p e by simp_all
  have unf: "get_number_token fp m p0 e t =
    (case pref of
        Some (q, n, tt) \<Rightarrow>
          Some (set_possibly_signed_value neg n (t\<lparr> tk_substr := end_at q (tk_substr t), tk_type := tt \<rparr>))
      | None \<Rightarrow>
          let t = t\<lparr> tk_substr := end_at r (tk_substr t) \<rparr> in
          Some (case fl of
                  Some d \<Rightarrow> t\<lparr> tk_type := tt_floating_point_number, tk_value := tv_double d \<rparr>
                | None \<Rightarrow> set_possibly_signed_value neg whole (t\<lparr> tk_type := tt_decimal_number \<rparr>)))"
    unfolding get_number_token_def rds(1) bind.bind_lunit Let_def p_def [symmetric]
    unfolding rds(2) bind.bind_lunit neg_def [symmetric] pref(1) q(1) prod.case q(2) by simp
  show ?thesis
  proof (cases pref)
    case None
    with q token_at_end_at [OF b, of r] p show ?thesis
      unfolding unf by (auto simp: Let_def set_possibly_signed_value_def split: option.splits)
  next
    case (Some x)
    obtain q n tt where x: "x = (q, n, tt)" by (cases x)
    with pref(2) Some have "p < q" "q \<le> e" by auto
    with Some x token_at_end_at [OF b, of q] p show ?thesis
      unfolding unf by (auto simp: set_possibly_signed_value_def)
  qed
qed

section \<open>One token\<close>

text \<open>\<open>s'\<close> is \<open>s\<close> with a token scanned at the position of \<open>s\<close>.\<close>

definition token_scanned :: "buffer \<Rightarrow> 'd lexer \<Rightarrow> 'd lexer \<Rightarrow> bool" where
  "token_scanned m s s' \<longleftrightarrow> lexer_ok m s' \<and> lx_txt s' = lx_txt s \<and>
     (\<exists>q. token_at s' (lx_p s) q \<and> lx_p s < q \<and> q \<le> Suc (lx_end s))"

definition ready :: "buffer \<Rightarrow> 'd lexer \<Rightarrow> bool" where
  "ready m s \<longleftrightarrow> lexer_ok m s \<and> lx_p s < lx_end s \<and> sv_begin (tk_substr (lx_t s)) = Some (lx_p s)"

lemma ready_bounds: "ready m s \<Longrightarrow> lx_p s < lx_end s \<and> lx_end s < length m"
  by (simp add: ready_def lexer_ok_def)

lemma ready_updates [simp]:
  "ready m (set_type tt s) = ready m s" "ready m (s\<lparr> unwrapped_text := u \<rparr>) = ready m s"
  by (simp_all add: ready_def set_type_def)

lemma end_token_scanned:
  assumes "ready m s" and "lexer_ok m s'" and "lx_txt s' = lx_txt s"
    and "sv_begin (tk_substr (lx_t s')) = Some (lx_p s)" and "lx_p s < q" and "q \<le> Suc (lx_end s)"
  shows "token_scanned m s (end_token_at q s')"
  using assms token_at_end_at [of "tk_substr (lx_t s')" "lx_p s" q]
  by (auto simp: token_scanned_def end_token_at_def token_at_def)

lemma token_scanned_set [simp]:
  "token_scanned m s (set_value v s') = token_scanned m s s'"
  by (simp add: token_scanned_def set_value_def token_at_def)

lemma consume_scanned:
  assumes "ready m s" and "0 < n" and "lx_p s + n \<le> lx_end s"
  shows "token_scanned m s (consume n tt s)"
  using assms unfolding consume_def
  by (intro end_token_scanned) (auto simp: ready_def set_type_def)

lemma number_token_scanned:
  assumes r: "ready m s" and h: "number_here m (lx_p s) (lx_end s)"
  shows "\<exists>s'. number_token fp m s = Some s' \<and> token_scanned m s s'"
proof -
  from ready_bounds [OF r] have e: "lx_end s \<le> length m" by simp
  from r have b: "sv_begin (tk_substr (lx_t s)) = Some (lx_p s)" by (simp add: ready_def)
  from get_number_token_in_range [OF h e b] obtain t' q where
    "get_number_token fp m (lx_p s) (lx_end s) (lx_t s) = Some t'" "sv_begin (tk_substr t') = Some (lx_p s)"
    "sv_end (tk_substr t') = Some q" "lx_p s < q" "q \<le> lx_end s" by blast
  with r show ?thesis by (auto simp: number_token_def token_scanned_def ready_def token_at_def)
qed

lemma phrase_token_scanned:
  assumes r: "ready m s" and a: "is_ascii_alpha (m ! lx_p s)"
  shows "\<exists>s'. get_phrase_token m s = Some s' \<and> token_scanned m s s'"
proof -
  from ready_bounds [OF r] have rd: "rd m (lx_p s) = Some (m ! lx_p s)" by simp
  let ?s = "set_type (if is_ascii_upper (m ! lx_p s) then tt_verb else tt_noun) (s\<lparr> unwrapped_text := [] \<rparr>)"
  have "lexer_ok m ?s" "lx_p ?s \<le> lx_end ?s" "lx_p ?s = lx_p s" "lx_end ?s = lx_end s" "lx_txt ?s = lx_txt s"
    using r by (simp_all add: ready_def set_type_def)
  moreover have "is_phrase_char (m ! lx_p s)" using a by (simp add: is_phrase_char_def ascii_classes(2))
  ultimately obtain s' where s': "phrase_loop m ?s = Some s'" "lexer_ok m s'" "lx_txt s' = lx_txt s"
      "lx_t s' = lx_t ?s" "lx_p s < lx_p s'" "lx_p s' \<le> Suc (lx_end s)"
    using phrase_loop_ok [of m ?s] ready_bounds [OF r] by auto
  have "get_phrase_token m s = Some (set_value (tv_text (unwrapped_text s')) (end_token_at (lx_p s') s'))"
    using rd s'(1) by (simp add: get_phrase_token_def end_token_at_def)
  moreover have "token_scanned m s (end_token_at (lx_p s') s')"
    using r s' by (intro end_token_scanned) (auto simp: ready_def set_type_def)
  ultimately show ?thesis by simp
qed

lemma hash_scanned:
  assumes r: "ready m s"
  shows "\<exists>s'. scan_hash m s = Some s' \<and> token_scanned m s s'"
proof -
  let ?p = "lx_p s"
  have e: "?p < lx_end s" "lx_end s < length m" using ready_bounds [OF r] by simp_all
  define doc where "doc \<longleftrightarrow> ?p + 2 < lx_end s \<and> m ! (?p + 1) = asc CHR ''#'' \<and> m ! (?p + 2) = asc CHR ''#''"
  have doc: "(if ?p + 2 < lx_end s
     then do { c1 \<leftarrow> rd m (?p + 1); c2 \<leftarrow> rd m (?p + 2); Some (c1 = asc CHR ''#'' \<and> c2 = asc CHR ''#'') }
     else Some False) = Some doc" using e by (simp add: doc_def)
  define s1 where "s1 = (if doc then set_type tt_doc_comment (s\<lparr> lx_p := ?p + 2 \<rparr>) else set_type tt_comment s)"
  have s1: "lexer_ok m (s1\<lparr> unwrapped_text := [] \<rparr>)" "lx_p (s1\<lparr> unwrapped_text := [] \<rparr>) < lx_end (s1\<lparr> unwrapped_text := [] \<rparr>)"
    "lx_txt s1 = lx_txt s" "lx_end s1 = lx_end s" "?p \<le> lx_p s1" "sv_begin (tk_substr (lx_t s1)) = Some ?p"
    using r e by (auto simp: s1_def ready_def set_type_def doc_def)
  from comment_loop_ok [OF s1(1,2)] s1(3,4,5) obtain s2 where s2: "comment_loop m (s1\<lparr> unwrapped_text := [] \<rparr>) = Some s2"
    "lexer_ok m s2" "lx_txt s2 = lx_txt s" "lx_t s2 = lx_t s1" "?p < lx_p s2" "lx_p s2 \<le> Suc (lx_end s)" by auto
  let ?s3 = "set_value (tv_text (unwrapped_text s2)) s2"
  have "scan_hash m s = Some (end_token_at (lx_p s2) ?s3)"
    unfolding scan_hash_def doc bind.bind_lunit Let_def s1_def [symmetric] get_comment_token_def s2(1) by simp
  moreover have "token_scanned m s (end_token_at (lx_p s2) ?s3)"
    using r s1 s2 by (intro end_token_scanned) (simp_all add: set_value_def)
  ultimately show ?thesis by simp
qed

lemma quote_scanned:
  assumes r: "ready m s"
  shows "\<exists>s'. scan_quote m s = Some s' \<and> token_scanned m s s'"
proof -
  let ?p = "lx_p s" and ?s1 = "(set_type tt_quoted_string s)\<lparr> lx_p := Suc (lx_p s), unwrapped_text := [] \<rparr>"
  have e: "?p < lx_end s" "lx_end s < length m" using ready_bounds [OF r] by simp_all
  then have rd: "rd m ?p = Some (m ! ?p)" by simp
  have "lexer_ok m ?s1" "lx_p ?s1 \<le> Suc (lx_end ?s1)" using r e by (simp_all add: ready_def set_type_def)
  from string_loop_ok [OF this, of "m ! ?p"] obtain s2 where s2: "string_loop m (m ! ?p) ?s1 = Some s2"
    "lexer_ok m s2" "lx_txt s2 = lx_txt s" "lx_t s2 = lx_t ?s1" "Suc ?p \<le> lx_p s2" "lx_p s2 \<le> Suc (lx_end s)"
    by (auto simp: set_type_def)
  let ?s3 = "set_value (tv_text (unwrapped_text s2)) s2"
  have "scan_quote m s = Some (end_token_at (lx_p s2) ?s3)"
    unfolding scan_quote_def rd bind.bind_lunit Let_def get_string_literal_def using s2(1) by simp
  moreover have "token_scanned m s (end_token_at (lx_p s2) ?s3)"
    using r s2 by (intro end_token_scanned) (simp_all add: set_value_def set_type_def ready_def)
  ultimately show ?thesis by simp
qed

lemma sign_scans_number:
  assumes "ready m s" and "m ! lx_p s \<in> set [43, 45, 46]" and "lx_p s + 1 < lx_end s"
    and "is_ascii_digit (m ! (lx_p s + 1))"
  shows "scan_token fp m (m ! lx_p s) s = number_token fp m s"
proof -
  have "look m s 1 = Some (Some (m ! (lx_p s + 1)))"
    using assms(3) ready_bounds [OF assms(1)] by (simp add: look_def)
  moreover have "m ! (lx_p s + 1) \<notin> {45, 61, 91, 60, 43}"
    using assms(4) by (auto simp: byte_defs word_sle_eq)
  ultimately show ?thesis
    using assms(2,4) by (auto simp: scan_token_def scan_dot_def scan_minus_def scan_plus_def)
qed

lemma munched_scanned:
  assumes r: "ready m s" and l: "longest_operator (rest_of m s) n tt"
  shows "token_scanned m s (consume n tt s)"
proof (rule consume_scanned [OF r])
  from l op_texts_nonempty have "take n (rest_of m s) \<noteq> []"
    unfolding longest_operator_def list_all_iff by fastforce
  then show "0 < n" by (cases n) simp_all
  from l have "n \<le> length (rest_of m s)" by (simp add: longest_operator_def)
  with ready_bounds [OF r] show "lx_p s + n \<le> lx_end s" by (auto simp: rest_of_def)
qed

lemma other_scan_token:
  assumes "c \<notin> set [33, 37, 38, 40, 41, 42, 44, 47, 58, 60, 61, 62, 63, 91, 93, 94, 124, 126]" and "c \<notin> set [43, 45, 46]"
  shows "scan_token fp m c s =
    (if c = 35 then scan_hash m s else if c \<in> set [34, 39, 96] then scan_quote m s
     else if is_ascii_alpha c then get_phrase_token m s else if is_ascii_digit c then number_token fp m s
     else Some (end_token_at (lx_p s + 1) (set_type tt_error s)))"
  using assms by (simp add: scan_token_def)

lemma scan_token_scanned:
  fixes s :: "'d lexer"
  assumes r: "ready m s"
  shows "\<exists>s'. scan_token fp m (m ! lx_p s) s = Some s' \<and> token_scanned m s s'"
proof -
  let ?c = "m ! lx_p s"
  have b: "lx_p s < lx_end s" "lx_end s < length m" using ready_bounds [OF r] by simp_all
  let ?rest = "slice m (Suc (lx_p s)) (lx_end s)"
  have rest: "rest_of m s = ?c # ?rest" using b by (simp add: rest_of_def slice_Cons)
  have next_char: "lx_p s + 1 < lx_end s \<and> hd ?rest = m ! (lx_p s + 1)" if "?rest \<noteq> []"
  proof -
    from that have "lx_p s + 1 < lx_end s" by (cases "lx_p s + 1 < lx_end s") auto
    with b show ?thesis by (simp add: slice_Cons)
  qed
  consider (op) "?c \<in> set [33, 37, 38, 40, 41, 42, 44, 47, 58, 60, 61, 62, 63, 91, 93, 94, 124, 126]"
    | (sign) "?c \<in> set [43, 45, 46]"
    | (other) "?c \<notin> set [33, 37, 38, 40, 41, 42, 44, 47, 58, 60, 61, 62, 63, 91, 93, 94, 124, 126]" "?c \<notin> set [43, 45, 46]"
    by blast
  then show ?thesis
  proof cases
    case op
    with munch [of s m ?c ?rest fp] rest b munched_scanned [OF r] show ?thesis by fastforce
  next
    case sign
    show ?thesis
    proof (cases "?rest = [] \<or> \<not> is_ascii_digit (hd ?rest)")
      case True
      with munch_sign [of s m ?c ?rest fp] rest b sign munched_scanned [OF r] show ?thesis by fastforce
    next
      case False
      with next_char have d: "lx_p s + 1 < lx_end s" "is_ascii_digit (m ! (lx_p s + 1))" by auto
      with b sign have "number_here m (lx_p s) (lx_end s)" by (auto simp: number_here_def)
      with sign_scans_number [OF r sign d] show ?thesis using number_token_scanned [OF r] by simp
    qed
  next
    case other
    have "token_scanned m s (end_token_at (lx_p s + 1) (set_type tt_error s))"
      using r b by (intro end_token_scanned) (auto simp: ready_def set_type_def)
    moreover have "is_ascii_digit ?c \<longrightarrow> number_here m (lx_p s) (lx_end s)" using b by (simp add: number_here_def)
    ultimately show ?thesis
      unfolding other_scan_token [OF other]
      using hash_scanned [OF r] quote_scanned [OF r] phrase_token_scanned [OF r] number_token_scanned [OF r]
      by simp
  qed
qed

section \<open>Queued items\<close>

lemma start_token_ok:
  assumes "lexer_ok m s" and "token_at s b q"
  shows "lexer_ok m (start_token s)" "lx_txt (start_token s) = lx_txt s" "lx_p (start_token s) = q"
    "token_at (start_token s) q q" "queue_length (start_token s) = queue_length s"
    "lx_end (start_token s) = lx_end s"
proof -
  let ?v = "tk_substr (lx_t s)"
  from assms(2) have v: "sv_begin ?v = Some b" "q = b + sv_length ?v" by (auto simp: token_at_def sv_end_def)
  have "begin_at (Some q) ?v = \<lparr> sv_begin = Some q, sv_length = 0 \<rparr>"
    using v by (cases ?v) (auto simp: begin_at_def ptr_less_def ptr_diff_def Let_def)
  moreover have "sv_end ?v = Some q" using assms(2) by (simp add: token_at_def)
  ultimately have "start_token s = s\<lparr> lx_t := \<lparr> tk_type = tt_none, tk_substr = \<lparr> sv_begin = Some q, sv_length = 0 \<rparr>,
      tk_value = tv_empty \<rparr>, lx_p := q \<rparr>"
    by (simp add: start_token_def)
  then show "lexer_ok m (start_token s)" "lx_txt (start_token s) = lx_txt s" "lx_p (start_token s) = q"
    "token_at (start_token s) q q" "queue_length (start_token s) = queue_length s"
    "lx_end (start_token s) = lx_end s"
    using assms(1) by (simp_all add: token_at_def sv_end_def queue_length_def)
qed

lemma note_to_string_total:
  "get_issue_msg (note_issue n) \<noteq> None \<Longrightarrow> \<exists>u. note_to_string n = Some u"
  by (auto simp: note_to_string_def)

lemma sint_add_small:
  fixes x y :: u32
  assumes "\<bar>sint x\<bar> \<le> 63" and "unat y \<le> 63"
  shows "sint (x + y) = sint x + int (unat y)"
proof -
  have "sint (x + y) = signed_take_bit 31 (sint x + sint y)" by (simp add: sint_word_ariths)
  also have "\<dots> = sint x + int (unat y)"
    unfolding small_sint(1) [OF assms(2)] using assms by (intro signed_take_bit_int_eq_self) (simp_all del: of_nat_unat)
  finally show ?thesis .
qed

lemma dedent_ok:
  fixes s :: "'d lexer"
  assumes ok: "lexer_ok m s" and neg: "sint (indent_dedent_delta s) < 0"
  shows "\<exists>w s'. pop_indent s = Some (w, s') \<and>
    (let s'' = s'\<lparr> indent_dedent_delta := (if 0 <s indent_dedent_delta s' + w then 0 else indent_dedent_delta s' + w) \<rparr>
     in lexer_ok m s'' \<and> lx_txt s'' = lx_txt s \<and> lx_t s'' = lx_t s \<and> pending_error s'' = pending_error s \<and>
       nat \<bar>sint (indent_dedent_delta s'')\<bar> < nat \<bar>sint (indent_dedent_delta s)\<bar>)"
proof -
  let ?d = "sint (indent_dedent_delta s)"
  have ind: "indents_ok s" using ok by (simp add: lexer_ok_def)
  from pop_indent_ok [OF ind neg] obtain w s' where s': "pop_indent s = Some (w, s')" "0 < unat w" "unat w \<le> 63"
    "unat (total_indent_width s') = unat (total_indent_width s) - unat w" "unat w \<le> unat (total_indent_width s)"
    "lx_txt s' = lx_txt s" "lx_t s' = lx_t s" "lx_p s' = lx_p s" "pending_error s' = pending_error s"
    "indent_stack s' = indent_stack s" "indent_dedent_delta s' = indent_dedent_delta s"
    "last_stack_insert_idx s' \<noteq> NO_INDENT_YET" "unat (last_stack_insert_idx s') \<le> 63"
    "unat (total_indent_width s') = sum_list (stack_widths s')" "0 \<notin> set (stack_widths s')" by blast
  from ind neg have bd: "- ?d \<le> int (unat (total_indent_width s))" "unat (total_indent_width s) \<le> 63"
    by (auto simp: indents_ok_def uint_nat simp del: of_nat_unat)
  define d where "d = indent_dedent_delta s + w"
  have sd: "sint d = ?d + int (unat w)" unfolding d_def using bd neg s'(3) by (intro sint_add_small) (simp_all del: of_nat_unat)
  define d' where "d' = (if 0 <s d then 0 else d)"
  have pos: "0 <s d \<longleftrightarrow> 0 < sint d" by (simp add: word_sless_alt)
  have dd: "sint d' = (if 0 < sint d then 0 else sint d)" by (simp add: d'_def pos)
  let ?s = "s'\<lparr> indent_dedent_delta := d' \<rparr>"
  have sw: "stack_widths ?s = stack_widths s'" by (simp add: stack_widths_def)
  have "d' = 0 \<or> sint d' < 0 \<and> - sint d' \<le> int (unat (total_indent_width s'))"
    using dd sd bd s'(4,5) by (cases "sint d = 0") (auto simp: d'_def pos signed_eq_0_iff)
  then have "indents_ok ?s"
    using ind s' bd unfolding indents_ok_def sw by (auto simp: uint_nat simp del: of_nat_unat)
  then have "lexer_ok m ?s"
    using ok s'(6,9) by (intro lexer_ok_cong [OF ok]) (auto simp: lexer_ok_def)
  moreover have "nat \<bar>sint d'\<bar> < nat \<bar>?d\<bar>" using dd sd neg s'(2) by (simp del: of_nat_unat)
  moreover have "(if 0 <s indent_dedent_delta s' + w then 0 else indent_dedent_delta s' + w) = d'"
    by (simp add: d'_def d_def s'(11))
  ultimately show ?thesis using s' unfolding Let_def by (intro exI [of _ w] exI [of _ s']) simp
qed

lemma queued_token_ok:
  fixes s :: "'d lexer"
  assumes ok: "lexer_ok m s"
  shows "queued_token s = Some None \<and> queue_length s = 0 \<or>
    (\<exists>s'. queued_token s = Some (Some s') \<and> lexer_ok m s' \<and> lx_txt s' = lx_txt s \<and>
      tk_substr (lx_t s') = tk_substr (lx_t s) \<and> queue_length s' < queue_length s)"
proof -
  let ?d = "indent_dedent_delta s"
  consider (err) n where "pending_error s = Some n" | (none) "pending_error s = None" "?d = 0"
    | (ind) "pending_error s = None" "?d = 1" | (ded) "pending_error s = None" "sint ?d < 0"
    using ok by (cases "pending_error s") (auto simp: lexer_ok_def indents_ok_def)
  then show ?thesis
  proof cases
    case err
    with ok obtain u where u: "note_to_string n = Some u"
      using note_to_string_total [of n] by (auto simp: lexer_ok_def)
    let ?s = "(set_value (tv_text u) (set_type tt_error s))\<lparr> unwrapped_text := u, pending_error := None \<rparr>"
    have "indents_ok ?s" using ok indents_ok_cong [of ?s s] by (simp add: lexer_ok_def set_value_def set_type_def)
    then have "lexer_ok m ?s" by (intro lexer_ok_cong [OF ok]) (simp_all add: set_value_def set_type_def)
    with err u show ?thesis by (simp add: queued_token_def set_value_def set_type_def queue_length_def)
  next
    case none
    then show ?thesis by (simp add: queued_token_def queue_length_def)
  next
    case ind
    let ?s = "set_type tt_indent (s\<lparr> indent_dedent_delta := 0 \<rparr>)"
    have "indents_ok s" using ok by (simp add: lexer_ok_def)
    then have "indents_ok ?s" unfolding indents_ok_def stack_widths_def by (simp add: set_type_def split: if_splits)
    then have "lexer_ok m ?s" using ind by (intro lexer_ok_cong [OF ok]) (simp_all add: set_type_def)
    moreover have "0 <s (1 :: u32)" by (simp add: word_sless_alt)
    ultimately show ?thesis using ind by (simp add: queued_token_def set_type_def queue_length_def)
  next
    case ded
    from dedent_ok [OF ok ded(2)] obtain w s' where s': "pop_indent s = Some (w, s')" and
      rest: "let s'' = s'\<lparr> indent_dedent_delta := (if 0 <s indent_dedent_delta s' + w then 0 else indent_dedent_delta s' + w) \<rparr>
     in lexer_ok m s'' \<and> lx_txt s'' = lx_txt s \<and> lx_t s'' = lx_t s \<and> pending_error s'' = pending_error s \<and>
       nat \<bar>sint (indent_dedent_delta s'')\<bar> < nat \<bar>sint (indent_dedent_delta s)\<bar>" by blast
    define s2 where "s2 = s'\<lparr> indent_dedent_delta := (if 0 <s indent_dedent_delta s' + w then 0 else indent_dedent_delta s' + w) \<rparr>"
    have s2: "lexer_ok m s2" "lx_txt s2 = lx_txt s" "lx_t s2 = lx_t s" "pending_error s2 = pending_error s"
       "nat \<bar>sint (indent_dedent_delta s2)\<bar> < nat \<bar>sint ?d\<bar>"
      using rest unfolding Let_def s2_def [symmetric] by blast+
    have "?d \<noteq> 0" "\<not> 0 <s ?d" using ded(2) by (auto simp: word_sless_alt)
    then have "queued_token s = Some (Some (set_type tt_dedent s2))"
      using ded(1) s' by (simp add: queued_token_def s2_def Let_def)
    with s2 ded(1) show ?thesis by (simp add: set_type_def queue_length_def)
  qed
qed

section \<open>The next token\<close>

lemma final_dedents_ok:
  assumes ok: "lexer_ok m s"
  shows "lexer_ok m (s\<lparr> indent_dedent_delta := - total_indent_width s \<rparr>)"
proof -
  let ?s = "s\<lparr> indent_dedent_delta := - total_indent_width s \<rparr>"
  have sw: "stack_widths ?s = stack_widths s" by (simp add: stack_widths_def)
  have ind: "indents_ok s" using ok by (simp add: lexer_ok_def)
  then have "sint (- total_indent_width s) = - int (unat (total_indent_width s))"
    by (intro small_sint(2)) (simp add: indents_ok_def)
  then have "indents_ok ?s"
    using ind unfolding indents_ok_def sw
    by (cases "total_indent_width s = 0") (auto simp: uint_nat unat_gt_0 simp del: of_nat_unat split: if_splits)
  then show ?thesis using ok by (intro lexer_ok_cong [OF ok]) (auto simp: lexer_ok_def)
qed

lemma end_token_at_frame [simp]:
  "lexer_ok m (end_token_at q s) = lexer_ok m s" "lx_txt (end_token_at q s) = lx_txt s"
  "queue_length (end_token_at q s) = queue_length s" "lx_end (end_token_at q s) = lx_end s"
  "total_indent_width (end_token_at q s) = total_indent_width s"
  by (simp_all add: end_token_at_def queue_length_def)

lemma line_break_step_ok:
  fixes s :: "'d lexer"
  assumes ok: "lexer_ok m s" and p: "lx_p s < lx_end s" "token_at s (lx_p s) (lx_p s)"
  shows "\<exists>s' q. line_break_step m c s = Some s' \<and> lexer_ok m s' \<and> lx_txt s' = lx_txt s \<and>
    token_at s' (lx_p s) q \<and> lx_p s < q \<and> q \<le> lx_end s"
proof -
  let ?p = "lx_p s" and ?e = "lx_end s"
  have e: "?e < length m" using ok by (simp add: lexer_ok_def)
  have "\<exists>p1. (if c = 13 \<and> ?p + 1 < ?e
     then map_option (\<lambda>d. if d = 10 then ?p + 1 else ?p) (rd m (?p + 1)) else Some ?p) = Some p1 \<and> ?p \<le> p1 \<and> p1 < ?e"
    using e p by auto
  then obtain p1 where p1: "(if c = 13 \<and> ?p + 1 < ?e
     then map_option (\<lambda>d. if d = 10 then ?p + 1 else ?p) (rd m (?p + 1)) else Some ?p) = Some p1" "?p \<le> p1" "p1 < ?e"
    by blast
  let ?s = "s\<lparr> lx_p := Suc p1 \<rparr>"
  have unf: "line_break_step m c s = (if Suc p1 < ?e
      then map_option (\<lambda>(q, s). end_token_at q s) (scan_beginning_of_line m ?s)
      else Some ((end_token_at ?e ?s)\<lparr> indent_dedent_delta := - total_indent_width s \<rparr>))"
    unfolding line_break_step_def p1(1) bind.bind_lunit Let_def by simp
  have tok: "token_at (end_token_at q s2) ?p q" if "lx_t s2 = lx_t s" "?p \<le> q" for q and s2 :: "'d lexer"
    using that p(2) token_at_end_at [of "tk_substr (lx_t s)" ?p q] by (simp add: token_at_def end_token_at_def)
  show ?thesis
  proof (cases "Suc p1 < ?e")
    case True
    have "lexer_ok m ?s" using ok by simp
    from scan_beginning_of_line_ok [OF this] True obtain q s' where
      "scan_beginning_of_line m ?s = Some (q, s')" "lexer_ok m s'" "lx_txt s' = lx_txt s" "lx_t s' = lx_t s"
      "Suc p1 \<le> q" "q \<le> ?e" by auto
    with True p1 tok [of s' q] show ?thesis unfolding unf by auto
  next
    case False
    let ?s2 = "(end_token_at ?e ?s)\<lparr> indent_dedent_delta := - total_indent_width s \<rparr>"
    have "lexer_ok m ?s2" using final_dedents_ok [of m "end_token_at ?e ?s"] ok by simp
    moreover have "token_at ?s2 ?p ?e" using tok [of ?s ?e] p by (simp add: token_at_def)
    ultimately show ?thesis using False p unfolding unf by (auto simp del: lexer_ok_updates)
  qed
qed

text \<open>What one call of \<open>advance\<close> does to an object whose token ends at \<open>q\<close>.\<close>

definition advanced :: "buffer \<Rightarrow> 'd lexer \<Rightarrow> nat \<Rightarrow> bool \<Rightarrow> 'd lexer \<Rightarrow> bool" where
  "advanced m s q any s' \<longleftrightarrow>
     lexer_ok m s' \<and> lx_txt s' = lx_txt s \<and>
     (\<exists>b' q'. token_at s' b' q' \<and> q \<le> b' \<and> q' \<le> Suc (lx_end s) \<and>
       (if any then q < q' \<or> q' = q \<and> queue_length s' < queue_length s
        else queue_length s' = 0 \<and> b' = q' \<and> (q' = Suc (lx_end s) \<or> q' \<le> lx_end s \<and> m ! q' = 0)))"

lemma advanced_later:
  assumes "advanced m s1 q1 any s'" and "q < q1" and "lx_txt s1 = lx_txt s" and "queue_length s = 0 \<or> any"
  shows "advanced m s q any s'"
proof -
  have e: "lx_end s1 = lx_end s" using assms(3) by (simp add: lx_end_def)
  from assms(1) obtain b' q' where t: "token_at s' b' q'" "q1 \<le> b'" "q' \<le> Suc (lx_end s)" "lexer_ok m s'" "lx_txt s' = lx_txt s1"
    "if any then q1 < q' \<or> q' = q1 \<and> queue_length s' < queue_length s1
        else queue_length s' = 0 \<and> b' = q' \<and> (q' = Suc (lx_end s) \<or> q' \<le> lx_end s \<and> m ! q' = 0)"
    unfolding advanced_def e by blast
  show ?thesis
    unfolding advanced_def using t assms(2,3) by (intro conjI exI [of _ b'] exI [of _ q']) (auto split: if_splits)
qed

lemma advance_ok:
  fixes s :: "'d lexer"
  assumes "lexer_ok m s" and "token_at s b q" and "q \<le> Suc (lx_end s)"
  shows "\<exists>any s'. advance fp m s = Some (any, s') \<and> advanced m s q any s'"
  using assms
proof (induction "Suc (lx_end s) - q" arbitrary: s b q rule: less_induct)
  case less
  let ?s = "start_token s" and ?e = "lx_end s"
  note st = start_token_ok [OF less.prems(1,2)]
  from queued_token_ok [OF st(1)] consider
    (queued) s' where "queued_token ?s = Some (Some s')" "lexer_ok m s'" "lx_txt s' = lx_txt s"
      "tk_substr (lx_t s') = tk_substr (lx_t ?s)" "queue_length s' < queue_length s"
    | (scan) "queued_token ?s = Some None" "queue_length s = 0"
    using st by auto
  then show ?case
  proof cases
    case queued
    then have "advance fp m s = Some (True, s')" by (subst advance.simps) simp
    moreover have "token_at s' q q" using queued(4) st(4) by (simp add: token_at_def)
    ultimately show ?thesis using queued less.prems(3) by (auto simp: advanced_def)
  next
    case scan
    have stop: "advanced m s q False ?s" if "q = Suc ?e \<or> q \<le> ?e \<and> m ! q = 0"
      using that st scan(2) less.prems(3) by (auto simp: advanced_def)
    have again: "\<exists>any s'. advance fp m s = Some (any, s') \<and> advanced m s q any s'"
      if "advance fp m s = advance fp m s1" "lexer_ok m s1" "lx_txt s1 = lx_txt s" "token_at s1 q q1" "q < q1" "q1 \<le> ?e"
      for s1 q1
    proof -
      have e1: "lx_end s1 = ?e" using that(3) by (simp add: lx_end_def)
      have "Suc (lx_end s1) - q1 < Suc ?e - q" "q1 \<le> Suc (lx_end s1)" using that(5,6) by (auto simp: e1)
      from less.hyps [OF this(1) that(2,4) this(2)] that advanced_later scan(2) show ?thesis by metis
    qed
    show ?thesis
    proof (cases "q = Suc ?e")
      case True
      then have "advance fp m s = Some (False, ?s)" using scan(1) st(3) by (subst advance.simps) simp
      with stop True show ?thesis by blast
    next
      case False
      let ?c = "m ! q"
      from False less.prems(3) have q: "q \<le> ?e" by simp
      have e: "?e < length m" "m ! ?e = 0" using less.prems(1) by (auto simp: lexer_ok_def)
      have unf: "advance fp m s = (if ?c = 0 then Some (False, ?s)
             else if ?c = 13 \<or> ?c = 10 then line_break_step m ?c ?s \<bind> (\<lambda>s. advance fp m s)
             else if ?c = 9 \<or> ?c = 32
             then scan_spaces_and_tabs m (q + 1) ?e \<bind> (\<lambda>q. advance fp m (end_token_at q ?s))
             else scan_token fp m ?c ?s \<bind> (\<lambda>s. Some (True, s)))"
        using scan(1) q e by (subst advance.simps) (simp add: st(3))
      consider (nul) "?c = 0" | (break) "?c \<noteq> 0" "?c = 13 \<or> ?c = 10"
        | (blank) "?c \<noteq> 0" "\<not> (?c = 13 \<or> ?c = 10)" "?c = 9 \<or> ?c = 32"
        | (token) "?c \<noteq> 0" "\<not> (?c = 13 \<or> ?c = 10)" "\<not> (?c = 9 \<or> ?c = 32)" by blast
      then show ?thesis
      proof cases
        case nul
        with stop q show ?thesis unfolding unf by auto
      next
        case break
        from break(1) q e have lt: "q < ?e" by (cases "q = ?e") auto
        then obtain s1 q1 where "line_break_step m ?c ?s = Some s1" "lexer_ok m s1" "lx_txt s1 = lx_txt s"
          "token_at s1 q q1" "q < q1" "q1 \<le> ?e"
          using line_break_step_ok [OF st(1), of ?c] st by auto
        with break show ?thesis by (intro again [of s1 q1]) (simp_all add: unf)
      next
        case blank
        from blank(1) q e have lt: "q < ?e" by (cases "q = ?e") auto
        then obtain q1 where "scan_spaces_and_tabs m (q + 1) ?e = Some q1" "q + 1 \<le> q1" "q1 \<le> ?e"
          using scan_spaces_result [of "q + 1" ?e m] e by auto
        moreover from this have "token_at (end_token_at q1 ?s) q q1"
          using st(4) token_at_end_at [of "tk_substr (lx_t ?s)" q q1] by (simp add: token_at_def end_token_at_def)
        ultimately show ?thesis using blank st by (intro again [of "end_token_at q1 ?s" q1]) (simp_all add: unf)
      next
        case token
        from token(1) q e have lt: "q < ?e" by (cases "q = ?e") auto
        then have "ready m ?s" using st by (simp add: ready_def token_at_def)
        from scan_token_scanned [OF this, of fp] obtain s1 where "scan_token fp m ?c ?s = Some s1" "token_scanned m ?s s1"
          by (auto simp: st(3))
        with token st show ?thesis unfolding unf by (auto simp: token_scanned_def advanced_def)
      qed
    qed
  qed
qed

section \<open>All tokens\<close>

lemma queue_length_le: "lexer_ok m s \<Longrightarrow> queue_length s \<le> 64"
proof -
  assume "lexer_ok m s"
  then have "unat (total_indent_width s) \<le> 63" "indent_dedent_delta s = 0 \<or> indent_dedent_delta s = 1 \<or>
      sint (indent_dedent_delta s) < 0 \<and> - sint (indent_dedent_delta s) \<le> int (unat (total_indent_width s))"
    by (auto simp: lexer_ok_def indents_ok_def uint_nat simp del: of_nat_unat)
  then show ?thesis by (auto simp: queue_length_def simp del: of_nat_unat)
qed

text \<open>The tokens follow each other in the range from \<open>q\<close> to \<open>hi\<close>.\<close>

fun tokens_in_order :: "nat \<Rightarrow> nat \<Rightarrow> 'd token list \<Rightarrow> bool" where
  "tokens_in_order hi q [] = (q \<le> hi)"
| "tokens_in_order hi q (t # ts) =
     (case (sv_begin (tk_substr t), sv_end (tk_substr t)) of
        (Some b, Some e) \<Rightarrow> q \<le> b \<and> b \<le> e \<and> tokens_in_order hi e ts
      | _ \<Rightarrow> False)"

lemma tokens_from_ends:
  fixes s :: "'d lexer"
  assumes "lexer_ok m s" and "token_at s b q" and "q \<le> Suc (lx_end s)"
    and "65 * (Suc (lx_end s) - q) + queue_length s < n"
  shows "\<exists>ts. tokens_from n fp m s = Some (ts, True) \<and> tokens_in_order (Suc (lx_end s)) q ts"
  using assms
proof (induction n arbitrary: s b q)
  case 0
  then show ?case by simp
next
  case (Suc n)
  from advance_ok [OF Suc.prems(1,2,3), of fp] obtain any s' where
    a: "advance fp m s = Some (any, s')" "advanced m s q any s'" by blast
  show ?case
  proof (cases any)
    case False
    with a Suc.prems(3) show ?thesis by simp
  next
    case True
    with a(2) obtain b' q' where t: "lexer_ok m s'" "lx_txt s' = lx_txt s" "token_at s' b' q'" "q \<le> b'"
      "q' \<le> Suc (lx_end s)" "q < q' \<or> q' = q \<and> queue_length s' < queue_length s" by (auto simp: advanced_def)
    have e: "lx_end s' = lx_end s" using t(2) by (simp add: lx_end_def)
    have "b' \<le> q'" using t(3) by (auto simp: token_at_def sv_end_def)
    have "65 * (Suc (lx_end s') - q') + queue_length s' < n"
      using t(5,6) Suc.prems(4) queue_length_le [OF t(1)] by (auto simp: e)
    from Suc.IH [OF t(1,3) _ this] t(5) obtain ts where "tokens_from n fp m s' = Some (ts, True)"
      "tokens_in_order (Suc (lx_end s)) q' ts" by (auto simp: e)
    with True a(1) t(3,4) \<open>b' \<le> q'\<close> show ?thesis by (auto simp: token_at_def)
  qed
qed

lemma fresh_lexer_ok:
  assumes "length uninit = 64" and "sv_begin txt = Some b" and "sv_end txt = Some e" and "e < length m" and "m ! e = 0"
    and "narrow_indents m e"
  shows "lexer_ok m \<lparr> lx_txt = txt, lx_t = t, unwrapped_text = u, line_begin = lb, lx_p = b, inconsistent_indent = inc,
      line_number = n, total_indent_width = 0, indent_dedent_delta = 0, last_stack_insert_idx = NO_INDENT_YET,
      indent_stack = uninit, pending_error = None \<rparr>"
  using assms by (simp add: lexer_ok_def indents_ok_def lx_end_def)

lemma lexer_new_ok:
  fixes fp :: "'d double_ops"
  assumes "length uninit = 64" and b: "sv_begin txt = Some b" and e: "sv_end txt = Some e" and "e < length m" and "m ! e = 0"
    and "narrow_indents m e"
  shows "\<exists>s b' q'. lexer_new fp m uninit txt = Some s \<and> lexer_ok m s \<and> lx_end s = e \<and>
    token_at s b' q' \<and> b \<le> b' \<and> q' \<le> Suc e"
proof -
  define s0 :: "'d lexer" where "s0 = \<lparr> lx_txt = txt, lx_t = \<lparr> tk_type = tt_none, tk_substr = strview_default, tk_value = tv_empty \<rparr>,
     unwrapped_text = [], line_begin = b, lx_p = b, inconsistent_indent = None,
     line_number = 0, total_indent_width = 0, indent_dedent_delta = 0,
     last_stack_insert_idx = NO_INDENT_YET, indent_stack = uninit, pending_error = None \<rparr>"
  have ok: "lexer_ok m s0" unfolding s0_def using assms by (intro fresh_lexer_ok)
  have be: "b \<le> e" using b e by (auto simp: sv_end_def)
  have end0: "lx_end s0 = e" "lx_p s0 = b" using e by (simp_all add: s0_def lx_end_def)
  from scan_beginning_of_line_ok [OF ok] end0 be obtain q s1 where s1: "scan_beginning_of_line m s0 = Some (q, s1)"
    "lexer_ok m s1" "lx_txt s1 = lx_txt s0" "b \<le> q" "q \<le> e" by auto
  let ?s2 = "s1\<lparr> lx_t := (lx_t s1)\<lparr> tk_substr := end_at q \<lparr> sv_begin = Some b, sv_length = 0 \<rparr> \<rparr> \<rparr>"
  have "lx_end ?s2 = e" using s1(3) end0 by (simp add: lx_end_def)
  moreover have "token_at ?s2 b q"
    using s1(4) token_at_end_at [of "\<lparr> sv_begin = Some b, sv_length = 0 \<rparr>" b q] by (simp add: token_at_def)
  moreover have "lexer_ok m ?s2" using s1(2) by simp
  ultimately obtain any s3 where s3: "advance fp m ?s2 = Some (any, s3)" "advanced m ?s2 q any s3"
    using advance_ok [of m ?s2 b q fp] s1(5) by auto
  have "lexer_new fp m uninit txt = Some s3"
    unfolding lexer_new_def b option.case Let_def s0_def [symmetric] s1(1) bind.bind_lunit prod.case s3(1) by simp
  moreover from s3(2) obtain b' q' where "lexer_ok m s3" "lx_txt s3 = lx_txt ?s2" "token_at s3 b' q'" "q \<le> b'"
    "q' \<le> Suc (lx_end ?s2)" unfolding advanced_def by blast
  moreover from this have "lx_end s3 = e" using \<open>lx_end ?s2 = e\<close> by (simp add: lx_end_def)
  ultimately show ?thesis
    using \<open>lx_end ?s2 = e\<close> s1(4) by (intro exI [of _ s3] exI [of _ b'] exI [of _ q']) simp
qed

section \<open>Dedents without end\<close>

text \<open>A dedent is queued that is wider than all the indents that are stored.\<close>

definition dedents_stuck :: "'d lexer \<Rightarrow> bool" where
  "dedents_stuck s \<longleftrightarrow>
     pending_error s = None \<and> unat (last_stack_insert_idx s) < length (indent_stack s) \<and>
     sint (indent_dedent_delta s) + int (sum_list (stack_widths s)) < 0"

lemma sint_add_uint:
  fixes x y :: "32 word"
  assumes "sint x + uint y \<in> {- (2 ^ 31)..<2 ^ 31}"
  shows "sint (x + y) = sint x + uint y"
proof -
  have "x + y = word_of_int (sint x + uint y)" by simp
  then have "sint (x + y) = signed_take_bit 31 (sint x + uint y)" by (simp only: signed_of_int) simp
  also have "\<dots> = sint x + uint y" using assms by (intro signed_take_bit_int_eq_self) auto
  finally show ?thesis .
qed

lemma stuck_pop:
  assumes "dedents_stuck s"
  shows "\<exists>w s'. pop_indent s = Some (w, s') \<and> lx_txt s' = lx_txt s \<and> indent_dedent_delta s' = indent_dedent_delta s \<and>
    dedents_stuck (s'\<lparr> indent_dedent_delta := indent_dedent_delta s + w \<rparr>) \<and> sint (indent_dedent_delta s + w) < 0"
proof (cases "last_stack_insert_idx s = 0")
  case True
  then show ?thesis using assms by (auto simp: pop_indent_def EMPTY_INDENT_STACK_def dedents_stuck_def stack_widths_def)
next
  case False
  let ?i = "last_stack_insert_idx s"
  obtain k where k: "unat ?i = Suc k" using False by (metis not0_implies_Suc unat_eq_zero)
  have i1: "unat (?i - 1) = k" using k False by (simp add: unat_sub_if_size)
  define w where "w = indent_stack s ! Suc k"
  have lt: "Suc k < length (indent_stack s)" using assms k by (simp add: dedents_stuck_def)
  let ?s = "s\<lparr> last_stack_insert_idx := ?i - 1, total_indent_width := total_indent_width s - ucast w \<rparr>"
  have pop: "pop_indent s = Some (ucast w, ?s)"
    using False lt k by (simp add: pop_indent_def EMPTY_INDENT_STACK_def word_gt_0 w_def)
  have sw: "stack_widths s = stack_widths ?s @ [unat w]"
    using lt by (simp add: stack_widths_def k i1 take_Suc_conv_app_nth w_def)
  have u: "uint (ucast w :: u32) = int (unat w)" by (simp add: uint_up_ucast is_up)
  have neg: "sint (indent_dedent_delta s) + int (unat w) + int (sum_list (stack_widths ?s)) < 0"
    using assms unfolding dedents_stuck_def sw by simp
  moreover have "- (2 ^ 31) \<le> sint (indent_dedent_delta s)" using sint_ge [of "indent_dedent_delta s"] by simp
  ultimately have "sint (indent_dedent_delta s) + int (unat w) \<in> {- (2 ^ 31)..<2 ^ 31}"
    unfolding atLeastLessThan_iff by linarith
  then have add: "sint (indent_dedent_delta s + ucast w) = sint (indent_dedent_delta s) + int (unat w)"
    using sint_add_uint [of "indent_dedent_delta s" "ucast w", unfolded u] by simp
  have "stack_widths (?s\<lparr> indent_dedent_delta := x \<rparr>) = stack_widths ?s" for x by (simp add: stack_widths_def)
  then have "dedents_stuck (?s\<lparr> indent_dedent_delta := indent_dedent_delta s + ucast w \<rparr>)"
    using assms lt i1 neg add unfolding dedents_stuck_def by simp
  then show ?thesis using pop neg add by auto
qed

lemma stuck_step:
  assumes "dedents_stuck s"
  shows "\<exists>s'. advance fp m s = Some (True, s') \<and> dedents_stuck s' \<and> tk_type (lx_t s') = tt_dedent"
proof -
  let ?s = "start_token s"
  have st: "pending_error ?s = None" "indent_dedent_delta ?s = indent_dedent_delta s" "dedents_stuck ?s"
    using assms by (simp_all add: start_token_def Let_def dedents_stuck_def stack_widths_def)
  obtain w s1 where s1: "pop_indent ?s = Some (w, s1)" "indent_dedent_delta s1 = indent_dedent_delta s"
      "dedents_stuck (s1\<lparr> indent_dedent_delta := indent_dedent_delta s + w \<rparr>)" "sint (indent_dedent_delta s + w) < 0"
    using stuck_pop [OF st(3)] st(2) by auto
  have d: "indent_dedent_delta s \<noteq> 0" "\<not> 0 <s indent_dedent_delta s" using assms by (auto simp: dedents_stuck_def word_sless_alt)
  let ?s' = "set_type tt_dedent (s1\<lparr> indent_dedent_delta := indent_dedent_delta s + w \<rparr>)"
  have "queued_token ?s = Some (Some ?s')"
    using st d s1(1,2,4) by (simp add: queued_token_def Let_def word_sless_alt)
  then have "advance fp m s = Some (True, ?s')" by (subst advance.simps) simp
  moreover have "dedents_stuck ?s'" using s1(3) by (simp add: dedents_stuck_def set_type_def stack_widths_def)
  ultimately show ?thesis by (auto simp: set_type_def)
qed

lemma stuck_tokens:
  "dedents_stuck s \<Longrightarrow> \<exists>ts. tokens_from n fp m s = Some (ts, False) \<and> length ts = n \<and> list_all (\<lambda>t. tk_type t = tt_dedent) ts"
proof (induction n arbitrary: s)
  case 0
  then show ?case by simp
next
  case (Suc n)
  from stuck_step [OF Suc.prems, of fp m] obtain s' where "advance fp m s = Some (True, s')" "dedents_stuck s'" "tk_type (lx_t s') = tt_dedent" by blast
  with Suc.IH [of s'] show ?case by fastforce
qed

text \<open>A line indented by 64 tabs, then a line that is not indented.\<close>

definition wide_text :: buffer where
  "wide_text = cstr (replicate 64 9 @ lit ''a'' @ [10] @ lit ''b'')"

definition wide_view :: str_view where
  "wide_view = \<lparr> sv_begin = Some 0, sv_length = 67 \<rparr>"

lemma wide_text_stuck:
  "case lexer_new int_ops wide_text (replicate 64 0) wide_view of
     None \<Rightarrow> False
   | Some s \<Rightarrow> (case advance int_ops wide_text s of
       None \<Rightarrow> False
     | Some (any, s') \<Rightarrow> any \<and> (case advance int_ops wide_text s' of
         None \<Rightarrow> False
       | Some (any', s'') \<Rightarrow> any' \<and> dedents_stuck s''))"
  by code_simp

section \<open>Properties\<close>

text \<open>C2: on a null-terminated text whose runs of blanks are at most 63 columns wide (\<open>narrow_indents\<close>), one call of \<open>advance\<close> returns, reads
  nothing but the text and its terminator and stores nothing outside \<open>indent_stack\<close>; it keeps the
  invariant of the indent stack. The next token begins at or behind the end of the previous one. A call
  that returns \<open>true\<close> moves the end of the token forward or takes an item off the queue of errors, indents
  and dedents; a call that returns \<open>false\<close> leaves nothing queued and stands at a null character or behind the text.\<close>

theorem advance_progress:
  assumes "lexer_ok m s" and "token_at s b q" and "q \<le> Suc (lx_end s)"
  shows "\<exists>any s' b' q'. advance fp m s = Some (any, s') \<and> lexer_ok m s' \<and> lx_txt s' = lx_txt s \<and>
    token_at s' b' q' \<and> q \<le> b' \<and> q' \<le> Suc (lx_end s) \<and>
    (if any then q < q' \<or> q' = q \<and> queue_length s' < queue_length s
     else queue_length s' = 0 \<and> b' = q' \<and> (q' = Suc (lx_end s) \<or> q' \<le> lx_end s \<and> m ! q' = 0))"
  using advance_ok [OF assms, of fp] unfolding advanced_def by blast

theorem advance_progress_witness:
  "\<exists>any s' b' q'. advance int_ops (cstr (lit ''a''))
     \<lparr> lx_txt = \<lparr> sv_begin = Some 0, sv_length = 1 \<rparr>,
       lx_t = \<lparr> tk_type = tt_none, tk_substr = \<lparr> sv_begin = Some 0, sv_length = 0 \<rparr>, tk_value = tv_empty \<rparr>,
       unwrapped_text = [], line_begin = 0, lx_p = 0, inconsistent_indent = None, line_number = 1,
       total_indent_width = 0, indent_dedent_delta = 0, last_stack_insert_idx = NO_INDENT_YET,
       indent_stack = replicate 64 0, pending_error = None \<rparr> = Some (any, s') \<and>
     lexer_ok (cstr (lit ''a'')) s' \<and> token_at s' b' q' \<and> q' \<le> 2"
proof -
  let ?v = "\<lparr> sv_begin = Some 0, sv_length = 1 \<rparr>"
  define s :: "int lexer" where "s = \<lparr> lx_txt = ?v,
       lx_t = \<lparr> tk_type = tt_none, tk_substr = \<lparr> sv_begin = Some 0, sv_length = 0 \<rparr>, tk_value = tv_empty \<rparr>,
       unwrapped_text = [], line_begin = 0, lx_p = 0, inconsistent_indent = None, line_number = 1,
       total_indent_width = 0, indent_dedent_delta = 0, last_stack_insert_idx = NO_INDENT_YET,
       indent_stack = replicate 64 0, pending_error = None \<rparr>"
  have "narrow_indents (cstr (lit ''a'')) 1" by code_simp
  then have ok: "lexer_ok (cstr (lit ''a'')) s"
    unfolding s_def by (intro fresh_lexer_ok [of _ _ _ 1]) (simp_all add: sv_end_def cstr_def)
  have at: "token_at s 0 0" "lx_end s = 1" by (simp_all add: token_at_def sv_end_def lx_end_def s_def)
  then have le: "0 \<le> Suc (lx_end s)" by simp
  from advance_progress [OF ok at(1) le, of int_ops] at(2) show ?thesis
    unfolding s_def [symmetric] by (auto simp: numeral_2_eq_2)
qed

text \<open>C1: tokenization ends. On a null-terminated text whose runs of blanks are at most 63 columns wide (\<open>narrow_indents\<close>) the constructor
  succeeds whatever \<open>indent_stack\<close> contains, the end is reached within \<open>65 * (n + 2)\<close> increments of the
  iterator, where \<open>n\<close> is the offset of the end of the text, and the tokens do not overlap.\<close>

theorem tokenization_ends:
  assumes "length uninit = 64" and "sv_begin txt = Some b" and "sv_end txt = Some e" and "e < length m" and "m ! e = 0"
    and "narrow_indents m e"
  shows "\<exists>s ts. lexer_new fp m uninit txt = Some s \<and> tokens_from (65 * (e + 2)) fp m s = Some (ts, True) \<and>
    tokens_in_order (Suc e) b (lx_t s # ts)"
proof -
  from lexer_new_ok [OF assms, of fp] obtain s b' q' where s: "lexer_new fp m uninit txt = Some s" "lexer_ok m s"
    "lx_end s = e" "token_at s b' q'" "b \<le> b'" "q' \<le> Suc e" by blast
  have "65 * (Suc (lx_end s) - q') + queue_length s < 65 * (e + 2)"
    using queue_length_le [OF s(2)] by (simp add: s(3))
  from tokens_from_ends [OF s(2,4) _ this, of fp] s obtain ts where
    "tokens_from (65 * (e + 2)) fp m s = Some (ts, True)" "tokens_in_order (Suc e) q' ts" by auto
  moreover have "b' \<le> q'" using s(4) by (auto simp: token_at_def sv_end_def)
  ultimately show ?thesis using s by (auto simp: token_at_def)
qed

theorem tokenization_ends_witness:
  "\<exists>s ts. lexer_new int_ops (cstr (lit ''if x'' @ [10, 9] @ lit ''y'')) (replicate 64 7) \<lparr> sv_begin = Some 0, sv_length = 7 \<rparr> = Some s \<and>
     tokens_from 585 int_ops (cstr (lit ''if x'' @ [10, 9] @ lit ''y'')) s = Some (ts, True) \<and>
     tokens_in_order 8 0 (lx_t s # ts)"
proof -
  have "narrow_indents (cstr (lit ''if x'' @ [10, 9] @ lit ''y'')) 7" by code_simp
  then show ?thesis
    using tokenization_ends [of "replicate 64 7" "\<lparr> sv_begin = Some 0, sv_length = 7 \<rparr>" 0 7
        "cstr (lit ''if x'' @ [10, 9] @ lit ''y'')" int_ops]
    by (simp add: sv_end_def cstr_def)
qed



end
