(* ===== verification/Simulation.thy ===== *)
theory Simulation
  imports Main
begin

text \<open>
  Refinement of one machine by another, shared by the components that have an abstract specification: a
  relation that every labelled step preserves is preserved by every sequence of steps.
\<close>

locale simulation =
  fixes cstep :: "'c \<Rightarrow> 'l \<Rightarrow> 'c"
    and astep :: "'a \<Rightarrow> 'l \<Rightarrow> 'a"
    and related :: "'c \<Rightarrow> 'a \<Rightarrow> bool"
  assumes step: "related c a \<Longrightarrow> related (cstep c l) (astep a l)"
begin

lemma steps: "related c a \<Longrightarrow> related (foldl cstep c ls) (foldl astep a ls)"
  by (induction ls arbitrary: c a) (simp_all add: step)

lemma observed:
  assumes "related c a" and "\<And>c a. related c a \<Longrightarrow> f c = g a"
  shows "f (foldl cstep c ls) = g (foldl astep a ls)"
  using assms(2) [OF steps [OF assms(1)]] .

end

text \<open>The special case of an invariant: the abstract machine has one state.\<close>

locale invariant_kept =
  fixes cstep :: "'c \<Rightarrow> 'l \<Rightarrow> 'c"
    and holds :: "'c \<Rightarrow> bool"
  assumes kept: "holds c \<Longrightarrow> holds (cstep c l)"

sublocale invariant_kept \<subseteq> inv: simulation cstep "\<lambda>u l. u" "\<lambda>c (u :: unit). holds c"
  by unfold_locales (rule kept)

context invariant_kept
begin

lemma always: "holds c \<Longrightarrow> holds (foldl cstep c ls)"
  by (rule inv.steps)

end

end
