(* ===== verification/Ordered_Map.thy ===== *)
theory Ordered_Map
  imports Main
begin

text \<open>
  \<open>std::map\<close> with a comparison object, as the ordered list of its entries. Searches go to the first entry that
  is not less than the key, as \<open>lower_bound\<close> does. The locale \<open>ordered_map\<close> states what the standard
  demands of the comparison (a strict weak order, here on the keys that satisfy \<open>key_ok\<close>) and derives the
  laws of lookup, assignment and removal.
\<close>

fun om_find :: "('k \<Rightarrow> 'k \<Rightarrow> bool) \<Rightarrow> ('k \<times> 'v) list \<Rightarrow> 'k \<Rightarrow> 'v option" where
  "om_find lt [] k = None"
| "om_find lt ((k', v) # xs) k = (if lt k' k then om_find lt xs k else if lt k k' then None else Some v)"

text \<open>\<open>m[k] = v\<close>: an equivalent key stays and gets the new value.\<close>

fun om_assign :: "('k \<Rightarrow> 'k \<Rightarrow> bool) \<Rightarrow> 'k \<Rightarrow> 'v \<Rightarrow> ('k \<times> 'v) list \<Rightarrow> ('k \<times> 'v) list" where
  "om_assign lt k v [] = [(k, v)]"
| "om_assign lt k v ((k', v') # xs) =
     (if lt k' k then (k', v') # om_assign lt k v xs
      else if lt k k' then (k, v) # (k', v') # xs
      else (k', v) # xs)"

fun om_erase :: "('k \<Rightarrow> 'k \<Rightarrow> bool) \<Rightarrow> 'k \<Rightarrow> ('k \<times> 'v) list \<Rightarrow> ('k \<times> 'v) list" where
  "om_erase lt k [] = []"
| "om_erase lt k ((k', v') # xs) =
     (if lt k' k then (k', v') # om_erase lt k xs else if lt k k' then (k', v') # xs else xs)"

definition om_ok :: "('k \<Rightarrow> 'k \<Rightarrow> bool) \<Rightarrow> ('k \<Rightarrow> bool) \<Rightarrow> ('k \<times> 'v) list \<Rightarrow> bool" where
  "om_ok lt key_ok xs \<longleftrightarrow> sorted_wrt (\<lambda>x y. lt (fst x) (fst y)) xs \<and> list_all (\<lambda>x. key_ok (fst x)) xs"

definition om_equiv :: "('k \<Rightarrow> 'k \<Rightarrow> bool) \<Rightarrow> 'k \<Rightarrow> 'k \<Rightarrow> bool" where
  "om_equiv lt a b \<longleftrightarrow> \<not> lt a b \<and> \<not> lt b a"

locale ordered_map =
  fixes lt :: "'k \<Rightarrow> 'k \<Rightarrow> bool"
    and key_ok :: "'k \<Rightarrow> bool"
  assumes irrefl: "key_ok a \<Longrightarrow> \<not> lt a a"
    and trans: "key_ok a \<Longrightarrow> key_ok b \<Longrightarrow> key_ok c \<Longrightarrow> lt a b \<Longrightarrow> lt b c \<Longrightarrow> lt a c"
    and cotrans: "key_ok a \<Longrightarrow> key_ok b \<Longrightarrow> key_ok c \<Longrightarrow> lt a c \<Longrightarrow> lt a b \<or> lt b c"
begin

lemma equiv_less:
  assumes "key_ok a" and "key_ok b" and "key_ok c" and "om_equiv lt a b"
  shows "lt a c = lt b c" and "lt c a = lt c b"
  using assms cotrans unfolding om_equiv_def by blast+

lemma asym: "lt a b \<Longrightarrow> key_ok a \<Longrightarrow> key_ok b \<Longrightarrow> \<not> lt b a"
  using trans [of a b a] irrefl by blast

lemma three_way:
  obtains (before) "lt a b" | (after) "lt b a" | (equiv) "om_equiv lt a b"
  by (auto simp: om_equiv_def)

lemma om_ok_Nil: "om_ok lt key_ok []"
  by (simp add: om_ok_def)

lemma om_ok_Cons:
  "om_ok lt key_ok ((k, v) # xs) \<longleftrightarrow> key_ok k \<and> om_ok lt key_ok xs \<and> (\<forall>x \<in> set xs. lt k (fst x))"
  by (auto simp: om_ok_def)

lemma keys_assign: "fst ` set (om_assign lt k v xs) \<subseteq> insert k (fst ` set xs)"
  by (induction xs) (force split: if_splits)+

lemma assign_ok:
  assumes "om_ok lt key_ok xs" and "key_ok k"
  shows "om_ok lt key_ok (om_assign lt k v xs)"
  using assms
proof (induction xs)
  case Nil
  then show ?case by (simp add: om_ok_def)
next
  case (Cons x xs)
  obtain k' v' where x: "x = (k', v')" by (cases x)
  have k': "key_ok k'" "\<And>y. y \<in> set xs \<Longrightarrow> lt k' (fst y)" "om_ok lt key_ok xs"
    "\<And>y. y \<in> set xs \<Longrightarrow> key_ok (fst y)"
    using Cons.prems x by (auto simp: om_ok_def list_all_iff)
  have later: "lt k' (fst y)" if "lt k' k" "y \<in> set (om_assign lt k v xs)" for y
    using that keys_assign [of k v xs] k'(2) by fastforce
  have head: "lt k (fst y)" if "lt k k'" "y \<in> set xs" for y
    using trans [OF Cons.prems(2) k'(1) k'(4)] that k'(2) by blast
  show ?case
    unfolding x using Cons.IH [OF k'(3) Cons.prems(2)] k' later head Cons.prems(2) by (auto simp: om_ok_Cons)
qed

lemma find_before: "\<forall>x \<in> set xs. lt k (fst x) \<and> \<not> lt (fst x) k \<Longrightarrow> om_find lt xs k = None"
  by (cases xs) auto

lemma find_assign:
  assumes "om_ok lt key_ok xs" and "key_ok k" and "key_ok j"
  shows "om_find lt (om_assign lt k v xs) j = (if om_equiv lt k j then Some v else om_find lt xs j)"
  using assms
proof (induction xs)
  case Nil
  then show ?case by (simp add: om_equiv_def)
next
  case (Cons x xs)
  obtain k' v' where x: "x = (k', v')" by (cases x)
  have k': "key_ok k'" "om_ok lt key_ok xs" using Cons.prems x by (auto simp: om_ok_def list_all_iff)
  note ih = Cons.IH [OF k'(2) Cons.prems(2,3)]
  show ?case
    unfolding x
  proof (cases k' k rule: three_way)
    case before
    have "om_equiv lt k' j \<Longrightarrow> lt j k" using equiv_less(1) [OF k'(1) Cons.prems(3,2)] before by blast
    moreover have "lt j k' \<Longrightarrow> lt j k" using trans [OF Cons.prems(3) k'(1) Cons.prems(2)] before by blast
    ultimately show "om_find lt (om_assign lt k v ((k', v') # xs)) j =
        (if om_equiv lt k j then Some v else om_find lt ((k', v') # xs) j)"
      using before ih by (auto simp: om_equiv_def)
  next
    case after
    have "lt j k \<Longrightarrow> lt j k' \<and> \<not> lt k' j"
      using trans [OF Cons.prems(3,2) k'(1)] asym [OF _ Cons.prems(3) k'(1)] after by blast
    then show "om_find lt (om_assign lt k v ((k', v') # xs)) j =
        (if om_equiv lt k j then Some v else om_find lt ((k', v') # xs) j)"
      using after asym [OF after Cons.prems(2) k'(1)] by (auto simp: om_equiv_def)
  next
    case equiv
    then show "om_find lt (om_assign lt k v ((k', v') # xs)) j =
        (if om_equiv lt k j then Some v else om_find lt ((k', v') # xs) j)"
      using equiv_less [OF k'(1) Cons.prems(2,3)] by (auto simp: om_equiv_def)
  qed
qed

lemma erase_subset: "set (om_erase lt k xs) \<subseteq> set xs"
  by (induction xs) (auto split: if_splits)

lemma erase_ok: "om_ok lt key_ok xs \<Longrightarrow> om_ok lt key_ok (om_erase lt k xs)"
proof (induction xs)
  case (Cons x xs)
  obtain k' v' where x: "x = (k', v')" by (cases x)
  from Cons show ?case
    unfolding x using erase_subset [of k xs] by (auto simp: om_ok_Cons)
qed simp

lemma find_erase:
  assumes "om_ok lt key_ok xs" and "key_ok k" and "key_ok j"
  shows "om_find lt (om_erase lt k xs) j = (if om_equiv lt k j then None else om_find lt xs j)"
  using assms
proof (induction xs)
  case Nil
  then show ?case by simp
next
  case (Cons x xs)
  obtain k' v' where x: "x = (k', v')" by (cases x)
  have k': "key_ok k'" "om_ok lt key_ok xs" "\<And>y. y \<in> set xs \<Longrightarrow> lt k' (fst y) \<and> key_ok (fst y)"
    using Cons.prems x by (auto simp: om_ok_def list_all_iff)
  note ih = Cons.IH [OF k'(2) Cons.prems(2,3)]
  have gone: "om_find lt xs j = None" if "om_equiv lt k' j"
  proof (rule find_before, intro ballI)
    fix y
    assume y: "y \<in> set xs"
    from equiv_less(1) [OF k'(1) Cons.prems(3) _ that] k'(3) [OF y] have "lt j (fst y)" by blast
    with asym Cons.prems(3) k'(3) [OF y] show "lt j (fst y) \<and> \<not> lt (fst y) j" by blast
  qed
  show ?case
    unfolding x
  proof (cases k' k rule: three_way)
    case before
    have "om_equiv lt k' j \<Longrightarrow> lt j k" using equiv_less(1) [OF k'(1) Cons.prems(3,2)] before by blast
    moreover have "lt j k' \<Longrightarrow> lt j k" using trans [OF Cons.prems(3) k'(1) Cons.prems(2)] before by blast
    ultimately show "om_find lt (om_erase lt k ((k', v') # xs)) j =
        (if om_equiv lt k j then None else om_find lt ((k', v') # xs) j)"
      using before ih by (auto simp: om_equiv_def)
  next
    case after
    have "om_equiv lt k j \<Longrightarrow> lt j k' \<and> \<not> lt k' j"
      using equiv_less(1) [OF Cons.prems(2,3) k'(1)] asym [OF _ Cons.prems(3) k'(1)] after by blast
    then show "om_find lt (om_erase lt k ((k', v') # xs)) j =
        (if om_equiv lt k j then None else om_find lt ((k', v') # xs) j)"
      using after asym [OF after Cons.prems(2) k'(1)] by auto
  next
    case equiv
    have eq: "lt k' j = lt k j" "lt j k' = lt j k" "om_equiv lt k' j = om_equiv lt k j"
      using equiv_less [OF k'(1) Cons.prems(2,3) equiv] by (auto simp: om_equiv_def)
    have "lt j k \<Longrightarrow> om_find lt xs j = None"
    proof (rule find_before, intro ballI)
      fix y
      assume "lt j k" and y: "y \<in> set xs"
      then have "lt j (fst y)" using trans [OF Cons.prems(3) k'(1)] k'(3) [OF y] eq by blast
      with asym Cons.prems(3) k'(3) [OF y] show "lt j (fst y) \<and> \<not> lt (fst y) j" by blast
    qed
    then show "om_find lt (om_erase lt k ((k', v') # xs)) j =
        (if om_equiv lt k j then None else om_find lt ((k', v') # xs) j)"
      using equiv gone eq by (auto simp: om_equiv_def)
  qed
qed

end

interpretation om_linorder: ordered_map "(<) :: 'k::linorder \<Rightarrow> 'k \<Rightarrow> bool" "\<lambda>k. True"
  by unfold_locales auto

end
