(* ===== verification/Clock.thy ===== *)
theory Clock
  imports Prelude
begin

text \<open>
  \<open>core/time/assignable_clock.h\<close>, \<open>assignable_clock-inline.h\<close>, \<open>assignable_clock.cpp\<close>: a clock that shows what it is
  told while at least one session is open. Times and durations are 64-bit counts of nanoseconds; the
  reading of \<open>std::chrono::steady_clock\<close> is an argument.

  The counter of sessions is atomic, but \<open>deactivate\<close> touches it twice. The second part of the theory
  is the step relation of threads that open and close sessions, one atomic access per step.
\<close>

type_synonym nanoseconds = "64 word"

section \<open>The clock\<close>

record assignable_clock =
  clock_value :: nanoseconds
  session_count :: u32

definition clock_initial :: assignable_clock where
  "clock_initial = \<lparr> clock_value = 0, session_count = 0 \<rparr>"

definition clock_now :: "assignable_clock \<Rightarrow> nanoseconds" where
  "clock_now s = clock_value s"

definition set_now :: "nanoseconds \<Rightarrow> assignable_clock \<Rightarrow> assignable_clock" where
  "set_now val s = s\<lparr> clock_value := val \<rparr>"

definition elapse :: "nanoseconds \<Rightarrow> assignable_clock \<Rightarrow> assignable_clock" where
  "elapse val s = s\<lparr> clock_value := clock_value s + val \<rparr>"

definition is_active :: "assignable_clock \<Rightarrow> bool" where
  "is_active s \<longleftrightarrow> 0 < session_count s \<and> session_count s < 1000000"

definition activate :: "assignable_clock \<Rightarrow> assignable_clock" where
  "activate s = s\<lparr> session_count := session_count s + 1 \<rparr>"

text \<open>The atomic accesses of \<open>deactivate\<close>: the decrement with the previous value, and the correction.\<close>

definition deactivate_fetch_sub :: "assignable_clock \<Rightarrow> u32 \<times> assignable_clock" where
  "deactivate_fetch_sub s = (session_count s, s\<lparr> session_count := session_count s - 1 \<rparr>)"

definition deactivate_undo :: "assignable_clock \<Rightarrow> assignable_clock" where
  "deactivate_undo s = s\<lparr> session_count := session_count s + 1 \<rparr>"

definition force_inactive :: "assignable_clock \<Rightarrow> assignable_clock" where
  "force_inactive s = s\<lparr> session_count := 0 \<rparr>"

definition deactivate :: "bool \<Rightarrow> assignable_clock \<Rightarrow> assignable_clock" where
  "deactivate force s =
     (if force then force_inactive s
      else let (n, s') = deactivate_fetch_sub s in if n = 0 then deactivate_undo s' else s')"

definition session_new :: "assignable_clock \<Rightarrow> assignable_clock" where
  "session_new s = activate s"

definition session_new_at :: "nanoseconds \<Rightarrow> assignable_clock \<Rightarrow> assignable_clock" where
  "session_new_at initial_fake_time s = set_now initial_fake_time (session_new s)"

definition session_end :: "assignable_clock \<Rightarrow> assignable_clock" where
  "session_end s = deactivate False s"

definition time_now :: "nanoseconds \<Rightarrow> assignable_clock \<Rightarrow> nanoseconds" where
  "time_now steady s = (if is_active s then clock_now s else steady)"

text \<open>Sleeping either moves the clock or asks the operating system: the second component is the request.\<close>

definition sleep_for :: "nanoseconds \<Rightarrow> assignable_clock \<Rightarrow> assignable_clock \<times> nanoseconds option" where
  "sleep_for d s = (if is_active s then (elapse d s, None) else (s, Some d))"

definition sleep_until :: "nanoseconds \<Rightarrow> assignable_clock \<Rightarrow> assignable_clock \<times> nanoseconds option" where
  "sleep_until t s = (if is_active s then (set_now t s, None) else (s, Some t))"

section \<open>Threads\<close>

text \<open>\<open>undoing\<close> is the set of threads that stand between the two accesses of \<open>deactivate\<close>; \<open>open_sessions\<close> counts the
  sessions that were begun and not ended.\<close>

record threads =
  shared_clock :: assignable_clock
  undoing :: "nat set"
  open_sessions :: nat

definition threads_initial :: threads where
  "threads_initial = \<lparr> shared_clock = clock_initial, undoing = {}, open_sessions = 0 \<rparr>"

datatype access = begin_session nat | end_session nat | undo_end nat | force_end nat

inductive thread_step :: "threads \<Rightarrow> access \<Rightarrow> threads \<Rightarrow> bool" where
  begin_session: "i \<notin> undoing s \<Longrightarrow>
    thread_step s (begin_session i)
      (s\<lparr> shared_clock := activate (shared_clock s), open_sessions := open_sessions s + 1 \<rparr>)"
| end_session: "i \<notin> undoing s \<Longrightarrow> 0 < open_sessions s \<Longrightarrow> deactivate_fetch_sub (shared_clock s) = (n, c) \<Longrightarrow>
    thread_step s (end_session i)
      (s\<lparr> shared_clock := c, undoing := (if n = 0 then insert i (undoing s) else undoing s),
          open_sessions := open_sessions s - 1 \<rparr>)"
| undo_end: "i \<in> undoing s \<Longrightarrow>
    thread_step s (undo_end i)
      (s\<lparr> shared_clock := deactivate_undo (shared_clock s), undoing := undoing s - {i} \<rparr>)"
| force_end: "i \<notin> undoing s \<Longrightarrow>
    thread_step s (force_end i) (s\<lparr> shared_clock := force_inactive (shared_clock s) \<rparr>)"

inductive_cases thread_stepE: "thread_step s a s'"

inductive_simps thread_step_simps [simp]:
  "thread_step s (begin_session i) s'" "thread_step s (end_session i) s'"
  "thread_step s (undo_end i) s'" "thread_step s (force_end i) s'"

fun is_force :: "access \<Rightarrow> bool" where
  "is_force (force_end i) = True"
| "is_force _ = False"

text \<open>The greatest number of sessions that are open at the same time, beginning with \<open>n\<close>.\<close>

fun open_after :: "access \<Rightarrow> nat \<Rightarrow> nat" where
  "open_after (begin_session i) n = n + 1"
| "open_after (end_session i) n = n - 1"
| "open_after _ n = n"

fun max_open :: "nat \<Rightarrow> access list \<Rightarrow> nat" where
  "max_open n [] = n"
| "max_open n (a # as) = max n (max_open (open_after a n) as)"

fun thread_run :: "threads \<Rightarrow> access list \<Rightarrow> threads \<Rightarrow> bool" where
  "thread_run s [] s' = (s' = s)"
| "thread_run s (a # as) s' = (\<exists>s1. thread_step s a s1 \<and> thread_run s1 as s')"

definition sessions_ok :: "threads \<Rightarrow> bool" where
  "sessions_ok s \<longleftrightarrow> undoing s = {} \<and> session_count (shared_clock s) = of_nat (open_sessions s)"

section \<open>Lemmas\<close>

lemmas clock_defs = clock_now_def set_now_def elapse_def activate_def deactivate_fetch_sub_def deactivate_undo_def
  force_inactive_def deactivate_def session_new_def session_new_at_def session_end_def

lemma sessions_ok_initial: "sessions_ok threads_initial"
  by (simp add: sessions_ok_def threads_initial_def clock_initial_def)

lemma sessions_ok_step:
  assumes "thread_step s a s'" and "sessions_ok s" and "\<not> is_force a" and "open_sessions s < 2 ^ 32"
  shows "sessions_ok s'"
  using assms
proof (cases rule: thread_step.cases)
  case (end_session i n c)
  have "unat (of_nat (open_sessions s) :: u32) = open_sessions s"
    using assms(4) by (simp add: unat_of_nat)
  with end_session(4) have "of_nat (open_sessions s) \<noteq> (0 :: u32)" by (metis unat_0 less_irrefl)
  with end_session assms(2) show ?thesis
    by (auto simp: sessions_ok_def clock_defs of_nat_diff)
qed (auto simp: sessions_ok_def clock_defs)

lemma open_sessions_step: "thread_step s a s' \<Longrightarrow> open_sessions s' = open_after a (open_sessions s)"
  by (induction rule: thread_step.induct) auto

lemma max_open_ge: "n \<le> max_open n as"
  by (cases as) auto

lemma sessions_ok_run:
  assumes "thread_run s as s'" and "sessions_ok s" and "\<not> list_ex is_force as"
    and "max_open (open_sessions s) as < 2 ^ 32"
  shows "sessions_ok s' \<and> open_sessions s' \<le> max_open (open_sessions s) as"
  using assms
proof (induction as arbitrary: s)
  case Nil
  then show ?case by simp
next
  case (Cons a as)
  then obtain s1 where s1: "thread_step s a s1" "thread_run s1 as s'" by auto
  have "sessions_ok s1" using sessions_ok_step [OF s1(1) Cons.prems(2)] Cons.prems(3,4) by simp
  then show ?case using Cons.IH [OF s1(2)] Cons.prems(3,4) open_sessions_step [OF s1(1)] by auto
qed

section \<open>Properties\<close>

text \<open>C14: as long as no thread forces the clock to be inactive, every session is ended once and less than \<open>2 ^ 32\<close> sessions are
  open at the same time, the two-step \<open>deactivate\<close> is harmless in every interleaving, however many sessions it opens
  in all: no thread ever has to undo its decrement, the counter is the number of open sessions, and the clock is active
  exactly while at least one and less than 1,000,000 sessions are open.\<close>

theorem sessions_counted:
  assumes "thread_run threads_initial as s" and "\<not> list_ex is_force as" and "max_open 0 as < 2 ^ 32"
  shows "undoing s = {} \<and> unat (session_count (shared_clock s)) = open_sessions s \<and>
    (is_active (shared_clock s) \<longleftrightarrow> 0 < open_sessions s \<and> open_sessions s < 1000000)"
proof -
  have zero: "open_sessions threads_initial = 0" by (simp add: threads_initial_def)
  from sessions_ok_run [OF assms(1) sessions_ok_initial assms(2)] assms(3) zero
  have ok: "sessions_ok s" "open_sessions s < 2 ^ 32" by auto
  then have "unat (session_count (shared_clock s)) = open_sessions s"
    by (simp add: sessions_ok_def unat_of_nat)
  with ok show ?thesis
    by (auto simp: sessions_ok_def is_active_def word_less_nat_alt)
qed

theorem sessions_counted_witness:
  "\<exists>s. thread_run threads_initial [begin_session 0, begin_session 1, end_session 1] s \<and>
     is_active (shared_clock s)"
proof -
  let ?as = "[begin_session 0, begin_session 1, end_session 1]"
  have "\<exists>s. thread_run threads_initial ?as s \<and> open_sessions s = 1"
    by (auto simp: threads_initial_def clock_defs)
  then obtain s where s: "thread_run threads_initial ?as s" "open_sessions s = 1" by blast
  from sessions_counted [OF s(1)] s(2) have "is_active (shared_clock s)" by simp
  with s(1) show ?thesis by blast
qed

text \<open>With a forced deactivation the correction of the underflow can be lost. Two sessions are open when
  the clock is forced to be inactive, and then both end at the same time: the second decrement sees the
  counter already below zero and is never corrected. When all threads are idle again, a new session
  does not activate the clock.\<close>

theorem forced_end_loses_session:
  "\<exists>s. thread_run threads_initial
        [begin_session 0, begin_session 1, force_end 2, end_session 0, end_session 1, undo_end 0, begin_session 3] s \<and>
     undoing s = {} \<and> open_sessions s = 1 \<and> \<not> is_active (shared_clock s)"
  by (auto simp: threads_initial_def clock_initial_def clock_defs is_active_def)

text \<open>Without interleaving, ending a session never takes the counter below zero, and the fake time seen
  by a session is the time it was given plus what was slept.\<close>

theorem session_shows_fake_time:
  assumes "session_count s < 999999"
  shows "session_count (session_end s) = (if session_count s = 0 then 0 else session_count s - 1) \<and>
    time_now steady (fst (sleep_for d (session_new_at t s))) = t + d \<and>
    snd (sleep_for d (session_new_at t s)) = None \<and>
    time_now steady (fst (sleep_until t' (session_new s))) = t'"
proof -
  have "0 < session_count s + 1" "session_count s + 1 < 1000000"
    using assms by (simp_all add: word_less_nat_alt unat_word_ariths)
  then show ?thesis
    by (simp add: clock_defs time_now_def sleep_for_def sleep_until_def is_active_def)
qed

end
