(* ===== verification/Stopwatch.thy ===== *)
theory Stopwatch
  imports Clock Simulation
begin

text \<open>
  \<open>core/time/stopwatch.h\<close>, \<open>stopwatch-inline.h\<close> and \<open>core/err/circuit_breaker.h\<close>: two small state machines. Each
  operation of the stopwatch takes the reading of \<open>now()\<close>. The stopwatch refines a meter that reads the
  time at every operation and adds what has passed while a split was running.
\<close>

section \<open>The stopwatch\<close>

datatype stopwatch_state = stopped | paused | running

record stopwatch =
  split_count :: u64
  elapsed :: nanoseconds
  start_time :: nanoseconds
  current_state :: stopwatch_state

definition stopwatch_new :: stopwatch where
  "stopwatch_new = \<lparr> split_count = 0, elapsed = 0, start_time = 0, current_state = stopped \<rparr>"

definition stopwatch_start :: "nanoseconds \<Rightarrow> stopwatch \<Rightarrow> stopwatch" where
  "stopwatch_start t w =
     (if current_state w = stopped
      then w\<lparr> start_time := t, current_state := running, split_count := split_count w + 1 \<rparr>
      else w)"

definition stopwatch_resume :: "nanoseconds \<Rightarrow> stopwatch \<Rightarrow> stopwatch" where
  "stopwatch_resume t w =
     (if current_state w = paused then w\<lparr> start_time := t, current_state := running \<rparr> else w)"

definition stopwatch_pause :: "nanoseconds \<Rightarrow> stopwatch \<Rightarrow> stopwatch" where
  "stopwatch_pause t w =
     (if current_state w = running
      then w\<lparr> elapsed := elapsed w + (t - start_time w), current_state := paused \<rparr>
      else w)"

text \<open>The returned duration and the object.\<close>

definition stopwatch_stop :: "nanoseconds \<Rightarrow> stopwatch \<Rightarrow> nanoseconds \<times> stopwatch" where
  "stopwatch_stop t w =
     (case current_state w of
        running \<Rightarrow> (t - start_time w, w\<lparr> elapsed := elapsed w + (t - start_time w), current_state := stopped \<rparr>)
      | paused \<Rightarrow> (0, w\<lparr> current_state := stopped \<rparr>)
      | stopped \<Rightarrow> (0, w))"

definition split_new :: "nanoseconds \<Rightarrow> stopwatch \<Rightarrow> stopwatch" where
  "split_new t w = stopwatch_start t w"

definition split_end :: "nanoseconds \<Rightarrow> stopwatch \<Rightarrow> stopwatch" where
  "split_end t w = snd (stopwatch_stop t w)"

datatype watch_op = op_start | op_resume | op_pause | op_stop

definition watch_step :: "stopwatch \<Rightarrow> watch_op \<times> nanoseconds \<Rightarrow> stopwatch" where
  "watch_step w e =
     (case e of
        (op_start, t) \<Rightarrow> stopwatch_start t w
      | (op_resume, t) \<Rightarrow> stopwatch_resume t w
      | (op_pause, t) \<Rightarrow> stopwatch_pause t w
      | (op_stop, t) \<Rightarrow> snd (stopwatch_stop t w))"

section \<open>The meter\<close>

record meter =
  meter_state :: stopwatch_state
  meter_total :: nanoseconds
  meter_time :: nanoseconds
  meter_splits :: u64

definition meter_new :: meter where
  "meter_new = \<lparr> meter_state = stopped, meter_total = 0, meter_time = 0, meter_splits = 0 \<rparr>"

fun next_state :: "stopwatch_state \<Rightarrow> watch_op \<Rightarrow> stopwatch_state" where
  "next_state stopped op_start = running"
| "next_state paused op_resume = running"
| "next_state running op_pause = paused"
| "next_state _ op_stop = stopped"
| "next_state st _ = st"

definition meter_step :: "meter \<Rightarrow> watch_op \<times> nanoseconds \<Rightarrow> meter" where
  "meter_step a e =
     (case e of (op, t) \<Rightarrow>
        \<lparr> meter_state = next_state (meter_state a) op,
          meter_total = meter_total a + (if meter_state a = running then t - meter_time a else 0),
          meter_time = t,
          meter_splits = meter_splits a + (if meter_state a = stopped \<and> op = op_start then 1 else 0) \<rparr>)"

definition watch_related :: "stopwatch \<Rightarrow> meter \<Rightarrow> bool" where
  "watch_related w a \<longleftrightarrow>
     current_state w = meter_state a \<and> split_count w = meter_splits a \<and>
     elapsed w + (if current_state w = running then meter_time a - start_time w else 0) = meter_total a"

lemmas watch_defs = stopwatch_start_def stopwatch_resume_def stopwatch_pause_def stopwatch_stop_def watch_step_def

lemma watch_step_related: "watch_related w a \<Longrightarrow> watch_related (watch_step w e) (meter_step a e)"
proof -
  assume r: "watch_related w a"
  obtain op t where e: "e = (op, t)" by (cases e)
  show ?thesis
    unfolding e by (cases op; cases "current_state w")
      (use r in \<open>auto simp: watch_related_def meter_step_def watch_defs algebra_simps\<close>)
qed

interpretation sw: simulation watch_step meter_step watch_related
  by unfold_locales (rule watch_step_related)

section \<open>The circuit breaker\<close>

datatype breaker_state = closed | opened | needs_retest

definition breaker_choose_path :: "breaker_state \<Rightarrow> 'f \<Rightarrow> 'f \<Rightarrow> 'f" where
  "breaker_choose_path current on_closed on_open = (if current = closed then on_closed else on_open)"

definition breaker_update :: "breaker_state \<Rightarrow> bool \<Rightarrow> breaker_state" where
  "breaker_update current is_healthy = (if \<not> is_healthy then opened else current)"

interpretation latched: invariant_kept breaker_update "\<lambda>st. st = opened"
  by unfold_locales (simp add: breaker_update_def)

lemma breaker_healthy: "list_all id reports \<Longrightarrow> foldl breaker_update st reports = st"
  by (induction reports) (simp_all add: breaker_update_def)

section \<open>Properties\<close>

text \<open>C13: whatever operations are called in whatever order, a stopwatch that is not running shows the total
  time that passed between operations while a split was running, and it has counted the splits.\<close>

theorem stopwatch_refines_meter:
  "let w = foldl watch_step stopwatch_new events; a = foldl meter_step meter_new events
   in current_state w = meter_state a \<and> split_count w = meter_splits a \<and>
      (if current_state w = running then elapsed w + (meter_time a - start_time w) else elapsed w) = meter_total a"
proof -
  have "watch_related stopwatch_new meter_new"
    by (simp add: watch_related_def stopwatch_new_def meter_new_def)
  from sw.steps [OF this, of events] show ?thesis
    by (simp add: Let_def watch_related_def split: if_splits)
qed

text \<open>\<open>stop\<close> returns the time since the last \<open>start\<close> or \<open>resume\<close>, not the time of the split: a split that ran for
  10, was paused, and ran for 5 more is reported as 5, and as 0 if it is stopped while paused.\<close>

theorem stop_reports_last_stretch:
  "fst (stopwatch_stop 25 (foldl watch_step stopwatch_new [(op_start, 0), (op_pause, 10), (op_resume, 20)])) = 5 \<and>
   fst (stopwatch_stop 25 (foldl watch_step stopwatch_new [(op_start, 0), (op_pause, 10)])) = 0 \<and>
   elapsed (snd (stopwatch_stop 25 (foldl watch_step stopwatch_new [(op_start, 0), (op_pause, 10), (op_resume, 20)]))) = 15"
  by (simp add: watch_defs stopwatch_new_def)

text \<open>The circuit breaker follows the normal path exactly as long as it was closed and every report was
  healthy; one unhealthy report opens it for good.\<close>

theorem breaker_latches:
  "breaker_choose_path (foldl breaker_update st reports) a b = (if st = closed \<and> list_all id reports then a else b)"
proof (cases "list_all id reports")
  case True
  then show ?thesis by (simp add: breaker_healthy breaker_choose_path_def)
next
  case False
  then obtain xs ys where "reports = xs @ False # ys"
    by (metis (full_types) id_apply list_all_iff split_list)
  then have "foldl breaker_update st reports = opened"
    using latched.always [of opened ys] by (simp add: breaker_update_def)
  with False show ?thesis by (simp add: breaker_choose_path_def)
qed

end
