(* ===== verification/Headers.thy ===== *)
theory Headers
  imports Strutil Str_View Ordered_Map
begin

text \<open>
  \<open>core/net/headers.h\<close> and \<open>headers.cpp\<close>: layered collections of headers. The objects of type \<open>impl_t\<close> live on a
  heap, with their reference counts and the pointer to the layer below; a \<open>headers\<close> object is a pointer
  to one of them, null after a move. Results are \<open>option\<close> of \<open>result\<close>: \<^term>\<open>None\<close> stands for a null or dangling
  pointer, a read outside of memory, an iterator moved past the end, or a walk along the layers that does not end; \<open>Inl\<close> is a
  violated precondition.
\<close>

section \<open>Order of names\<close>

definition header_is_less :: "byte list \<Rightarrow> byte list \<Rightarrow> bool" where
  "header_is_less a b =
     (case compare_str_ascii_case_insensitive (Some (cstr a)) (Some (cstr b)) of None \<Rightarrow> False | Some n \<Rightarrow> n < 0)"

text \<open>Names on which the comparison is an order.\<close>

definition name_ok :: "byte list \<Rightarrow> bool" where
  "name_ok s \<longleftrightarrow> is_cstr_content s \<and> list_all case_stable s"

definition fold_name :: "byte list \<Rightarrow> int list" where
  "fold_name s = map (sint \<circ> ascii_to_upper_case) s @ [0]"

lemma upper_nonzero: "c \<noteq> 0 \<Longrightarrow> ascii_to_upper_case c \<noteq> 0"
  by (auto simp: ascii_to_upper_case_def word_sle_eq split: if_splits)

lemma upper_0: "ascii_to_upper_case 0 = 0"
  by (simp add: ascii_to_upper_case_def word_sle_eq)

lemma first_difference_sentinel:
  assumes "0 \<notin> set a" and "0 \<notin> set b"
  shows "first_difference (a @ [0]) (b @ [0]) < 0 \<longleftrightarrow> ord_class.lexordp (map sint a @ [0]) (map sint b @ [0])"
  using assms
proof (induction a arbitrary: b)
  case Nil
  then show ?case by (cases b) (auto simp: sgn_if)
next
  case (Cons x xs)
  have "sint x < 0 \<or> 0 < sint x" using Cons.prems by (metis linorder_neqE list.set_intros(1) signed_eq_0_iff)
  with Cons show ?case by (cases b) (auto simp: sgn_if)
qed

lemma header_is_less_iff:
  assumes "name_ok a" and "name_ok b"
  shows "header_is_less a b \<longleftrightarrow> ord_class.lexordp (fold_name a) (fold_name b)"
proof -
  have "compare_str_ascii_case_insensitive (Some (cstr a)) (Some (cstr b)) =
     Some (first_difference (map ascii_to_upper_case a @ [0]) (map ascii_to_upper_case b @ [0]))"
    using compare_ci_loop_spec [of a b "[]" "[]"] assms
    by (simp add: compare_str_ascii_case_insensitive_def name_ok_def cstr_def upper_0)
  moreover have "0 \<notin> set (map ascii_to_upper_case a)" "0 \<notin> set (map ascii_to_upper_case b)"
    using assms upper_nonzero by (fastforce simp: name_ok_def is_cstr_content_def)+
  ultimately show ?thesis
    by (simp add: header_is_less_def first_difference_sentinel fold_name_def)
qed

interpretation names: ordered_map header_is_less name_ok
proof unfold_locales
  fix a b c
  show "\<not> header_is_less a a" if "name_ok a"
    using that by (simp add: header_is_less_iff lexordp_irreflexive)
  show "header_is_less a c" if "name_ok a" "name_ok b" "name_ok c" "header_is_less a b" "header_is_less b c"
    using that by (simp add: header_is_less_iff) (meson lexordp_trans)
  show "header_is_less a b \<or> header_is_less b c" if "name_ok a" "name_ok b" "name_ok c" "header_is_less a c"
    using that lexordp_linear [of "fold_name a" "fold_name b"] lexordp_trans [of "fold_name b" "fold_name a" "fold_name c"]
    by (auto simp: header_is_less_iff)
qed

lemma names_equiv:
  assumes "name_ok a" and "name_ok b"
  shows "om_equiv header_is_less a b \<longleftrightarrow> map ascii_to_upper_case a = map ascii_to_upper_case b"
proof -
  have "om_equiv header_is_less a b \<longleftrightarrow> fold_name a = fold_name b"
    using assms lexordp_linear [of "fold_name a" "fold_name b"] lexordp_irreflexive [of "fold_name a"]
    by (auto simp: om_equiv_def header_is_less_iff)
  also have "\<dots> \<longleftrightarrow> map ascii_to_upper_case a = map ascii_to_upper_case b"
    by (auto simp: fold_name_def inj_map_eq_map [OF injI [OF signed_word_eqI]] simp flip: map_map)
  finally show ?thesis .
qed

section \<open>The heap\<close>

record impl =
  ref_count :: u32
  hdr_map :: "(byte list \<times> byte list) list"
  defaults :: "nat option"

type_synonym heap = "nat \<Rightarrow> impl option"

datatype header_status = missing | explicitly_defined | inherited

definition map_get :: "impl \<Rightarrow> byte list \<Rightarrow> byte list option" where
  "map_get i h = om_find header_is_less (hdr_map i) h"

definition impl_new :: impl where
  "impl_new = \<lparr> ref_count = 1, hdr_map = [], defaults = None \<rparr>"

definition add_ref :: "heap \<Rightarrow> nat \<Rightarrow> heap option" where
  "add_ref hp a = map_option (\<lambda>i. hp(a \<mapsto> i\<lparr> ref_count := ref_count i + 1 \<rparr>)) (hp a)"

text \<open>The last reference deletes the object, whose destructor releases the layer below.\<close>

partial_function (option) release_ref :: "heap \<Rightarrow> nat \<Rightarrow> heap option" where
  "release_ref hp a =
     hp a \<bind> (\<lambda>i.
       if ref_count i = 1
       then (case defaults i of
               None \<Rightarrow> Some (hp(a := None))
             | Some d \<Rightarrow> release_ref (hp(a \<mapsto> i\<lparr> ref_count := ref_count i - 1 \<rparr>)) d \<bind> (\<lambda>hp'. Some (hp'(a := None))))
       else Some (hp(a \<mapsto> i\<lparr> ref_count := ref_count i - 1 \<rparr>)))"

text \<open>What a caller reads through the pointer that \<open>c_str()\<close> returns: the string up to its first null character.\<close>

definition c_str_text :: "byte list \<Rightarrow> byte list" where
  "c_str_text s = takeWhile (\<lambda>c. c \<noteq> 0) s"

partial_function (option) impl_get :: "heap \<Rightarrow> nat \<Rightarrow> byte list \<Rightarrow> byte list option option" where
  "impl_get hp a h =
     hp a \<bind> (\<lambda>i.
       case map_get i h of
         Some v \<Rightarrow> Some (Some (c_str_text v))
       | None \<Rightarrow> (case defaults i of None \<Rightarrow> Some None | Some d \<Rightarrow> impl_get hp d h))"

partial_function (option) impl_contains :: "heap \<Rightarrow> nat \<Rightarrow> byte list \<Rightarrow> header_status option" where
  "impl_contains hp a h =
     hp a \<bind> (\<lambda>i.
       case map_get i h of
         Some v \<Rightarrow> Some explicitly_defined
       | None \<Rightarrow> (case defaults i of
           None \<Rightarrow> Some missing
         | Some d \<Rightarrow> impl_contains hp d h \<bind> (\<lambda>st. Some (if st \<noteq> missing then inherited else missing))))"

partial_function (option) is_ancestor :: "heap \<Rightarrow> nat \<Rightarrow> nat \<Rightarrow> bool option" where
  "is_ancestor hp a x =
     hp a \<bind> (\<lambda>i.
       if x = a \<or> Some x = defaults i then Some True
       else case defaults i of None \<Rightarrow> Some False | Some d \<Rightarrow> is_ancestor hp d x)"

text \<open>The argument \<open>x\<close> is the loop variable, null at the end.\<close>

partial_function (option) is_masked :: "heap \<Rightarrow> nat option \<Rightarrow> byte list \<Rightarrow> nat option \<Rightarrow> bool option" where
  "is_masked hp x h before =
     (case x of
        None \<Rightarrow> Some False
      | Some a \<Rightarrow>
          if x = before then Some False
          else hp a \<bind> (\<lambda>i. if map_get i h \<noteq> None then Some True else is_masked hp (defaults i) h before))"

partial_function (option) get_ancestor_after :: "heap \<Rightarrow> nat option \<Rightarrow> nat option \<Rightarrow> nat option option" where
  "get_ancestor_after hp x after =
     (case x of
        None \<Rightarrow> Some None
      | Some a \<Rightarrow> hp a \<bind> (\<lambda>i. if defaults i = after then Some x else get_ancestor_after hp (defaults i) after))"

section \<open>Operations\<close>

text \<open>\<open>a\<close> is the address that \<open>new\<close> returns.\<close>

definition headers_new :: "heap \<Rightarrow> nat \<Rightarrow> heap \<times> nat option" where
  "headers_new hp a = (hp(a \<mapsto> impl_new), Some a)"

text \<open>The precondition that both assignments and \<open>get_defaults_from\<close> share.\<close>

definition not_ancestor :: "heap \<Rightarrow> nat option \<Rightarrow> nat \<Rightarrow> bool option" where
  "not_ancestor hp this x = (case this of None \<Rightarrow> Some True | Some a \<Rightarrow> map_option Not (is_ancestor hp a x))"

definition release_this :: "heap \<Rightarrow> nat option \<Rightarrow> heap option" where
  "release_this hp this = (case this of None \<Rightarrow> Some hp | Some a \<Rightarrow> release_ref hp a)"

text \<open>Move assignment: heap, this and the other object.\<close>

definition headers_move_assign ::
  "heap \<Rightarrow> nat option \<Rightarrow> nat option \<Rightarrow> (heap \<times> nat option \<times> nat option) result option" where
  "headers_move_assign hp this other =
     (case other of
        None \<Rightarrow> Some (Inl (contract_violation ct_pre))
      | Some x \<Rightarrow> do {
          ok \<leftarrow> not_ancestor hp this x;
          (if \<not> ok then Some (Inl (contract_violation ct_pre))
           else map_option (\<lambda>hp. Inr (hp, Some x, None)) (release_this hp this))
        })"

definition headers_copy_assign :: "heap \<Rightarrow> nat option \<Rightarrow> nat option \<Rightarrow> (heap \<times> nat option) result option" where
  "headers_copy_assign hp this other =
     (case other of
        None \<Rightarrow> Some (Inl (contract_violation ct_pre))
      | Some x \<Rightarrow> do {
          ok \<leftarrow> not_ancestor hp this x;
          (if \<not> ok then Some (Inl (contract_violation ct_pre))
           else do {
             hp \<leftarrow> release_this hp this;
             hp \<leftarrow> add_ref hp x;
             Some (Inr (hp, Some x))
           })
        })"

text \<open>Both constructors from another object assign to a null object; the one from an rvalue copies, too.\<close>

definition headers_copy :: "heap \<Rightarrow> nat option \<Rightarrow> (heap \<times> nat option) result option" where
  "headers_copy hp other = headers_copy_assign hp None other"

definition headers_destroy :: "heap \<Rightarrow> nat option \<Rightarrow> heap option" where
  "headers_destroy hp this = this \<bind> release_ref hp"

text \<open>The parameter is a copy that is destroyed when the call ends, normally or by an exception.\<close>

definition get_defaults_from :: "heap \<Rightarrow> nat option \<Rightarrow> nat option \<Rightarrow> heap result option" where
  "get_defaults_from hp this other = do {
     copied \<leftarrow> headers_copy hp other;
     (case copied of
        Inl err \<Rightarrow> Some (Inl err)
      | Inr (hp, h) \<Rightarrow> do {
          x \<leftarrow> h;
          ok \<leftarrow> not_ancestor hp this x;
          (if \<not> ok then do { hp \<leftarrow> headers_destroy hp h; Some (Inl (contract_violation ct_pre)) }
           else do {
             a \<leftarrow> this;
             i \<leftarrow> hp a;
             hp \<leftarrow> release_this hp (defaults i);
             i \<leftarrow> hp a;
             hp \<leftarrow> add_ref (hp(a \<mapsto> i\<lparr> defaults := Some x \<rparr>)) x;
             hp \<leftarrow> headers_destroy hp h;
             Some (Inr hp)
           })
        })
   }"

text \<open>The string between the two ends of a view; the characters have to be in memory.\<close>

definition view_string :: "buffer \<Rightarrow> str_view \<Rightarrow> byte list option" where
  "view_string m v =
     (case sv_begin v of
        None \<Rightarrow> if sv_length v = 0 then Some [] else None
      | Some b \<Rightarrow> if b + sv_length v \<le> length m then Some (slice m b (b + sv_length v)) else None)"

definition headers_get :: "heap \<Rightarrow> nat option \<Rightarrow> buffer \<Rightarrow> str_view \<Rightarrow> byte list option option" where
  "headers_get hp this m header =
     (if sv_bool header then do { h \<leftarrow> view_string m header; a \<leftarrow> this; impl_get hp a h } else Some None)"

definition headers_contains :: "heap \<Rightarrow> nat option \<Rightarrow> buffer \<Rightarrow> str_view \<Rightarrow> header_status option" where
  "headers_contains hp this m header =
     (if sv_bool header then do { h \<leftarrow> view_string m header; a \<leftarrow> this; impl_contains hp a h } else Some missing)"

definition headers_set :: "heap \<Rightarrow> nat option \<Rightarrow> buffer \<Rightarrow> str_view \<Rightarrow> str_view \<Rightarrow> heap option" where
  "headers_set hp this m header val =
     (if sv_bool header
      then do {
        h \<leftarrow> view_string m header;
        a \<leftarrow> this;
        i \<leftarrow> hp a;
        v \<leftarrow> view_string m val;
        Some (hp(a \<mapsto> i\<lparr> hdr_map := om_assign header_is_less h v (hdr_map i) \<rparr>))
      }
      else Some hp)"

definition headers_add :: "heap \<Rightarrow> nat option \<Rightarrow> buffer \<Rightarrow> str_view \<Rightarrow> heap option" where
  "headers_add hp this m line =
     (if sv_bool line
      then do {
        e \<leftarrow> sv_end line;
        i \<leftarrow> find_char m (sv_begin line) (asc CHR '':'') e;
        (case i of
           None \<Rightarrow> Some hp
         | Some p \<Rightarrow> headers_set hp this m (strview_range (sv_begin line) p) (strview_range (Some p) e))
      }
      else Some hp)"

partial_function (option) headers_is_empty :: "heap \<Rightarrow> nat option \<Rightarrow> bool option" where
  "headers_is_empty hp x =
     (case x of
        None \<Rightarrow> Some True
      | Some a \<Rightarrow> hp a \<bind> (\<lambda>i. if hdr_map i \<noteq> [] then Some False else headers_is_empty hp (defaults i)))"

text \<open>The inner loop of \<open>get_header_count\<close>, whose iterator hides the counter: an unmasked entry makes it skip the
  next one, and moves it past the end if there is none.\<close>

fun count_loop :: "(byte list \<Rightarrow> bool option) \<Rightarrow> (byte list \<times> byte list) list \<Rightarrow> unit option" where
  "count_loop masked [] = Some ()"
| "count_loop masked (e # es) = do {
     b \<leftarrow> masked (fst e);
     (if b then count_loop masked es
      else case es of [] \<Rightarrow> None | _ # es' \<Rightarrow> count_loop masked es')
   }"

partial_function (option) header_count_from :: "heap \<Rightarrow> nat \<Rightarrow> nat option \<Rightarrow> unit option" where
  "header_count_from hp this ancestor =
     (case ancestor of
        None \<Rightarrow> Some ()
      | Some x \<Rightarrow>
          if x = this then Some ()
          else hp x \<bind> (\<lambda>i.
            count_loop (\<lambda>h. is_masked hp (Some this) h ancestor) (hdr_map i) \<bind> (\<lambda>u.
              get_ancestor_after hp (Some this) ancestor \<bind> (\<lambda>nxt. header_count_from hp this nxt))))"

definition get_header_count :: "heap \<Rightarrow> nat option \<Rightarrow> u32 option" where
  "get_header_count hp this = do {
     a \<leftarrow> this;
     first \<leftarrow> get_ancestor_after hp this None;
     u \<leftarrow> header_count_from hp a first;
     i \<leftarrow> hp a;
     Some (of_nat (length (hdr_map i)))
   }"

text \<open>The entries of one layer: \<open>Inl\<close> is the counter after them, \<open>Inr\<close> the value that was found.\<close>

fun index_loop ::
  "(byte list \<Rightarrow> bool option) \<Rightarrow> u32 \<Rightarrow> u32 \<Rightarrow> (byte list \<times> byte list) list \<Rightarrow> (u32 + byte list) option" where
  "index_loop masked n j [] = Some (Inl j)"
| "index_loop masked n j (e # es) = do {
     b \<leftarrow> masked (fst e);
     (if b then index_loop masked n j es
      else if j = n then Some (Inr (c_str_text (snd e))) else index_loop masked n (j + 1) es)
   }"

partial_function (option) header_by_index_from ::
  "heap \<Rightarrow> nat \<Rightarrow> u32 \<Rightarrow> u32 \<Rightarrow> nat option \<Rightarrow> byte list option option" where
  "header_by_index_from hp this n j ancestor =
     (case ancestor of
        None \<Rightarrow> Some None
      | Some x \<Rightarrow> hp x \<bind> (\<lambda>i.
          index_loop (\<lambda>h. is_masked hp (Some this) h ancestor) n j (hdr_map i) \<bind> (\<lambda>r.
            case r of
              Inr v \<Rightarrow> Some (Some v)
            | Inl j' \<Rightarrow> get_ancestor_after hp (Some this) ancestor \<bind> (\<lambda>nxt. header_by_index_from hp this n j' nxt))))"

definition get_header_by_index :: "heap \<Rightarrow> nat option \<Rightarrow> u32 \<Rightarrow> byte list option option" where
  "get_header_by_index hp this n = do {
     a \<leftarrow> this;
     first \<leftarrow> get_ancestor_after hp this None;
     header_by_index_from hp a n 0 first
   }"

declare release_ref.simps [code] impl_get.simps [code] impl_contains.simps [code] is_ancestor.simps [code]
  is_masked.simps [code] get_ancestor_after.simps [code] headers_is_empty.simps [code] header_count_from.simps [code]
  header_by_index_from.simps [code]

section \<open>Layers\<close>

text \<open>The layers of an object: its own address, then those of the layers below, down to one without defaults.\<close>

inductive layers :: "heap \<Rightarrow> nat \<Rightarrow> nat list \<Rightarrow> bool" for hp where
  last_layer: "hp a = Some i \<Longrightarrow> defaults i = None \<Longrightarrow> layers hp a [a]"
| next_layer: "hp a = Some i \<Longrightarrow> defaults i = Some d \<Longrightarrow> layers hp d as \<Longrightarrow> layers hp a (a # as)"

fun first_value :: "heap \<Rightarrow> nat list \<Rightarrow> byte list \<Rightarrow> byte list option" where
  "first_value hp [] h = None"
| "first_value hp (a # as) h =
     (case map_get (the (hp a)) h of Some v \<Rightarrow> Some v | None \<Rightarrow> first_value hp as h)"

definition layers_ok :: "heap \<Rightarrow> nat \<Rightarrow> nat list \<Rightarrow> bool" where
  "layers_ok hp a as \<longleftrightarrow> layers hp a as \<and> (\<forall>x \<in> set as. om_ok header_is_less name_ok (hdr_map (the (hp x))))"

lemma impl_get_layers: "layers hp a as \<Longrightarrow> impl_get hp a h = Some (map_option c_str_text (first_value hp as h))"
  by (induction rule: layers.induct) (subst impl_get.simps, simp split: option.splits)+

lemma layers_head: "layers hp a as \<Longrightarrow> (\<exists>as'. as = a # as') \<and> hp a \<noteq> None"
  by (cases rule: layers.cases) auto

lemma impl_contains_layers:
  "layers hp a as \<Longrightarrow> impl_contains hp a h =
     Some (if map_get (the (hp a)) h \<noteq> None then explicitly_defined
           else if first_value hp as h \<noteq> None then inherited else missing)"
proof (induction rule: layers.induct)
  case (last_layer a i)
  then show ?case by (subst impl_contains.simps) (auto split: option.splits)
next
  case (next_layer a i d as)
  from layers_head [OF next_layer.hyps(3)]
  have "first_value hp as h = None \<Longrightarrow> map_get (the (hp d)) h = None" by (auto split: option.splits)
  with next_layer show ?case by (subst impl_contains.simps) (auto split: option.splits)
qed

lemma layers_update:
  assumes "layers hp a as" and "\<And>x. map_option defaults (hp' x) = map_option defaults (hp x)"
  shows "layers hp' a as"
  using assms(1)
proof induction
  case (last_layer a i)
  with assms(2) [of a] obtain j where "hp' a = Some j" "defaults j = None" by (cases "hp' a") auto
  then show ?case by (rule layers.last_layer)
next
  case (next_layer a i d as)
  with assms(2) [of a] obtain j where "hp' a = Some j" "defaults j = Some d" by (cases "hp' a") auto
  then show ?case using next_layer.IH by (rule layers.next_layer)
qed

lemma layers_deterministic: "layers hp a as \<Longrightarrow> layers hp a bs \<Longrightarrow> as = bs"
proof (induction arbitrary: bs rule: layers.induct)
  case (last_layer a i)
  from last_layer.prems show ?case by cases (use last_layer.hyps in auto)
next
  case (next_layer a i d as)
  from next_layer.prems obtain bs' where "bs = a # bs'" "layers hp d bs'"
    by cases (use next_layer.hyps(1,2) in auto)
  with next_layer.IH [of bs'] show ?case by simp
qed

lemma layers_below: "layers hp a as \<Longrightarrow> x \<in> set as \<Longrightarrow> \<exists>bs. layers hp x bs \<and> length bs \<le> length as"
proof (induction rule: layers.induct)
  case (last_layer a i)
  then show ?case using layers.last_layer [of hp a i] by auto
next
  case (next_layer a i d as)
  then show ?case using layers.next_layer [of hp a i d as] by fastforce
qed

lemma layers_distinct: "layers hp a as \<Longrightarrow> distinct as"
proof (induction rule: layers.induct)
  case (next_layer a i d as)
  have "a \<notin> set as"
  proof
    assume "a \<in> set as"
    with layers_below [OF next_layer.hyps(3)] obtain bs where "layers hp a bs" "length bs \<le> length as" by blast
    with layers_deterministic [OF layers.next_layer [OF next_layer.hyps]] show False by fastforce
  qed
  with next_layer.IH show ?case by simp
qed simp

lemma first_value_frame: "a \<notin> set as \<Longrightarrow> first_value (hp(a \<mapsto> i)) as h = first_value hp as h"
  by (induction as) (auto split: option.splits)

lemma named_view: "view_string m v = Some h \<Longrightarrow> h \<noteq> [] \<Longrightarrow> sv_bool v"
  by (cases "sv_length v") (auto simp: view_string_def sv_bool_def is_empty_def split: option.splits if_splits)

lemma headers_set_layers:
  assumes ok: "layers_ok hp a as" and h: "name_ok h" "view_string m header = Some h" "h \<noteq> []" and v: "view_string m val = Some v"
  shows "\<exists>hp'. headers_set hp (Some a) m header val = Some hp' \<and> layers_ok hp' a as \<and>
    (\<forall>j. name_ok j \<longrightarrow> first_value hp' as j =
       (if map ascii_to_upper_case j = map ascii_to_upper_case h then Some v else first_value hp as j))"
proof -
  let ?h = h and ?v = v
  from ok have l: "layers hp a as" and maps: "\<forall>x \<in> set as. om_ok header_is_less name_ok (hdr_map (the (hp x)))"
    by (auto simp: layers_ok_def)
  from layers_head [OF l] obtain as' i where as: "as = a # as'" and i: "hp a = Some i" by auto
  define i' where "i' = i\<lparr> hdr_map := om_assign header_is_less ?h ?v (hdr_map i) \<rparr>"
  have set: "headers_set hp (Some a) m header val = Some (hp(a \<mapsto> i'))"
    using named_view [OF h(2,3)] h(2) v i by (simp add: headers_set_def i'_def)
  have iok: "om_ok header_is_less name_ok (hdr_map i)" using maps as i by simp
  have "layers (hp(a \<mapsto> i')) a as" by (rule layers_update [OF l]) (simp add: i i'_def)
  then have ok': "layers_ok (hp(a \<mapsto> i')) a as"
    using maps names.assign_ok [OF iok h(1)] by (simp add: layers_ok_def i'_def)
  have notin: "a \<notin> set as'" using layers_distinct [OF l] as by simp
  have "first_value (hp(a \<mapsto> i')) as j =
      (if map ascii_to_upper_case j = map ascii_to_upper_case ?h then Some ?v else first_value hp as j)" if "name_ok j" for j
    using names.find_assign [OF iok h(1) that, of ?v] names_equiv [OF h(1) that] i
    by (auto simp: as map_get_def i'_def first_value_frame [OF notin] split: option.splits)
  with set ok' show ?thesis by blast
qed

section \<open>Properties\<close>

text \<open>C12: on a collection whose layers end and whose maps are ordered, and for views that lie in memory, \<open>get\<close> returns the
  value of the topmost layer that has the header, up to its first null character, \<open>contains\<close> says whether that is the
  object's own layer, and \<open>set\<close> changes what \<open>get\<close> returns for exactly the names that agree with the given one up to the
  case of letters; it keeps the layers and the order of the maps. The names (those in the maps, the one that is set and
  the one that is looked up) are nonempty and hold no null character and none of the six characters between \<open>Z\<close> and
  \<open>a\<close>, the underscore among them, on which the comparison is no order.\<close>

theorem headers_layered_lookup:
  assumes "layers_ok hp a as" and "name_ok h" and "view_string m header = Some h" and "h \<noteq> []" and "view_string m val = Some v"
    and "name_ok q" and "view_string m query = Some q" and "q \<noteq> []"
  shows "headers_get hp (Some a) m query = Some (map_option c_str_text (first_value hp as q)) \<and>
    headers_contains hp (Some a) m query =
      Some (if map_get (the (hp a)) q \<noteq> None then explicitly_defined
            else if first_value hp as q \<noteq> None then inherited else missing) \<and>
    (\<exists>hp'. headers_set hp (Some a) m header val = Some hp' \<and> layers_ok hp' a as \<and>
       headers_get hp' (Some a) m query =
         (if map ascii_to_upper_case q = map ascii_to_upper_case h
          then Some (Some (c_str_text v)) else headers_get hp (Some a) m query))"
proof -
  from headers_set_layers [OF assms(1-5)] obtain hp' where
    "headers_set hp (Some a) m header val = Some hp'" "layers_ok hp' a as"
    "first_value hp' as q =
       (if map ascii_to_upper_case q = map ascii_to_upper_case h then Some v else first_value hp as q)"
    using assms(6) by blast
  moreover have l: "layers hp a as" "layers hp' a as"
    using assms(1) \<open>layers_ok hp' a as\<close> by (simp_all add: layers_ok_def)
  ultimately show ?thesis
    using named_view [OF assms(7,8)] assms(7) by (simp add: headers_get_def headers_contains_def impl_get_layers [OF l(1)] impl_get_layers [OF l(2)]
        impl_contains_layers [OF l(1)])
qed

theorem headers_layered_lookup_witness:
  "\<exists>hp'. headers_set [0 \<mapsto> impl_new\<lparr> defaults := Some 1 \<rparr>, 1 \<mapsto> impl_new] (Some 0) (lit ''Hosthostx'')
       \<lparr> sv_begin = Some 0, sv_length = 4 \<rparr> \<lparr> sv_begin = Some 8, sv_length = 1 \<rparr> = Some hp' \<and>
     headers_get hp' (Some 0) (lit ''Hosthostx'') \<lparr> sv_begin = Some 4, sv_length = 4 \<rparr> = Some (Some (lit ''x''))"
proof -
  let ?hp = "[0 \<mapsto> impl_new\<lparr> defaults := Some 1 \<rparr>, 1 \<mapsto> impl_new] :: heap" and ?m = "lit ''Hosthostx''"
  let ?v = "\<lambda>b n. \<lparr> sv_begin = Some b, sv_length = n \<rparr>"
  have "layers ?hp 0 [0, 1]"
    by (rule next_layer [of _ _ _ 1], simp, simp, rule last_layer, simp, simp add: impl_new_def)
  then have ok: "layers_ok ?hp 0 [0, 1]" by (simp add: layers_ok_def impl_new_def om_ok_def)
  have t: "view_string ?m (?v 0 4) = Some (lit ''Host'')" "view_string ?m (?v 4 4) = Some (lit ''host'')" "view_string ?m (?v 8 1) = Some (lit ''x'')"
    by (simp_all add: view_string_def slice_def)
  have n: "name_ok (lit ''Host'')" "name_ok (lit ''host'')"
    by (simp_all add: name_ok_def is_cstr_content_def case_stable_def word_sle_eq)
  have "map ascii_to_upper_case (lit ''host'') = map ascii_to_upper_case (lit ''Host'')" by code_simp
  with headers_layered_lookup [OF ok n(1) t(1) _ t(3) n(2) t(2)] show ?thesis by (auto simp: c_str_text_def)
qed

text \<open>Two collections that are each other's defaults.\<close>

definition two_headers :: heap where
  "two_headers = [0 \<mapsto> impl_new, 1 \<mapsto> impl_new]"

definition cyclic_headers :: heap where
  "cyclic_headers = [0 \<mapsto> \<lparr> ref_count = 2, hdr_map = [], defaults = Some 1 \<rparr>, 1 \<mapsto> \<lparr> ref_count = 2, hdr_map = [], defaults = Some 0 \<rparr>]"

lemma cyclic_get_diverges: "impl_get cyclic_headers a h = None"
proof -
  have "hp \<noteq> cyclic_headers" if "impl_get hp a h = Some r" for hp a h r
  proof (rule impl_get.raw_induct [where P = "\<lambda>hp a h r. hp \<noteq> cyclic_headers", OF _ that])
    fix get hp a h r
    assume ih: "\<And>hp a h r. get hp a h = Some r \<Longrightarrow> hp \<noteq> cyclic_headers"
      and eq: "hp a \<bind> (\<lambda>i. case map_get i h of
          None \<Rightarrow> (case defaults i of None \<Rightarrow> Some None | Some d \<Rightarrow> get hp d h) | Some v \<Rightarrow> Some (Some (c_str_text v))) = Some r"
    show "hp \<noteq> cyclic_headers"
    proof
      assume hp: "hp = cyclic_headers"
      with eq obtain d where "get hp d h = Some r"
        by (auto simp: cyclic_headers_def map_get_def bind_eq_Some_conv split: if_splits)
      with ih hp show False by blast
    qed
  qed
  then show ?thesis by (cases "impl_get cyclic_headers a h") auto
qed

text \<open>C30: the precondition of \<open>get_defaults_from\<close> does not prevent cycles. It rejects an argument that is already
  among the defaults of the object, not an argument that has the object among its own defaults: two
  fresh collections can be made each other's defaults, and then looking up any name, in either of them, does not return.\<close>

theorem defaults_cycle:
  "\<exists>hp1. get_defaults_from two_headers (Some 0) (Some 1) = Some (Inr hp1) \<and>
     get_defaults_from hp1 (Some 1) (Some 0) = Some (Inr cyclic_headers) \<and>
     (\<forall>a h. impl_get cyclic_headers a h = None) \<and>
     (\<forall>m b n. headers_get cyclic_headers (Some 0) m \<lparr> sv_begin = Some b, sv_length = Suc n \<rparr> = None)"
proof -
  let ?hp1 = "[0 \<mapsto> \<lparr> ref_count = 1, hdr_map = [], defaults = Some 1 \<rparr>, 1 \<mapsto> \<lparr> ref_count = 2, hdr_map = [], defaults = None \<rparr>] :: heap"
  have "get_defaults_from two_headers (Some 0) (Some 1) = Some (Inr ?hp1)"
    by (simp add: get_defaults_from_def headers_copy_def headers_copy_assign_def not_ancestor_def release_this_def add_ref_def
        headers_destroy_def is_ancestor.simps release_ref.simps two_headers_def impl_new_def fun_upd_twist)
  moreover have "get_defaults_from ?hp1 (Some 1) (Some 0) = Some (Inr cyclic_headers)"
    by (simp add: get_defaults_from_def headers_copy_def headers_copy_assign_def not_ancestor_def release_this_def add_ref_def
        headers_destroy_def is_ancestor.simps release_ref.simps cyclic_headers_def fun_upd_twist)
  ultimately show ?thesis by (intro exI [of _ ?hp1]) (simp add: headers_get_def sv_bool_def is_empty_def cyclic_get_diverges bind_eq_None_conv)
qed

text \<open>A line that is added keeps its colon in the value, enumeration by index gives values instead of
  names, and counting the headers of a collection that inherits a single one runs off the end of its map.\<close>

theorem headers_divergences:
  "(\<exists>hp. headers_add two_headers (Some 0) (lit ''Age: 3'') \<lparr> sv_begin = Some 0, sv_length = 6 \<rparr> = Some hp \<and>
      headers_get hp (Some 0) (lit ''age'') \<lparr> sv_begin = Some 0, sv_length = 3 \<rparr> = Some (Some (lit '': 3''))) \<and>
   get_header_by_index [0 \<mapsto> impl_new\<lparr> hdr_map := [(lit ''Age'', lit ''3'')] \<rparr>] (Some 0) 0 = Some (Some (lit ''3'')) \<and>
   get_header_count [0 \<mapsto> impl_new\<lparr> defaults := Some 1 \<rparr>, 1 \<mapsto> impl_new\<lparr> hdr_map := [(lit ''Age'', lit ''3'')] \<rparr>] (Some 0) = None"
proof (intro conjI)
  let ?hp = "two_headers(0 \<mapsto> impl_new\<lparr> hdr_map := [(lit ''Age'', lit '': 3'')] \<rparr>)"
  have "headers_add two_headers (Some 0) (lit ''Age: 3'') \<lparr> sv_begin = Some 0, sv_length = 6 \<rparr> = Some ?hp"
    by (simp add: headers_add_def headers_set_def sv_bool_def is_empty_def sv_end_def find_char_def scan_while.simps
        strview_range_def assign_range_def view_string_def slice_def two_headers_def impl_new_def)
  moreover have "\<not> header_is_less (lit ''Age'') (lit ''age'')" "\<not> header_is_less (lit ''age'') (lit ''Age'')"
    by code_simp+
  then have "headers_get ?hp (Some 0) (lit ''age'') \<lparr> sv_begin = Some 0, sv_length = 3 \<rparr> = Some (Some (lit '': 3''))"
    by (simp add: headers_get_def sv_bool_def is_empty_def view_string_def slice_def impl_get.simps map_get_def c_str_text_def)
  ultimately show "\<exists>hp. headers_add two_headers (Some 0) (lit ''Age: 3'') \<lparr> sv_begin = Some 0, sv_length = 6 \<rparr> = Some hp \<and>
      headers_get hp (Some 0) (lit ''age'') \<lparr> sv_begin = Some 0, sv_length = 3 \<rparr> = Some (Some (lit '': 3''))" by blast
  show "get_header_by_index [0 \<mapsto> impl_new\<lparr> hdr_map := [(lit ''Age'', lit ''3'')] \<rparr>] (Some 0) 0 = Some (Some (lit ''3''))"
    by (simp add: get_header_by_index_def get_ancestor_after.simps header_by_index_from.simps is_masked.simps impl_new_def c_str_text_def)
  show "get_header_count [0 \<mapsto> impl_new\<lparr> defaults := Some 1 \<rparr>, 1 \<mapsto> impl_new\<lparr> hdr_map := [(lit ''Age'', lit ''3'')] \<rparr>] (Some 0) = None"
    by (simp add: get_header_count_def get_ancestor_after.simps header_count_from.simps is_masked.simps impl_new_def map_get_def)
qed

end
