(* ===== verification/Http_Method.thy ===== *)
theory Http_Method
  imports Strutil
begin

text \<open>
  \<open>core/net/http_method.h\<close>, \<open>http_method.cpp\<close> and \<open>http_method.tuples\<close>: the table of known methods and the
  lookup by index, id and name. A name is matched without regard to case, with or without the prefix of an
  identifier.
\<close>

section \<open>The table\<close>

datatype http_method_id =
    http_get | http_put | http_post | http_options | http_head | http_delete | http_trace | http_connect
  | http_link | http_unlink | http_patch
  | webdav_propfind | webdav_proppatch | webdav_mkcol | webdav_copy | webdav_move | webdav_lock | webdav_unlock

record http_method =
  hm_id :: http_method_id
  id_str :: "byte list"
  verb :: "byte list"
  first_rfc :: u16
  last_rfc :: u16

definition tuple :: "http_method_id \<Rightarrow> string \<Rightarrow> string \<Rightarrow> u16 \<Rightarrow> u16 \<Rightarrow> http_method" where
  "tuple i s v f l = \<lparr> hm_id = i, id_str = lit s, verb = lit v, first_rfc = f, last_rfc = l \<rparr>"

definition known_methods :: "http_method list" where
  "known_methods = [
     tuple http_get ''http_get'' ''GET'' 1945 0,
     tuple http_put ''http_put'' ''PUT'' 1945 0,
     tuple http_post ''http_post'' ''POST'' 1945 0,
     tuple http_options ''http_options'' ''OPTIONS'' 1945 0,
     tuple http_head ''http_head'' ''HEAD'' 1945 0,
     tuple http_delete ''http_delete'' ''DELETE'' 1945 0,
     tuple http_trace ''http_trace'' ''TRACE'' 2616 0,
     tuple http_connect ''http_connect'' ''CONNECT'' 2616 0,
     tuple http_link ''http_link'' ''LINK'' 1945 0,
     tuple http_unlink ''http_unlink'' ''UNLINK'' 1945 0,
     tuple http_patch ''http_patch'' ''PATCH'' 5789 0,
     tuple webdav_propfind ''webdav_propfind'' ''PROPFIND'' 2518 0,
     tuple webdav_proppatch ''webdav_proppatch'' ''PROPPATCH'' 2518 0,
     tuple webdav_mkcol ''webdav_mkcol'' ''MKCOL'' 2518 0,
     tuple webdav_copy ''webdav_copy'' ''COPY'' 2518 0,
     tuple webdav_move ''webdav_move'' ''MOVE'' 2518 0,
     tuple webdav_lock ''webdav_lock'' ''LOCK'' 2518 0,
     tuple webdav_unlock ''webdav_unlock'' ''UNLOCK'' 2518 0]"

text \<open>The value of an enumerator as an \<open>unsigned\<close>.\<close>

definition all_ids :: "http_method_id list" where
  "all_ids = [http_get, http_put, http_post, http_options, http_head, http_delete, http_trace, http_connect,
     http_link, http_unlink, http_patch, webdav_propfind, webdav_proppatch, webdav_mkcol, webdav_copy,
     webdav_move, webdav_lock, webdav_unlock]"

definition id_value :: "http_method_id \<Rightarrow> u32" where
  "id_value i = of_nat (length (takeWhile (\<lambda>j. j \<noteq> i) all_ids))"

section \<open>Lookup\<close>

definition get_http_method_count :: u32 where
  "get_http_method_count = of_nat (length known_methods)"

definition get_http_method_by_index :: "u32 \<Rightarrow> http_method option" where
  "get_http_method_by_index i = (if i < get_http_method_count then Some (known_methods ! unat i) else None)"

definition get_http_method_by_id :: "http_method_id \<Rightarrow> http_method option" where
  "get_http_method_by_id i = get_http_method_by_index (id_value i)"

text \<open>\<open>strncpy(dest, m + p, n)\<close> gives exactly \<open>n\<close> bytes, padded with zeros; \<open>str_eq\<close> compares memory with
  the bytes of a literal, that is \<open>strncmp(.., n) == 0\<close> on the first \<open>n\<close> characters of a literal and
  \<open>strcmp(..) == 0\<close> on a literal with its terminator.\<close>

fun strncpy_bytes :: "buffer \<Rightarrow> nat \<Rightarrow> nat \<Rightarrow> buffer option" where
  "strncpy_bytes m p 0 = Some []"
| "strncpy_bytes m p (Suc n) = do {
     c \<leftarrow> rd m p;
     if c = 0 then Some (replicate (Suc n) 0) else map_option (\<lambda>cs. c # cs) (strncpy_bytes m (Suc p) n)
   }"

fun str_eq :: "buffer \<Rightarrow> nat \<Rightarrow> byte list \<Rightarrow> bool option" where
  "str_eq m p [] = Some True"
| "str_eq m p (x # xs) = do { c \<leftarrow> rd m p; if c = x then str_eq m (Suc p) xs else Some False }"

text \<open>The macros \<open>test\<close> and \<open>try_to_match\<close>; the last argument is what follows them.\<close>

definition test_verb ::
  "buffer \<Rightarrow> nat \<Rightarrow> string \<Rightarrow> http_method_id \<Rightarrow> http_method option option \<Rightarrow> http_method option option" where
  "test_verb m p v i k = do {
     eq \<leftarrow> str_eq m (Suc p) (cstr (lit (tl v)));
     if eq then Some (get_http_method_by_id i) else k
   }"

definition try_to_match ::
  "buffer \<Rightarrow> nat \<Rightarrow> char \<Rightarrow> string \<Rightarrow> http_method_id \<Rightarrow> http_method option option \<Rightarrow> http_method option option" where
  "try_to_match m p ch v i k = do {
     c \<leftarrow> rd m p;
     if c = asc ch then test_verb m p v i (Some None) else k
   }"

definition if_char ::
  "buffer \<Rightarrow> nat \<Rightarrow> char \<Rightarrow> http_method option option \<Rightarrow> http_method option option \<Rightarrow> http_method option option" where
  "if_char m p ch th el = do { c \<leftarrow> rd m p; if c = asc ch then th else el }"

definition match_verb :: "buffer \<Rightarrow> nat \<Rightarrow> http_method option option" where
  "match_verb m p =
     try_to_match m p (CHR ''g'') ''get'' http_get (
     if_char m p (CHR ''p'') (
       test_verb m p ''post'' http_post (
       test_verb m p ''put'' http_put (
       test_verb m p ''patch'' http_patch (
       test_verb m p ''propfind'' webdav_propfind (
       test_verb m p ''proppatch'' webdav_proppatch (Some None)))))) (
     try_to_match m p (CHR ''o'') ''options'' http_options (
     try_to_match m p (CHR ''h'') ''head'' http_head (
     try_to_match m p (CHR ''d'') ''delete'' http_delete (
     try_to_match m p (CHR ''t'') ''trace'' http_trace (
     if_char m p (CHR ''c'') (
       test_verb m p ''connect'' http_connect (
       test_verb m p ''copy'' webdav_copy (Some None))) (
     if_char m p (CHR ''l'') (
       test_verb m p ''link'' http_link (
       test_verb m p ''lock'' webdav_lock (Some None))) (
     if_char m p (CHR ''u'') (
       test_verb m p ''unlink'' http_unlink (
       test_verb m p ''unlock'' webdav_unlock (Some None))) (
     if_char m p (CHR ''m'') (
       test_verb m p ''move'' webdav_move (
       test_verb m p ''mkcol'' webdav_mkcol (Some None))) (
     Some None))))))))))"

definition get_http_method_by_name :: "buffer \<Rightarrow> nat option \<Rightarrow> http_method option option" where
  "get_http_method_by_name m ptr =
     (case ptr of
        None \<Rightarrow> Some None
      | Some p \<Rightarrow> do {
          c \<leftarrow> rd m p;
          if c = 0 then Some None
          else do {
            copied \<leftarrow> strncpy_bytes m p 19;
            normalized \<leftarrow> ascii_to_lower_case_cstr (copied @ [0]) (Some 0);
            http \<leftarrow> str_eq normalized 0 (lit ''http_'');
            if http then match_verb normalized 5
            else do {
              webdav \<leftarrow> str_eq normalized 0 (lit ''webdav_'');
              match_verb normalized (if webdav then 7 else 0)
            }
          }
        })"

section \<open>What a name denotes\<close>

definition strip_id_prefix :: "byte list \<Rightarrow> byte list" where
  "strip_id_prefix s =
     (if take 5 s = lit ''http_'' then drop 5 s else if take 7 s = lit ''webdav_'' then drop 7 s else s)"

definition named_method :: "byte list \<Rightarrow> http_method option" where
  "named_method s = find (\<lambda>h. map ascii_to_lower_case (verb h) = strip_id_prefix (map ascii_to_lower_case s)) known_methods"

lemma ids_of_known_methods: "map hm_id known_methods = all_ids"
  by (simp add: known_methods_def all_ids_def tuple_def)

lemma get_http_method_by_id_values:
  "get_http_method_by_id http_get = Some (known_methods ! 0)"
  "get_http_method_by_id http_put = Some (known_methods ! 1)"
  "get_http_method_by_id http_post = Some (known_methods ! 2)"
  "get_http_method_by_id http_options = Some (known_methods ! 3)"
  "get_http_method_by_id http_head = Some (known_methods ! 4)"
  "get_http_method_by_id http_delete = Some (known_methods ! 5)"
  "get_http_method_by_id http_trace = Some (known_methods ! 6)"
  "get_http_method_by_id http_connect = Some (known_methods ! 7)"
  "get_http_method_by_id http_link = Some (known_methods ! 8)"
  "get_http_method_by_id http_unlink = Some (known_methods ! 9)"
  "get_http_method_by_id http_patch = Some (known_methods ! 10)"
  "get_http_method_by_id webdav_propfind = Some (known_methods ! 11)"
  "get_http_method_by_id webdav_proppatch = Some (known_methods ! 12)"
  "get_http_method_by_id webdav_mkcol = Some (known_methods ! 13)"
  "get_http_method_by_id webdav_copy = Some (known_methods ! 14)"
  "get_http_method_by_id webdav_move = Some (known_methods ! 15)"
  "get_http_method_by_id webdav_lock = Some (known_methods ! 16)"
  "get_http_method_by_id webdav_unlock = Some (known_methods ! 17)"
  by (simp_all add: get_http_method_by_id_def get_http_method_by_index_def get_http_method_count_def id_value_def
      all_ids_def known_methods_def)

lemma str_eq_prefix:
  "length pre + length t \<le> length (pre @ s) \<Longrightarrow> str_eq (pre @ s) (length pre) t = Some (take (length t) s = t)"
proof (induction t arbitrary: pre s)
  case (Cons x t)
  then obtain c s' where "s = c # s'" by (cases s) auto
  with Cons.IH [of "pre @ [c]" s'] Cons.prems show ?case by auto
qed simp

text \<open>A comparison that meets the terminator stops there.\<close>

lemma str_eq_cstr:
  "is_cstr_content s \<Longrightarrow> is_cstr_content t \<Longrightarrow> str_eq (pre @ s @ 0 # rest) (length pre) (cstr t) = Some (s = t)"
proof (induction t arbitrary: pre s)
  case Nil
  then show ?case by (cases s) (auto simp: cstr_def is_cstr_content_def)
next
  case (Cons x t)
  show ?case
  proof (cases s)
    case Nil
    with Cons.prems show ?thesis by (auto simp: cstr_def is_cstr_content_def)
  next
    case s: (Cons c s')
    with Cons.IH [of s' "pre @ [c]"] Cons.prems show ?thesis by (auto simp: cstr_def is_cstr_content_def)
  qed
qed

lemma test_verb_value:
  "test_verb (pre @ (c # cs) @ 0 # rest) (length pre) v i k =
     (if cs = lit (tl v) then Some (get_http_method_by_id i) else k)"
  if "is_cstr_content cs" "is_cstr_content (lit (tl v) :: byte list)"
  using str_eq_cstr [OF that, of "pre @ [c]" rest] by (simp add: test_verb_def)

definition lower_verb :: "http_method \<Rightarrow> byte list" where
  "lower_verb h = map ascii_to_lower_case (verb h)"

lemma lower_verbs:
  "map lower_verb known_methods = map lit
     [''get'', ''put'', ''post'', ''options'', ''head'', ''delete'', ''trace'', ''connect'', ''link'', ''unlink'',
      ''patch'', ''propfind'', ''proppatch'', ''mkcol'', ''copy'', ''move'', ''lock'', ''unlock'']"
  by code_simp

text \<open>Searching by key when only the keys are evaluated.\<close>

fun find_key :: "'k list \<Rightarrow> 'v list \<Rightarrow> nat \<Rightarrow> 'k \<Rightarrow> 'v option" where
  "find_key [] vs i k = None"
| "find_key (x # xs) vs i k = (if x = k then Some (vs ! i) else find_key xs vs (i + 1) k)"

lemma find_via_keys: "find (\<lambda>v. f v = k) (drop i vs) = find_key (map f (drop i vs)) vs i k"
proof (induction "length vs - i" arbitrary: i)
  case (Suc n)
  then have "drop i vs = vs ! i # drop (Suc i) vs" by (simp add: Cons_nth_drop_Suc)
  moreover have "n = length vs - Suc i" using Suc.hyps(2) by simp
  ultimately show ?case using Suc.hyps(1) [of "Suc i"] by simp
qed simp

lemma match_verb_spec:
  assumes "is_cstr_content u"
  shows "match_verb (pre @ u @ 0 # rest) (length pre) = Some (find (\<lambda>h. lower_verb h = u) known_methods)"
proof -
  have f: "find (\<lambda>h. lower_verb h = u) known_methods =
      find_key (map lit
     [''get'', ''put'', ''post'', ''options'', ''head'', ''delete'', ''trace'', ''connect'', ''link'', ''unlink'',
      ''patch'', ''propfind'', ''proppatch'', ''mkcol'', ''copy'', ''move'', ''lock'', ''unlock'']) known_methods 0 u"
    using find_via_keys [of lower_verb u 0 known_methods] lower_verbs by simp
  show ?thesis
  proof (cases u)
    case Nil
    then show ?thesis unfolding f by (simp add: match_verb_def try_to_match_def if_char_def)
  next
    case (Cons c cs)
    then have cs: "is_cstr_content cs" using assms by (simp add: is_cstr_content_def)
    define B where "B = pre @ (c # cs) @ 0 # rest"
    have tv: "test_verb B (length pre) v i k = (if cs = lit (tl v) then Some (get_http_method_by_id i) else k)"
      if "is_cstr_content (lit (tl v) :: byte list)" for v i k
      unfolding B_def by (rule test_verb_value [OF cs that])
    have rd: "rd B (length pre) = Some c" by (simp add: B_def)
    show ?thesis unfolding f unfolding Cons B_def [symmetric] match_verb_def try_to_match_def if_char_def rd
      by (simp add: tv is_cstr_content_def get_http_method_by_id_values del: One_nat_def)
  qed
qed

lemma strncpy_bytes_cstr:
  "is_cstr_content s \<Longrightarrow>
   strncpy_bytes (pre @ s @ 0 # rest) (length pre) n = Some (take n s @ replicate (n - length s) 0)"
proof (induction n arbitrary: pre s)
  case (Suc n)
  show ?case
  proof (cases s)
    case (Cons c s')
    with Suc.IH [of s' "pre @ [c]"] Suc.prems show ?thesis by (simp add: is_cstr_content_def)
  qed simp
qed simp

lemma str_eq_before_terminator:
  assumes "is_cstr_content t" "length t \<le> length (s @ 0 # rest)"
  shows "str_eq (s @ 0 # rest) 0 t = Some (take (length t) s = t)"
proof -
  have "take (length t) (s @ 0 # rest) = t \<longleftrightarrow> take (length t) s = t"
  proof (cases "length t \<le> length s")
    case False
    then have "length t - length s = Suc (length t - length s - 1)" by simp
    then have "0 \<in> set (take (length t) (s @ 0 # rest))" by (simp add: take_Cons split: nat.split)
    moreover have "take (length t) s \<noteq> t" using False by (metis length_take min.cobounded1)
    ultimately show ?thesis using assms(1) by (metis is_cstr_content_def)
  qed simp
  then show ?thesis using str_eq_prefix [of "[]" t "s @ 0 # rest"] assms(2) by simp
qed

lemma match_verb_drop:
  assumes "is_cstr_content u" "n \<le> length u"
  shows "match_verb (u @ 0 # rest) n = Some (find (\<lambda>h. lower_verb h = drop n u) known_methods)"
  using match_verb_spec [of "drop n u" "take n u" rest] assms
  by (simp add: is_cstr_content_def flip: append_assoc) (metis append.assoc append_take_drop_id in_set_dropD)

text \<open>The buffer for the normalized name is long enough for every identifier, so that cutting a name to its
  size never makes it match.\<close>

lemma lower_verb_length: "h \<in> set known_methods \<Longrightarrow> length (lower_verb h) < 12"
proof -
  have "\<forall>h \<in> set known_methods. length (lower_verb h) < 12" by code_simp
  then show "h \<in> set known_methods \<Longrightarrow> length (lower_verb h) < 12" by simp
qed

lemma find_truncated:
  assumes "12 \<le> k"
  shows "find (\<lambda>h. lower_verb h = take k u) known_methods = find (\<lambda>h. lower_verb h = u) known_methods"
proof (rule find_cong [OF refl])
  fix h assume "h \<in> set known_methods"
  then have "length (lower_verb h) < k" using lower_verb_length assms by fastforce
  then show "lower_verb h = take k u \<longleftrightarrow> lower_verb h = u"
    by (metis length_take min_less_iff_disj nat_less_le not_le take_all)
qed

text \<open>C31: The lookup by name reads nothing but the name and returns exactly the known method whose verb the name
  spells without regard to case, after one of the prefixes \<open>http_\<close> and \<open>webdav_\<close> if it has one, and a null
  pointer if there is none; names longer than the buffer included.\<close>

theorem method_by_name_spec:
  assumes "is_cstr_content s"
  shows "get_http_method_by_name (pre @ s @ 0 # rest) (Some (length pre)) = Some (named_method s)"
proof (cases s)
  case Nil
  have "named_method [] = None" by code_simp
  then show ?thesis by (simp add: get_http_method_by_name_def Nil)
next
  case (Cons c cs)
  define t where "t = map ascii_to_lower_case s"
  define r where "r = replicate (19 - length s) (0 :: byte)"
  have t: "is_cstr_content (take 19 t)" using assms
    by (auto simp: t_def is_cstr_content_def take_map dest: in_set_takeD)
  have pad: "(take 19 s @ replicate (19 - length s) 0) @ [0 :: byte] = take 19 s @ 0 # r"
    by (simp add: r_def replicate_append_same)
  have low: "ascii_to_lower_case_cstr (take 19 s @ 0 # r) (Some 0) = Some (take 19 t @ 0 # r)"
    using map_cstr_in_place_spec [of "take 19 s" ascii_to_lower_case "[]" r] assms
    by (auto simp: ascii_to_lower_case_cstr_def t_def take_map is_cstr_content_def dest: in_set_takeD)
  have pre19: "str_eq (take 19 t @ 0 # r) 0 w = Some (take n t = w)"
    if "is_cstr_content w" "n \<le> 19" "length w = n" for w n
    using str_eq_before_terminator [OF that(1), of "take 19 t" r] that(2,3) by (simp add: r_def t_def min_def)
  have http: "str_eq (take 19 t @ 0 # r) 0 (lit ''http_'') = Some (take 5 t = lit ''http_'')"
    by (rule pre19) (simp_all add: is_cstr_content_def)
  have webdav: "str_eq (take 19 t @ 0 # r) 0 (lit ''webdav_'') = Some (take 7 t = lit ''webdav_'')"
    by (rule pre19) (simp_all add: is_cstr_content_def)
  have mv: "match_verb (take 19 t @ 0 # r) n = Some (find (\<lambda>h. lower_verb h = drop n t) known_methods)"
    if "n \<le> length t" "n \<le> 7" for n
    using match_verb_drop [OF t, of n r] find_truncated [of "19 - n" "drop n t"] that by (simp add: drop_take)
  have l5: "5 \<le> length t" if "take 5 t = lit ''http_''"
    using arg_cong [OF that, of length] by simp
  have l7: "7 \<le> length t" if "take 7 t = lit ''webdav_''"
    using arg_cong [OF that, of length] by simp
  have first: "rd (pre @ s @ 0 # rest) (length pre) = Some c" by (simp add: Cons)
  have c: "(c = 0) = False" using Cons assms by (simp add: is_cstr_content_def)
  have "get_http_method_by_name (pre @ s @ 0 # rest) (Some (length pre)) =
      (if take 5 t = lit ''http_'' then match_verb (take 19 t @ 0 # r) 5
       else match_verb (take 19 t @ 0 # r) (if take 7 t = lit ''webdav_'' then 7 else 0))"
    unfolding get_http_method_by_name_def option.case first
    by (simp only: strncpy_bytes_cstr [OF assms] bind.bind_lunit pad low http webdav c if_False)
  also have "\<dots> = Some (named_method s)"
    unfolding named_method_def strip_id_prefix_def t_def [symmetric] lower_verb_def [symmetric]
    using mv [of 5] mv [of 7] mv [of 0] l5 l7 by auto
  finally show ?thesis .
qed

theorem method_by_name_spec_witness:
  "get_http_method_by_name (cstr (lit ''WebDAV_PropPatch'')) (Some 0) = Some (Some (known_methods ! 12)) \<and>
   get_http_method_by_name (cstr (lit ''gets'')) (Some 0) = Some None"
proof -
  have "named_method (lit ''WebDAV_PropPatch'') = Some (known_methods ! 12)" "named_method (lit ''gets'') = None"
    by code_simp+
  then show ?thesis
    using method_by_name_spec [of "lit ''WebDAV_PropPatch''" "[]" "[]"] method_by_name_spec [of "lit ''gets''" "[]" "[]"]
    by (simp add: cstr_def is_cstr_content_def)
qed

end
