(* ===== verification/Line_Iterator.thy ===== *)
theory Line_Iterator
  imports Strutil Str_View
begin

text \<open>
  \<open>core/text/line_iterator.h\<close> and \<open>line_iterator.cpp\<close>: the lines of a text, one view at a time. The iterator is
  compared with an iterator whose view is null to find the end.
\<close>

record line_iterator =
  li_line :: str_view
  li_end :: "nat option"

text \<open>\<open>_end == nullptr\<close> is the end of the C string.\<close>

definition line_iterator_new :: "buffer \<Rightarrow> nat option \<Rightarrow> nat option \<Rightarrow> line_iterator option" where
  "line_iterator_new m bgn e0 =
     (case bgn of
        None \<Rightarrow> Some \<lparr> li_line = strview_default, li_end = e0 \<rparr>
      | Some b \<Rightarrow> do {
          e \<leftarrow> (case e0 of None \<Rightarrow> map_option (\<lambda>n. b + n) (strlen_from m b) | Some e \<Rightarrow> Some e);
          p \<leftarrow> find_any_char m bgn [13, 10] e;
          q \<leftarrow> p;
          let v = strview_default\<lparr> sv_begin := bgn \<rparr>;
          Some \<lparr> li_line = (if q \<noteq> e then end_at q v else end_at e v), li_end = Some e \<rparr>
        })"

definition line_iterator_view :: "buffer \<Rightarrow> str_view \<Rightarrow> line_iterator option" where
  "line_iterator_view m txt = line_iterator_new m (sv_begin txt) (sv_end txt)"

definition line_iterator_next :: "buffer \<Rightarrow> line_iterator \<Rightarrow> line_iterator option" where
  "line_iterator_next m it = do {
     p \<leftarrow> sv_end (li_line it);
     e \<leftarrow> li_end it;
     (if p + 1 \<le> e
      then do {
        c \<leftarrow> rd m p;
        q \<leftarrow> (if c = 13
               then (if p + 1 < e
                     then map_option (\<lambda>d. if d = 10 then p + 2 else Suc p) (rd m (p + 1))
                     else Some (Suc p))
               else Some (Suc p));
        r \<leftarrow> find_any_char m (Some q) [13, 10] e;
        x \<leftarrow> r;
        Some (it\<lparr> li_line := end_at x ((li_line it)\<lparr> sv_begin := Some q \<rparr>) \<rparr>)
      }
      else Some (it\<lparr> li_line := make_null (li_line it) \<rparr>))
   }"

definition line_iterator_equal :: "line_iterator \<Rightarrow> line_iterator \<Rightarrow> bool" where
  "line_iterator_equal a b = sv_equal (li_line a) (li_line b)"

definition line_iterator_bool :: "line_iterator \<Rightarrow> bool" where
  "line_iterator_bool it = sv_bool (li_line it)"

text \<open>At most \<open>n\<close> lines, up to the iterator whose view is null; the flag tells whether it was reached.\<close>

fun lines_from :: "nat \<Rightarrow> buffer \<Rightarrow> line_iterator \<Rightarrow> (byte list list \<times> bool) option" where
  "lines_from 0 m it = Some ([], False)"
| "lines_from (Suc n) m it =
     (if is_null (li_line it) then Some ([], True)
      else do {
        it' \<leftarrow> line_iterator_next m it;
        (ls, fin) \<leftarrow> lines_from n m it';
        Some (view_text m (li_line it) # ls, fin)
      })"

section \<open>The lines of a text\<close>

definition is_break :: "byte \<Rightarrow> bool" where
  "is_break c \<longleftrightarrow> c \<in> {13, 10, 0}"

text \<open>Lines end at a carriage return, a line feed, or both in this order; a text that ends in a line break
  has an empty last line. A null character ends a line, too, because \<open>strchr\<close> finds the terminator of the
  set of characters.\<close>

function split_lines :: "byte list \<Rightarrow> byte list list" where
  "split_lines s =
     takeWhile (\<lambda>c. \<not> is_break c) s #
     (case dropWhile (\<lambda>c. \<not> is_break c) s of
        [] \<Rightarrow> []
      | c # cs \<Rightarrow> split_lines (if c = 13 \<and> cs \<noteq> [] \<and> hd cs = 10 then tl cs else cs))"
  by pat_completeness auto
termination
proof (relation "measure length", goal_cases)
  case (2 s c cs)
  have "length (c # cs) \<le> length s" by (metis 2 length_dropWhile_le)
  then show ?case by (cases cs) auto
qed simp

declare split_lines.simps [simp del]

lemma in_break_set: "in_cset [13, 10] = is_break"
  by (auto simp: in_cset_def is_break_def)

abbreviation line_end :: "buffer \<Rightarrow> nat \<Rightarrow> nat \<Rightarrow> nat" where
  "line_end m p e \<equiv> p + length (takeWhile (\<lambda>c. \<not> is_break c) (slice m p e))"

lemma find_line_end:
  assumes "p \<le> e" "e \<le> length m"
  shows "find_any_char m (Some p) [13, 10] e = Some (Some (line_end m p e))" and "line_end m p e \<le> e"
proof -
  show "find_any_char m (Some p) [13, 10] e = Some (Some (line_end m p e))"
    using assms scan_while_takeWhile [of p e m] by (simp add: find_any_char_def in_break_set)
  have "length (takeWhile (\<lambda>c. \<not> is_break c) (slice m p e)) \<le> e - p"
    using length_takeWhile_le length_slice [OF assms(2)] by metis
  then show "line_end m p e \<le> e" using assms by simp
qed

lemma slice_line: "p \<le> e \<Longrightarrow> e \<le> length m \<Longrightarrow>
    slice m p (line_end m p e) = takeWhile (\<lambda>c. \<not> is_break c) (slice m p e)"
  using find_line_end(2) [of p e m]
  by (subst takeWhile_eq_take, simp add: slice_def min_def)

lemma slice_after_line: "p \<le> e \<Longrightarrow> e \<le> length m \<Longrightarrow>
    dropWhile (\<lambda>c. \<not> is_break c) (slice m p e) = slice m (line_end m p e) e"
  by (simp add: dropWhile_eq_drop drop_slice)

text \<open>The iterator that stands on the line that begins at \<open>p\<close>.\<close>

definition at_line :: "buffer \<Rightarrow> nat \<Rightarrow> nat \<Rightarrow> line_iterator" where
  "at_line m p e = \<lparr> li_line = \<lparr> sv_begin = Some p, sv_length = line_end m p e - p \<rparr>, li_end = Some e \<rparr>"

lemma line_iterator_new_at: "p \<le> e \<Longrightarrow> e \<le> length m \<Longrightarrow> line_iterator_new m (Some p) (Some e) = Some (at_line m p e)"
  using find_line_end [of p e m]
  by (auto simp: line_iterator_new_def at_line_def end_at_def strview_default_def Let_def)

definition after_break :: "buffer \<Rightarrow> nat \<Rightarrow> nat \<Rightarrow> nat" where
  "after_break m q e = (if m ! q = 13 \<and> Suc q < e \<and> m ! Suc q = 10 then q + 2 else Suc q)"

lemma line_iterator_next_at:
  assumes "p \<le> e" "e \<le> length m"
  defines "q \<equiv> line_end m p e"
  shows "line_iterator_next m (at_line m p e) =
     Some (if q < e then at_line m (after_break m q e) e else (at_line m p e)\<lparr> li_line := strview_default \<rparr>)"
proof (cases "q < e")
  case True
  define r where "r = after_break m q e"
  have r: "r \<le> e" using True by (auto simp: r_def after_break_def)
  note f = find_line_end [OF r assms(2)]
  have b: "bind (if m ! q = 13
        then (if q + 1 < e then map_option (\<lambda>d. if d = 10 then q + 2 else Suc q) (rd m (q + 1)) else Some (Suc q))
        else Some (Suc q)) g = g r" for g :: "nat \<Rightarrow> line_iterator option"
    using True assms(2) by (simp add: r_def after_break_def)
  have "sv_end (li_line (at_line m p e)) = Some q" "li_end (at_line m p e) = Some e"
    by (simp_all add: at_line_def sv_end_def q_def)
  moreover have "rd m q = Some (m ! q)" using True assms(2) by simp
  ultimately show ?thesis
    unfolding line_iterator_next_def r_def [symmetric]
    using True b f by (simp add: at_line_def end_at_def)
next
  case False
  then have "q = e" using find_line_end(2) [OF assms(1,2)] by (simp add: q_def)
  moreover have "sv_end (li_line (at_line m p e)) = Some q" "li_end (at_line m p e) = Some e"
    by (simp_all add: at_line_def sv_end_def q_def)
  ultimately show ?thesis by (simp add: line_iterator_next_def make_null_def strview_default_def)
qed

lemma lines_from_at:
  "p \<le> e \<Longrightarrow> e \<le> length m \<Longrightarrow> e - p + 2 \<le> n \<Longrightarrow>
   lines_from n m (at_line m p e) = Some (split_lines (slice m p e), True)"
proof (induction "e - p" arbitrary: p n rule: less_induct)
  case less
  define q where "q = line_end m p e"
  obtain n' where n: "n = Suc n'" "e - p + 1 \<le> n'" using less.prems(3) by (cases n) auto
  have q: "p \<le> q" "q \<le> e" using find_line_end(2) [OF less.prems(1,2)] by (simp_all add: q_def)
  have vt: "view_text m (li_line (at_line m p e)) = takeWhile (\<lambda>c. \<not> is_break c) (slice m p e)"
    using slice_line [OF less.prems(1,2)] q by (simp add: at_line_def view_text_def)
  note nx = line_iterator_next_at [OF less.prems(1,2), folded q_def]
  have nn: "\<not> is_null (li_line (at_line m p e))" by (simp add: at_line_def is_null_def)
  have sl: "split_lines (slice m p e) = takeWhile (\<lambda>c. \<not> is_break c) (slice m p e) #
     (if q < e then split_lines (slice m (after_break m q e) e) else [])"
  proof (cases "q < e")
    case True
    have "slice m q e = m ! q # slice m (Suc q) e" using True less.prems(2) by (simp add: slice_Cons)
    moreover have "Suc q < e \<Longrightarrow> slice m (Suc q) e = m ! Suc q # slice m (q + 2) e"
      using less.prems(2) by (simp add: slice_Cons)
    ultimately show ?thesis
      using slice_after_line [OF less.prems(1,2), folded q_def] True
      by (subst split_lines.simps) (cases "Suc q < e"; simp add: after_break_def)
  next
    case False
    then have "dropWhile (\<lambda>c. \<not> is_break c) (slice m p e) = []"
      using slice_after_line [OF less.prems(1,2), folded q_def] by simp
    then show ?thesis using False by (subst split_lines.simps) (simp del: dropWhile_eq_Nil_conv)
  qed
  show ?case
  proof (cases "q < e")
    case True
    have "after_break m q e \<le> e" "p < after_break m q e" using True q by (auto simp: after_break_def)
    then have "lines_from n' m (at_line m (after_break m q e) e) = Some (split_lines (slice m (after_break m q e) e), True)"
      using less.hyps [of "after_break m q e" n'] less.prems n by simp
    then show ?thesis using nx nn vt sl True by (simp add: n)
  next
    case False
    obtain n'' where "n' = Suc n''" using n(2) by (cases n') auto
    then show ?thesis using nx nn vt sl False by (simp add: n is_null_def strview_default_def)
  qed
qed

text \<open>C35: Iterating over a range of a text from its begin to the iterator with a null view gives exactly the
  lines of that range, in order, and ends after at most one step more than the range has characters.\<close>

theorem lines_are_split_lines:
  assumes "p \<le> e" "e \<le> length m"
  shows "(do { it \<leftarrow> line_iterator_new m (Some p) (Some e); lines_from (e - p + 2) m it }) =
         Some (split_lines (slice m p e), True)"
  using lines_from_at [OF assms order_refl] line_iterator_new_at [OF assms] by simp

theorem lines_are_split_lines_witness:
  "(do { it \<leftarrow> line_iterator_new [97, 13, 10, 98, 10, 10] (Some 0) (Some 6); lines_from 8 [97, 13, 10, 98, 10, 10] it }) =
     Some ([[97], [98], [], []], True)"
proof -
  have "split_lines [97, 13, 10, 98, 10, 10] = [[97], [98], [], []]" by code_simp
  then show ?thesis using lines_are_split_lines [of 0 6 "[97, 13, 10, 98, 10, 10]"] by (simp add: slice_def)
qed

text \<open>The conversion to \<open>bool\<close> is false on an empty line, where there are lines left.\<close>

lemma empty_line_looks_like_end:
  "\<exists>it it'. line_iterator_new [10, 97] (Some 0) (Some 2) = Some it \<and> \<not> line_iterator_bool it \<and>
     line_iterator_next [10, 97] it = Some it' \<and> line_iterator_bool it'"
proof -
  have "line_end [10, 97] 0 2 = 0" "line_end [10, 97] 1 2 = 2" by (simp_all add: slice_def is_break_def)
  then have "\<not> line_iterator_bool (at_line [10, 97] 0 2)" "line_iterator_bool (at_line [10, 97] 1 2)"
    "line_iterator_next [10, 97] (at_line [10, 97] 0 2) = Some (at_line [10, 97] 1 2)"
    using line_iterator_next_at [of 0 2 "[10, 97]"]
    by (simp_all add: line_iterator_bool_def sv_bool_def is_empty_def at_line_def after_break_def)
  then show ?thesis using line_iterator_new_at [of 0 2 "[10, 97]"] by auto
qed

end
