(* ===== verification/Base_X.thy ===== *)
theory Base_X
  imports Prelude
begin

text \<open>
  \<open>core/text/base_x_encode.h\<close>: writing a number in any base, at \<open>UNIT = uint32_t\<close>. \<open>base\<close> is a \<open>size_t\<close>, so
  that products and quotients are computed with 64 bits and cut to \<open>UNIT\<close> when they are stored. The first
  loop need not end, so it is a partial function.
\<close>

definition mul_base :: "u64 \<Rightarrow> u32 \<Rightarrow> u32" where
  "mul_base bs multiple = ucast (ucast multiple * bs)"

definition div_base :: "u64 \<Rightarrow> u32 \<Rightarrow> u32" where
  "div_base bs multiple = ucast (ucast multiple div bs)"

partial_function (option) grow_multiple :: "u64 \<Rightarrow> u32 \<Rightarrow> u32 \<Rightarrow> u32 option" where
  "grow_multiple bs n multiple =
     (if multiple \<le> n then grow_multiple bs n (mul_base bs multiple) else Some multiple)"

lemma unat_upcast: "unat (ucast w :: u64) = unat w" for w :: u32
  using unsigned_less [of w, where ?'a = nat] by (simp add: unsigned_ucast_eq take_bit_nat_eq_self)

lemma unat_cut: "unat (ucast w :: u32) = take_bit 32 (unat w)" for w :: u64
  by (simp add: unsigned_ucast_eq)

lemma unat_div_base: "unat (div_base bs multiple) = unat multiple div unat bs"
proof -
  have "unat multiple div unat bs < 2 ^ 32"
    using unsigned_less [of multiple, where ?'a = nat] by (simp add: le_less_trans [OF div_le_dividend])
  then show ?thesis
    by (simp add: div_base_def unat_cut unat_div_distrib unat_upcast take_bit_nat_eq_self)
qed

text \<open>The second loop, with the number of its rounds bounded by the value of \<open>multiple\<close>, which every round
  divides by a base above 1. The result tells whether the digits fit.\<close>

function emit_digits ::
  "u64 \<Rightarrow> buffer \<Rightarrow> nat \<Rightarrow> buffer \<Rightarrow> nat \<Rightarrow> u32 \<Rightarrow> u32 \<Rightarrow> (bool \<times> buffer \<times> nat \<times> u32) option" where
  "emit_digits bs inventory e m p n multiple =
     (if 1 < multiple \<and> 1 < bs
      then do {
        let idx = n div multiple;
        d \<leftarrow> rd inventory (unat idx);
        m' \<leftarrow> wr m p d;
        if e \<le> Suc p then Some (False, m', Suc p, n)
        else emit_digits bs inventory e m' (Suc p) (n - multiple * idx) (div_base bs multiple)
      }
      else Some (True, m, p, n))"
  by pat_completeness auto
termination
proof (relation "measure (\<lambda>(bs, inventory, e, m, p, n, multiple). unat multiple)", goal_cases)
  case (2 bs inventory e m p n multiple idx d m')
  then have "1 < unat multiple" "1 < unat bs" by (simp_all add: word_less_nat_alt)
  then show ?case by (simp add: unat_div_base)
qed simp

definition base_x_encode ::
  "u32 \<Rightarrow> buffer \<Rightarrow> nat option \<Rightarrow> nat \<Rightarrow> buffer option \<Rightarrow> u64 \<Rightarrow> (bool \<times> buffer) option" where
  "base_x_encode n m buf buf_count digit_inventory bs =
     (case (buf, digit_inventory) of
        (Some p, Some inventory) \<Rightarrow>
          if buf_count = 0 then Some (False, m)
          else do {
            c \<leftarrow> rd inventory 0;
            if c = 0 \<or> bs \<le> 1 then Some (False, m)
            else do {
              multiple \<leftarrow> grow_multiple bs n (ucast bs);
              (fits, m1, q, r) \<leftarrow> emit_digits bs inventory (p + buf_count) m p n (div_base bs multiple);
              if \<not> fits then Some (False, m1)
              else do {
                d \<leftarrow> rd inventory (unat r);
                m2 \<leftarrow> wr m1 q d;
                if Suc q < p + buf_count
                then do { m3 \<leftarrow> wr m2 (Suc q) 0; Some (True, m3) }
                else Some (True, m2)
              }
            }
          }
      | _ \<Rightarrow> Some (False, m))"

declare grow_multiple.simps [code]
declare emit_digits.simps [simp del]

section \<open>Digits\<close>

text \<open>The usual digits of a number, most significant first.\<close>

function digits_of :: "nat \<Rightarrow> nat \<Rightarrow> nat list" where
  "digits_of b n = (if n < b \<or> b \<le> 1 then [n] else digits_of b (n div b) @ [n mod b])"
  by pat_completeness auto
termination
  by (relation "measure snd") (auto intro!: div_less_dividend)

definition value_of_digits :: "nat \<Rightarrow> nat list \<Rightarrow> nat" where
  "value_of_digits b ds = foldl (\<lambda>a d. a * b + d) 0 ds"

declare digits_of.simps [simp del]

text \<open>The digits of a number below \<open>b ^ Suc k\<close>, from the one with weight \<open>b ^ k\<close> on.\<close>

fun padded_digits :: "nat \<Rightarrow> nat \<Rightarrow> nat \<Rightarrow> nat list" where
  "padded_digits b 0 n = [n]"
| "padded_digits b (Suc k) n = n div b ^ Suc k # padded_digits b k (n mod b ^ Suc k)"

lemma length_padded_digits [simp]: "length (padded_digits b k n) = Suc k"
  by (induction k arbitrary: n) auto

lemma padded_digits_not_Nil [simp]: "padded_digits b k n \<noteq> []"
  by (cases k) auto

lemma padded_digits_snoc:
  "padded_digits b (Suc k) n = padded_digits b k (n div b) @ [n mod b]"
proof (induction k arbitrary: n)
  case (Suc k)
  have "padded_digits b (Suc k) (n mod b ^ Suc (Suc k)) =
      padded_digits b k (n mod b ^ Suc (Suc k) div b) @ [n mod b ^ Suc (Suc k) mod b]"
    by (rule Suc.IH)
  moreover have "n mod b ^ Suc (Suc k) div b = n div b mod b ^ Suc k"
    by (cases "b = 0") (simp_all add: mod_mult2_eq)
  moreover have "n mod b ^ Suc (Suc k) mod b = n mod b" by (simp add: mod_mult2_eq)
  moreover have "n div b ^ Suc (Suc k) = n div b div b ^ Suc k" by (simp add: div_mult2_eq)
  ultimately show ?case by simp
qed simp

lemma padded_digits_are_digits:
  assumes "1 < b" "n < b ^ Suc k" "k = 0 \<or> b ^ k \<le> n"
  shows "padded_digits b k n = digits_of b n"
  using assms(2,3)
proof (induction k arbitrary: n)
  case 0
  then show ?case by (simp add: digits_of.simps)
next
  case (Suc k)
  have "b ^ Suc k \<le> n" using Suc.prems(2) by simp
  moreover have "b \<le> b ^ Suc k" using assms(1) by simp
  ultimately have n: "b \<le> n" by linarith
  have "n div b < b ^ Suc k" using Suc.prems(1) assms(1) by (simp add: less_mult_imp_div_less mult.commute)
  moreover have "k = 0 \<or> b ^ k \<le> n div b"
    using \<open>b ^ Suc k \<le> n\<close> assms(1) by (simp add: less_eq_div_iff_mult_less_eq mult.commute)
  ultimately have "padded_digits b k (n div b) = digits_of b (n div b)" by (rule Suc.IH)
  then show ?case unfolding padded_digits_snoc using n assms(1) by (subst digits_of.simps) simp
qed

lemma digits_of_below: "1 < b \<Longrightarrow> d \<in> set (digits_of b n) \<Longrightarrow> d < b"
proof (induction b n rule: digits_of.induct)
  case (1 b n)
  then show ?case by (subst (asm) (2) digits_of.simps) (auto split: if_splits)
qed

lemma value_of_digits_of: "1 < b \<Longrightarrow> value_of_digits b (digits_of b n) = n"
proof (induction b n rule: digits_of.induct)
  case (1 b n)
  then show ?case by (subst digits_of.simps) (auto simp: value_of_digits_def)
qed

section \<open>The loops\<close>

lemma unat_mul_base: "unat multiple * unat bs < 2 ^ 32 \<Longrightarrow> unat (mul_base bs multiple) = unat multiple * unat bs"
  by (simp add: mul_base_def unat_cut unat_word_ariths unat_upcast take_bit_nat_eq_self)

text \<open>As long as the number times the base fits into \<open>UNIT\<close>, the first loop ends at the first power of the
  base above the number.\<close>

lemma grow_multiple_power:
  assumes b: "1 < unat bs" and fit: "unat n * unat bs < 2 ^ 32"
  shows "unat multiple = unat bs ^ Suc j \<Longrightarrow> j = 0 \<or> unat bs ^ j \<le> unat n \<Longrightarrow>
    \<exists>k w. grow_multiple bs n multiple = Some w \<and> unat w = unat bs ^ Suc k \<and> unat n < unat bs ^ Suc k \<and>
      (k = 0 \<or> unat bs ^ k \<le> unat n)"
proof (induction "Suc (unat n) - unat multiple" arbitrary: multiple j rule: less_induct)
  case less
  show ?case
  proof (cases "multiple \<le> n")
    case True
    then have le: "unat multiple \<le> unat n" by (simp add: word_le_nat_alt)
    then have "unat multiple * unat bs \<le> unat n * unat bs" by simp
    then have m: "unat (mul_base bs multiple) = unat multiple * unat bs" using fit by (intro unat_mul_base) linarith
    moreover have "0 < unat multiple" using less.prems(1) b by simp
    ultimately have "unat multiple < unat (mul_base bs multiple)" using b by simp
    then have "Suc (unat n) - unat (mul_base bs multiple) < Suc (unat n) - unat multiple" using le by linarith
    moreover have "unat (mul_base bs multiple) = unat bs ^ Suc (Suc j)" using m less.prems(1) by simp
    moreover have "unat bs ^ Suc j \<le> unat n" using le less.prems(1) by simp
    ultimately have "\<exists>k w. grow_multiple bs n (mul_base bs multiple) = Some w \<and> unat w = unat bs ^ Suc k \<and>
        unat n < unat bs ^ Suc k \<and> (k = 0 \<or> unat bs ^ k \<le> unat n)"
      by (intro less.hyps [of _ "Suc j"]) auto
    then show ?thesis using True by (subst grow_multiple.simps) simp
  next
    case False
    then have "unat n < unat multiple" by (simp add: word_le_nat_alt)
    then have "grow_multiple bs n multiple = Some multiple" "unat n < unat bs ^ Suc j"
      using False less.prems(1) by (subst grow_multiple.simps, simp_all)
    then show ?thesis using less.prems by blast
  qed
qed

text \<open>One round of the second loop.\<close>

lemma emit_digits_round:
  assumes "1 < unat bs" "unat bs \<le> length inventory" "unat multiple = unat bs ^ Suc k" "unat n < unat bs ^ Suc (Suc k)"
  shows "emit_digits bs inventory e (pre @ c # old) (length pre) n multiple =
    (let m' = (pre @ [inventory ! (unat n div unat bs ^ Suc k)]) @ old
     in if e \<le> Suc (length pre) then Some (False, m', Suc (length pre), n)
        else emit_digits bs inventory e m' (Suc (length pre)) (n - multiple * (n div multiple)) (div_base bs multiple))"
    and "unat (n - multiple * (n div multiple)) = unat n mod unat bs ^ Suc k"
    and "unat (div_base bs multiple) = unat bs ^ k"
proof -
  have idx: "unat (n div multiple) = unat n div unat bs ^ Suc k" by (simp add: unat_div_distrib assms(3))
  have "unat n div unat bs ^ Suc k < unat bs"
    using assms(1,4) by (simp add: less_mult_imp_div_less mult.commute)
  then have rd: "rd inventory (unat (n div multiple)) = Some (inventory ! (unat n div unat bs ^ Suc k))"
    using assms(2) idx by simp
  have "1 < unat bs ^ Suc k" using assms(1) by (rule one_less_power) simp
  then have "1 < multiple" "1 < bs"
    using assms(1,3) by (simp_all add: word_less_nat_alt)
  then show "emit_digits bs inventory e (pre @ c # old) (length pre) n multiple =
    (let m' = (pre @ [inventory ! (unat n div unat bs ^ Suc k)]) @ old
     in if e \<le> Suc (length pre) then Some (False, m', Suc (length pre), n)
        else emit_digits bs inventory e m' (Suc (length pre)) (n - multiple * (n div multiple)) (div_base bs multiple))"
    by (subst emit_digits.simps) (simp add: Let_def rd wr_def)
  have "n - multiple * (n div multiple) = n mod multiple"
    by (simp add: minus_mult_div_eq_mod)
  then show "unat (n - multiple * (n div multiple)) = unat n mod unat bs ^ Suc k"
    by (simp add: unat_mod_distrib assms(3))
  show "unat (div_base bs multiple) = unat bs ^ k"
    using assms(1) by (simp add: unat_div_base assms(3))
qed

lemma emit_digits_fit:
  assumes "1 < unat bs" "unat bs \<le> length inventory"
  shows "unat multiple = unat bs ^ k \<Longrightarrow> unat n < unat bs ^ Suc k \<Longrightarrow> k < length old \<Longrightarrow>
    length pre + length old = e \<Longrightarrow>
    emit_digits bs inventory e (pre @ old @ post) (length pre) n multiple =
    Some (True, pre @ map ((!) inventory) (butlast (padded_digits (unat bs) k (unat n))) @ drop k old @ post,
          length pre + k, of_nat (last (padded_digits (unat bs) k (unat n))))"
proof (induction k arbitrary: n multiple pre old)
  case 0
  then have "\<not> 1 < multiple" by (simp add: word_less_nat_alt)
  then show ?case by (subst emit_digits.simps) simp
next
  case (Suc k)
  obtain c old' where old: "old = c # old'" using Suc.prems(3) by (cases old) auto
  note step = emit_digits_round [OF assms Suc.prems(1,2)]
  have "unat n mod unat bs ^ Suc k < unat bs ^ Suc k" using assms(1) by simp
  then show ?case
    using Suc.IH [OF step(3), of "n - multiple * (n div multiple)" old' "pre @ [inventory ! (unat n div unat bs ^ Suc k)]"]
      Suc.prems(3,4)
    unfolding step(2) old append_Cons step(1) by (auto simp: Let_def old)
qed

lemma emit_digits_overflow:
  assumes "1 < unat bs" "unat bs \<le> length inventory"
  shows "unat multiple = unat bs ^ k \<Longrightarrow> unat n < unat bs ^ Suc k \<Longrightarrow> length old \<le> k \<Longrightarrow> old \<noteq> [] \<Longrightarrow>
    length pre + length old = e \<Longrightarrow>
    \<exists>r. emit_digits bs inventory e (pre @ old @ post) (length pre) n multiple =
    Some (False, pre @ map ((!) inventory) (take (length old) (padded_digits (unat bs) k (unat n))) @ post, e, r)"
proof (induction k arbitrary: n multiple pre old)
  case (Suc k)
  obtain c old' where old: "old = c # old'" using Suc.prems(4) by (cases old) auto
  note step = emit_digits_round [OF assms Suc.prems(1,2)]
  have lt: "unat n mod unat bs ^ Suc k < unat bs ^ Suc k" using assms(1) by simp
  show ?case
  proof (cases "old' = []")
    case True
    then show ?thesis using Suc.prems(5) unfolding old append_Cons step(1) by (simp add: Let_def)
  next
    case False
    then show ?thesis
      using Suc.IH [OF step(3), of "n - multiple * (n div multiple)" old' "pre @ [inventory ! (unat n div unat bs ^ Suc k)]"]
        Suc.prems(3,5) lt
      unfolding step(2) old append_Cons step(1) by (auto simp: Let_def old)
  qed
qed simp

section \<open>The encoder\<close>

lemma base_x_encode_digits:
  assumes "1 < unat bs" "unat bs < 2 ^ 32" "unat n * unat bs < 2 ^ 32"
    and "unat bs \<le> length inventory" "hd inventory \<noteq> 0" "old \<noteq> []"
  shows "base_x_encode n (pre @ old @ post) (Some (length pre)) (length old) (Some inventory) bs =
    (let ds = map ((!) inventory) (digits_of (unat bs) (unat n))
     in Some (length ds \<le> length old,
          pre @ (if length ds < length old then ds @ 0 # drop (Suc (length ds)) old else take (length old) ds) @ post))"
proof -
  let ?b = "unat bs"
  have "unat (ucast bs :: u32) = ?b ^ Suc 0" using assms(2) by (simp add: unsigned_ucast_eq take_bit_nat_eq_self)
  then obtain k w where w: "grow_multiple bs n (ucast bs) = Some w" "unat w = ?b ^ Suc k" "unat n < ?b ^ Suc k"
      "k = 0 \<or> ?b ^ k \<le> unat n"
    using grow_multiple_power [OF assms(1,3), of "ucast bs" 0] by auto
  define ds where "ds = padded_digits ?b k (unat n)"
  have ds: "digits_of ?b (unat n) = ds" "length ds = Suc k" "ds \<noteq> []"
    unfolding ds_def by (simp_all only: padded_digits_are_digits [OF assms(1) w(3,4)] length_padded_digits
        padded_digits_not_Nil not_False_eq_True flip: padded_digits_are_digits [OF assms(1) w(3,4)])
  have mult: "unat (div_base bs w) = ?b ^ k" using assms(1) w(2) by (simp add: unat_div_base)
  have inv0: "rd inventory 0 = Some (hd inventory)" using assms(1,4) by (cases inventory) auto
  have bs: "\<not> bs \<le> 1" using assms(1) by (simp add: word_le_nat_alt)
  note enc = base_x_encode_def [of n "pre @ old @ post" "Some (length pre)" "length old" "Some inventory" bs]
  show "base_x_encode n (pre @ old @ post) (Some (length pre)) (length old) (Some inventory) bs =
    (let ds = map ((!) inventory) (digits_of (unat bs) (unat n))
     in Some (length ds \<le> length old,
          pre @ (if length ds < length old then ds @ 0 # drop (Suc (length ds)) old else take (length old) ds) @ post))"
  proof (cases "k < length old")
    case True
    have "last ds \<in> set ds" using ds(3) by (rule last_in_set)
    then have l: "last ds < ?b" using digits_of_below [OF assms(1)] ds(1) by metis
    then have "unat (of_nat (last ds) :: u32) = last ds" using assms(2) by (simp add: unsigned_of_nat take_bit_nat_eq_self)
    then have rd: "rd inventory (unat (of_nat (last ds) :: u32)) = Some (inventory ! last ds)" using l assms(4) by simp
    have map_ds: "map ((!) inventory) ds = map ((!) inventory) (butlast ds) @ [inventory ! last ds]"
      using ds(3) by (metis append_butlast_last_id list.simps(8,9) map_append)
    have split: "drop k old = old ! k # drop (Suc k) old" using True by (simp add: Cons_nth_drop_Suc)
    have last_write: "wr (pre @ map ((!) inventory) (butlast ds) @ drop k old @ post) (length pre + k) c =
        Some (pre @ map ((!) inventory) (butlast ds) @ c # drop (Suc k) old @ post)" for c
      unfolding split using ds(2) by (simp add: wr_def nth_append list_update_append)
    have terminator: "wr (pre @ map ((!) inventory) (butlast ds) @ c # drop (Suc k) old @ post) (Suc (length pre + k)) 0 =
        Some (pre @ map ((!) inventory) (butlast ds) @ c # 0 # drop (Suc (Suc k)) old @ post)" if "Suc k < length old" for c
      unfolding Cons_nth_drop_Suc [OF that, symmetric] using ds(2) by (simp add: wr_def list_update_append)
    show ?thesis
      using True assms(5,6) bs ds(2) emit_digits_fit [OF assms(1,4) mult w(3) True refl, of pre post]
      by (simp add: enc inv0 w(1) ds_def [symmetric] rd ds(1) map_ds last_write terminator Let_def)
  next
    case False
    then obtain r where "emit_digits bs inventory (length pre + length old) (pre @ old @ post) (length pre) n (div_base bs w) =
        Some (False, pre @ map ((!) inventory) (take (length old) ds) @ post, length pre + length old, r)"
      using emit_digits_overflow [OF assms(1,4) mult w(3) _ assms(6) refl, of pre post] ds_def by auto
    then show ?thesis using False assms(5,6) bs ds(1,2) by (simp add: enc inv0 w(1) take_map Let_def)
  qed
qed

text \<open>C34: If the number times the base fits into the type of the number, \<open>base_x_encode\<close> returns; it writes the
  digits of the number in that base, most significant first and terminated by 0 if there is room, nothing
  outside the buffer, and returns false exactly if the buffer has fewer bytes than there are digits.\<close>

theorem base_x_encode_spec:
  assumes "1 < unat bs" "unat bs < 2 ^ 32" "unat n * unat bs < 2 ^ 32"
    and "unat bs \<le> length inventory" "hd inventory \<noteq> 0" "old \<noteq> []"
  shows "base_x_encode n (pre @ old @ post) (Some (length pre)) (length old) (Some inventory) bs =
    (let ds = map ((!) inventory) (digits_of (unat bs) (unat n))
     in Some (length ds \<le> length old,
          pre @ (if length ds < length old then ds @ 0 # drop (Suc (length ds)) old else take (length old) ds) @ post)) \<and>
    value_of_digits (unat bs) (digits_of (unat bs) (unat n)) = unat n"
  using base_x_encode_digits [OF assms] value_of_digits_of [OF assms(1)] by blast

theorem base_x_encode_spec_witness:
  "base_x_encode 2934 [7, 7, 7, 7, 7] (Some 0) 5 (Some (map of_nat [97..<118])) 21 = Some (True, [103, 110, 112, 0, 7])"
proof -
  have five: "length [7, 7, 7, 7, 7 :: byte] = 5" by simp
  have "digits_of 21 2934 = [6, 13, 15]" by (simp add: digits_of.simps)
  then show ?thesis
    using base_x_encode_spec [of 21 2934 "map of_nat [97..<118]" "[7, 7, 7, 7, 7]" "[]" "[]"]
    unfolding five by (simp add: Let_def)
qed

text \<open>Without that hypothesis the first loop need not end: for a number with its highest bit set and base 2 the
  multiple becomes 0 and stays 0.\<close>

lemma multiple_of_two_wraps:
  "list_all (\<lambda>w. mul_base 2 w \<in> set (0 # map (\<lambda>i. 2 ^ i) [0..<32]) \<and> w \<le> 0x80000000) (0 # map (\<lambda>i. 2 ^ i) [0..<32])"
  by code_simp

lemma binary_of_large_number_endless:
  assumes "0x80000000 \<le> n"
  shows "grow_multiple 2 n 2 = None"
proof -
  define S where "S = (set (0 # map (\<lambda>i. 2 ^ i) [0..<32]) :: u32 set)"
  have S: "mul_base 2 w \<in> S" "w \<le> n" if "w \<in> S" for w
    using multiple_of_two_wraps assms that unfolding list_all_iff S_def by (blast, fastforce)
  have "bs = 2 \<and> l = n \<and> multiple \<in> S \<longrightarrow> False" if "grow_multiple bs l multiple = Some w" for bs l multiple w
    by (rule grow_multiple.raw_induct [where P = "\<lambda>bs l multiple w. bs = 2 \<and> l = n \<and> multiple \<in> S \<longrightarrow> False", OF _ that])
      (metis S option.distinct(1))
  moreover have "2 \<in> S" by (auto simp: S_def intro!: image_eqI [of _ _ 1])
  ultimately show ?thesis by (cases "grow_multiple 2 n 2") auto
qed

end
