(* ===== verification/Punycode.thy ===== *)
theory Punycode
  imports Prelude
begin

text \<open>
  \<open>core/text/punycode.h\<close> and \<open>punycode.cpp\<close>: Punycode after RFC 3492. \<open>punycode_uint\<close> is \<open>unsigned int\<close>. The
  arrays that are written from their begin on are the lists of what has been written, with \<open>out\<close> as their
  length; the array \<open>case_flags\<close> that the encoder reads is a function of the index. An early return of
  the encoder is \<^term>\<open>Inl\<close> of its status; the decoder returns its status with what it has written. The main loop of the encoder has fuel, and \<^term>\<open>None\<close> is running out of it.
\<close>

datatype punycode_status = punycode_success | punycode_bad_input | punycode_big_output | punycode_overflow

type_synonym punycode_uint = u32

text \<open>The parameters of Bootstring; \<open>delimiter\<close> is compared with characters only.\<close>

abbreviation (input) pc_base :: punycode_uint where "pc_base \<equiv> 36"
abbreviation (input) tmin :: punycode_uint where "tmin \<equiv> 1"
abbreviation (input) tmax :: punycode_uint where "tmax \<equiv> 26"
abbreviation (input) skew :: punycode_uint where "skew \<equiv> 38"
abbreviation (input) damp :: punycode_uint where "damp \<equiv> 700"
abbreviation (input) initial_bias :: punycode_uint where "initial_bias \<equiv> 72"
abbreviation (input) initial_n :: punycode_uint where "initial_n \<equiv> 128"
abbreviation (input) delimiter :: byte where "delimiter \<equiv> 45"
abbreviation (input) maxint :: punycode_uint where "maxint \<equiv> - 1"

section \<open>Digits and case\<close>

definition basic :: "punycode_uint \<Rightarrow> bool" where
  "basic cp \<longleftrightarrow> cp < 128"

definition delim :: "byte \<Rightarrow> bool" where
  "delim c \<longleftrightarrow> c = delimiter"

definition decode_digit :: "punycode_uint \<Rightarrow> punycode_uint" where
  "decode_digit cp =
     (if cp - 48 < 10 then cp - 22 else if cp - 65 < 26 then cp - 65 else if cp - 97 < 26 then cp - 97 else pc_base)"

definition encode_digit :: "punycode_uint \<Rightarrow> bool \<Rightarrow> byte" where
  "encode_digit d flag = ucast (d + 22 + 75 * (if d < 26 then 1 else 0) - (if flag then 32 else 0))"

definition flagged :: "byte \<Rightarrow> bool" where
  "flagged bcp \<longleftrightarrow> (scast bcp :: punycode_uint) - 65 < 26"

definition pc_encode_basic :: "punycode_uint \<Rightarrow> bool \<Rightarrow> byte" where
  "pc_encode_basic bcp flag =
     (let bcp = bcp - (if bcp - 97 < 26 then 32 else 0)
      in ucast (bcp + (if \<not> flag \<and> bcp - 65 < 26 then 32 else 0)))"

section \<open>Bias adaptation\<close>

function adapt_loop :: "punycode_uint \<Rightarrow> punycode_uint \<Rightarrow> punycode_uint \<times> punycode_uint" where
  "adapt_loop k delta =
     (if ((pc_base - tmin) * tmax) div 2 < delta then adapt_loop (k + pc_base) (delta div (pc_base - tmin)) else (k, delta))"
  by pat_completeness auto
termination
proof (relation "measure (\<lambda>(k, delta). unat delta)", goal_cases)
  case (2 k delta)
  then show ?case by (simp add: word_less_nat_alt unat_div_distrib)
qed simp

definition adapt :: "punycode_uint \<Rightarrow> punycode_uint \<Rightarrow> bool \<Rightarrow> punycode_uint" where
  "adapt delta numpoints firsttime =
     (let delta = (if firsttime then delta div damp else drop_bit 1 delta);
          delta = delta + delta div numpoints;
          (k, delta) = adapt_loop 0 delta
      in k + (pc_base - tmin + 1) * delta div (delta + skew))"

text \<open>The threshold \<open>t\<close> of both loops over digits.\<close>

definition threshold :: "punycode_uint \<Rightarrow> punycode_uint \<Rightarrow> punycode_uint" where
  "threshold k bias = (if k \<le> bias then tmin else if bias + tmax \<le> k then tmax else k - bias)"

lemma threshold_bounds: "1 \<le> unat (threshold k bias)" "unat (threshold k bias) \<le> 26"
proof -
  have "1 \<le> unat (k - bias) \<and> unat (k - bias) \<le> 26" if "bias < k" "k < bias + 26"
  proof -
    have "unat (k - bias) = unat k - unat bias" using that(1) by (simp add: unat_sub)
    moreover have "unat (bias + 26) \<le> unat bias + 26" by (simp add: unat_word_ariths mod_less_eq_dividend)
    then have "unat k < unat bias + 26" using that(2) by (simp add: word_less_nat_alt)
    ultimately show ?thesis using that(1) unfolding word_less_nat_alt by linarith
  qed
  then show "1 \<le> unat (threshold k bias)" "unat (threshold k bias) \<le> 26"
    by (auto simp: threshold_def not_le)
qed

declare adapt_loop.simps [simp del]

section \<open>Encoder\<close>

type_synonym case_flags = "(nat \<Rightarrow> u8) option"

text \<open>\<open>case_flags && case_flags[j]\<close>.\<close>

definition case_flag :: "case_flags \<Rightarrow> nat \<Rightarrow> bool" where
  "case_flag cf j = (case cf of None \<Rightarrow> False | Some f \<Rightarrow> f j \<noteq> 0)"

fun encode_basics ::
  "punycode_uint \<Rightarrow> case_flags \<Rightarrow> nat \<Rightarrow> punycode_uint list \<Rightarrow> byte list \<Rightarrow> punycode_status + byte list" where
  "encode_basics max_out cf j [] out = Inr out"
| "encode_basics max_out cf j (c # cs) out =
     (if basic c
      then (if max_out - of_nat (length out) < 2 then Inl punycode_big_output
            else encode_basics max_out cf (Suc j) cs
                   (out @ [case cf of None \<Rightarrow> ucast c | Some f \<Rightarrow> pc_encode_basic c (f j \<noteq> 0)]))
      else encode_basics max_out cf (Suc j) cs out)"

fun next_point :: "punycode_uint \<Rightarrow> punycode_uint \<Rightarrow> punycode_uint list \<Rightarrow> punycode_uint" where
  "next_point n m [] = m"
| "next_point n m (c # cs) = next_point n (if n \<le> c \<and> c < m then c else m) cs"

lemma unat_base_minus_threshold: "unat (36 - threshold k bias) = 36 - unat (threshold k bias)"
  using threshold_bounds [of k bias] by (simp add: unat_sub word_le_nat_alt)

lemma unat_vli_quotient:
  "\<not> q < threshold k bias \<Longrightarrow>
   unat ((q - threshold k bias) div (36 - threshold k bias)) =
     (unat q - unat (threshold k bias)) div (36 - unat (threshold k bias))"
  by (simp add: unat_div_distrib unat_base_minus_threshold unat_sub not_less)

function encode_vli ::
  "punycode_uint \<Rightarrow> bool \<Rightarrow> punycode_uint \<Rightarrow> punycode_uint \<Rightarrow> punycode_uint \<Rightarrow> byte list \<Rightarrow> punycode_status + byte list" where
  "encode_vli max_out flag bias q k out =
     (if max_out \<le> of_nat (length out) then Inl punycode_big_output
      else let t = threshold k bias
           in if q < t then Inr (out @ [encode_digit q flag])
              else encode_vli max_out flag bias ((q - t) div (pc_base - t)) (k + pc_base)
                     (out @ [encode_digit (t + (q - t) mod (pc_base - t)) False]))"
  by pat_completeness auto
termination
proof (relation "measure (\<lambda>(max_out, flag, bias, q, k, out). unat q)", goal_cases)
  case (2 max_out flag bias q k out t)
  have "unat t \<le> unat q" "1 \<le> unat t" using 2 threshold_bounds by (simp_all add: word_less_nat_alt not_less)
  moreover have "(unat q - unat t) div (36 - unat t) \<le> unat q - unat t" by (rule div_le_dividend)
  ultimately have "(unat q - unat t) div (36 - unat t) < unat q" by linarith
  then show ?case using unat_vli_quotient [of q k bias] 2 by simp
qed simp

declare encode_vli.simps [simp del]

record encoder =
  e_delta :: punycode_uint
  e_h :: punycode_uint
  e_bias :: punycode_uint
  e_out :: "byte list"

text \<open>The loop over the input for one value of \<open>n\<close>.\<close>

fun encode_pass ::
  "punycode_uint \<Rightarrow> case_flags \<Rightarrow> punycode_uint \<Rightarrow> punycode_uint \<Rightarrow> nat \<Rightarrow> punycode_uint list \<Rightarrow> encoder \<Rightarrow>
   punycode_status + encoder" where
  "encode_pass max_out cf b n j [] s = Inr s"
| "encode_pass max_out cf b n j (c # cs) s =
     (if c < n \<and> e_delta s + 1 = 0 then Inl punycode_overflow
      else let delta = (if c < n then e_delta s + 1 else e_delta s)
           in if c = n
              then (case encode_vli max_out (case_flag cf j) (e_bias s) delta pc_base (e_out s) of
                      Inl st \<Rightarrow> Inl st
                    | Inr out \<Rightarrow>
                        encode_pass max_out cf b n (Suc j) cs
                          \<lparr> e_delta = 0, e_h = e_h s + 1, e_bias = adapt delta (e_h s + 1) (e_h s = b), e_out = out \<rparr>)
              else encode_pass max_out cf b n (Suc j) cs (s\<lparr> e_delta := delta \<rparr>))"

fun encode_loop ::
  "nat \<Rightarrow> punycode_uint \<Rightarrow> case_flags \<Rightarrow> punycode_uint \<Rightarrow> punycode_uint list \<Rightarrow> punycode_uint \<Rightarrow> encoder \<Rightarrow>
   (punycode_status + byte list) option" where
  "encode_loop 0 max_out cf b input n s = None"
| "encode_loop (Suc fuel) max_out cf b input n s =
     (if e_h s < of_nat (length input)
      then let m = next_point n maxint input
           in if (maxint - e_delta s) div (e_h s + 1) < m - n then Some (Inl punycode_overflow)
              else (case encode_pass max_out cf b m 0 input (s\<lparr> e_delta := e_delta s + (m - n) * (e_h s + 1) \<rparr>) of
                      Inl st \<Rightarrow> Some (Inl st)
                    | Inr s' \<Rightarrow> encode_loop fuel max_out cf b input (m + 1) (s'\<lparr> e_delta := e_delta s' + 1 \<rparr>))
      else Some (Inr (e_out s)))"

definition punycode_encode ::
  "punycode_uint list \<Rightarrow> case_flags \<Rightarrow> punycode_uint \<Rightarrow> (punycode_status + byte list) option" where
  "punycode_encode input cf max_out =
     (case encode_basics max_out cf 0 input [] of
        Inl st \<Rightarrow> Some (Inl st)
      | Inr out \<Rightarrow>
          encode_loop (Suc (length input)) max_out cf (of_nat (length out)) input initial_n
            \<lparr> e_delta = 0, e_h = of_nat (length out), e_bias = initial_bias,
              e_out = (if out \<noteq> [] then out @ [delimiter] else out) \<rparr>)"

section \<open>Decoder\<close>

text \<open>The index of the last delimiter, or 0.\<close>

fun last_delim :: "nat \<Rightarrow> nat \<Rightarrow> byte list \<Rightarrow> nat" where
  "last_delim b j [] = b"
| "last_delim b j (c # cs) = last_delim (if delim c then j else b) (Suc j) cs"

text \<open>The results of the decoder are the status and what it has written to the two arrays, after an error, too.
  The flag of a character is written before the character is tested.\<close>

type_synonym decoded = "punycode_status \<times> punycode_uint list \<times> bool list"

fun decode_basics :: "byte list \<Rightarrow> punycode_uint list \<Rightarrow> bool list \<Rightarrow> decoded" where
  "decode_basics [] out flags = (punycode_success, out, flags)"
| "decode_basics (c # cs) out flags =
     (let flags = flags @ [flagged c]
      in if \<not> basic (scast c) then (punycode_bad_input, out, flags) else decode_basics cs (out @ [scast c]) flags)"

text \<open>One variable-length integer; the result is \<open>i\<close>, the rest of the input and its last consumed character.\<close>

fun decode_vli ::
  "punycode_uint \<Rightarrow> punycode_uint \<Rightarrow> punycode_uint \<Rightarrow> punycode_uint \<Rightarrow> byte list \<Rightarrow>
   punycode_status + punycode_uint \<times> byte list \<times> byte" where
  "decode_vli bias i w k [] = Inl punycode_bad_input"
| "decode_vli bias i w k (c # cs) =
     (let digit = decode_digit (scast c)
      in if pc_base \<le> digit then Inl punycode_bad_input
         else if (maxint - i) div w < digit then Inl punycode_overflow
         else let i = i + digit * w; t = threshold k bias
              in if digit < t then Inr (i, cs, c)
                 else if maxint div (pc_base - t) < w then Inl punycode_overflow
                 else decode_vli bias i (w * (pc_base - t)) (k + pc_base) cs)"

lemma decode_vli_consumes:
  "decode_vli bias i w k cs = Inr (i', cs', c) \<Longrightarrow> length cs' < length cs"
  by (induction bias i w k cs rule: decode_vli.induct) (auto simp: Let_def less_SucI split: if_splits)

text \<open>\<open>memmove\<close> of the tail and writing the gap.\<close>

definition insert_at :: "nat \<Rightarrow> 'a \<Rightarrow> 'a list \<Rightarrow> 'a list" where
  "insert_at i x xs = take i xs @ x # drop i xs"

function decode_loop ::
  "punycode_uint \<Rightarrow> byte list \<Rightarrow> punycode_uint \<Rightarrow> punycode_uint \<Rightarrow> punycode_uint \<Rightarrow> punycode_uint list \<Rightarrow> bool list \<Rightarrow> decoded" where
  "decode_loop max_out cs n i bias out flags =
     (if cs = [] then (punycode_success, out, flags)
      else case decode_vli bias i 1 pc_base cs of
             Inl st \<Rightarrow> (st, out, flags)
           | Inr (i', cs', c) \<Rightarrow>
               (let count = of_nat (length out) + 1;
                    bias = adapt (i' - i) count (i = 0)
                in if maxint - n < i' div count then (punycode_overflow, out, flags)
                   else let n = n + i' div count; i = i' mod count
                        in if max_out \<le> of_nat (length out) then (punycode_big_output, out, flags)
                           else decode_loop max_out cs' n (i + 1) bias
                                  (insert_at (unat i) n out) (insert_at (unat i) (flagged c) flags)))"
  by pat_completeness auto
termination
  by (relation "measure (\<lambda>(max_out, cs, n, i, bias, out, flags). length cs)") (auto dest: decode_vli_consumes)

declare decode_loop.simps [simp del]

text \<open>The flags are computed in any case; the array that a caller passes receives them, a null pointer does not.\<close>

definition punycode_decode :: "byte list \<Rightarrow> punycode_uint \<Rightarrow> decoded" where
  "punycode_decode input max_out =
     (let b = last_delim 0 0 input
      in if unat max_out < b then (punycode_big_output, [], [])
         else case decode_basics (take b input) [] [] of
                (st, out, flags) \<Rightarrow>
                  if st \<noteq> punycode_success then (st, out, flags)
                  else decode_loop max_out (if 0 < b then drop (b + 1) input else input) initial_n 0 initial_bias out flags)"

end
