(* ===== verification/Punycode_Roundtrip.thy ===== *)
theory Punycode_Roundtrip
  imports Punycode
begin

text \<open>
  What the encoder of \<open>punycode.cpp\<close> writes, the decoder reads: the digits, one variable-length integer, one pass
  over the input, and the whole string. The encoder is simulated by the decoder: after every code point the
  decoder has the subsequence of the code points handled so far as its output.
\<close>

section \<open>Digits\<close>

lemma digit_checks:
  "list_all (\<lambda>d. decode_digit (scast (encode_digit d False)) = d \<and> \<not> delim (encode_digit d False)) (map of_nat [0..<36])"
  "list_all (\<lambda>d. decode_digit (scast (encode_digit d True)) = d \<and> \<not> delim (encode_digit d True)) (map of_nat [0..<26])"
  by code_simp+

lemma encode_decode_digit:
  assumes "unat d < (if flag then 26 else 36)"
  shows "decode_digit (scast (encode_digit d flag)) = d" "\<not> delim (encode_digit d flag)"
proof -
  have "d = of_nat (unat d)" by simp
  then have "d \<in> of_nat ` {0..<if flag then 26 else 36}" using assms by (metis atLeastLessThan_iff image_eqI zero_le)
  then show "decode_digit (scast (encode_digit d flag)) = d" "\<not> delim (encode_digit d flag)"
    using digit_checks by (auto simp: list_all_iff split: if_splits)
qed

section \<open>Variable-length integers\<close>

lemma unat_of_nat_small: "unat (of_nat k :: u32) = k" if "k < unat w" for w :: u32
  using that unsigned_less [of w, where ?'a = nat] by (simp add: unsigned_of_nat take_bit_nat_eq_self)

lemma word_mult_fits: "unat a * unat b < 4294967296 \<Longrightarrow> unat (a * b) = unat a * unat b" for a b :: u32
  by (simp add: unat_word_ariths)

lemma word_add_fits: "unat a + unat b < 4294967296 \<Longrightarrow> unat (a + b) = unat a + unat b" for a b :: u32
  by (simp add: unat_word_ariths)

lemma unat_maxint: "unat (- 1 :: u32) = 4294967295"
  by (simp add: unsigned_minus_1_eq_mask mask_eq_exp_minus_1)

lemma unat_maxint_minus: "unat (- 1 - i) = 4294967295 - unat i" for i :: u32
proof -
  have "i \<le> - 1" by simp
  then show ?thesis by (simp only: unat_sub unat_maxint)
qed

text \<open>The two guards against overflow of the decoder.\<close>

lemma digit_guard_passes:
  fixes i d w :: u32
  assumes "unat i + unat d * unat w < 4294967296" "0 < unat w"
  shows "\<not> (- 1 - i) div w < d"
proof -
  have "unat d * unat w \<le> 4294967295 - unat i" using assms(1) by linarith
  then have "unat d \<le> (4294967295 - unat i) div unat w" using assms(2) by (simp add: less_eq_div_iff_mult_less_eq)
  then show ?thesis by (simp only: not_less word_le_nat_alt unat_div_distrib unat_maxint_minus)
qed

lemma weight_guard_passes:
  fixes c w :: u32
  assumes "unat w * unat c < 4294967296" "0 < unat c"
  shows "\<not> (- 1) div c < w"
proof -
  have "unat w \<le> (4294967295) div unat c" using assms by (simp add: less_eq_div_iff_mult_less_eq)
  then show ?thesis by (simp only: not_less word_le_nat_alt unat_div_distrib unat_maxint)
qed

lemma decode_vli_digit:
  assumes "unat d < 36" "unat i + unat d * unat w < 4294967296" "0 < unat w" "flag \<Longrightarrow> unat d < 26"
  shows "decode_vli bias i w k (encode_digit d flag # cs) =
    (if d < threshold k bias then Inr (i + d * w, cs, encode_digit d flag)
     else if - 1 div (36 - threshold k bias) < w then Inl punycode_overflow
     else decode_vli bias (i + d * w) (w * (36 - threshold k bias)) (k + 36) cs)"
proof -
  have "decode_digit (scast (encode_digit d flag)) = d" using encode_decode_digit [of d flag] assms(1,4) by simp
  moreover have "\<not> 36 \<le> d" using assms(1) by (simp add: word_le_nat_alt)
  ultimately show ?thesis using digit_guard_passes [OF assms(2,3)] by (simp add: Let_def)
qed

lemma split_digit: "q = t + (q - t) mod b + (q - t) div b * b" if "t \<le> q" for q t b :: nat
proof -
  have "(q - t) mod b + (q - t) div b * b = q - t" by (rule mod_div_mult_eq)
  then show ?thesis using that by linarith
qed

lemma vli_roundtrip:
  "encode_vli max_out flag bias q k out = Inr out' \<Longrightarrow> 0 < unat w \<Longrightarrow> 35 * (unat i + unat q * unat w) < 4294967296 \<Longrightarrow>
   \<exists>ds c. out' = out @ ds \<and> ds \<noteq> [] \<and> list_all (\<lambda>d. \<not> delim d) ds \<and>
     (\<forall>rest. decode_vli bias i w k (ds @ rest) = Inr (i + q * w, rest, c))"
proof (induction max_out flag bias q k out arbitrary: i w rule: encode_vli.induct)
  case (1 max_out flag bias q k out)
  define t where "t = threshold k bias"
  have t: "1 \<le> unat t" "unat t \<le> 26" using threshold_bounds by (simp_all add: t_def)
  have room: "\<not> max_out \<le> of_nat (length out)" using "1.prems"(1) by (auto simp: encode_vli.simps)
  show ?case
  proof (cases "q < t")
    case True
    then have q: "unat q < 26" using t by (simp add: word_less_nat_alt)
    have "decode_vli bias i w k ([encode_digit q flag] @ rest) = Inr (i + q * w, rest, encode_digit q flag)" for rest
      using decode_vli_digit [of q i w flag bias k rest] q "1.prems"(2,3) True by (simp add: t_def)
    moreover have "out' = out @ [encode_digit q flag]"
      using "1.prems"(1) room True by (simp add: encode_vli.simps [of max_out] t_def)
    moreover have "\<not> delim (encode_digit q flag)" using encode_decode_digit(2) [of q flag] q by simp
    ultimately show ?thesis by (intro exI [of _ "[encode_digit q flag]"]) auto
  next
    case False
    define q' where "q' = (q - t) div (36 - t)"
    define d where "d = t + (q - t) mod (36 - t)"
    define B where "B = 36 - unat t"
    have B: "unat t + B = 36" "10 \<le> B" "B \<le> 35" using t by (simp_all add: B_def)
    have b: "unat (36 - t) = B" unfolding t_def B_def by (rule unat_base_minus_threshold)
    have qt: "unat (q - t) = unat q - unat t" "unat t \<le> unat q" using False by (simp_all add: unat_sub not_less word_le_nat_alt)
    have m: "unat ((q - t) mod (36 - t)) = (unat q - unat t) mod B" by (simp add: unat_mod_distrib qt b)
    have lt: "(unat q - unat t) mod B < B" using B by simp
    have d: "unat d = unat t + (unat q - unat t) mod B"
    proof -
      have "unat t + unat ((q - t) mod (36 - t)) < 36" unfolding m using lt B by linarith
      then have "unat t + unat ((q - t) mod (36 - t)) < 4294967296" by (rule less_trans) simp
      then show ?thesis unfolding d_def by (simp only: word_add_fits m)
    qed
    then have d36: "unat d < 36" "unat t \<le> unat d" using lt t B by linarith+
    have q'u: "unat q' = (unat q - unat t) div B" using unat_vli_quotient [of q k bias] False
      by (simp add: q'_def t_def B_def)
    have qd: "unat q = unat d + unat q' * B" unfolding d q'u by (rule split_digit [OF qt(2)])
    have w35: "unat w * B \<le> 35 * (unat q * unat w)"
    proof -
      have "1 \<le> unat q" using qt(2) t by simp
      then have "unat w * B \<le> (unat q * unat w) * 35" using B by (intro mult_mono) auto
      then show ?thesis by (simp only: mult.commute)
    qed
    also have "35 * (unat q * unat w) \<le> 35 * (unat i + unat q * unat w)" by simp
    finally have wfit: "unat w * B < 4294967296" using "1.prems"(3) by (rule le_less_trans)
    have w': "unat (w * (36 - t)) = unat w * B" using word_mult_fits [of w "36 - t"] wfit b by simp
    have qw: "unat q * unat w = unat d * unat w + unat q' * (unat w * B)"
      unfolding qd by (simp add: algebra_simps)
    then have "unat i + unat d * unat w \<le> 35 * (unat i + unat q * unat w)" by simp
    then have dw: "unat i + unat d * unat w < 4294967296" using "1.prems"(3) by (rule le_less_trans)
    have i': "unat (i + d * w) = unat i + unat d * unat w" using dw word_mult_fits [of d w] by (subst word_add_fits) auto
    have enc: "encode_vli max_out flag bias q' (k + 36) (out @ [encode_digit d False]) = Inr out'"
      using "1.prems"(1) room False by (simp add: encode_vli.simps [of max_out flag bias q] t_def q'_def d_def Let_def)
    have "35 * (unat (i + d * w) + unat q' * unat (w * (36 - t))) < 4294967296"
      using "1.prems"(3) qw by (simp add: i' w')
    moreover have "0 < unat (w * (36 - t))" using w' "1.prems"(2) B by simp
    ultimately obtain ds c where ds: "out' = (out @ [encode_digit d False]) @ ds" "list_all (\<lambda>d. \<not> delim d) ds"
        "\<And>rest. decode_vli bias (i + d * w) (w * (36 - t)) (k + 36) (ds @ rest) =
           Inr ((i + d * w) + q' * (w * (36 - t)), rest, c)"
      using "1.IH" [OF room t_def, of "w * (36 - t)" "i + d * w"] False enc
      unfolding q'_def [symmetric] d_def [symmetric] by metis
    have "(q - t) div (36 - t) * (36 - t) + (q - t) mod (36 - t) = q - t" by (rule div_mult_mod_eq)
    then have "q = d + q' * (36 - t)" by (simp add: d_def q'_def algebra_simps)
    then have "q * w = (d + q' * (36 - t)) * w" by (rule arg_cong)
    also have "\<dots> = d * w + q' * (w * (36 - t))" by (simp add: algebra_simps)
    finally have total: "(i + d * w) + q' * (w * (36 - t)) = i + q * w" by (simp add: add.assoc)
    have nd: "\<not> d < t" using d36(2) by (simp add: word_less_nat_alt)
    have "decode_vli bias i w k ((encode_digit d False # ds) @ rest) = Inr (i + q * w, rest, c)" for rest
      using decode_vli_digit [of d i w False bias k "ds @ rest"] d36(1) dw "1.prems"(2) nd ds(3) total
        weight_guard_passes [of w "36 - t"] wfit b B
      by (simp add: t_def)
    moreover have "\<not> delim (encode_digit d False)" using encode_decode_digit(2) [of d False] d36(1) by simp
    ultimately show ?thesis using ds(1,2) by (intro exI [of _ "encode_digit d False # ds"] exI [of _ c]) simp
  qed
qed

lemma encode_vli_error: "encode_vli max_out flag bias q k out = Inl st \<Longrightarrow> st = punycode_big_output"
proof (induction max_out flag bias q k out rule: encode_vli.induct)
  case (1 max_out flag bias q k out)
  then show ?case by (simp add: encode_vli.simps [of max_out flag bias q k out] Let_def split: if_splits)
qed

text \<open>Every digit but the last divides what is left by 10 or more, so that 11 digits are enough.\<close>

lemma encode_vli_room_power:
  "unat q < 10 ^ r \<Longrightarrow>
   (\<forall>out'. encode_vli max_out flag bias q k out = Inr out' \<longrightarrow> length out' \<le> length out + Suc r) \<and>
   (length out + Suc r \<le> unat max_out \<longrightarrow> (\<exists>out'. encode_vli max_out flag bias q k out = Inr out'))"
proof (induction r arbitrary: q k out)
  case 0
  then have "q < threshold k bias" using threshold_bounds(1) [of k bias] by (simp add: word_less_nat_alt)
  then show ?case using unat_of_nat_small [of "length out" max_out]
    by (auto simp: encode_vli.simps [of _ _ _ q] word_le_nat_alt Let_def)
next
  case (Suc r)
  define t where "t = threshold k bias"
  show ?case
  proof (cases "q < t")
    case True
    then show ?thesis using unat_of_nat_small [of "length out" max_out]
      by (auto simp: encode_vli.simps [of _ _ _ q] word_le_nat_alt Let_def t_def)
  next
    case False
    have "unat ((q - t) div (36 - t)) = (unat q - unat t) div (36 - unat t)"
      using unat_vli_quotient [of q k bias] False by (simp add: t_def)
    also have "\<dots> \<le> unat q div 10" using threshold_bounds [of k bias]
      by (intro div_le_mono2 [THEN order_trans, OF _ _ div_le_mono]) (auto simp: t_def)
    also have "\<dots> < 10 ^ r" using Suc.prems by (simp add: less_mult_imp_div_less)
    finally have "unat ((q - t) div (36 - t)) < 10 ^ r" .
    from Suc.IH [OF this, of "k + 36" "out @ [encode_digit (t + (q - t) mod (36 - t)) False]"]
    show ?thesis using False unat_of_nat_small [of "length out" max_out]
      by (auto simp: encode_vli.simps [of _ _ _ q] word_le_nat_alt Let_def t_def)
  qed
qed

lemma encode_vli_room:
  "encode_vli max_out flag bias q k out = Inr out' \<Longrightarrow> length out' \<le> length out + 11"
  "encode_vli max_out flag bias q k out = Inl st \<Longrightarrow> unat max_out < length out + 11"
proof -
  have "unat q < 10 ^ 10" using unsigned_less [of q, where ?'a = nat] by simp
  from encode_vli_room_power [OF this, of max_out flag bias k out]
  show "encode_vli max_out flag bias q k out = Inr out' \<Longrightarrow> length out' \<le> length out + 11"
    "encode_vli max_out flag bias q k out = Inl st \<Longrightarrow> unat max_out < length out + 11"
    by (auto simp: not_le [symmetric])
qed

section \<open>One pass over the input\<close>

text \<open>
  The relation between encoder and decoder while the pass for the code point \<open>n\<close> has \<open>ys\<close> behind and \<open>zs\<close>
  before it: \<open>D\<close> is the output of the decoder, and \<open>delta\<close> more steps lead it from its state \<open>(nd, i)\<close> to the
  place of the next code point \<open>n\<close>.
\<close>

definition sim ::
  "punycode_uint \<Rightarrow> punycode_uint \<Rightarrow> punycode_uint list \<Rightarrow> punycode_uint list \<Rightarrow> encoder \<Rightarrow> punycode_uint \<Rightarrow> punycode_uint \<Rightarrow>
   punycode_uint list \<Rightarrow> bool" where
  "sim b n ys zs s nd i D \<longleftrightarrow>
     D = filter (\<lambda>x. x \<le> n) ys @ filter (\<lambda>x. x < n) zs \<and>
     e_h s = of_nat (length D) \<and> nd \<le> n \<and> (i = 0 \<longleftrightarrow> e_h s = b) \<and> unat b \<le> length D \<and>
     unat (e_delta s) + unat i = (unat n - unat nd) * Suc (length D) + length (filter (\<lambda>x. x \<le> n) ys)"

text \<open>The decoder consumes \<open>ds\<close> on its way from one state to another.\<close>

type_synonym decoder = "punycode_uint \<times> punycode_uint \<times> punycode_uint \<times> punycode_uint list"

definition reads :: "punycode_uint \<Rightarrow> byte list \<Rightarrow> decoder \<Rightarrow> decoder \<Rightarrow> bool" where
  "reads max' ds x y \<longleftrightarrow>
     list_all (\<lambda>d. \<not> delim d) ds \<and>
     (\<forall>rest fl. \<exists>fl'.
        (case x of (nd, i, bias, D) \<Rightarrow> decode_loop max' (ds @ rest) nd i bias D fl) =
        (case y of (nd, i, bias, D) \<Rightarrow> decode_loop max' rest nd i bias D fl'))"

lemma reads_refl: "reads max' [] x x"
  by (auto simp: reads_def)

lemma reads_trans: "reads max' ds x y \<Longrightarrow> reads max' es y z \<Longrightarrow> reads max' (ds @ es) x z"
  unfolding reads_def by (cases x; cases y; cases z) (simp, metis)

text \<open>Code points small enough for the lengths of the string that no counter overflows.\<close>

definition point_fits :: "nat \<Rightarrow> punycode_uint \<Rightarrow> bool" where
  "point_fits len c \<longleftrightarrow> 35 * (Suc (unat c) * Suc len) < 4294967296"

lemma sim_length_le: "sim b n ys zs s nd i D \<Longrightarrow> length D \<le> length ys + length zs"
  by (auto simp: sim_def intro!: add_mono)

lemma sim_length_less: "sim b n ys (n # zs) s nd i D \<Longrightarrow> length D < length ys + Suc (length zs)"
  by (auto simp: sim_def intro!: add_mono le_imp_less_Suc)

lemma sim_total_le:
  assumes "sim b n ys zs s nd i D" "length ys + length zs = len"
  shows "unat (e_delta s) + unat i < Suc (unat n) * Suc len"
proof -
  have p: "length (filter (\<lambda>x. x \<le> n) ys) < Suc len"
    using assms(2) length_filter_le [of "\<lambda>x. x \<le> n" ys] by linarith
  have "(unat n - unat nd) * Suc (length D) \<le> unat n * Suc len"
    using sim_length_le [OF assms(1)] assms(2) by (intro mult_mono) auto
  then have "unat (e_delta s) + unat i < unat n * Suc len + Suc len"
    using assms(1) p by (auto simp: sim_def)
  then show ?thesis by simp
qed

lemma point_fits_len: "point_fits len c \<Longrightarrow> 35 * Suc len < 4294967296"
proof -
  assume "point_fits len c"
  moreover have "1 * Suc len \<le> Suc (unat c) * Suc len" by (intro mult_mono) auto
  ultimately show ?thesis unfolding point_fits_def by linarith
qed

lemma point_fits_le: "point_fits len c \<Longrightarrow> x \<le> Suc (unat c) * Suc len \<Longrightarrow> x < 4294967296"
proof -
  have "35 * p < 4294967296 \<Longrightarrow> x \<le> p \<Longrightarrow> x < 4294967296" for p by linarith
  then show "point_fits len c \<Longrightarrow> x \<le> Suc (unat c) * Suc len \<Longrightarrow> x < 4294967296" by (simp only: point_fits_def)
qed

lemma unat_of_nat_Suc: "unat (of_nat k + 1 :: u32) = Suc k" if "Suc k < 4294967296"
proof -
  have "unat (of_nat (Suc k) :: u32) = Suc k" using that by (simp only: unsigned_of_nat take_bit_nat_eq_self) (simp add: take_bit_nat_eq_self)
  then show ?thesis by (simp add: add.commute)
qed

text \<open>The decoder reads one code point that the encoder has written.\<close>

lemma decode_one_point:
  assumes "sim b n ys (n # zs) s nd i D" "length ys + Suc (length zs) = len" "point_fits len n"
    and "encode_vli max_out flag (e_bias s) (e_delta s) 36 (e_out s) = Inr out"
    and "len \<le> unat max'"
  shows "\<exists>ds. out = e_out s @ ds \<and>
    reads max' ds (nd, i, e_bias s, D)
      (n, of_nat (length (filter (\<lambda>x. x \<le> n) ys)) + 1, adapt (e_delta s) (e_h s + 1) (e_h s = b),
       filter (\<lambda>x. x \<le> n) ys @ n # filter (\<lambda>x. x < n) zs)"
proof -
  let ?p = "length (filter (\<lambda>x. x \<le> n) ys)"
  have tot: "unat (e_delta s) + unat i < Suc (unat n) * Suc len" using assms(2)
    by (intro sim_total_le [OF assms(1)]) simp
  have D: "D = filter (\<lambda>x. x \<le> n) ys @ filter (\<lambda>x. x < n) zs" using assms(1) by (simp add: sim_def)
  have small: "35 * (unat i + unat (e_delta s) * unat (1 :: u32)) < 4294967296"
    using tot assms(3) by (simp add: point_fits_def)
  obtain ds c where ds: "out = e_out s @ ds" "ds \<noteq> []" "list_all (\<lambda>d. \<not> delim d) ds"
      "\<And>rest. decode_vli (e_bias s) i 1 36 (ds @ rest) = Inr (i + e_delta s, rest, c)"
    using vli_roundtrip [OF assms(4) _ small] by auto
  have lenD: "length D < len" using assms(2) length_filter_le [of "\<lambda>x. x \<le> n" ys] length_filter_le [of "\<lambda>x. x < n" zs]
    unfolding D length_append by linarith
  have L: "35 * Suc len < 4294967296" using assms(3) by (rule point_fits_len)
  have un: "unat (of_nat k :: u32) = k" if "k \<le> Suc len" for k
    using that L by (simp add: unsigned_of_nat take_bit_nat_eq_self)
  let ?count = "of_nat (length D) + 1 :: u32"
  have count: "unat ?count = Suc (length D)" using un [of "Suc (length D)"] lenD by (simp add: add.commute)
  have le: "nd \<le> n" and eq: "unat (e_delta s) + unat i = (unat n - unat nd) * Suc (length D) + ?p"
    using assms(1) by (simp_all only: sim_def)
  have "unat (i + e_delta s) = unat (e_delta s) + unat i" using small word_add_fits [of i "e_delta s"] by simp
  then have i': "unat (i + e_delta s) = (unat n - unat nd) * Suc (length D) + ?p" by (simp only: eq)
  have p: "?p < Suc (length D)" by (simp add: D)
  have q: "(i + e_delta s) div ?count = n - nd"
    using le p by (intro iffD2 [OF word_unat_eq_iff]) (simp add: unat_div_distrib count i' unat_sub del: mult_Suc_right)
  have r: "(i + e_delta s) mod ?count = of_nat ?p"
    using p un [of ?p] lenD by (intro iffD2 [OF word_unat_eq_iff]) (simp add: unat_mod_distrib count i' del: mult_Suc_right)
  have g: "\<not> - 1 - nd < n - nd"
    using le unat_maxint_minus [of nd] unsigned_less [of n, where ?'a = nat]
    by (simp add: word_less_nat_alt unat_sub)
  have room: "\<not> max' \<le> of_nat (length D)" using un [of "length D"] lenD assms(5) by (simp add: word_le_nat_alt)
  have ad: "adapt (e_delta s) ?count (i = 0) = adapt (e_delta s) (e_h s + 1) (e_h s = b)"
    using assms(1) by (simp add: sim_def)
  have "insert_at (unat (of_nat ?p :: u32)) n D = filter (\<lambda>x. x \<le> n) ys @ n # filter (\<lambda>x. x < n) zs"
    using un [of ?p] lenD p by (simp add: insert_at_def D)
  then have "\<exists>fl'. decode_loop max' (ds @ rest) nd i (e_bias s) D fl =
       decode_loop max' rest n (of_nat ?p + 1) (adapt (e_delta s) (e_h s + 1) (e_h s = b))
         (filter (\<lambda>x. x \<le> n) ys @ n # filter (\<lambda>x. x < n) zs) fl'" for rest fl
    using ds(2) g room
    by (subst decode_loop.simps) (auto simp: Let_def ds(4) ad q r)
  then show ?thesis using ds(1,3) by (auto simp: reads_def)
qed

text \<open>The space that the rest of the string may need.\<close>

definition space_needed :: "nat \<Rightarrow> encoder \<Rightarrow> punycode_uint list \<Rightarrow> nat" where
  "space_needed len s D = length (e_out s) + 11 * (len - length D)"

lemma space_needed_delta [simp]: "space_needed len (s\<lparr> e_delta := d \<rparr>) D = space_needed len s D"
  by (simp add: space_needed_def)

lemma pass_simulation:
  "sim b n ys zs s nd i D \<Longrightarrow> length ys + length zs = len \<Longrightarrow> point_fits len n \<Longrightarrow> len \<le> unat max' \<Longrightarrow>
   (case encode_pass max_out cf b n j zs s of
      Inl st \<Rightarrow> st = punycode_big_output \<and> unat max_out < space_needed len s D
    | Inr s' \<Rightarrow> \<exists>ds nd' i' D'. e_out s' = e_out s @ ds \<and> sim b n (ys @ zs) [] s' nd' i' D' \<and>
        space_needed len s' D' \<le> space_needed len s D \<and>
        reads max' ds (nd, i, e_bias s, D) (nd', i', e_bias s', D'))"
proof (induction zs arbitrary: ys s nd i D j)
  case Nil
  then show ?case by (force intro: reads_refl)
next
  case (Cons c zs)
  have len: "length (ys @ [c]) + length zs = len" using Cons.prems(2) by simp
  have tot: "unat (e_delta s) + unat i < Suc (unat n) * Suc len"
    using sim_total_le [OF Cons.prems(1,2)] by simp
  have L: "35 * Suc len < 4294967296" using Cons.prems(3) by (rule point_fits_len)
  consider "c < n" | "c = n" | "n < c" by fastforce
  then show ?case
  proof cases
    case 1
    have d: "unat (e_delta s + 1) = Suc (unat (e_delta s))"
      using tot Cons.prems(3) word_add_fits [of "e_delta s" 1] by (simp add: point_fits_def)
    then have no: "e_delta s + 1 \<noteq> 0" by (metis nat.distinct(1) unsigned_0)
    have "sim b n (ys @ [c]) zs (s\<lparr> e_delta := e_delta s + 1 \<rparr>) nd i D"
      using Cons.prems(1) 1 d by (auto simp: sim_def)
    moreover have "encode_pass max_out cf b n j (c # zs) s =
        encode_pass max_out cf b n (Suc j) zs (s\<lparr> e_delta := e_delta s + 1 \<rparr>)"
      using 1 no by (auto simp: Let_def)
    ultimately show ?thesis using Cons.IH [OF _ len Cons.prems(3,4), of _ _ _ _ "Suc j"] by (fastforce split: sum.splits)
  next
    case 3
    then have "sim b n (ys @ [c]) zs (s\<lparr> e_delta := e_delta s \<rparr>) nd i D"
      using Cons.prems(1) by (auto simp: sim_def)
    moreover have "encode_pass max_out cf b n j (c # zs) s = encode_pass max_out cf b n (Suc j) zs (s\<lparr> e_delta := e_delta s \<rparr>)"
      using 3 by (auto simp: Let_def)
    ultimately show ?thesis using Cons.IH [OF _ len Cons.prems(3,4), of _ _ _ _ "Suc j"] by (fastforce split: sum.splits)
  next
    case 2
    show ?thesis
    proof (cases "encode_vli max_out (case_flag cf j) (e_bias s) (e_delta s) 36 (e_out s)")
      case (Inl st)
      moreover have "length D < len" using sim_length_less [of b n ys zs s nd i D] Cons.prems(1,2) 2 by simp
      then have "length (e_out s) + 11 \<le> space_needed len s D" unfolding space_needed_def by linarith
      ultimately show ?thesis using 2 encode_vli_error encode_vli_room(2) by (fastforce simp: Let_def)
    next
      case (Inr out)
      let ?p = "length (filter (\<lambda>x. x \<le> n) ys)"
      let ?D = "filter (\<lambda>x. x \<le> n) ys @ n # filter (\<lambda>x. x < n) zs"
      let ?s = "\<lparr> e_delta = 0, e_h = e_h s + 1, e_bias = adapt (e_delta s) (e_h s + 1) (e_h s = b), e_out = out \<rparr>"
      obtain ds where ds: "out = e_out s @ ds"
          "reads max' ds (nd, i, e_bias s, D) (n, of_nat ?p + 1, e_bias ?s, ?D)"
        using decode_one_point [OF _ _ Cons.prems(3) Inr Cons.prems(4), of b ys zs nd i D] Cons.prems(1,2) 2 by auto
      have D: "D = filter (\<lambda>x. x \<le> n) ys @ filter (\<lambda>x. x < n) zs" "unat b \<le> length D" "e_h s = of_nat (length D)"
        using Cons.prems(1) 2 by (auto simp: sim_def)
      have un: "unat (of_nat k + 1 :: u32) = Suc k" if "k \<le> len" for k
        using that L by (intro unat_of_nat_Suc) presburger
      have le: "?p \<le> len" "length D \<le> len"
        using Cons.prems(2) sim_length_le [OF Cons.prems(1)] length_filter_le [of "\<lambda>x. x \<le> n" ys] by linarith+
      have "unat (e_h s + 1) = Suc (length D)" "unat (of_nat ?p + 1 :: u32) = Suc ?p" using un le D(3) by auto
      then have "e_h s + 1 \<noteq> b" "of_nat ?p + (1 :: u32) \<noteq> 0" using D(2) by (auto simp: unat_eq_0)
      then have S: "sim b n (ys @ [c]) zs ?s n (of_nat ?p + 1) ?D"
        using D 2 un [OF le(1)] by (simp add: sim_def)
      have "length ?D \<le> len" "length ?D = Suc (length D)" using sim_length_le [OF S] len D(1) by auto
      then have "space_needed len ?s ?D \<le> space_needed len s D"
        using encode_vli_room(1) [OF Inr] unfolding space_needed_def by simp
      then show ?thesis
        using Cons.IH [OF S len Cons.prems(3,4), of "Suc j"] 2 Inr ds reads_trans by (fastforce simp: Let_def split: sum.splits)
    qed
  qed
qed

section \<open>The whole string\<close>

lemma next_point_least:
  "next_point n m cs \<in> insert m (set cs)" "next_point n m cs \<le> m" "n \<le> m \<Longrightarrow> n \<le> next_point n m cs"
  "x \<in> set cs \<Longrightarrow> n \<le> x \<Longrightarrow> next_point n m cs \<le> x"
proof -
  have le: "next_point n m cs \<le> m" for m by (induction cs arbitrary: m) (auto intro: order_trans less_imp_le)
  then show "next_point n m cs \<le> m" .
  show "next_point n m cs \<in> insert m (set cs)" by (induction cs arbitrary: m) auto
  show "n \<le> m \<Longrightarrow> n \<le> next_point n m cs" by (induction cs arbitrary: m) auto
  show "x \<in> set cs \<Longrightarrow> n \<le> x \<Longrightarrow> next_point n m cs \<le> x"
  proof (induction cs arbitrary: m)
    case (Cons c cs)
    have "next_point n m' cs \<le> m'" for m' by (induction cs arbitrary: m') (auto intro: order_trans less_imp_le)
    then show ?case using Cons by (auto intro: order_trans simp: not_less)
  qed simp
qed

lemma length_filter_less_filter:
  "x \<in> set xs \<Longrightarrow> \<not> P x \<Longrightarrow> Q x \<Longrightarrow> (\<And>y. P y \<Longrightarrow> Q y) \<Longrightarrow> length (filter P xs) < length (filter Q xs)"
proof -
  assume x: "x \<in> set xs" "\<not> P x" "Q x" and imp: "\<And>y. P y \<Longrightarrow> Q y"
  then have "filter P xs = filter P (filter Q xs)" by (auto intro!: filter_cong)
  moreover have "length (filter P (filter Q xs)) < length (filter Q xs)"
    using x by (intro length_filter_less [of x]) auto
  ultimately show ?thesis by simp
qed

lemma sim_next_point:
  assumes "sim b n [] input s nd i D" "n \<le> m" "m \<in> set input" "\<And>x. x \<in> set input \<Longrightarrow> n \<le> x \<Longrightarrow> m \<le> x"
    and "point_fits (length input) m"
  shows "sim b m [] input (s\<lparr> e_delta := e_delta s + (m - n) * (e_h s + 1) \<rparr>) nd i D"
    and "\<not> (- 1 - e_delta s) div (e_h s + 1) < m - n"
proof -
  let ?S = "Suc (length D)"
  have S: "D = filter (\<lambda>x. x < n) input" "e_h s = of_nat (length D)" "nd \<le> n"
    "unat (e_delta s) + unat i = (unat n - unat nd) * ?S"
    using assms(1) by (simp_all add: sim_def)
  have le: "length D \<le> length input" using S(1) by simp
  have h: "unat (e_h s + 1) = ?S"
    using le point_fits_len [OF assms(5)] unfolding S(2) by (intro unat_of_nat_Suc) presburger
  have mn: "unat (m - n) = unat m - unat n" using assms(2) by (simp add: unat_sub)
  have "unat nd \<le> unat n" "unat n \<le> unat m" using S(3) assms(2) by (simp_all add: word_le_nat_alt)
  then have "(unat n - unat nd) * ?S + (unat m - unat n) * ?S = (unat m - unat nd) * ?S"
    unfolding add_mult_distrib [symmetric] by simp
  then have sum: "unat (e_delta s) + (unat m - unat n) * ?S + unat i = (unat m - unat nd) * ?S" using S(4) by linarith
  have "(unat m - unat nd) * ?S \<le> Suc (unat m) * Suc (length input)" using le by (intro mult_mono) auto
  then have fit: "unat (e_delta s) + unat (m - n) * unat (e_h s + 1) < 4294967296"
    using sum point_fits_le [OF assms(5)] unfolding mn h by simp
  have "unat ((m - n) * (e_h s + 1)) = unat (m - n) * unat (e_h s + 1)" using fit by (intro word_mult_fits) linarith
  then have "unat (e_delta s + (m - n) * (e_h s + 1)) = unat (e_delta s) + (unat m - unat n) * ?S"
    using word_add_fits [of "e_delta s" "(m - n) * (e_h s + 1)"] fit unfolding mn h by simp
  moreover have "D = filter (\<lambda>x. x < m) input" unfolding S(1)
    using assms(2,4) by (intro filter_cong) (auto intro: less_le_trans simp: not_less [symmetric])
  ultimately show "sim b m [] input (s\<lparr> e_delta := e_delta s + (m - n) * (e_h s + 1) \<rparr>) nd i D"
    using assms(1,2) sum by (auto simp: sim_def)
  show "\<not> (- 1 - e_delta s) div (e_h s + 1) < m - n" using fit h by (intro digit_guard_passes) auto
qed

lemma sim_next_pass:
  assumes "sim b m input [] s nd i D" "point_fits (length input) m"
  shows "sim b (m + 1) [] input (s\<lparr> e_delta := e_delta s + 1 \<rparr>) nd i D"
proof -
  have S: "D = filter (\<lambda>x. x \<le> m) input" "nd \<le> m"
    "unat (e_delta s) + unat i = (unat m - unat nd) * Suc (length D) + length D"
    using assms(1) by (simp_all add: sim_def)
  have M: "Suc (unat m) < 4294967296"
  proof -
    have "Suc (unat m) * 1 \<le> Suc (unat m) * Suc (length input)" by (intro mult_mono) auto
    then show ?thesis by (intro point_fits_le [OF assms(2)]) (simp only: mult_1_right)
  qed
  then have m: "unat (m + 1) = Suc (unat m)" using word_add_fits [of m 1] by simp
  have "unat (e_delta s) < Suc (unat m) * Suc (length input)" using sim_total_le [OF assms(1), of "length input"] by simp
  then have d: "unat (e_delta s + 1) = Suc (unat (e_delta s))"
    using assms(2) word_add_fits [of "e_delta s" 1] unfolding point_fits_def by simp
  have "unat nd \<le> unat m" using S(2) by (simp add: word_le_nat_alt)
  then have "(unat (m + 1) - unat nd) * Suc (length D) = (unat m - unat nd) * Suc (length D) + Suc (length D)"
    unfolding m by (simp add: Suc_diff_le)
  then have "unat (e_delta s + 1) + unat i = (unat (m + 1) - unat nd) * Suc (length D)" using S(3) d by linarith
  moreover have "D = filter (\<lambda>x. x < m + 1) input" unfolding S(1)
    using m by (intro filter_cong) (auto simp: word_le_nat_alt word_less_nat_alt)
  moreover have "nd \<le> m + 1" using S(2) m by (simp add: word_le_nat_alt)
  ultimately show ?thesis using assms(1) by (auto simp: sim_def)
qed

lemma loop_simulation:
  assumes "\<And>c. c \<in> set input \<Longrightarrow> point_fits (length input) c" "length input \<le> unat max'" "length input < 4294967296"
  shows "sim b n [] input s nd i D \<Longrightarrow> length input - length D < fuel \<Longrightarrow>
    encode_loop fuel max_out cf b input n s = Some (Inl punycode_big_output) \<and>
      unat max_out < space_needed (length input) s D \<or>
    (\<exists>ds nd' i' bias'. encode_loop fuel max_out cf b input n s = Some (Inr (e_out s @ ds)) \<and>
       reads max' ds (nd, i, e_bias s, D) (nd', i', bias', input))"
proof (induction fuel arbitrary: n s nd i D)
  case (Suc fuel)
  have D: "D = filter (\<lambda>x. x < n) input" and h: "e_h s = of_nat (length D)" using Suc.prems(1) by (simp_all add: sim_def)
  have le: "length D \<le> length input" by (simp add: D)
  have "e_h s < of_nat (length input) \<longleftrightarrow> length D < length input"
    using le assms(3) by (simp add: h word_less_nat_alt unsigned_of_nat take_bit_nat_eq_self)
  note cond = this
  show ?case
  proof (cases "length D < length input")
    case False
    then have "length D = length input" using le by simp
    then have "D = input" unfolding D by (metis filter_True length_filter_less less_irrefl)
    then show ?thesis using False cond reads_refl by (fastforce intro: exI [of _ "[]"])
  next
    case True
    define m where "m = next_point n (- 1) input"
    obtain x where x: "x \<in> set input" "n \<le> x" using True unfolding D by (metis filter_True less_irrefl not_less)
    have m: "n \<le> m" "\<And>x. x \<in> set input \<Longrightarrow> n \<le> x \<Longrightarrow> m \<le> x" using next_point_least(3,4) by (auto simp: m_def)
    have min: "m \<in> set input"
      using next_point_least(1) [of n "- 1" input] m(2) [OF x] x(1) unfolding m_def [symmetric]
      by (metis insertE word_order.extremum_unique)
    note fits = assms(1) [OF min]
    note np = sim_next_point [OF Suc.prems(1) m(1) min m(2) fits]
    let ?s = "s\<lparr> e_delta := e_delta s + (m - n) * (e_h s + 1) \<rparr>"
    have step: "encode_loop (Suc fuel) max_out cf b input n s =
        (case encode_pass max_out cf b m 0 input ?s of
           Inl st \<Rightarrow> Some (Inl st)
         | Inr s' \<Rightarrow> encode_loop fuel max_out cf b input (m + 1) (s'\<lparr> e_delta := e_delta s' + 1 \<rparr>))"
      using True cond np(2) by (simp add: Let_def m_def [symmetric])
    show ?thesis
    proof (cases "encode_pass max_out cf b m 0 input ?s")
      case (Inl st)
      then show ?thesis using step pass_simulation [OF np(1) _ fits assms(2), of max_out cf 0] by simp
    next
      case (Inr s')
      obtain ds nd' i' D' where ds: "e_out s' = e_out s @ ds" "sim b m input [] s' nd' i' D'"
          "reads max' ds (nd, i, e_bias s, D) (nd', i', e_bias s', D')" "space_needed (length input) s' D' \<le> space_needed (length input) s D"
        using pass_simulation [OF np(1) _ fits assms(2), of max_out cf 0] Inr by auto
      have "D' = filter (\<lambda>x. x \<le> m) input" using ds(2) by (simp add: sim_def)
      then have "length D < length D'"
        using length_filter_less_filter [OF min, of "\<lambda>x. x < n" "\<lambda>x. x \<le> m"] m(1) D by auto
      then have "length input - length D' < fuel" using Suc.prems(2) True by linarith
      from Suc.IH [OF sim_next_pass [OF ds(2) fits] this] show ?thesis
      proof (elim disjE conjE exE)
        assume "encode_loop fuel max_out cf b input (m + 1) (s'\<lparr> e_delta := e_delta s' + 1 \<rparr>) = Some (Inl punycode_big_output)"
          "unat max_out < space_needed (length input) (s'\<lparr> e_delta := e_delta s' + 1 \<rparr>) D'"
        then show ?thesis using step Inr ds(4) by simp
      next
        fix es nd'' i'' bias''
        assume "encode_loop fuel max_out cf b input (m + 1) (s'\<lparr> e_delta := e_delta s' + 1 \<rparr>) =
            Some (Inr (e_out (s'\<lparr> e_delta := e_delta s' + 1 \<rparr>) @ es))"
          "reads max' es (nd', i', e_bias (s'\<lparr> e_delta := e_delta s' + 1 \<rparr>), D') (nd'', i'', bias'', input)"
        then have "encode_loop (Suc fuel) max_out cf b input n s = Some (Inr (e_out s @ (ds @ es)))"
          "reads max' (ds @ es) (nd, i, e_bias s, D) (nd'', i'', bias'', input)"
          using step Inr ds(1) reads_trans [OF ds(3)] by simp_all
        then show ?thesis by blast
      qed
    qed
  qed
qed simp

text \<open>The basic code points.\<close>

lemma basic_bytes: "basic c \<Longrightarrow> scast (ucast c :: byte) = c"
proof -
  assume "basic c"
  then have "unat c < 128" by (simp add: basic_def word_less_nat_alt)
  moreover have "c = of_nat (unat c)" by simp
  ultimately have "c \<in> of_nat ` {0..<128}" by (metis atLeastLessThan_iff image_eqI zero_le)
  moreover have "list_all (\<lambda>c. scast (ucast c :: byte) = (c :: u32)) (map of_nat [0..<128])" by code_simp
  ultimately show ?thesis by (auto simp: list_all_iff)
qed

lemma encode_basics_result:
  "length out + length cs + 2 \<le> unat max_out \<or> encode_basics max_out None j cs out \<noteq> Inl punycode_big_output \<Longrightarrow>
   encode_basics max_out None j cs out = Inr (out @ map ucast (filter basic cs))"
proof (induction cs arbitrary: j out)
  case (Cons c cs)
  show ?case
  proof (cases "basic c")
    case True
    have "\<not> max_out - of_nat (length out) < 2"
      using Cons.prems
    proof (rule disjE)
      assume "length out + length (c # cs) + 2 \<le> unat max_out"
      then have "length out < unat max_out" "2 \<le> unat max_out - length out" by auto
      then show ?thesis using unat_of_nat_small [of "length out" max_out]
        by (simp add: word_less_nat_alt unat_sub word_le_nat_alt)
    qed (use True in auto)
    then show ?thesis using Cons.IH [of "out @ [ucast c]" "Suc j"] Cons.prems True by auto
  next
    case False
    then show ?thesis using Cons.IH [of out "Suc j"] Cons.prems by auto
  qed
qed simp

lemma decode_basics_result:
  "list_all basic xs \<Longrightarrow> \<exists>fl'. decode_basics (map ucast xs) out fl = (punycode_success, out @ xs, fl')"
proof (induction xs arbitrary: out fl)
  case (Cons x xs)
  then show ?case using Cons.IH [of "out @ [x]"] by (auto simp: basic_bytes)
qed simp

lemma last_delim_none: "list_all (\<lambda>d. \<not> delim d) ds \<Longrightarrow> last_delim b j ds = b"
  by (induction ds arbitrary: j) auto

lemma last_delim_last: "list_all (\<lambda>d. \<not> delim d) ds \<Longrightarrow> last_delim b j (xs @ 45 # ds) = j + length xs"
  by (induction xs arbitrary: b j) (auto simp: delim_def last_delim_none)

text \<open>The decoder from the begin of a string that the encoder has written.\<close>

lemma decode_encoded:
  assumes "reads max' ds (128, 0, 72, filter basic input) (nd, i, bias, input)" "length input \<le> unat max'"
  shows "\<exists>fl. punycode_decode ((if filter basic input \<noteq> [] then map ucast (filter basic input) @ [45] else []) @ ds) max' =
    (punycode_success, input, fl)"
proof -
  let ?B = "filter basic input"
  obtain fb where fb: "decode_basics (map ucast ?B) [] [] = (punycode_success, ?B, fb)"
    using decode_basics_result [of ?B "[]" "[]"] by (auto simp: list_all_iff)
  have ds: "list_all (\<lambda>d. \<not> delim d) ds" using assms(1) by (simp add: reads_def)
  have "\<exists>fl'. decode_loop max' (ds @ []) 128 0 72 ?B fb = decode_loop max' [] nd i bias input fl'"
    using assms(1) unfolding reads_def by fast
  then have loop: "\<exists>fl. decode_loop max' ds 128 0 72 ?B fb = (punycode_success, input, fl)" by (simp add: decode_loop.simps [of _ "[]"])
  have le: "length ?B \<le> unat max'" using assms(2) length_filter_le order_trans by blast
  show ?thesis
  proof (cases "?B = []")
    case True
    then show ?thesis using loop fb last_delim_none [OF ds, of 0 0] by (simp add: punycode_decode_def)
  next
    case False
    have "last_delim 0 0 ((map ucast ?B @ [45]) @ ds) = length ?B" using last_delim_last [OF ds, of 0 0 "map ucast ?B"] by simp
    then show ?thesis using loop fb le False by (simp add: punycode_decode_def)
  qed
qed



text \<open>The hypothesis on the code points matters: the decoder counts from the last insertion, so that it reports
  an overflow on some strings of larger numbers that the encoder accepts.\<close>

lemma encoder_accepts_more:
  "\<exists>out. punycode_encode [128, 128, 1431655893] None 40 = Some (Inr out) \<and>
     fst (punycode_decode out 10) = punycode_overflow"
proof -
  have "punycode_encode [128, 128, 1431655893] None 40 = Some (Inr [97, 97, 57, 48, 52, 56, 55, 48, 54, 48, 52, 98])"
    by code_simp
  moreover have "fst (punycode_decode [97, 97, 57, 48, 52, 56, 55, 48, 54, 48, 52, 98] 10) = punycode_overflow" by code_simp
  ultimately show ?thesis by blast
qed

section \<open>Bounds of the decoder\<close>

lemma length_insert_at [simp]: "length (insert_at i x xs) = Suc (length xs)"
  by (simp add: insert_at_def)

lemma decode_loop_bounds:
  assumes "length out \<le> unat max_out" "decode_loop max_out cs n i bias out flags = (st, out', flags')"
  shows "length out' \<le> unat max_out \<and> length out' \<le> length out + length cs \<and>
    length out' + length flags = length flags' + length out"
  using assms
proof (induction max_out cs n i bias out flags rule: decode_loop.induct)
  case (1 max_out cs n i bias out flags)
  let ?count = "of_nat (length out) + 1 :: u32"
  note unfold = decode_loop.simps [of max_out cs n i bias out flags]
  consider "out' = out" "flags' = flags"
    | i' cs' c where "cs \<noteq> []" "decode_vli bias i 1 36 cs = Inr (i', cs', c)" "\<not> - 1 - n < i' div ?count" "\<not> max_out \<le> of_nat (length out)"
    using "1.prems"(2) unfold by (auto simp: Let_def split: if_splits sum.splits)
  then show ?case
  proof cases
    case (2 i' cs' c)
    note g = 2
    have "length out \<noteq> unat max_out" using g(4) by (auto simp: word_le_nat_alt)
    then have "length out < unat max_out" using "1.prems"(1) by simp
    moreover have "decode_loop max_out cs' (n + i' div ?count) (i' mod ?count + 1) (adapt (i' - i) ?count (i = 0))
        (insert_at (unat (i' mod ?count)) (n + i' div ?count) out) (insert_at (unat (i' mod ?count)) (flagged c) flags) =
        (st, out', flags')"
      using "1.prems"(2) g unfolding unfold by (simp add: Let_def)
    ultimately have "length out' \<le> unat max_out \<and> length out' \<le> Suc (length out) + length cs' \<and>
        length out' + Suc (length flags) = length flags' + Suc (length out)"
      using "1.IH" [OF g(1,2) refl refl refl refl g(3) refl refl g(4)] by simp
    then show ?thesis using decode_vli_consumes [OF g(2)] by linarith
  qed (use "1.prems"(1) in auto)
qed

lemma decode_basics_bounds:
  "decode_basics cs out fl = (st, out', fl') \<Longrightarrow> length out' \<le> length out + length cs \<and> length fl' \<le> length fl + length cs \<and>
     (st = punycode_success \<longrightarrow> length out' = length out + length cs \<and> length fl' = length fl + length cs)"
  by (induction cs arbitrary: out fl) (fastforce simp: Let_def split: if_splits)+

lemma last_delim_le: "last_delim b j cs \<le> max b (j + length cs)"
proof (induction cs arbitrary: b j)
  case (Cons c cs)
  show ?case using Cons.IH [of "if delim c then j else b" "Suc j"] by (auto split: if_splits)
qed simp

text \<open>C36: Whatever the input, and also when it ends with an error, the decoder has written no more code points and no more
  case flags than the caller has room for (\<open>*output_length\<close> entries) and than the input has characters; on success it has
  written one flag for each code point.\<close>

theorem punycode_decode_bounds:
  "case punycode_decode input max_out of (st, out, flags) \<Rightarrow>
     length out \<le> unat max_out \<and> length flags \<le> unat max_out \<and> length out \<le> length input \<and> length flags \<le> length input \<and>
     (if st = punycode_success then length flags = length out else True)"
proof -
  let ?b = "last_delim 0 0 input"
  let ?cs = "if 0 < ?b then drop (?b + 1) input else input"
  obtain st0 out0 fl0 where b: "decode_basics (take ?b input) [] [] = (st0, out0, fl0)" using prod_cases3 by blast
  have le: "?b \<le> length input" using last_delim_le [of 0 0 input] by simp
  have cs: "?b + length ?cs \<le> length input" using le by auto
  note bounds = decode_basics_bounds [OF b]
  consider "unat max_out < ?b" | "\<not> unat max_out < ?b" "st0 \<noteq> punycode_success" | "\<not> unat max_out < ?b" "st0 = punycode_success" by blast
  then show ?thesis
  proof cases
    case 1
    then show ?thesis by (simp add: punycode_decode_def)
  next
    case 2
    then show ?thesis using bounds le b by (simp add: punycode_decode_def)
  next
    case 3
    obtain st out fl where d: "decode_loop max_out ?cs 128 0 72 out0 fl0 = (st, out, fl)" using prod_cases3 by blast
    have "length out0 = ?b" "length fl0 = ?b" using bounds 3(2) le by simp_all
    then show ?thesis using decode_loop_bounds [OF _ d] 3 b cs d by (auto simp: punycode_decode_def Let_def)
  qed
qed

text \<open>With room for two of three code points the decoder has written two.\<close>

theorem punycode_decode_bounds_witness:
  "punycode_decode [98, 99, 45, 120, 107, 97] 2 = (punycode_big_output, [98, 99], [False, False]) \<and>
   length [98, 99 :: punycode_uint] \<le> unat (2 :: u32)"
proof -
  have "punycode_decode [98, 99, 45, 120, 107, 97] 2 = (punycode_big_output, [98, 99], [False, False])" by code_simp
  then show ?thesis using punycode_decode_bounds [where input = "[98, 99, 45, 120, 107, 97]" and max_out = 2] by simp
qed

end
