(* ===== verification/Unicode_Range.thy ===== *)
theory Unicode_Range
  imports Prelude
begin

text \<open>
  \<open>core/text/unicode_range.h\<close>, \<open>unicode_range.cpp\<close> and \<open>unicode_range.tuples\<close>: the block of a code point, found
  by bisection of the table of blocks.
\<close>

record unicode_range_info =
  range_begin :: u32
  range_end :: u32
  range_name :: string
  used_by_langs :: string

definition range_tuple :: "u32 \<Rightarrow> u32 \<Rightarrow> string \<Rightarrow> string \<Rightarrow> unicode_range_info" where
  "range_tuple b e n l = \<lparr> range_begin = b, range_end = e, range_name = n, used_by_langs = l \<rparr>"

definition range_infos :: "unicode_range_info list" where
  "range_infos = [
     range_tuple 0x0020 0x007F ''Basic Latin'' '''',
     range_tuple 0x00A0 0x00FF ''Latin-1 Supplement'' '''',
     range_tuple 0x0100 0x017F ''Latin Extended-A'' '''',
     range_tuple 0x0180 0x024F ''Latin Extended-B'' '''',
     range_tuple 0x0250 0x02AF ''IPA Extensions'' '''',
     range_tuple 0x02B0 0x02FF ''Spacing Modifier Letters'' '''',
     range_tuple 0x0300 0x036F ''Combining Diacritical Marks'' '''',
     range_tuple 0x0370 0x03FF ''Greek and Coptic'' '''',
     range_tuple 0x0400 0x04FF ''Cyrillic'' '''',
     range_tuple 0x0500 0x052F ''Cyrillic Supplementary'' '''',
     range_tuple 0x0530 0x058F ''Armenian'' '''',
     range_tuple 0x0590 0x05FF ''Hebrew'' '''',
     range_tuple 0x0600 0x06FF ''Arabic'' '''',
     range_tuple 0x0700 0x074F ''Syriac'' '''',
     range_tuple 0x0780 0x07BF ''Thaana'' '''',
     range_tuple 0x0900 0x097F ''Devanagari'' '''',
     range_tuple 0x0980 0x09FF ''Bengali'' '''',
     range_tuple 0x0A00 0x0A7F ''Gurmukhi'' '''',
     range_tuple 0x0A80 0x0AFF ''Gujarati'' '''',
     range_tuple 0x0B00 0x0B7F ''Oriya'' '''',
     range_tuple 0x0B80 0x0BFF ''Tamil'' '''',
     range_tuple 0x0C00 0x0C7F ''Telugu'' '''',
     range_tuple 0x0C80 0x0CFF ''Kannada'' '''',
     range_tuple 0x0D00 0x0D7F ''Malayalam'' '''',
     range_tuple 0x0D80 0x0DFF ''Sinhala'' '''',
     range_tuple 0x0E00 0x0E7F ''Thai'' '''',
     range_tuple 0x0E80 0x0EFF ''Lao'' '''',
     range_tuple 0x0F00 0x0FFF ''Tibetan'' '''',
     range_tuple 0x1000 0x109F ''Myanmar'' '''',
     range_tuple 0x10A0 0x10FF ''Georgian'' '''',
     range_tuple 0x1100 0x11FF ''Hangul Jamo'' '''',
     range_tuple 0x1200 0x137F ''Ethiopic'' '''',
     range_tuple 0x13A0 0x13FF ''Cherokee'' '''',
     range_tuple 0x1400 0x167F ''Unified Canadian Aboriginal Syllabics'' '''',
     range_tuple 0x1680 0x169F ''Ogham'' '''',
     range_tuple 0x16A0 0x16FF ''Runic'' '''',
     range_tuple 0x1700 0x171F ''Tagalog'' '''',
     range_tuple 0x1720 0x173F ''Hanunoo'' '''',
     range_tuple 0x1740 0x175F ''Buhid'' '''',
     range_tuple 0x1760 0x177F ''Tagbanwa'' '''',
     range_tuple 0x1780 0x17FF ''Khmer'' '''',
     range_tuple 0x1800 0x18AF ''Mongolian'' '''',
     range_tuple 0x1900 0x194F ''Limbu'' '''',
     range_tuple 0x1950 0x197F ''Tai Le'' '''',
     range_tuple 0x19E0 0x19FF ''Khmer Symbols'' '''',
     range_tuple 0x1D00 0x1D7F ''Phonetic Extensions'' '''',
     range_tuple 0x1E00 0x1EFF ''Latin Extended Additional'' '''',
     range_tuple 0x1F00 0x1FFF ''Greek Extended'' '''',
     range_tuple 0x2000 0x206F ''General Punctuation'' '''',
     range_tuple 0x2070 0x209F ''Superscripts and Subscripts'' '''',
     range_tuple 0x20A0 0x20CF ''Currency Symbols'' '''',
     range_tuple 0x20D0 0x20FF ''Combining Diacritical Marks for Symbols'' '''',
     range_tuple 0x2100 0x214F ''Letterlike Symbols'' '''',
     range_tuple 0x2150 0x218F ''Number Forms'' '''',
     range_tuple 0x2190 0x21FF ''Arrows'' '''',
     range_tuple 0x2200 0x22FF ''Mathematical Operators'' '''',
     range_tuple 0x2300 0x23FF ''Miscellaneous Technical'' '''',
     range_tuple 0x2400 0x243F ''Control Pictures'' '''',
     range_tuple 0x2440 0x245F ''Optical Character Recognition'' '''',
     range_tuple 0x2460 0x24FF ''Enclosed Alphanumerics'' '''',
     range_tuple 0x2500 0x257F ''Box Drawing'' '''',
     range_tuple 0x2580 0x259F ''Block Elements'' '''',
     range_tuple 0x25A0 0x25FF ''Geometric Shapes'' '''',
     range_tuple 0x25A0 0x25FF ''Geometric Shapes'' '''',
     range_tuple 0x2700 0x27BF ''Dingbats'' '''',
     range_tuple 0x27C0 0x27EF ''Miscellaneous Mathematical Symbols-A'' '''',
     range_tuple 0x27F0 0x27FF ''Supplemental Arrows-A'' '''',
     range_tuple 0x2800 0x28FF ''Braille Patterns'' '''',
     range_tuple 0x2900 0x297F ''Supplemental Arrows-B'' '''',
     range_tuple 0x2980 0x29FF ''Miscellaneous Mathematical Symbols-B'' '''',
     range_tuple 0x2A00 0x2AFF ''Supplemental Mathematical Operators'' '''',
     range_tuple 0x2B00 0x2BFF ''Miscellaneous Symbols and Arrows'' '''',
     range_tuple 0x2E80 0x2EFF ''CJK Radicals Supplement'' '''',
     range_tuple 0x2F00 0x2FDF ''Kangxi Radicals'' '''',
     range_tuple 0x2FF0 0x2FFF ''Ideographic Description Characters'' '''',
     range_tuple 0x3000 0x303F ''CJK Symbols and Punctuation'' '''',
     range_tuple 0x3040 0x309F ''Hiragana'' '''',
     range_tuple 0x30A0 0x30FF ''Katakana'' '''',
     range_tuple 0x3100 0x312F ''Bopomofo'' '''',
     range_tuple 0x3130 0x318F ''Hangul Compatibility Jamo'' '''',
     range_tuple 0x3190 0x319F ''Kanbun'' '''',
     range_tuple 0x31A0 0x31BF ''Bopomofo Extended'' '''',
     range_tuple 0x31F0 0x31FF ''Katakana Phonetic Extensions'' '''',
     range_tuple 0x3200 0x32FF ''Enclosed CJK Letters and Months'' '''',
     range_tuple 0x3300 0x33FF ''CJK Compatibility'' '''',
     range_tuple 0x3400 0x4DBF ''CJK Unified Ideographs Extension A'' '''',
     range_tuple 0x4DC0 0x4DFF ''Yijing Hexagram Symbols'' '''',
     range_tuple 0x4E00 0x9FFF ''CJK Unified Ideographs'' '''',
     range_tuple 0xA000 0xA48F ''Yi Syllables'' '''',
     range_tuple 0xA490 0xA4CF ''Yi Radicals'' '''',
     range_tuple 0xAC00 0xD7AF ''Hangul Syllables'' '''',
     range_tuple 0xD800 0xDB7F ''High Surrogates'' '''',
     range_tuple 0xDB80 0xDBFF ''High Private Use Surrogates'' '''',
     range_tuple 0xDC00 0xDFFF ''Low Surrogates'' '''',
     range_tuple 0xE000 0xF8FF ''Private Use Area'' '''',
     range_tuple 0xF900 0xFAFF ''CJK Compatibility Ideographs'' '''',
     range_tuple 0xFB00 0xFB4F ''Alphabetic Presentation Forms'' '''',
     range_tuple 0xFB50 0xFDFF ''Arabic Presentation Forms-A'' '''',
     range_tuple 0xFE00 0xFE0F ''Variation Selectors'' '''',
     range_tuple 0xFE20 0xFE2F ''Combining Half Marks'' '''',
     range_tuple 0xFE30 0xFE4F ''CJK Compatibility Forms'' '''',
     range_tuple 0xFE50 0xFE6F ''Small Form Variants'' '''',
     range_tuple 0xFE70 0xFEFF ''Arabic Presentation Forms-B'' '''',
     range_tuple 0xFF00 0xFFEF ''Halfwidth and Fullwidth Forms'' '''',
     range_tuple 0xFFF0 0xFFFF ''Specials'' '''',
     range_tuple 0x10000 0x1007F ''Linear B Syllabary'' '''',
     range_tuple 0x10080 0x100FF ''Linear B Ideograms'' '''',
     range_tuple 0x10100 0x1013F ''Aegean Numbers'' '''',
     range_tuple 0x10300 0x1032F ''Old Italic'' '''',
     range_tuple 0x10330 0x1034F ''Gothic'' '''',
     range_tuple 0x10380 0x1039F ''Ugaritic'' '''',
     range_tuple 0x10400 0x1044F ''Deseret'' '''',
     range_tuple 0x10450 0x1047F ''Shavian'' '''',
     range_tuple 0x10480 0x104AF ''Osmanya'' '''',
     range_tuple 0x10800 0x1083F ''Cypriot Syllabary'' '''',
     range_tuple 0x1D000 0x1D0FF ''Byzantine Musical Symbols'' '''',
     range_tuple 0x1D100 0x1D1FF ''Musical Symbols'' '''',
     range_tuple 0x1D300 0x1D35F ''Tai Xuan Jing Symbols'' '''',
     range_tuple 0x1D400 0x1D7FF ''Mathematical Alphanumeric Symbols'' '''',
     range_tuple 0x20000 0x2A6DF ''CJK Unified Ideographs Extension B'' '''',
     range_tuple 0x2F800 0x2FA1F ''CJK Compatibility Ideographs Supplement'' '''',
     range_tuple 0xE0000 0xE007F ''Tags'' '''']"

text \<open>Only \<open>end\<close> of the second argument is read.\<close>

definition range_is_less :: "unicode_range_info \<Rightarrow> u32 \<Rightarrow> bool" where
  "range_is_less a x_end \<longleftrightarrow> range_end a \<le> x_end"

definition get_unicode_range_info :: "u32 \<Rightarrow> unicode_range_info option" where
  "get_unicode_range_info codepoint =
     (if codepoint < 0x110000
      then let first_not_lower = lower_bound range_is_less range_infos codepoint
           in if first_not_lower \<noteq> length range_infos
              then if range_begin (range_infos ! first_not_lower) \<le> codepoint
                   then Some (range_infos ! first_not_lower) else None
              else None
      else None)"

section \<open>The table\<close>

text \<open>The blocks are sorted and do not overlap, but for one block that the table has twice.\<close>

definition follows :: "unicode_range_info \<Rightarrow> unicode_range_info \<Rightarrow> bool" where
  "follows a b \<longleftrightarrow> range_end a \<le> range_begin b \<or> a = b"

fun chain :: "unicode_range_info list \<Rightarrow> bool" where
  "chain (a # b # xs) \<longleftrightarrow> range_begin a < range_end a \<and> follows a b \<and> chain (b # xs)"
| "chain [a] \<longleftrightarrow> range_begin a < range_end a"
| "chain [] \<longleftrightarrow> True"

lemma chain_range_infos: "chain range_infos"
  by code_simp

lemma chain_sorted: "chain xs \<Longrightarrow> sorted_wrt follows xs \<and> list_all (\<lambda>a. range_begin a < range_end a) xs"
proof (induction xs rule: chain.induct)
  case (1 a b xs)
  have "follows a c" if "c \<in> set xs" for c
  proof -
    have "follows b c" "range_begin b < range_end b" using 1 that by auto
    then show ?thesis using "1.prems" by (auto simp: follows_def)
  qed
  then show ?case using 1 by auto
qed auto

lemma range_infos_sorted:
  "i < j \<Longrightarrow> j < length range_infos \<Longrightarrow> follows (range_infos ! i) (range_infos ! j)"
  "i < length range_infos \<Longrightarrow> range_begin (range_infos ! i) < range_end (range_infos ! i)"
  using chain_sorted [OF chain_range_infos] by (auto simp: sorted_wrt_iff_nth_less list_all_length)

text \<open>C33: \<open>get_unicode_range_info\<close> returns a block exactly for the code points from the begin of a block up to, but
  not including, its end; it is the only entry of the table with that property.\<close>

theorem range_info_spec:
  "get_unicode_range_info cp = Some r \<longleftrightarrow> r \<in> set range_infos \<and> range_begin r \<le> cp \<and> cp < range_end r"
proof -
  let ?k = "lower_bound range_is_less range_infos cp"
  have part: "range_is_less (range_infos ! i) cp"
    if "i < j" "j < length range_infos" "range_is_less (range_infos ! j) cp" for i j
    using range_infos_sorted(1) [OF that(1,2)] range_infos_sorted(2) [OF that(2)] that(3)
    by (auto simp: follows_def range_is_less_def)
  have below: "range_is_less (range_infos ! i) cp" if "i < ?k" for i
    using lower_bound_below [of range_infos range_is_less cp i] part that by blast
  have above: "\<not> range_is_less (range_infos ! i) cp" if "?k \<le> i" "i < length range_infos" for i
    using lower_bound_above [of range_infos range_is_less cp i] part that by blast
  have le: "?k \<le> length range_infos" using lower_bound_le_length [of range_infos range_is_less cp] part by blast
  have small: "cp < 0x110000" if "r \<in> set range_infos" "cp < range_end r"
  proof -
    have "list_all (\<lambda>r. range_end r \<le> 0x110000) range_infos" by code_simp
    then have "range_end r \<le> 0x110000" using that(1) by (simp add: list_all_iff)
    then show ?thesis using that(2) by simp
  qed
  have hit: "range_infos ! ?k = r \<and> ?k < length range_infos"
    if r: "r \<in> set range_infos" "range_begin r \<le> cp" "cp < range_end r"
  proof -
    obtain i where i: "i < length range_infos" "range_infos ! i = r" using r(1) by (metis in_set_conv_nth)
    have "\<not> i < ?k" using below [of i] i(2) r(3) by (auto simp: range_is_less_def)
    then have k: "?k \<le> i" by simp
    have "cp < range_end (range_infos ! ?k)" using above [of ?k] k i(1) by (simp add: range_is_less_def not_le)
    then have "?k < i \<Longrightarrow> range_infos ! ?k = r"
      using range_infos_sorted(1) [OF _ i(1), of ?k] i(2) r(2) by (auto simp: follows_def)
    then show ?thesis using k i by (cases "?k = i") auto
  qed
  show ?thesis
  proof
    assume "get_unicode_range_info cp = Some r"
    then have "?k \<noteq> length range_infos" "range_infos ! ?k = r" "range_begin r \<le> cp"
      by (auto simp: get_unicode_range_info_def Let_def split: if_splits)
    then show "r \<in> set range_infos \<and> range_begin r \<le> cp \<and> cp < range_end r"
      using above [of ?k] le nth_mem [of ?k range_infos] by (auto simp: range_is_less_def not_le)
  next
    assume "r \<in> set range_infos \<and> range_begin r \<le> cp \<and> cp < range_end r"
    then show "get_unicode_range_info cp = Some r"
      using hit small by (auto simp: get_unicode_range_info_def Let_def)
  qed
qed

text \<open>The table gives the last code point of a block as its end, so that it is reported as in no block.\<close>

lemma last_of_block_missing:
  "get_unicode_range_info 0xFF = None" "get_unicode_range_info 0x17F = None"
  "get_unicode_range_info 0xFE \<noteq> None"
  by code_simp+

end
