(* ===== verification/Progress_Tracker.thy ===== *)
theory Progress_Tracker
  imports Prelude Ordered_Map Simulation
begin

text \<open>
  \<open>core/work/work_type.h\<close>, \<open>progress_tracker.h\<close> and \<open>progress_tracker.cpp\<close>: what work is expected and done, per type of
  work. Every operation holds the mutex or is one atomic access, so that the operations of several threads
  are a sequence. The arithmetic of \<open>double\<close> is a parameter.
\<close>

section \<open>Types of work\<close>

type_synonym work_type = u64

text \<open>The generic types of the enumeration, with their values and their number \<open>work_type::_count\<close>; other values are
  the constants of components.\<close>

datatype generic_work_type =
    wt_flops | wt_elapsed_secs | wt_read_bytes | wt_write_bytes | wt_read_items | wt_write_items |
  wt_travel_meters | wt_joules | wt_cycles | wt_half_lives | wt_create_items | wt_update_items |
  wt_delete_items | wt_print_pages | wt_install | wt_uninstall | wt_start_process | wt_run_command |
  wt_stop_process | wt_events | wt_steps | wt_layers | wt_reboots | wt_milestones

definition generic_work_types :: "generic_work_type list" where
  "generic_work_types =
     [wt_flops, wt_elapsed_secs, wt_read_bytes, wt_write_bytes, wt_read_items, wt_write_items,
     wt_travel_meters, wt_joules, wt_cycles, wt_half_lives, wt_create_items, wt_update_items,
     wt_delete_items, wt_print_pages, wt_install, wt_uninstall, wt_start_process, wt_run_command,
     wt_stop_process, wt_events, wt_steps, wt_layers, wt_reboots, wt_milestones]"

definition generic_value :: "generic_work_type \<Rightarrow> work_type" where
  "generic_value g = of_nat (length (takeWhile (\<lambda>h. h \<noteq> g) generic_work_types))"

definition work_type_count :: u64 where
  "work_type_count = of_nat (length generic_work_types)"

definition custom_work_type :: "u32 \<Rightarrow> u16 \<Rightarrow> work_type" where
  "custom_work_type component_id private_id =
     push_bit 32 (ucast component_id) OR push_bit 16 (ucast private_id) OR push_bit 15 1"

lemma custom_work_type_parts:
  "ucast (drop_bit 32 (custom_work_type c p)) = c" "ucast (drop_bit 16 (custom_work_type c p)) = p"
proof -
  show "ucast (drop_bit 32 (custom_work_type c p)) = c"
    by (rule bit_word_eqI) (auto simp: custom_work_type_def bit_simps dest: bit_imp_le_length)
  show "ucast (drop_bit 16 (custom_work_type c p)) = p"
    by (rule bit_word_eqI) (auto simp: custom_work_type_def bit_simps)
qed

lemma generic_value_below: "generic_value g < work_type_count"
  by (cases g) (simp_all add: generic_value_def work_type_count_def generic_work_types_def)

text \<open>Different components and different private numbers give different types, and none is a generic one.\<close>

lemma custom_work_type_unique:
  "custom_work_type c p = custom_work_type c' p' \<longleftrightarrow> c = c' \<and> p = p'"
  by (metis custom_work_type_parts)

lemma custom_work_type_not_generic: "custom_work_type c p \<noteq> generic_value g"
proof
  assume "custom_work_type c p = generic_value g"
  then have "custom_work_type c p < 24"
    using generic_value_below [of g] by (simp add: work_type_count_def generic_work_types_def)
  then have "drop_bit 15 (custom_work_type c p) = 0"
    by (simp add: word_less_nat_alt drop_bit_eq_div word_unat_eq_iff unat_div_distrib)
  moreover have "bit (drop_bit 15 (custom_work_type c p)) 0" by (simp add: custom_work_type_def bit_simps)
  ultimately show False by simp
qed

section \<open>The tracker\<close>

record 'd amount_ops =
  a_zero :: 'd
  a_add :: "'d \<Rightarrow> 'd \<Rightarrow> 'd"
  a_sub :: "'d \<Rightarrow> 'd \<Rightarrow> 'd"
  a_less :: "'d \<Rightarrow> 'd \<Rightarrow> bool"
  a_le :: "'d \<Rightarrow> 'd \<Rightarrow> bool"

type_synonym 'd work_map = "(work_type \<times> 'd) list"

record 'd progress_tracker =
  descrip :: "byte list"
  expected_work_map :: "'d work_map"
  done_work_map :: "'d work_map"
  stop_flag :: bool

definition tracker_new :: "byte list \<Rightarrow> 'd progress_tracker" where
  "tracker_new description =
     \<lparr> descrip = description, expected_work_map = [], done_work_map = [], stop_flag = False \<rparr>"

definition should_stop :: "'d progress_tracker \<Rightarrow> bool" where
  "should_stop t = stop_flag t"

definition request_stop :: "'d progress_tracker \<Rightarrow> 'd progress_tracker" where
  "request_stop t = t\<lparr> stop_flag := True \<rparr>"

text \<open>\<open>if (m.count(wt) == 0) m[wt] = amount; else m[wt] += amount;\<close>\<close>

definition add_amount :: "'d amount_ops \<Rightarrow> work_type \<Rightarrow> 'd \<Rightarrow> 'd work_map \<Rightarrow> 'd work_map" where
  "add_amount fp wt amount m =
     (case om_find (<) m wt of
        None \<Rightarrow> om_assign (<) wt amount m
      | Some old \<Rightarrow> om_assign (<) wt (a_add fp old amount) m)"

definition expect_work :: "'d amount_ops \<Rightarrow> work_type \<Rightarrow> 'd \<Rightarrow> 'd progress_tracker \<Rightarrow> 'd progress_tracker" where
  "expect_work fp wt amount t =
     (if a_less fp (a_zero fp) amount
      then t\<lparr> expected_work_map := add_amount fp wt amount (expected_work_map t) \<rparr> else t)"

definition complete_work :: "'d amount_ops \<Rightarrow> work_type \<Rightarrow> 'd \<Rightarrow> 'd progress_tracker \<Rightarrow> 'd progress_tracker" where
  "complete_work fp wt amount t =
     (if a_less fp (a_zero fp) amount
      then t\<lparr> done_work_map := add_amount fp wt amount (done_work_map t) \<rparr> else t)"

definition skip_work :: "'d amount_ops \<Rightarrow> work_type \<Rightarrow> 'd \<Rightarrow> 'd progress_tracker \<Rightarrow> 'd progress_tracker" where
  "skip_work fp wt amount t =
     (if a_less fp (a_zero fp) amount
      then (case om_find (<) (expected_work_map t) wt of
              None \<Rightarrow> t
            | Some old \<Rightarrow>
                (let new_amount = a_sub fp old amount
                 in if a_le fp new_amount (a_zero fp)
                    then t\<lparr> expected_work_map := om_erase (<) wt (expected_work_map t) \<rparr>
                    else t\<lparr> expected_work_map := om_assign (<) wt new_amount (expected_work_map t) \<rparr>))
      else t)"

datatype 'd tracker_op = Expect work_type 'd | Complete work_type 'd | Skip work_type 'd | Stop

fun tracker_step :: "'d amount_ops \<Rightarrow> 'd progress_tracker \<Rightarrow> 'd tracker_op \<Rightarrow> 'd progress_tracker" where
  "tracker_step fp t (Expect wt a) = expect_work fp wt a t"
| "tracker_step fp t (Complete wt a) = complete_work fp wt a t"
| "tracker_step fp t (Skip wt a) = skip_work fp wt a t"
| "tracker_step fp t Stop = request_stop t"

section \<open>The ledger\<close>

text \<open>What the tracker promises: one account of expected and one of completed work per type. A report of no
  work or less counts for nothing, and an account that is skipped down to nothing is closed.\<close>

record 'd ledger =
  l_expected :: "work_type \<Rightarrow> 'd option"
  l_done :: "work_type \<Rightarrow> 'd option"
  l_stop :: bool

definition ledger_new :: "'d ledger" where
  "ledger_new = \<lparr> l_expected = (\<lambda>wt. None), l_done = (\<lambda>wt. None), l_stop = False \<rparr>"

definition credit :: "'d amount_ops \<Rightarrow> 'd \<Rightarrow> 'd option \<Rightarrow> 'd option" where
  "credit fp a x =
     (if a_less fp (a_zero fp) a then Some (case x of None \<Rightarrow> a | Some y \<Rightarrow> a_add fp y a) else x)"

definition debit :: "'d amount_ops \<Rightarrow> 'd \<Rightarrow> 'd option \<Rightarrow> 'd option" where
  "debit fp a x =
     (if a_less fp (a_zero fp) a
      then Option.bind x (\<lambda>y. if a_le fp (a_sub fp y a) (a_zero fp) then None else Some (a_sub fp y a))
      else x)"

fun ledger_step :: "'d amount_ops \<Rightarrow> 'd ledger \<Rightarrow> 'd tracker_op \<Rightarrow> 'd ledger" where
  "ledger_step fp l (Expect wt a) = l\<lparr> l_expected := (l_expected l)(wt := credit fp a (l_expected l wt)) \<rparr>"
| "ledger_step fp l (Complete wt a) = l\<lparr> l_done := (l_done l)(wt := credit fp a (l_done l wt)) \<rparr>"
| "ledger_step fp l (Skip wt a) = l\<lparr> l_expected := (l_expected l)(wt := debit fp a (l_expected l wt)) \<rparr>"
| "ledger_step fp l Stop = l\<lparr> l_stop := True \<rparr>"

definition work_map_ok :: "'d work_map \<Rightarrow> bool" where
  "work_map_ok m \<longleftrightarrow> om_ok (<) (\<lambda>k. True) m"

definition keeps_ledger :: "'d progress_tracker \<Rightarrow> 'd ledger \<Rightarrow> bool" where
  "keeps_ledger t l \<longleftrightarrow>
     work_map_ok (expected_work_map t) \<and> work_map_ok (done_work_map t) \<and>
     l_expected l = om_find (<) (expected_work_map t) \<and> l_done l = om_find (<) (done_work_map t) \<and>
     l_stop l = stop_flag t"

lemma equal_keys: "om_equiv (<) a b \<longleftrightarrow> a = b" for a b :: "'k::linorder"
  by (auto simp: om_equiv_def)

lemma work_map_assign:
  "work_map_ok m \<Longrightarrow> work_map_ok (om_assign (<) wt a m)"
  "work_map_ok m \<Longrightarrow> om_find (<) (om_assign (<) wt a m) = (om_find (<) m)(wt := Some a)"
  by (auto simp: work_map_ok_def om_linorder.assign_ok om_linorder.find_assign equal_keys)

lemma work_map_erase:
  "work_map_ok m \<Longrightarrow> work_map_ok (om_erase (<) wt m)"
  "work_map_ok m \<Longrightarrow> om_find (<) (om_erase (<) wt m) = (om_find (<) m)(wt := None)"
  by (auto simp: work_map_ok_def om_linorder.erase_ok om_linorder.find_erase equal_keys)

lemma add_amount_credit:
  assumes "work_map_ok m" "a_less fp (a_zero fp) a"
  shows "work_map_ok (add_amount fp wt a m)"
    and "om_find (<) (add_amount fp wt a m) = (om_find (<) m)(wt := credit fp a (om_find (<) m wt))"
  using assms work_map_assign by (auto simp: add_amount_def credit_def split: option.split)

lemma tracker_keeps_ledger: "keeps_ledger t l \<Longrightarrow> keeps_ledger (tracker_step fp t op) (ledger_step fp l op)"
proof (induction fp t op rule: tracker_step.induct)
  case (3 fp t wt a)
  then show ?case
    by (auto simp: keeps_ledger_def skip_work_def debit_def work_map_assign work_map_erase Let_def split: option.split)
qed (auto simp: keeps_ledger_def expect_work_def complete_work_def request_stop_def add_amount_credit credit_def)

interpretation tracking: simulation "tracker_step fp" "ledger_step fp" keeps_ledger for fp :: "'d amount_ops"
  by unfold_locales (rule tracker_keeps_ledger)

text \<open>C32: After any sequence of operations the tracker agrees with the ledger: every type of work has its own account,
  which the operations on other types, and reports of amounts that are not positive, do not change.\<close>

theorem tracker_refines_ledger:
  "om_find (<) (expected_work_map (foldl (tracker_step fp) (tracker_new d) ops)) = l_expected (foldl (ledger_step fp) ledger_new ops) \<and>
   om_find (<) (done_work_map (foldl (tracker_step fp) (tracker_new d) ops)) = l_done (foldl (ledger_step fp) ledger_new ops) \<and>
   should_stop (foldl (tracker_step fp) (tracker_new d) ops) = l_stop (foldl (ledger_step fp) ledger_new ops)"
proof -
  have "keeps_ledger (foldl (tracker_step fp) (tracker_new d) ops) (foldl (ledger_step fp) ledger_new ops)"
    by (rule tracking.steps) (simp add: keeps_ledger_def tracker_new_def ledger_new_def work_map_ok_def om_ok_def fun_eq_iff)
  then show ?thesis by (simp add: keeps_ledger_def should_stop_def)
qed

end
