(* ===== verification/Util.thy ===== *)
theory Util
  imports Prelude Base_X
begin

text \<open>
  Small value types: \<open>core/util/range.h\<close> with \<open>range-inline.h\<close> and \<open>comparison_operators.h\<close>, at 32-bit indexes;
  \<open>core/util/monotonic_id.h\<close>; the messages of \<open>core/util/dbc.cpp\<close>; and \<open>core/text/numeric_formats.h\<close> with
  \<open>numeric_formats.cpp\<close>.
\<close>

section \<open>Ranges\<close>

datatype idx_range = Range (rng_begin: u32) (rng_end: u32)

definition range_default :: idx_range where
  "range_default = Range 0 0"

definition range_bool :: "idx_range \<Rightarrow> bool" where
  "range_bool r \<longleftrightarrow> rng_begin r < rng_end r"

definition range_equal :: "idx_range \<Rightarrow> idx_range \<Rightarrow> bool" where
  "range_equal a b \<longleftrightarrow> rng_begin a = rng_begin b \<and> rng_end a = rng_end b"

definition range_less :: "idx_range \<Rightarrow> idx_range \<Rightarrow> bool" where
  "range_less a b \<longleftrightarrow>
     (if rng_begin a < rng_begin b then True
      else if rng_begin b < rng_begin a then False
      else rng_end a < rng_end b)"

definition range_length :: "idx_range \<Rightarrow> u64" where
  "range_length r = (if rng_begin r < rng_end r then ucast (rng_end r - rng_begin r) else 0)"

text \<open>The operators that \<open>generate_remaining_comparison_operators\<close> derives.\<close>

definition range_greater :: "idx_range \<Rightarrow> idx_range \<Rightarrow> bool" where
  "range_greater a b = range_less b a"

definition range_less_equal :: "idx_range \<Rightarrow> idx_range \<Rightarrow> bool" where
  "range_less_equal a b \<longleftrightarrow> \<not> range_greater a b"

definition range_greater_equal :: "idx_range \<Rightarrow> idx_range \<Rightarrow> bool" where
  "range_greater_equal a b \<longleftrightarrow> \<not> range_less a b"

text \<open>The operators make ranges a linear order: by begin, then by end.\<close>

instantiation idx_range :: linorder
begin

definition less_idx_range :: "idx_range \<Rightarrow> idx_range \<Rightarrow> bool" where
  "less_idx_range = range_less"

definition less_eq_idx_range :: "idx_range \<Rightarrow> idx_range \<Rightarrow> bool" where
  "less_eq_idx_range = range_less_equal"

instance
  by standard (auto simp: less_idx_range_def less_eq_idx_range_def range_less_equal_def range_greater_def range_less_def
      idx_range.expand split: if_splits)

end

lemma range_equal_iff: "range_equal a b \<longleftrightarrow> a = b"
  by (auto simp: range_equal_def idx_range.expand)

lemma range_operators:
  "range_less a b \<longleftrightarrow> a < b" "range_less_equal a b \<longleftrightarrow> a \<le> b" "range_greater a b \<longleftrightarrow> b < a" "range_greater_equal a b \<longleftrightarrow> b \<le> a"
  by (simp_all add: less_idx_range_def [symmetric] less_eq_idx_range_def [symmetric] range_greater_def
      range_greater_equal_def not_less)

lemma range_length_bool: "range_length r = 0 \<longleftrightarrow> \<not> range_bool r"
proof (cases "rng_begin r < rng_end r")
  case True
  then have "unat (rng_end r - rng_begin r) \<noteq> 0" by (auto simp: unat_eq_0)
  then show ?thesis using True unat_upcast [of "rng_end r - rng_begin r"]
    by (auto simp: range_length_def range_bool_def simp flip: unat_eq_0)
qed (simp add: range_length_def range_bool_def)

section \<open>Ids\<close>

text \<open>\<open>next\<close> is one atomic \<open>fetch_add\<close>, so that the calls of several threads are a sequence.\<close>

record monotonic_id =
  mid_value :: u32
  mid_increment :: u32

definition monotonic_id_new :: "u32 \<Rightarrow> u32 \<Rightarrow> monotonic_id" where
  "monotonic_id_new start incr = \<lparr> mid_value = start, mid_increment = incr \<rparr>"

definition next_id :: "monotonic_id \<Rightarrow> u32 \<times> monotonic_id" where
  "next_id s = (mid_value s, s\<lparr> mid_value := mid_value s + mid_increment s \<rparr>)"

definition set_next :: "u32 \<Rightarrow> monotonic_id \<Rightarrow> monotonic_id" where
  "set_next n s = s\<lparr> mid_value := n \<rparr>"

fun take_ids :: "nat \<Rightarrow> monotonic_id \<Rightarrow> u32 list" where
  "take_ids 0 s = []"
| "take_ids (Suc k) s = (case next_id s of (i, s') \<Rightarrow> i # take_ids k s')"

lemma take_ids_nth: "i < k \<Longrightarrow> take_ids k s ! i = mid_value s + of_nat i * mid_increment s"
proof (induction k arbitrary: i s)
  case (Suc k)
  then show ?case by (cases i) (auto simp: next_id_def algebra_simps)
qed simp

lemma length_take_ids [simp]: "length (take_ids k s) = k"
  by (induction k arbitrary: s) (auto simp: next_id_def)

lemma odd_multiple_zero:
  assumes "of_nat i * w = (0 :: u32)" "odd (unat w)" "i < 2 ^ 32"
  shows "i = 0"
proof -
  have "of_nat (i * unat w) = (0 :: u32)" using assms(1) by simp
  then have "2 ^ 32 dvd i * unat w" by (simp only: word_of_nat_eq_0_iff) simp
  moreover have "coprime (2 ^ 32) (unat w)"
    using assms(2) by (simp only: coprime_power_left_iff coprime_left_2_iff_odd simp_thms)
  ultimately have "2 ^ 32 dvd i" by (simp add: coprime_dvd_mult_left_iff)
  then show ?thesis using assms(3) by (metis dvd_imp_le less_le_not_le neq0_conv)
qed

text \<open>With an odd increment, such as the default, no id is given out twice before all have been.\<close>

lemma ids_distinct:
  assumes "odd (unat (mid_increment s))" "k \<le> 2 ^ 32"
  shows "distinct (take_ids k s)"
proof -
  have "False" if "i < j" "j < k" "take_ids k s ! i = take_ids k s ! j" for i j
  proof -
    have "of_nat j * mid_increment s = of_nat i * mid_increment s" using that by (simp add: take_ids_nth)
    then have "of_nat (j - i) * mid_increment s = 0" using that(1) by (simp add: of_nat_diff algebra_simps)
    then show False using odd_multiple_zero [OF _ assms(1)] that assms(2) by fastforce
  qed
  then show ?thesis by (auto simp: distinct_conv_nth) (metis linorder_neqE_nat)
qed

section \<open>Messages of contract violations\<close>

definition get_contract_type_name :: "contract_type \<Rightarrow> string" where
  "get_contract_type_name ctype =
     (if ctype = ct_pre then ''precondition'' else if ctype = ct_post then ''postcondition'' else ''check'')"

text \<open>\<open>strrchr\<close>, and what a stream writes for an \<open>int\<close>.\<close>

fun strrchr :: "char \<Rightarrow> string \<Rightarrow> nat option" where
  "strrchr c [] = None"
| "strrchr c (x # xs) = (case strrchr c xs of Some i \<Rightarrow> Some (Suc i) | None \<Rightarrow> if x = c then Some 0 else None)"

definition show_int :: "int \<Rightarrow> string" where
  "show_int n = (if n < 0 then ''-'' else []) @ map (\<lambda>d. char_of (48 + d)) (digits_of 10 (nat \<bar>n\<bar>))"

definition later_pointer :: "nat option \<Rightarrow> nat option \<Rightarrow> nat option" where
  "later_pointer p q = (case q of None \<Rightarrow> p | Some j \<Rightarrow> (case p of None \<Rightarrow> q | Some i \<Rightarrow> if i < j then q else p))"

definition make_exception_msg :: "contract_type \<Rightarrow> string \<Rightarrow> string \<Rightarrow> int \<Rightarrow> string \<Rightarrow> string" where
  "make_exception_msg ctype expr file line func =
     (let p = later_pointer (strrchr (CHR ''/'') file) (strrchr (CHR 0x5C) file);
          file = (case p of None \<Rightarrow> file | Some i \<Rightarrow> drop (Suc i) file)
      in ''Failed '' @ get_contract_type_name ctype @ '' at '' @ file @ '', line '' @ show_int line @ '', function '' @ func @
         ''(). Expected '' @ [CHR 0x22] @ expr @ [CHR 0x22] @ '' to be true.'')"

lemma strrchr_None: "strrchr c xs = None \<longleftrightarrow> c \<notin> set xs"
  by (induction xs) (auto split: option.splits)

lemma strrchr_Some: "strrchr c xs = Some i \<Longrightarrow> i < length xs \<and> xs ! i = c \<and> c \<notin> set (drop (Suc i) xs)"
  by (induction xs arbitrary: i) (auto split: option.splits if_splits simp: strrchr_None)

lemma later_pointer_Some:
  "later_pointer p q = Some i \<Longrightarrow> (p = None \<or> (\<exists>j \<le> i. p = Some j)) \<and> (q = None \<or> (\<exists>j \<le> i. q = Some j))"
  by (cases p; cases q) (auto simp: later_pointer_def split: if_splits)

text \<open>The file is reported without its directory, whichever of the two separators it uses.\<close>

lemma message_has_no_directory:
  assumes "later_pointer (strrchr (CHR ''/'') file) (strrchr (CHR 0x5C) file) = Some i"
  shows "CHR ''/'' \<notin> set (drop (Suc i) file) \<and> CHR 0x5C \<notin> set (drop (Suc i) file)"
proof -
  have gone: "c \<notin> set (drop (Suc i) file)" if "strrchr c file = None \<or> (\<exists>j \<le> i. strrchr c file = Some j)" for c
    using that
  proof
    assume "strrchr c file = None"
    then show ?thesis by (metis in_set_dropD strrchr_None)
  next
    assume "\<exists>j \<le> i. strrchr c file = Some j"
    then obtain j where "j \<le> i" "c \<notin> set (drop (Suc j) file)" using strrchr_Some by blast
    then show ?thesis by (metis Suc_le_mono in_mono set_drop_subset_set_drop)
  qed
  then show ?thesis using later_pointer_Some [OF assms] by blast
qed

section \<open>Names of numeric formats\<close>

text \<open>The loop over the bits; \<open>n\<close> counts the names that have been written.\<close>

definition numeric_format_name :: "u32 \<Rightarrow> string" where
  "numeric_format_name bit1 =
     (if bit1 = 1 then ''decimal'' else if bit1 = 2 then ''octal'' else if bit1 = 4 then ''hex''
      else if bit1 = 8 then ''binary'' else if bit1 = 16 then ''float'' else [])"

definition format_step :: "u32 \<Rightarrow> string \<Rightarrow> u32 \<Rightarrow> string \<times> u32 \<Rightarrow> string \<times> u32" where
  "format_step f delim1 i s =
     (case s of (ss, n) \<Rightarrow>
        if f AND i \<noteq> 0 then (ss @ (if n \<noteq> 0 then delim1 else []) @ numeric_format_name (f AND i), n + 1) else (ss, n))"

fun format_loop :: "nat \<Rightarrow> u32 \<Rightarrow> string \<Rightarrow> u32 \<Rightarrow> string \<times> u32 \<Rightarrow> string option" where
  "format_loop 0 f delim1 i s = None"
| "format_loop (Suc fuel) f delim1 i s =
     (if i < 31 then format_loop fuel f delim1 (push_bit 1 i) (format_step f delim1 i s) else Some (fst s))"

definition get_names_for_numeric_formats :: "u32 \<Rightarrow> string \<Rightarrow> string option" where
  "get_names_for_numeric_formats f delim1 = format_loop 6 f delim1 1 ([], 0)"

text \<open>The loop ends within its fuel after the five formats.\<close>

lemma format_names_result:
  "get_names_for_numeric_formats f delim1 =
     Some (fst (fold (format_step f delim1) [1, 2, 4, 8, 16] ([], 0)))"
proof -
  have six: "(6 :: nat) = Suc (Suc (Suc (Suc (Suc (Suc 0)))))" by simp
  show ?thesis unfolding get_names_for_numeric_formats_def six by (simp add: push_bit_eq_mult)
qed

end
