(* ===== verification/Ast_Node.thy ===== *)
theory Ast_Node
  imports Token_Type
begin

text \<open>
  \<open>lang/ast/node.h\<close>, \<open>node-inline.h\<close>, \<open>node.cpp\<close> and \<open>node_type.h\<close>: the nodes of the syntax tree, on a heap. A node has
  a pointer to its parent and an array of pointers to its children, of which the first \<open>child_count\<close> are
  in use; the others are indeterminate (\<^term>\<open>None\<close>). An operation that reads a node that is not on the heap,
  or an entry outside an array, has the result \<^term>\<open>None\<close>.
\<close>

section \<open>Data\<close>

record node =
  parent :: "nat option"
  children :: "nat option list"
  child_count :: u32
  allocated_child_count :: u32

type_synonym nodes = "nat \<Rightarrow> node option"

datatype alloc_error = bad_alloc

definition in_any_generation :: u32 where
  "in_any_generation = 0xFFFFFFFF"

definition non_token_mask :: u32 where
  "non_token_mask = 0x10000"

definition node_type_is_token :: "u32 \<Rightarrow> bool" where
  "node_type_is_token n \<longleftrightarrow> n OR non_token_mask = 0"

section \<open>Operations\<close>

definition node_new :: "nat option \<Rightarrow> node" where
  "node_new p = \<lparr> parent = p, children = [], child_count = 0, allocated_child_count = 0 \<rparr>"

definition get_parent :: "nodes \<Rightarrow> nat \<Rightarrow> nat option option" where
  "get_parent hp a = map_option parent (hp a)"

partial_function (option) get_root :: "nodes \<Rightarrow> nat \<Rightarrow> nat option" where
  "get_root hp p = hp p \<bind> (\<lambda>n. case parent n of None \<Rightarrow> Some p | Some q \<Rightarrow> get_root hp q)"

definition get_child_count :: "nodes \<Rightarrow> nat \<Rightarrow> u32 option" where
  "get_child_count hp a = map_option child_count (hp a)"

text \<open>The inner \<^term>\<open>None\<close> is the null pointer.\<close>

definition get_child :: "nodes \<Rightarrow> nat \<Rightarrow> u32 \<Rightarrow> nat option option" where
  "get_child hp a i = do {
     n \<leftarrow> hp a;
     (if i < child_count n
      then (if unat i < length (children n) then map_option Some (children n ! unat i) else None)
      else Some None)
   }"

text \<open>\<open>realloc\<close> keeps the entries that fit; it may fail, which is the argument \<open>alloc_ok\<close>.\<close>

definition realloc_children :: "nat option list \<Rightarrow> nat \<Rightarrow> nat option list" where
  "realloc_children xs n = take n xs @ replicate (n - length xs) None"

definition add_child :: "bool \<Rightarrow> nodes \<Rightarrow> nat \<Rightarrow> nat option \<Rightarrow> (alloc_error + nodes) option" where
  "add_child alloc_ok hp a child =
     (case child of
        None \<Rightarrow> Some (Inr hp)
      | Some c \<Rightarrow> do {
          n \<leftarrow> hp a;
          let full = (child_count n = allocated_child_count n);
          let new_count = (if allocated_child_count n \<noteq> 0 then allocated_child_count n * 2 else 4);
          (if full \<and> \<not> alloc_ok then Some (Inl bad_alloc)
           else do {
             let n = (if full
                      then n\<lparr> children := realloc_children (children n) (unat new_count), allocated_child_count := new_count \<rparr>
                      else n);
             let k = unat (child_count n);
             (if k < length (children n)
              then do {
                let hp = hp(a \<mapsto> n\<lparr> children := (children n)[k := Some c], child_count := child_count n + 1 \<rparr>);
                ch \<leftarrow> hp c;
                Some (Inr (hp(c \<mapsto> ch\<lparr> parent := Some a \<rparr>)))
              }
              else None)
           })
        })"

text \<open>The loop of \<open>has_ancestor\<close>; \<open>which\<close> is not null when it is entered.\<close>

function ancestor_loop :: "nodes \<Rightarrow> nat \<Rightarrow> nat \<Rightarrow> u32 \<Rightarrow> u32 \<Rightarrow> u32 option" where
  "ancestor_loop hp candidate which i n =
     (if i < n
      then do {
        w \<leftarrow> hp which;
        (case parent w of
           None \<Rightarrow> Some 0
         | Some q \<Rightarrow> if q = candidate then Some i else ancestor_loop hp candidate q (i + 1) n)
      }
      else Some 0)"
  by pat_completeness auto
termination
proof (relation "measure (\<lambda>(hp, c, w, i, n). unat n - unat i)", goal_cases)
  case (2 hp candidate which i n w q)
  then have "unat i < unat n" by (simp add: word_less_nat_alt)
  moreover from this have "unat (i + 1) = Suc (unat i)"
    using unsigned_less [of n, where ?'a = nat] by (simp add: unat_word_ariths)
  ultimately show ?case by simp
qed simp

declare ancestor_loop.simps [simp del]

definition has_ancestor :: "nodes \<Rightarrow> nat \<Rightarrow> nat option \<Rightarrow> u32 \<Rightarrow> u32 option" where
  "has_ancestor hp this candidate within_n_generations =
     (case candidate of
        None \<Rightarrow> Some 0
      | Some c \<Rightarrow> if c \<noteq> this then ancestor_loop hp c this 1 within_n_generations else Some 0)"

definition has_descendant :: "nodes \<Rightarrow> nat \<Rightarrow> nat option \<Rightarrow> u32 \<Rightarrow> u32 option" where
  "has_descendant hp this candidate within_n_generations =
     (case candidate of None \<Rightarrow> Some 0 | Some c \<Rightarrow> has_ancestor hp c (Some this) in_any_generation)"

declare get_root.simps [code]

section \<open>Trees\<close>

text \<open>Every parent and every child of a node is on the heap, the children of a node have it as their
  parent, and the entries in use are allocated.\<close>

definition used_children :: "node \<Rightarrow> nat list" where
  "used_children n = map the (take (unat (child_count n)) (children n))"

definition node_ok :: "nodes \<Rightarrow> nat \<Rightarrow> node \<Rightarrow> bool" where
  "node_ok hp a n \<longleftrightarrow>
     length (children n) = unat (allocated_child_count n) \<and> child_count n \<le> allocated_child_count n \<and>
     list_all (\<lambda>c. c \<noteq> None) (take (unat (child_count n)) (children n)) \<and>
     (\<forall>c \<in> set (used_children n). \<exists>ch. hp c = Some ch \<and> parent ch = Some a) \<and>
     (\<forall>p. parent n = Some p \<longrightarrow> hp p \<noteq> None)"

definition tree_ok :: "nodes \<Rightarrow> bool" where
  "tree_ok hp \<longleftrightarrow> (\<forall>a n. hp a = Some n \<longrightarrow> node_ok hp a n)"

text \<open>The ancestor \<open>k\<close> generations above a node.\<close>

fun nth_ancestor :: "nodes \<Rightarrow> nat \<Rightarrow> nat \<Rightarrow> nat option" where
  "nth_ancestor hp 0 a = Some a"
| "nth_ancestor hp (Suc k) a = (case hp a of None \<Rightarrow> None | Some n \<Rightarrow> parent n \<bind> nth_ancestor hp k)"

lemma tree_ok_parent: "tree_ok hp \<Longrightarrow> hp a = Some n \<Longrightarrow> parent n = Some p \<Longrightarrow> hp p \<noteq> None"
  unfolding tree_ok_def node_ok_def by blast

lemma unat_Suc: "(i :: u32) < n \<Longrightarrow> unat (i + 1) = Suc (unat i)"
  using unsigned_less [of n, where ?'a = nat] by (simp add: unat_word_ariths word_less_nat_alt)

text \<open>The loop finds the least generation at which the candidate stands.\<close>

lemma ancestor_loop_result:
  assumes "tree_ok hp" and "hp w \<noteq> None"
  shows "\<exists>r. ancestor_loop hp c w i n = Some r \<and>
    (if r = 0 then i = 0 \<or> (\<forall>k. 0 < k \<longrightarrow> unat i + k \<le> unat n \<longrightarrow> nth_ancestor hp k w \<noteq> Some c)
     else \<exists>k. 0 < k \<and> unat r + 1 = unat i + k \<and> unat r < unat n \<and> nth_ancestor hp k w = Some c \<and>
       (\<forall>j. 0 < j \<longrightarrow> j < k \<longrightarrow> nth_ancestor hp j w \<noteq> Some c))"
  using assms(2)
proof (induction "unat n - unat i" arbitrary: w i)
  case 0
  then have "\<not> i < n" by (simp add: word_less_nat_alt)
  then show ?case using 0 by (subst ancestor_loop.simps) auto
next
  case (Suc d)
  then have lt: "i < n" by (simp add: word_less_nat_alt)
  from Suc.prems obtain m where m: "hp w = Some m" by blast
  show ?case
  proof (cases "parent m")
    case None
    then have "nth_ancestor hp k w = None" if "0 < k" for k using that by (cases k) (simp_all add: m)
    with None lt m show ?thesis by (subst ancestor_loop.simps) auto
  next
    case (Some q)
    then have step: "nth_ancestor hp (Suc j) w = nth_ancestor hp j q" for j by (simp add: m)
    show ?thesis
    proof (cases "q = c")
      case True
      have "ancestor_loop hp c w i n = Some i" using lt m Some True by (subst ancestor_loop.simps) simp
      moreover have "nth_ancestor hp 1 w = Some c" using step [of 0] True by simp
      ultimately show ?thesis using lt by (auto simp: word_less_nat_alt intro!: exI [of _ 1])
    next
      case False
      have "ancestor_loop hp c w i n = ancestor_loop hp c q (i + 1) n"
        using lt m Some False by (subst ancestor_loop.simps) simp
      moreover have "d = unat n - unat (i + 1)" "hp q \<noteq> None"
        using Suc.hyps(2) unat_Suc [OF lt] tree_ok_parent [OF assms(1) m Some] by simp_all
      from Suc.hyps(1) [OF this] obtain r where r: "ancestor_loop hp c q (i + 1) n = Some r"
        "if r = 0 then i + 1 = 0 \<or> (\<forall>k. 0 < k \<longrightarrow> unat (i + 1) + k \<le> unat n \<longrightarrow> nth_ancestor hp k q \<noteq> Some c)
         else \<exists>k. 0 < k \<and> unat r + 1 = unat (i + 1) + k \<and> unat r < unat n \<and> nth_ancestor hp k q = Some c \<and>
           (\<forall>j. 0 < j \<longrightarrow> j < k \<longrightarrow> nth_ancestor hp j q \<noteq> Some c)" by blast
      have nz: "i + 1 \<noteq> 0" using unat_Suc [OF lt] by (metis nat.distinct(1) unat_0)
      have shift: "0 < k \<Longrightarrow> nth_ancestor hp k w = nth_ancestor hp (k - 1) q" for k using step [of "k - 1"] by simp
      have first: "nth_ancestor hp 0 q \<noteq> Some c" using False by simp
      show ?thesis
      proof (cases "r = 0")
        case True
        have "nth_ancestor hp k w \<noteq> Some c" if "0 < k" "unat i + k \<le> unat n" for k
          using r(2) True nz that shift [OF that(1)] first unat_Suc [OF lt] by (cases "k = 1") auto
        with r(1) True \<open>ancestor_loop hp c w i n = _\<close> show ?thesis by auto
      next
        case False
        with r(2) obtain k where k: "0 < k" "unat r + 1 = unat (i + 1) + k" "unat r < unat n" "nth_ancestor hp k q = Some c"
          "\<forall>j. 0 < j \<longrightarrow> j < k \<longrightarrow> nth_ancestor hp j q \<noteq> Some c" by auto
        have "\<forall>j. 0 < j \<longrightarrow> j < Suc k \<longrightarrow> nth_ancestor hp j w \<noteq> Some c"
          using k(5) shift first by (metis Suc_diff_1 Suc_less_eq neq0_conv)
        with False k r(1) \<open>ancestor_loop hp c w i n = _\<close> step [of k] unat_Suc [OF lt] show ?thesis
          by (intro exI [of _ r]) (auto intro!: exI [of _ "Suc k"])
      qed
    qed
  qed
qed

section \<open>Adding a child\<close>

text \<open>The node with room for one more child.\<close>

definition grown :: "node \<Rightarrow> node" where
  "grown n =
     (if child_count n = allocated_child_count n
      then let new_count = (if allocated_child_count n \<noteq> 0 then allocated_child_count n * 2 else 4)
           in n\<lparr> children := realloc_children (children n) (unat new_count), allocated_child_count := new_count \<rparr>
      else n)"

definition with_child :: "node \<Rightarrow> nat \<Rightarrow> node" where
  "with_child n c = (grown n)\<lparr> children := (children (grown n))[unat (child_count n) := Some c],
     child_count := child_count n + 1 \<rparr>"

lemma grown_fields [simp]: "parent (grown n) = parent n" "child_count (grown n) = child_count n"
  by (simp_all add: grown_def Let_def)

lemma grown_room:
  assumes "length (children n) = unat (allocated_child_count n)" and "child_count n \<le> allocated_child_count n"
    and "child_count n < 0x80000000"
  shows "length (children (grown n)) = unat (allocated_child_count (grown n))"
    "unat (child_count n) < length (children (grown n))"
    "take (unat (child_count n)) (children (grown n)) = take (unat (child_count n)) (children n)"
proof -
  have small: "unat (child_count n) < 2 ^ 31" using assms(3) by (simp add: word_less_nat_alt)
  have dbl: "unat (allocated_child_count n * 2) = unat (allocated_child_count n) * 2"
    if "child_count n = allocated_child_count n"
    using small that by (simp add: unat_word_ariths)
  have pos: "allocated_child_count n \<noteq> 0 \<Longrightarrow> 0 < unat (allocated_child_count n)" by (simp add: unat_gt_0)
  have lt: "child_count n \<noteq> allocated_child_count n \<Longrightarrow> unat (child_count n) < unat (allocated_child_count n)"
    using assms(2) by (simp add: word_le_nat_alt order_less_le word_unat_eq_iff)
  show "length (children (grown n)) = unat (allocated_child_count (grown n))"
    using assms(1) dbl by (auto simp: grown_def Let_def realloc_children_def)
  show "unat (child_count n) < length (children (grown n))"
    using assms(1) dbl pos lt by (auto simp: grown_def Let_def realloc_children_def)
  show "take (unat (child_count n)) (children (grown n)) = take (unat (child_count n)) (children n)"
    using assms(1) dbl by (auto simp: grown_def Let_def realloc_children_def)
qed

lemma with_child_fields:
  assumes "length (children n) = unat (allocated_child_count n)" and "child_count n \<le> allocated_child_count n"
    and "child_count n < 0x80000000"
  shows "length (children (with_child n c)) = unat (allocated_child_count (with_child n c))"
    "child_count (with_child n c) \<le> allocated_child_count (with_child n c)"
    "take (unat (child_count (with_child n c))) (children (with_child n c)) = take (unat (child_count n)) (children n) @ [Some c]"
    "parent (with_child n c) = parent n" "unat (child_count (with_child n c)) = Suc (unat (child_count n))"
proof -
  let ?k = "unat (child_count n)"
  note room = grown_room [OF assms]
  have k: "unat (child_count n + 1) = Suc ?k" by (rule unat_Suc [OF assms(3)])
  show "unat (child_count (with_child n c)) = Suc ?k" by (simp add: with_child_def k)
  show "length (children (with_child n c)) = unat (allocated_child_count (with_child n c))"
    using room(1) by (simp add: with_child_def)
  show "child_count (with_child n c) \<le> allocated_child_count (with_child n c)"
    using room(1,2) k by (simp add: with_child_def word_le_nat_alt)
  show "parent (with_child n c) = parent n" by (simp add: with_child_def)
  show "take (unat (child_count (with_child n c))) (children (with_child n c)) = take ?k (children n) @ [Some c]"
    using room(2,3) by (simp add: with_child_def k take_Suc_conv_app_nth)
qed

lemma add_child_result:
  assumes "tree_ok hp" and a: "hp a = Some n" and c: "hp c = Some ch" and ne: "c \<noteq> a" and "child_count n < 0x80000000"
  shows "add_child True hp a (Some c) = Some (Inr (hp(a \<mapsto> with_child n c, c \<mapsto> ch\<lparr> parent := Some a \<rparr>)))"
proof -
  have n: "length (children n) = unat (allocated_child_count n)" "child_count n \<le> allocated_child_count n"
    using assms(1) a by (auto simp: tree_ok_def node_ok_def)
  have k: "unat (child_count n) < length (children (grown n))" by (rule grown_room(2) [OF n assms(5)])
  have "add_child True hp a (Some c) =
    (if unat (child_count (grown n)) < length (children (grown n))
     then do {
       let hp = hp(a \<mapsto> (grown n)\<lparr> children := (children (grown n))[unat (child_count (grown n)) := Some c],
         child_count := child_count (grown n) + 1 \<rparr>);
       ch \<leftarrow> hp c;
       Some (Inr (hp(c \<mapsto> ch\<lparr> parent := Some a \<rparr>)))
     }
     else None)"
    unfolding add_child_def option.case a bind.bind_lunit Let_def grown_def by simp
  with k c ne show ?thesis by (simp add: with_child_def)
qed

lemma add_child_tree_ok:
  assumes ok: "tree_ok hp" and a: "hp a = Some n" and c: "hp c = Some ch"
    and free: "\<And>p m. parent ch = Some p \<Longrightarrow> p \<noteq> a \<Longrightarrow> hp p = Some m \<Longrightarrow> c \<notin> set (used_children m)" and ne: "c \<noteq> a"
    and small: "child_count n < 0x80000000"
  shows "tree_ok (hp(a \<mapsto> with_child n c, c \<mapsto> ch\<lparr> parent := Some a \<rparr>))"
  unfolding tree_ok_def
proof (intro allI impI)
  let ?hp = "hp(a \<mapsto> with_child n c, c \<mapsto> ch\<lparr> parent := Some a \<rparr>)"
  have n: "node_ok hp a n" and nc: "node_ok hp c ch" using ok a c by (auto simp: tree_ok_def)
  have len: "length (children n) = unat (allocated_child_count n)" "child_count n \<le> allocated_child_count n"
    using n by (simp_all add: node_ok_def)
  note wc = with_child_fields [OF len small, of c]
  have keep: "\<exists>m. ?hp x = Some m \<and> parent m = Some b" if u: "hp b = Some u" "x \<in> set (used_children u)" for x b u
  proof -
    have "node_ok hp b u" using ok u(1) by (simp add: tree_ok_def)
    then obtain y where y: "hp x = Some y" "parent y = Some b" using u(2) by (auto simp: node_ok_def)
    show ?thesis using y u free [of b u] c ne a wc(4) by (cases "x = c"; cases "x = a") auto
  qed
  have dom: "hp p \<noteq> None \<Longrightarrow> ?hp p \<noteq> None" for p by simp
  fix b m
  assume m: "?hp b = Some m"
  consider "b = c" "m = ch\<lparr> parent := Some a \<rparr>" | "b = a" "m = with_child n c" | "hp b = Some m" "b \<noteq> a" "b \<noteq> c"
    using m ne by (cases "b = c"; cases "b = a") auto
  then show "node_ok ?hp b m"
  proof cases
    case 1
    have "\<forall>x \<in> set (used_children ch). \<exists>y. ?hp x = Some y \<and> parent y = Some b"
    proof
      fix x
      assume "x \<in> set (used_children ch)"
      from keep [OF c this] 1 show "\<exists>y. ?hp x = Some y \<and> parent y = Some b" by blast
    qed
    moreover have "used_children m = used_children ch" "children m = children ch" "child_count m = child_count ch"
      "allocated_child_count m = allocated_child_count ch" "parent m = Some a"
      using 1 by (simp_all add: used_children_def)
    ultimately show ?thesis using nc dom [of a] a unfolding node_ok_def by auto
  next
    case 2
    have "used_children m = used_children n @ [c]" using 2 wc(3) by (simp add: used_children_def)
    moreover have "list_all (\<lambda>c. c \<noteq> None) (take (unat (child_count m)) (children m))"
      using n 2 wc(3) by (simp add: node_ok_def)
    moreover have "\<exists>y. ?hp x = Some y \<and> parent y = Some a" if "x \<in> set (used_children n)" for x
      by (rule keep [OF a that])
    ultimately show ?thesis using n 2 wc(1,2,4) dom by (auto simp: node_ok_def)
  next
    case 3
    with ok have "node_ok hp b m" by (simp add: tree_ok_def)
    with keep [OF 3(1)] dom show ?thesis unfolding node_ok_def by blast
  qed
qed

section \<open>Properties\<close>

text \<open>C16: \<open>has_ancestor\<close> returns on every heap whose parent pointers lead to nodes, even in a cycle; a result other
  than 0 is the least number of generations, below the limit, that leads to the candidate, and the
  result is 0 only if no number of generations below the limit does.\<close>

theorem has_ancestor_generations:
  assumes "tree_ok hp" and "hp a \<noteq> None" and "c \<noteq> a"
  shows "\<exists>r. has_ancestor hp a (Some c) n = Some r \<and>
    (if r = 0 then \<forall>k. 0 < k \<longrightarrow> k < unat n \<longrightarrow> nth_ancestor hp k a \<noteq> Some c
     else unat r < unat n \<and> nth_ancestor hp (unat r) a = Some c \<and>
       (\<forall>j. 0 < j \<longrightarrow> j < unat r \<longrightarrow> nth_ancestor hp j a \<noteq> Some c))"
  using ancestor_loop_result [OF assms(1,2), of c 1 n] assms(3)
  by (auto simp: has_ancestor_def Suc_le_eq split: if_splits)

theorem has_ancestor_generations_witness:
  "\<exists>r. has_ancestor [0 \<mapsto> node_new None, 1 \<mapsto> node_new (Some 0)] 1 (Some 0) 5 = Some r \<and> r \<noteq> 0"
proof -
  let ?hp = "[0 \<mapsto> node_new None, 1 \<mapsto> node_new (Some 0)] :: nodes"
  have "tree_ok ?hp" by (auto simp: tree_ok_def node_ok_def node_new_def used_children_def split: if_splits)
  from has_ancestor_generations [OF this, of 1 0 5] obtain r where
    r: "has_ancestor ?hp 1 (Some 0) 5 = Some r" "r = 0 \<longrightarrow> (\<forall>k. 0 < k \<longrightarrow> k < 5 \<longrightarrow> nth_ancestor ?hp k 1 \<noteq> Some 0)"
    by (auto split: if_splits)
  moreover have "nth_ancestor ?hp 1 1 = Some 0" by (simp add: node_new_def)
  ultimately have "r \<noteq> 0" by (metis (no_types) one_less_numeral_iff semiring_norm(76,77) zero_less_one)
  with r(1) show ?thesis by (intro exI [of _ r] conjI)
qed

text \<open>C15: on a well-formed heap, a node \<open>c\<close> is added to another node \<open>a\<close> with less than \<open>2 ^ 31\<close> children. If memory can be
  allocated, \<open>c\<close> is appended to the children of \<open>a\<close>, the other children stay where they are, the parent of \<open>c\<close> is \<open>a\<close>, and all
  other nodes are unchanged; the heap stays well formed if \<open>c\<close> is not listed among the children of a parent other than \<open>a\<close>, that is,
  if \<open>c\<close> has no parent, or was constructed with \<open>a\<close> or another node as its parent and not added there. If memory cannot be allocated,
  \<open>bad_alloc\<close> is thrown exactly if the array of children is full. Adding a null pointer does nothing.\<close>

theorem add_child_appends:
  assumes "tree_ok hp" and "hp a = Some n" and "hp c = Some ch" and "c \<noteq> a" and "child_count n < 0x80000000"
  shows "(\<exists>hp'. add_child True hp a (Some c) = Some (Inr hp') \<and>
    (\<exists>n'. hp' a = Some n' \<and> used_children n' = used_children n @ [c] \<and> unat (child_count n') = Suc (unat (child_count n))) \<and>
    get_parent hp' c = Some (Some a) \<and> (\<forall>b. b \<noteq> a \<and> b \<noteq> c \<longrightarrow> hp' b = hp b) \<and>
    ((\<forall>p m. parent ch = Some p \<and> p \<noteq> a \<and> hp p = Some m \<longrightarrow> c \<notin> set (used_children m)) \<longrightarrow> tree_ok hp')) \<and>
    add_child False hp a (Some c) =
      (if child_count n = allocated_child_count n then Some (Inl bad_alloc) else add_child True hp a (Some c)) \<and>
    add_child alloc_ok hp a None = Some (Inr hp)"
proof -
  have n: "length (children n) = unat (allocated_child_count n)" "child_count n \<le> allocated_child_count n"
    using assms(1,2) by (auto simp: tree_ok_def node_ok_def)
  note wc = with_child_fields [OF n assms(5), of c]
  let ?hp = "hp(a \<mapsto> with_child n c, c \<mapsto> ch\<lparr> parent := Some a \<rparr>)"
  have "used_children (with_child n c) = used_children n @ [c]" using wc(3) by (simp add: used_children_def)
  moreover have "tree_ok ?hp" if "\<forall>p m. parent ch = Some p \<and> p \<noteq> a \<and> hp p = Some m \<longrightarrow> c \<notin> set (used_children m)"
    using that by (intro add_child_tree_ok [OF assms(1-3) _ assms(4,5)]) blast
  moreover have "add_child False hp a (Some c) =
      (if child_count n = allocated_child_count n then Some (Inl bad_alloc) else add_child True hp a (Some c))"
    using assms(2) by (simp add: add_child_def Let_def)
  moreover have "add_child alloc_ok hp a None = Some (Inr hp)" by (simp add: add_child_def)
  ultimately show ?thesis using add_child_result [OF assms] wc(5) assms(4) by (simp add: get_parent_def)
qed

text \<open>A child that was constructed with its parent, and one without.\<close>

theorem add_child_appends_witness:
  "\<exists>hp1. add_child True [0 \<mapsto> node_new None, 1 \<mapsto> node_new (Some 0), 2 \<mapsto> node_new None] 0 (Some 1) = Some (Inr hp1) \<and> tree_ok hp1 \<and>
     get_parent hp1 1 = Some (Some 0) \<and>
     (\<exists>hp2 n'. add_child True hp1 0 (Some 2) = Some (Inr hp2) \<and> tree_ok hp2 \<and> hp2 0 = Some n' \<and> used_children n' = [1, 2])"
proof -
  let ?hp = "[0 \<mapsto> node_new None, 1 \<mapsto> node_new (Some 0), 2 \<mapsto> node_new None] :: nodes"
  have ok: "tree_ok ?hp" by (auto simp: tree_ok_def node_ok_def node_new_def used_children_def split: if_splits)
  have new: "parent (node_new p) = p" "child_count (node_new p) = 0" "used_children (node_new p) = []" for p
    by (simp_all add: node_new_def used_children_def)
  have "?hp 0 = Some (node_new None)" "?hp 1 = Some (node_new (Some 0))" "(1 :: nat) \<noteq> 0" "child_count (node_new None) < 0x80000000"
    by (simp_all add: new)
  from add_child_appends [OF ok this, THEN conjunct1] obtain hp1 n1 where hp1: "add_child True ?hp 0 (Some 1) = Some (Inr hp1)"
      "hp1 0 = Some n1" "used_children n1 = used_children (node_new None) @ [1]" "unat (child_count n1) = Suc (unat (child_count (node_new None)))"
      "get_parent hp1 1 = Some (Some 0)" "\<forall>b. b \<noteq> 0 \<and> b \<noteq> 1 \<longrightarrow> hp1 b = ?hp b"
      "(\<forall>p m. parent (node_new (Some 0)) = Some p \<and> p \<noteq> 0 \<and> ?hp p = Some m \<longrightarrow> 1 \<notin> set (used_children m)) \<longrightarrow> tree_ok hp1"
    by blast
  have ok1: "tree_ok hp1" using hp1(7) by (simp add: new)
  have two: "hp1 2 = Some (node_new None)" "(2 :: nat) \<noteq> 0" using hp1(6) by simp_all
  have "child_count n1 < 0x80000000" using hp1(4) by (simp add: word_less_nat_alt new)
  from add_child_appends [OF ok1 hp1(2) two this, THEN conjunct1] obtain hp2 n2 where
    hp2: "add_child True hp1 0 (Some 2) = Some (Inr hp2)" "hp2 0 = Some n2" "used_children n2 = used_children n1 @ [2]"
      "(\<forall>p m. parent (node_new None) = Some p \<and> p \<noteq> 0 \<and> hp1 p = Some m \<longrightarrow> 2 \<notin> set (used_children m)) \<longrightarrow> tree_ok hp2"
    by blast
  have "tree_ok hp2" "used_children n2 = [1, 2]" using hp2(3,4) hp1(3) by (simp_all add: new)
  with hp1(1,5) ok1 hp2(1,2) show ?thesis by blast
qed

text \<open>A limit of one generation finds nothing, not even the parent; \<open>has_descendant\<close> ignores its limit; no
  node type is classified as a token.\<close>

theorem node_divergences:
  "has_ancestor [0 \<mapsto> node_new None, 1 \<mapsto> node_new (Some 0)] 1 (Some 0) 1 = Some 0 \<and>
   has_descendant hp a c n = has_descendant hp a c n' \<and> \<not> node_type_is_token t"
proof (intro conjI)
  show "has_ancestor [0 \<mapsto> node_new None, 1 \<mapsto> node_new (Some 0)] 1 (Some 0) 1 = Some 0"
    by (simp add: has_ancestor_def ancestor_loop.simps)
  show "has_descendant hp a c n = has_descendant hp a c n'" by (simp add: has_descendant_def)
  show "\<not> node_type_is_token t"
    by (simp add: node_type_is_token_def non_token_mask_def or_eq_0_iff)
qed

end
