(* ===== verification/Wrap_Lines.thy ===== *)
theory Wrap_Lines
  imports Strutil Str_View Unicode
begin

text \<open>
  \<open>core/text/wrap_lines.h\<close> and \<open>wrap_lines.cpp\<close>: breaking a text into lines that are narrower than a width. The
  count of columns is \<open>unsigned\<close>; it is kept as a natural number below \<open>2 ^ 32\<close>, and \<open>add32\<close> and \<open>sub32\<close> wrap around.
  It exceeds the width by at most 2, so that nothing wraps around for widths up to \<open>UINT_MAX - 2\<close>; beyond them the
  inner loop may start a line again or not end, which is \<^term>\<open>None\<close>. The function that steps over one visible character is an
  argument, as in the source. An indent, which the source keeps as a pointer into a string of spaces, is its
  width.
\<close>

section \<open>Columns\<close>

definition add32 :: "nat \<Rightarrow> nat \<Rightarrow> nat" where
  "add32 n k = unat (of_nat n + of_nat k :: u32)"

definition sub32 :: "nat \<Rightarrow> nat \<Rightarrow> nat" where
  "sub32 n k = unat (of_nat n - of_nat k :: u32)"

lemma add32_small: "n + k < 2 ^ 32 \<Longrightarrow> add32 n k = n + k"
  by (simp add: add32_def unat_of_nat flip: of_nat_add)

lemma sub32_small: "k \<le> n \<Longrightarrow> n < 2 ^ 32 \<Longrightarrow> sub32 n k = n - k"
  by (simp add: sub32_def unat_of_nat flip: of_nat_diff)

section \<open>Hyphens\<close>

abbreviation (input) hyphen :: byte where "hyphen \<equiv> 45"
abbreviation (input) space :: byte where "space \<equiv> 32"

function hyphen_run :: "buffer \<Rightarrow> nat \<Rightarrow> nat \<Rightarrow> nat \<Rightarrow> nat \<Rightarrow> (nat \<times> nat) option" where
  "hyphen_run m e width ptr len =
     (if ptr < e \<and> len < width
      then do {
        c \<leftarrow> rd m ptr;
        if c = hyphen then hyphen_run m e width (Suc ptr) (Suc len) else Some (ptr, len)
      }
      else Some (ptr, len))"
  by pat_completeness auto
termination
  by (relation "measure (\<lambda>(m, e, width, ptr, len). e - ptr)") auto

declare hyphen_run.simps [simp del]

text \<open>The new \<open>ptr\<close>, \<open>len\<close> and \<open>wrap_before\<close>; \<open>ptr[-1]\<close> is read in any case.\<close>

definition find_best_hyphen_wrap ::
  "buffer \<Rightarrow> nat \<Rightarrow> nat \<Rightarrow> nat \<Rightarrow> nat \<Rightarrow> nat option \<Rightarrow> (nat \<times> nat \<times> nat option) option" where
  "find_best_hyphen_wrap m e width ptr len wrap_before = do {
     double_hyphen \<leftarrow> (if ptr + 1 < e then map_option (\<lambda>c. c = hyphen) (rd m (ptr + 1)) else Some False);
     prior \<leftarrow> (if ptr = 0 then None else rd m (ptr - 1));
     third \<leftarrow> (if prior \<noteq> hyphen \<and> double_hyphen \<and> ptr + 2 < e
               then map_option (\<lambda>c. c = hyphen) (rd m (ptr + 2)) else Some False);
     if prior = hyphen \<or> third
     then do {
       (q, l) \<leftarrow> hyphen_run m e width ptr len;
       Some (q, l, Some q)
     }
     else if double_hyphen
     then Some (if len < width - 1 then (ptr + 2, add32 len 2, Some (ptr + 2)) else (ptr, add32 len 2, wrap_before))
     else Some (ptr + 1, add32 len 1, Some (ptr + 1))
   }"

section \<open>One line\<close>

record line_scan =
  ls_ptr :: nat
  ls_len :: nat
  ls_wrap :: "nat option"
  ls_found :: bool
  ls_indent :: "nat option"
  ls_soft :: bool
  ls_out :: "byte list"

definition MAX_INDENT :: nat where
  "MAX_INDENT = 64"

text \<open>The first visible character of a line that begins at \<open>p\<close>.\<close>

definition first_visible :: "nat \<Rightarrow> line_scan \<Rightarrow> line_scan" where
  "first_visible p s =
     s\<lparr> ls_found := True,
        ls_indent := (if p < ls_ptr s then Some (min MAX_INDENT (ls_ptr s - p)) else ls_indent s) \<rparr>"

text \<open>\<open>--ptr\<close>.\<close>

definition step_back :: "line_scan \<Rightarrow> line_scan option" where
  "step_back s = (if ls_ptr s = 0 then None else Some (s\<lparr> ls_ptr := ls_ptr s - 1 \<rparr>))"

definition hard_break :: "buffer \<Rightarrow> nat \<Rightarrow> nat \<Rightarrow> byte list \<Rightarrow> nat \<Rightarrow> byte \<Rightarrow> line_scan \<Rightarrow> line_scan option" where
  "hard_break m e width line_delim p c s = do {
     crlf \<leftarrow> (if c = 13 \<and> ls_ptr s + 1 < e then map_option (\<lambda>d. d = 10) (rd m (ls_ptr s + 1)) else Some False);
     Some (s\<lparr> ls_out := ls_out s @ (if ls_found s then slice m p (ls_ptr s) else []) @ line_delim,
              ls_ptr := (if crlf then ls_ptr s + 1 else ls_ptr s),
              ls_indent := None, ls_len := width, ls_soft := False \<rparr>)
   }"

text \<open>The switch on the character at \<open>ptr\<close>.\<close>

definition scan_char :: "buffer \<Rightarrow> nat \<Rightarrow> nat \<Rightarrow> byte list \<Rightarrow> nat \<Rightarrow> line_scan \<Rightarrow> line_scan option" where
  "scan_char m e width line_delim p s = do {
     c \<leftarrow> rd m (ls_ptr s);
     if c = space then Some (if ls_found s then s\<lparr> ls_wrap := Some (ls_ptr s) \<rparr> else s)
     else if c = hyphen
     then (if ls_len s = width then step_back s
           else if ls_found s
           then map_option (\<lambda>(q, l, w). s\<lparr> ls_ptr := q, ls_len := l, ls_wrap := w \<rparr>)
                  (find_best_hyphen_wrap m e width (ls_ptr s) (ls_len s) (ls_wrap s))
           else Some (first_visible p s))
     else if c = 13 \<or> c = 10 then hard_break m e width line_delim p c s
     else if ls_len s = width then step_back s
     else Some (if \<not> ls_found s then first_visible p s else s)
   }"

lemma hyphen_run_bounds:
  "hyphen_run m e width ptr len = Some (q, l) \<Longrightarrow> ptr \<le> q \<and> len \<le> l \<and> l - len = q - ptr \<and> (ptr \<le> e \<longrightarrow> q \<le> e) \<and>
     (len \<le> width \<longrightarrow> l \<le> width) \<and> (\<forall>i. ptr \<le> i \<longrightarrow> i < q \<longrightarrow> m ! i = hyphen)"
proof (induction m e width ptr len rule: hyphen_run.induct)
  case (1 m e width ptr len)
  show ?case
  proof (cases "ptr < e \<and> len < width \<and> rd m ptr = Some hyphen")
    case True
    then have c: "m ! ptr = hyphen" by (simp add: rd_eq_Some_iff)
    have "hyphen_run m e width (Suc ptr) (Suc len) = Some (q, l)" using "1.prems" True by (simp add: hyphen_run.simps [of m e width ptr len])
    then have "Suc ptr \<le> q \<and> Suc len \<le> l \<and> l - Suc len = q - Suc ptr \<and> (Suc ptr \<le> e \<longrightarrow> q \<le> e) \<and>
        (Suc len \<le> width \<longrightarrow> l \<le> width) \<and> (\<forall>i. Suc ptr \<le> i \<longrightarrow> i < q \<longrightarrow> m ! i = hyphen)"
      using "1.IH" [of hyphen] True by simp
    moreover have "m ! i = hyphen" if "ptr \<le> i" "i < q" for i
      using c calculation that by (cases "i = ptr") auto
    ultimately show ?thesis using True by (intro conjI) auto
  next
    case False
    then have "q = ptr" "l = len" using "1.prems" by (auto simp: hyphen_run.simps [of m e width ptr len] split: if_splits bind_splits)
    then show ?thesis by simp
  qed
qed

lemma find_best_hyphen_wrap_len:
  assumes "len < width" "width + 2 < 2 ^ 32" "find_best_hyphen_wrap m e width ptr len w = Some (q, l, w')"
  shows "len \<le> l \<and> l \<le> width + 1"
proof -
  have "add32 len 1 = len + 1" "add32 len 2 = len + 2" using add32_small [of len 1] add32_small [of len 2] assms(1,2) by simp_all
  then show ?thesis using assms(1,3)
    by (auto simp: find_best_hyphen_wrap_def split: bind_splits if_splits dest!: hyphen_run_bounds)
qed

lemma scan_char_len:
  assumes "scan_char m e width line_delim p s = Some s'" "ls_len s \<le> width" "width + 2 < 2 ^ 32"
  shows "ls_len s \<le> ls_len s' \<and> ls_len s' \<le> width + 1"
  using assms(1,2)
  by (auto simp: scan_char_def step_back_def first_visible_def hard_break_def
      dest!: find_best_hyphen_wrap_len [OF _ assms(3), rotated] split: bind_splits if_splits)

text \<open>The inner loop. Below the limits of \<open>unsigned\<close> every round counts at least one column, so it ends.\<close>

partial_function (option) scan_line ::
  "(nat \<Rightarrow> nat option) \<Rightarrow> buffer \<Rightarrow> nat \<Rightarrow> nat \<Rightarrow> byte list \<Rightarrow> nat \<Rightarrow> line_scan \<Rightarrow> line_scan option" where
  "scan_line nxt m e width line_delim p s =
     (if ls_len s \<le> width \<and> ls_ptr s < e
      then case scan_char m e width line_delim p s of
             None \<Rightarrow> None
           | Some s' \<Rightarrow>
               (case nxt (ls_ptr s') of
                  None \<Rightarrow> None
                | Some q \<Rightarrow> scan_line nxt m e width line_delim p (s'\<lparr> ls_ptr := q, ls_len := add32 (ls_len s') 1 \<rparr>))
      else Some s)"

declare scan_line.simps [code]

section \<open>The text\<close>

text \<open>\<open>while (*ptr == ' ' && ptr < end) ++ptr;\<close> reads before it compares.\<close>

function skip_spaces :: "buffer \<Rightarrow> nat \<Rightarrow> nat \<Rightarrow> nat option" where
  "skip_spaces m e ptr =
     (case rd m ptr of
        None \<Rightarrow> None
      | Some c \<Rightarrow> if c = space \<and> ptr < e then skip_spaces m e (Suc ptr) else Some ptr)"
  by pat_completeness auto
termination
  by (relation "measure (\<lambda>(m, e, ptr). e - ptr)") auto

declare skip_spaces.simps [simp del]

text \<open>The output, the new \<open>ptr\<close> and the new \<open>len_after_this_char\<close>.\<close>

definition insert_soft_wrap ::
  "buffer \<Rightarrow> nat \<Rightarrow> byte list \<Rightarrow> nat \<Rightarrow> line_scan \<Rightarrow> (byte list \<times> nat \<times> nat) option" where
  "insert_soft_wrap m e line_delim p s = do {
     let wrap_before = (case ls_wrap s of None \<Rightarrow> ls_ptr s | Some w \<Rightarrow> w);
     if wrap_before < p \<or> length m < wrap_before then None
     else do {
       ptr \<leftarrow> skip_spaces m e wrap_before;
       Some (ls_out s @ slice m p wrap_before @ line_delim @
               (case ls_indent s of None \<Rightarrow> [] | Some w \<Rightarrow> take w EIGHTY_SPACES),
             ptr, (case ls_indent s of None \<Rightarrow> 1 | Some w \<Rightarrow> w + 1))
     }
   }"

partial_function (option) wrap_loop ::
  "(nat \<Rightarrow> nat option) \<Rightarrow> buffer \<Rightarrow> nat \<Rightarrow> nat \<Rightarrow> byte list \<Rightarrow> nat \<Rightarrow> nat option \<Rightarrow> nat \<Rightarrow> byte list \<Rightarrow> byte list option" where
  "wrap_loop nxt m e width line_delim p indent len out =
     (if p < e
      then if e - p + sub32 len 1 < width then Some (out @ slice m p e)
           else do {
             s \<leftarrow> scan_line nxt m e width line_delim p
                   \<lparr> ls_ptr = p, ls_len = len, ls_wrap = None, ls_found = False, ls_indent = indent, ls_soft = True,
                     ls_out = out \<rparr>;
             (if ls_ptr s = e \<and> ls_len s < width
              then wrap_loop nxt m e width line_delim (ls_ptr s) (ls_indent s) (ls_len s) (ls_out s @ slice m p (ls_ptr s))
              else if ls_soft s
              then do {
                (out', q, l) \<leftarrow> insert_soft_wrap m e line_delim p s;
                wrap_loop nxt m e width line_delim q (ls_indent s) l out'
              }
              else wrap_loop nxt m e width line_delim (ls_ptr s) (ls_indent s) 1 (ls_out s))
           }
      else Some out)"

declare wrap_loop.simps [code]

definition wrap_lines ::
  "buffer \<Rightarrow> str_view \<Rightarrow> u32 \<Rightarrow> byte list \<Rightarrow> (nat \<Rightarrow> nat option) option \<Rightarrow> byte list result option" where
  "wrap_lines m input width line_delim nxt =
     (case nxt of
        None \<Rightarrow> Some (Inl (contract_violation ct_pre))
      | Some f \<Rightarrow>
          if width < 10 then Some (Inl (contract_violation ct_pre))
          else (case sv_begin input of
                  None \<Rightarrow> Some (Inr [])
                | Some b \<Rightarrow> map_option Inr (wrap_loop f m (b + sv_length input) (unat width) line_delim b None 1 [])))"

section \<open>What wrapping keeps\<close>

text \<open>The visible part of a text: without spaces and line breaks.\<close>

definition visible :: "byte list \<Rightarrow> byte list" where
  "visible s = filter (\<lambda>c. c \<notin> {32, 13, 10}) s"

lemma visible_append [simp]: "visible (xs @ ys) = visible xs @ visible ys"
  by (simp add: visible_def)

lemma visible_Nil [simp]: "visible [] = []"
  by (simp add: visible_def)

lemma visible_none: "visible xs = [] \<longleftrightarrow> set xs \<subseteq> {32, 13, 10}"
  by (auto simp: visible_def filter_empty_conv)

lemma visible_indent [simp]: "visible (take w EIGHTY_SPACES) = []"
  by (simp add: visible_none EIGHTY_SPACES_def subset_iff)

lemma visible_slices: "p \<le> q \<Longrightarrow> q \<le> r \<Longrightarrow> r \<le> length m \<Longrightarrow> visible (slice m p r) = visible (slice m p q) @ visible (slice m q r)"
  using slice_append_slice [of p q r m] by (metis visible_append)

lemma visible_spaces:
  assumes "\<And>i. p \<le> i \<Longrightarrow> i < q \<Longrightarrow> m ! i = 32" "q \<le> length m"
  shows "visible (slice m p q) = []"
  using assms by (auto simp: visible_none in_set_conv_nth slice_nth)

text \<open>The texts on which wrapping works: spaces and line breaks are characters of their own, and the last
  character is no hyphen.\<close>

definition wrappable :: "buffer \<Rightarrow> nat \<Rightarrow> (nat \<Rightarrow> nat option) \<Rightarrow> bool" where
  "wrappable m e nxt \<longleftrightarrow> (\<forall>q < e. m ! q \<in> {32, 13, 10} \<longrightarrow> nxt q = Some (Suc q)) \<and> (\<forall>q. Suc q = e \<longrightarrow> m ! q \<noteq> 45)"

text \<open>The state of the inner loop on a line that begins at \<open>p\<close> in column \<open>len0\<close>, when \<open>out0\<close> is written.\<close>

definition line_inv :: "buffer \<Rightarrow> nat \<Rightarrow> nat \<Rightarrow> nat \<Rightarrow> nat \<Rightarrow> byte list \<Rightarrow> line_scan \<Rightarrow> bool" where
  "line_inv m e width p len0 out0 s \<longleftrightarrow>
     len0 \<le> ls_len s \<and> (ls_found s \<longrightarrow> len0 < ls_len s) \<and> p \<le> ls_ptr s \<and> (len0 < ls_len s \<longrightarrow> p < ls_ptr s) \<and> ls_ptr s \<le> e \<and>
     (\<forall>w. ls_wrap s = Some w \<longrightarrow> p < w \<and> w \<le> e) \<and> (\<forall>w. ls_indent s = Some w \<longrightarrow> w + 2 \<le> width) \<and>
     (if ls_soft s
      then ls_out s = out0 \<and>
        (\<not> ls_found s \<and> ls_len s \<le> width \<longrightarrow>
           ls_ptr s - p = ls_len s - len0 \<and> (\<forall>i. p \<le> i \<longrightarrow> i < ls_ptr s \<longrightarrow> m ! i = 32))
      else width < ls_len s \<and> visible (ls_out s) = visible out0 @ visible (slice m p (ls_ptr s)))"

text \<open>
  What \<open>wrap_lines\<close> needs of a function that steps over one character, on a text that ends before the position
  \<open>e\<close>: below \<open>e\<close> it moves forward, and not past \<open>e\<close>. The byte at \<open>e\<close> may be read.
\<close>

locale advance_func =
  fixes m :: buffer and e :: nat and nxt :: "nat \<Rightarrow> nat option"
  assumes forward: "q < e \<Longrightarrow> \<exists>r. nxt q = Some r \<and> q < r \<and> r \<le> e"
    and readable: "e < length m"
begin

lemma skip_spaces_result:
  "p \<le> e \<Longrightarrow> \<exists>q. skip_spaces m e p = Some q \<and> p \<le> q \<and> q \<le> e \<and> visible (slice m p q) = []"
proof (induction "e - p" arbitrary: p)
  case 0
  then have "e = p" by simp
  then show ?case using readable by (auto simp: skip_spaces.simps [of m p p] visible_def intro!: exI [of _ p])
next
  case (Suc n)
  show ?case
  proof (cases "m ! p = 32")
    case True
    obtain q where q: "skip_spaces m e (Suc p) = Some q" "Suc p \<le> q" "q \<le> e" "visible (slice m (Suc p) q) = []"
    proof -
      have "n = e - Suc p" "Suc p \<le> e" using Suc.hyps(2) by auto
      from Suc.hyps(1) [OF this] show thesis using that by blast
    qed
    have "visible (slice m p q) = []" using q True readable slice_Cons [of p q m] by (simp add: visible_def)
    then show ?thesis using q True Suc.hyps(2) readable by (simp add: skip_spaces.simps [of m e p])
  next
    case False
    then show ?thesis using Suc.prems readable by (simp add: skip_spaces.simps [of m e p] visible_def)
  qed
qed

lemma best_hyphen_result:
  assumes "wrappable m e nxt" "m ! ptr = 45" "0 < ptr" "ptr < e" "len < width" "width + 2 < 2 ^ 32"
  shows "\<exists>q l w'. find_best_hyphen_wrap m e width ptr len w = Some (q, l, w') \<and> ptr \<le> q \<and> q < e \<and> len \<le> l \<and>
    (w' = w \<or> (\<exists>x. w' = Some x \<and> ptr < x \<and> x \<le> e)) "
proof -
  have last: "Suc i < e" if "i < e" "m ! i = 45" for i
    using assms(1) that by (metis Suc_lessI wrappable_def)
  have run: "\<exists>q l. hyphen_run m e width ptr len = Some (q, l) \<and> ptr < q \<and> q < e \<and> len \<le> l"
  proof -
    have "\<exists>q l. hyphen_run m e width a b = Some (q, l)" if "a \<le> e" for a b
      using that
    proof (induction "e - a" arbitrary: a b)
      case 0
      then show ?case by (simp add: hyphen_run.simps)
    next
      case (Suc n)
      then show ?case using readable by (subst hyphen_run.simps) simp
    qed
    then obtain q l where ql: "hyphen_run m e width ptr len = Some (q, l)" using assms(4) by (meson less_imp_le)
    have "hyphen_run m e width (Suc ptr) (Suc len) = Some (q, l)"
      using ql assms readable by (simp add: hyphen_run.simps [of m e width ptr len])
    then have b: "Suc ptr \<le> q" "Suc len \<le> l" "q \<le> e" "\<forall>i. Suc ptr \<le> i \<longrightarrow> i < q \<longrightarrow> m ! i = 45"
      using hyphen_run_bounds assms(4) by (metis Suc_leI)+
    have "m ! (q - 1) = 45" using b(1,4) assms(2) by (cases "q - 1 = ptr") auto
    then have "Suc (q - 1) < e" using last [of "q - 1"] b(1,3) by auto
    then show ?thesis using ql b(1,2) by (intro exI [of _ q] exI [of _ l]) auto
  qed
  have rds: "rd m (ptr - 1) = Some (m ! (ptr - 1))" using assms(4) readable by simp
  have next1: "Suc ptr < e" using last [OF assms(4,2)] .
  then have rd1: "rd m (ptr + 1) = Some (m ! (ptr + 1))" using readable by simp
  have next2: "ptr + 2 < e" if "m ! (ptr + 1) = 45" using last [of "ptr + 1"] next1 that by simp
  obtain q l where "hyphen_run m e width ptr len = Some (q, l)" "ptr < q" "q < e" "len \<le> l" using run by blast
  moreover have "add32 len 1 = len + 1" "add32 len 2 = len + 2" using add32_small [of len 1] add32_small [of len 2] assms(5,6) by simp_all
  ultimately show ?thesis
    using assms(3) next1 next2 readable by (auto simp: find_best_hyphen_wrap_def rds rd1)
qed


text \<open>One round of the inner loop keeps the invariant.\<close>

lemma line_inv_round:
  assumes ok: "wrappable m e nxt" and inv: "line_inv m e width p len0 out0 s" and len0: "len0 < width" "0 < len0"
    and go: "ls_len s \<le> width" "ls_ptr s < e" and delim: "visible line_delim = []" and small: "width + 2 < 2 ^ 32"
  shows "\<exists>s' q. scan_char m e width line_delim p s = Some s' \<and> nxt (ls_ptr s') = Some q \<and>
    line_inv m e width p len0 out0 (s'\<lparr> ls_ptr := q, ls_len := ls_len s' + 1 \<rparr>)"
proof -
  let ?ptr = "ls_ptr s"
  let ?c = "m ! ?ptr"
  have soft: "ls_soft s" using inv go(1) by (auto simp: line_inv_def split: if_splits)
  have I: "len0 \<le> ls_len s" "p \<le> ?ptr" "len0 < ls_len s \<Longrightarrow> p < ?ptr" "\<And>w. ls_wrap s = Some w \<Longrightarrow> p < w \<and> w \<le> e"
    "\<And>w. ls_indent s = Some w \<Longrightarrow> w + 2 \<le> width" "ls_out s = out0"
    "\<not> ls_found s \<Longrightarrow> ?ptr - p = ls_len s - len0 \<and> (\<forall>i. p \<le> i \<longrightarrow> i < ?ptr \<longrightarrow> m ! i = 32)"
    using inv soft go(1) by (auto simp: line_inv_def)
  have found: "p < ?ptr" "len0 < ls_len s" if "ls_found s" using inv that by (auto simp: line_inv_def)
  have rd: "rd m ?ptr = Some ?c" using go(2) readable by simp
  have fw: "\<exists>r. nxt q = Some r \<and> q < r \<and> r \<le> e" if "q < e" for q using forward that .
  have bk: "\<exists>s' q. step_back s = Some s' \<and> nxt (ls_ptr s') = Some q \<and>
      line_inv m e width p len0 out0 (s'\<lparr> ls_ptr := q, ls_len := ls_len s' + 1 \<rparr>)" if "ls_len s = width"
  proof -
    have "p < ?ptr" using I(3) that len0 by simp
    moreover obtain r where "nxt (?ptr - 1) = Some r" "?ptr - 1 < r" "r \<le> e" using fw [OF le_less_trans [OF diff_le_self go(2)]] by blast
    ultimately show ?thesis using I soft that by (auto simp: step_back_def line_inv_def)
  qed
  have plain: "\<exists>q. nxt ?ptr = Some q \<and> line_inv m e width p len0 out0 (s'\<lparr> ls_ptr := q, ls_len := ls_len s' + 1 \<rparr>)"
    if s': "ls_ptr s' = ?ptr" "ls_len s' = ls_len s" "ls_soft s'" "ls_found s'" "ls_out s' = out0"
      "\<And>w. ls_wrap s' = Some w \<Longrightarrow> p < w \<and> w \<le> e" "\<And>w. ls_indent s' = Some w \<Longrightarrow> w + 2 \<le> width" for s'
  proof -
    obtain q where "nxt ?ptr = Some q" "?ptr < q" "q \<le> e" using fw go(2) by blast
    then show ?thesis using I(1,2) that by (auto simp: line_inv_def)
  qed
  have first: "\<And>w. ls_indent (first_visible p s) = Some w \<Longrightarrow> w + 2 \<le> width" if "\<not> ls_found s" "ls_len s \<noteq> width"
    using I(5,7) that go(1) len0(2) by (fastforce simp: first_visible_def split: if_splits)
  have fv: "\<exists>q. nxt (ls_ptr (first_visible p s)) = Some q \<and> line_inv m e width p len0 out0 (first_visible p s\<lparr> ls_ptr := q, ls_len := ls_len (first_visible p s) + 1 \<rparr>)"
    if "\<not> ls_found s" "ls_len s \<noteq> width"
    using plain [of "first_visible p s"] first [OF that] I(4,6) soft by (simp add: first_visible_def)
  consider "?c = 32" | "?c = 45" | "?c = 13 \<or> ?c = 10" | "?c \<notin> {32, 45, 13, 10}" by auto
  then show ?thesis
  proof cases
    case 1
    have n: "nxt ?ptr = Some (Suc ?ptr)" using ok 1 go(2) by (simp add: wrappable_def)
    show ?thesis
    proof (cases "ls_found s")
      case True
      then show ?thesis using 1 rd plain [of "s\<lparr> ls_wrap := Some ?ptr \<rparr>"] found I(5,6) soft go(2) by (simp add: scan_char_def)
    next
      case False
      have "\<forall>i. p \<le> i \<longrightarrow> i < Suc ?ptr \<longrightarrow> m ! i = 32" using I(7) [OF False] 1 by (simp add: less_Suc_eq)
      then show ?thesis using False 1 n rd I soft go(2) by (auto simp: scan_char_def line_inv_def Suc_diff_le)
    qed
  next
    case 2
    show ?thesis
    proof (cases "ls_found s \<and> ls_len s \<noteq> width")
      case True
      then have "ls_len s < width" "0 < ?ptr" using go(1) found by auto
      then obtain q l w' where h: "find_best_hyphen_wrap m e width ?ptr (ls_len s) (ls_wrap s) = Some (q, l, w')"
          "?ptr \<le> q" "q < e" "ls_len s \<le> l" "w' = ls_wrap s \<or> (\<exists>x. w' = Some x \<and> ?ptr < x \<and> x \<le> e)"
        using best_hyphen_result [OF ok 2 _ go(2) _ small] by metis
      obtain r where r: "nxt q = Some r" "q < r" "r \<le> e" using fw [OF h(3)] by blast
      have w: "p < x \<and> x \<le> e" if "w' = Some x" for x using h(5) I(2,4) that by auto
      show ?thesis using 2 rd True h r w I(1,2,5,6) soft by (auto simp: scan_char_def line_inv_def)
    next
      case False
      then show ?thesis using 2 rd bk fv by (auto simp: scan_char_def)
    qed
  next
    case 3
    have before: "visible (if ls_found s then slice m p ?ptr else []) = visible (slice m p ?ptr)"
      using I(7) visible_spaces [of p ?ptr m] go(2) readable by auto
    define t where "t = (if ?c = 13 \<and> ?ptr + 1 < e \<and> m ! (?ptr + 1) = 10 then ?ptr + 1 else ?ptr)"
    have hb: "hard_break m e width line_delim p ?c s = Some (s\<lparr>
        ls_out := ls_out s @ (if ls_found s then slice m p ?ptr else []) @ line_delim, ls_ptr := t,
        ls_indent := None, ls_len := width, ls_soft := False \<rparr>)"
      using readable by (auto simp: hard_break_def t_def)
    have t: "t < e" "m ! t \<in> {32, 13, 10}" "?ptr \<le> t" using 3 go(2) by (auto simp: t_def)
    then have n: "nxt t = Some (Suc t)" using ok by (auto simp: wrappable_def)
    have "visible (slice m ?ptr (Suc t)) = []"
      using 3 go(2) readable t(1) by (auto simp: t_def slice_Cons visible_def)
    then have "visible (slice m p (Suc t)) = visible (slice m p ?ptr)"
      using visible_slices [of p ?ptr "Suc t" m] I(2) t(1,3) readable by simp
    then show ?thesis using 3 rd hb n t I len0(1) before delim
      by (auto simp: scan_char_def line_inv_def)
  next
    case 4
    then show ?thesis
      using rd bk plain [of s] fv I soft by (cases "ls_len s = width"; cases "ls_found s") (simp_all add: scan_char_def)
  qed
qed


lemma scan_line_result:
  assumes ok: "wrappable m e nxt" and len0: "len0 < width" "0 < len0" and delim: "visible line_delim = []" and small: "width + 2 < 2 ^ 32"
  shows "line_inv m e width p len0 out0 s \<Longrightarrow>
    \<exists>s'. scan_line nxt m e width line_delim p s = Some s' \<and> line_inv m e width p len0 out0 s' \<and>
      (width < ls_len s' \<or> e \<le> ls_ptr s')"
proof (induction "Suc width - ls_len s" arbitrary: s rule: less_induct)
  case less
  show ?case
  proof (cases "ls_len s \<le> width \<and> ls_ptr s < e")
    case True
    obtain s' q where s': "scan_char m e width line_delim p s = Some s'" "nxt (ls_ptr s') = Some q"
        "line_inv m e width p len0 out0 (s'\<lparr> ls_ptr := q, ls_len := ls_len s' + 1 \<rparr>)"
      using line_inv_round [OF ok less.prems len0 _ _ delim small] True by blast
    have "ls_len s \<le> ls_len s'" "ls_len s' \<le> width + 1" using scan_char_len [OF s'(1) _ small] True by simp_all
    then have len: "add32 (ls_len s') 1 = ls_len s' + 1" using small by (intro add32_small) linarith
    obtain s'' where "scan_line nxt m e width line_delim p (s'\<lparr> ls_ptr := q, ls_len := ls_len s' + 1 \<rparr>) = Some s''"
        "line_inv m e width p len0 out0 s''" "width < ls_len s'' \<or> e \<le> ls_ptr s''"
    proof -
      have "Suc width - ls_len (s'\<lparr> ls_ptr := q, ls_len := ls_len s' + 1 \<rparr>) < Suc width - ls_len s"
        using \<open>ls_len s \<le> ls_len s'\<close> True by (simp, linarith)
      from less.hyps [OF this s'(3)] show thesis using that by blast
    qed
    then show ?thesis using True s'(1,2) len by (simp add: scan_line.simps [of nxt m e width line_delim p s])
  next
    case False
    then show ?thesis using less.prems by (auto simp: scan_line.simps [of nxt m e width line_delim p s])
  qed
qed

lemma soft_wrap_result:
  assumes inv: "line_inv m e width p len0 out0 s" and soft: "ls_soft s" and len0: "len0 < width"
    and fin: "width < ls_len s \<or> e \<le> ls_ptr s" and p: "p < e" and width: "10 \<le> width" and delim: "visible line_delim = []"
  shows "\<exists>out' q l. insert_soft_wrap m e line_delim p s = Some (out', q, l) \<and> p < q \<and> q \<le> e \<and> 0 < l \<and> l < width \<and>
    visible out' = visible out0 @ visible (slice m p q)"
proof -
  define w where "w = (case ls_wrap s of None \<Rightarrow> ls_ptr s | Some w \<Rightarrow> w)"
  have "p < ls_ptr s" "ls_ptr s \<le> e" using inv fin p len0 by (auto simp: line_inv_def)
  then have w: "p < w" "w \<le> e" using inv by (auto simp: w_def line_inv_def split: option.split)
  obtain q where q: "skip_spaces m e w = Some q" "w \<le> q" "q \<le> e" "visible (slice m w q) = []"
    using skip_spaces_result [OF w(2)] by blast
  have "visible (slice m p q) = visible (slice m p w)"
    using visible_slices [of p w q m] w q readable by simp
  moreover have "ls_out s = out0" "\<And>x. ls_indent s = Some x \<Longrightarrow> x + 1 < width" using inv soft by (auto simp: line_inv_def)
  ultimately show ?thesis
    using w q width delim readable unfolding insert_soft_wrap_def w_def [symmetric] Let_def
    by (auto split: option.split)
qed

lemma wrap_loop_result:
  assumes ok: "wrappable m e nxt" and width: "10 \<le> width" "width + 2 < 2 ^ 32" and delim: "visible line_delim = []"
  shows "b \<le> p \<Longrightarrow> p \<le> e \<Longrightarrow> 0 < len \<Longrightarrow> len < width \<Longrightarrow> (\<And>w. indent = Some w \<Longrightarrow> w + 2 \<le> width) \<Longrightarrow>
    visible out = visible (slice m b p) \<Longrightarrow>
    \<exists>out'. wrap_loop nxt m e width line_delim p indent len out = Some out' \<and> visible out' = visible (slice m b e)"
proof (induction "e - p" arbitrary: p indent len out rule: less_induct)
  case less
  have all: "visible (slice m b q) = visible (slice m b p) @ visible (slice m p q)" if "p \<le> q" "q \<le> e" for q
    using visible_slices [OF less.prems(1) that(1), of m] that(2) readable by simp
  have "sub32 len 1 = len - 1" using less.prems(3,4) width(2) by (intro sub32_small) linarith+
  note step = wrap_loop.simps [of nxt m e width line_delim p indent len out, unfolded this]
  show ?case
  proof (cases "p < e \<and> \<not> e - p + (len - 1) < width")
    case False
    then have "wrap_loop nxt m e width line_delim p indent len out = Some (out @ slice m p e)"
      using less.prems(2) by (subst step) (auto simp: not_less)
    then show ?thesis using less.prems(2,6) all [of e] by simp
  next
    case True
    let ?s = "\<lparr> ls_ptr = p, ls_len = len, ls_wrap = None, ls_found = False, ls_indent = indent, ls_soft = True, ls_out = out \<rparr>"
    have "line_inv m e width p len out ?s" using less.prems True by (auto simp: line_inv_def)
    then obtain s where s: "scan_line nxt m e width line_delim p ?s = Some s" "line_inv m e width p len out s"
        "width < ls_len s \<or> e \<le> ls_ptr s"
      using scan_line_result [OF ok less.prems(4,3) delim width(2)] by blast
    have ind: "\<And>w. ls_indent s = Some w \<Longrightarrow> w + 2 \<le> width" using s(2) by (simp add: line_inv_def)
    consider "ls_ptr s = e \<and> ls_len s < width" | "\<not> (ls_ptr s = e \<and> ls_len s < width)" "ls_soft s"
      | "\<not> (ls_ptr s = e \<and> ls_len s < width)" "\<not> ls_soft s" by blast
    then show ?thesis
    proof cases
      case 1
      then have "ls_out s = out" using s(2) by (auto simp: line_inv_def split: if_splits)
      then show ?thesis using 1 True s(1) less.prems(6) all [of e]
        by (subst step) (simp add: wrap_loop.simps [of nxt m e width line_delim e])
    next
      case 2
      obtain out' q l where q: "insert_soft_wrap m e line_delim p s = Some (out', q, l)" "p < q" "q \<le> e" "0 < l" "l < width"
          "visible out' = visible out @ visible (slice m p q)"
        using soft_wrap_result [OF s(2) 2(2) less.prems(4) s(3) _ width(1) delim] True by blast
      have "e - q < e - p" "b \<le> q" "visible out' = visible (slice m b q)" using q less.prems(1,6) True all [of q] by auto
      then show ?thesis
        using less.hyps [of q l "ls_indent s" out'] q(3,4,5) ind q(1) s(1) 2 True by (subst step) auto
    next
      case 3
      have P: "p < ls_ptr s" "ls_ptr s \<le> e" "visible (ls_out s) = visible out @ visible (slice m p (ls_ptr s))"
        using s(2) 3(2) less.prems(4) by (auto simp: line_inv_def)
      have "e - ls_ptr s < e - p" "b \<le> ls_ptr s" "visible (ls_out s) = visible (slice m b (ls_ptr s))"
        using P less.prems(1,6) True all [of "ls_ptr s"] by auto
      then show ?thesis
        using less.hyps [of "ls_ptr s" 1 "ls_indent s" "ls_out s"] P(2) ind width(1) s(1) 3 True by (subst step) auto
    qed
  qed
qed

end

section \<open>UTF-8 text\<close>

lemma scan_while_stops:
  assumes "\<not> P (m ! t)" "t < length m" "t < n"
  shows "p \<le> t \<Longrightarrow> \<exists>r. scan_while P m p n = Some r \<and> p \<le> r \<and> r \<le> t"
proof (induction "t - p" arbitrary: p)
  case 0
  then show ?case using assms by (simp add: scan_while.simps [of P m p n])
next
  case (Suc k)
  have "k = t - Suc p" "Suc p \<le> t" using Suc.hyps(2) by auto
  from Suc.hyps(1) [OF this] show ?case
    using Suc.prems assms by (cases "P (m ! p)") (auto simp: scan_while.simps [of P m p n])
qed

interpretation utf8_advance: advance_func "s @ [0]" "length s" "next_utf8_char (s @ [0])" for s
proof
  show "length s < length (s @ [0])" by simp
  show "\<exists>r. next_utf8_char (s @ [0]) q = Some r \<and> q < r \<and> r \<le> length s" if "q < length s" for q
    using scan_while_stops [of "\<lambda>c. 0x80 \<le> c \<and> \<not> is_utf8_lead_byte c" "s @ [0]" "length s" "q + length (s @ [0]) + 2" "Suc q"] that
    by (auto simp: next_utf8_char_def next_utf8_char_inline_def)
qed

text \<open>No space or line break is followed by a stray continuation byte, and the text does not end in a hyphen.\<close>

definition breaks_alone :: "byte list \<Rightarrow> bool" where
  "breaks_alone s \<longleftrightarrow>
     list_all (\<lambda>(a, b). a \<in> {32, 13, 10} \<longrightarrow> b < 0x80 \<or> is_utf8_lead_byte b) (zip s (tl s)) \<and> (s \<noteq> [] \<longrightarrow> last s \<noteq> 45)"

lemma wrappable_text:
  assumes "breaks_alone s"
  shows "wrappable (s @ [0]) (length s) (next_utf8_char (s @ [0]))"
proof -
  let ?P = "\<lambda>c. 0x80 \<le> c \<and> \<not> is_utf8_lead_byte c"
  have "next_utf8_char (s @ [0]) q = Some (Suc q)" if "q < length s" "s ! q \<in> {32, 13, 10}" for q
  proof -
    have "\<not> ?P ((s @ [0]) ! Suc q)"
    proof (cases "Suc q < length s")
      case True
      then have "(s ! q, s ! Suc q) \<in> set (zip s (tl s))"
        by (auto simp: in_set_zip nth_tl intro!: exI [of _ q])
      then have "s ! Suc q < 0x80 \<or> is_utf8_lead_byte (s ! Suc q)"
        using assms that(2) by (fastforce simp: breaks_alone_def list_all_iff)
      then show ?thesis using True by (auto simp: nth_append)
    next
      case False
      then show ?thesis using that(1) by (simp add: nth_append)
    qed
    then show ?thesis using that(1) 
      by (auto simp: next_utf8_char_def next_utf8_char_inline_def scan_while.simps [of ?P "s @ [0]" "Suc q"])
  qed
  moreover have "(s @ [0]) ! q \<noteq> 45" if "Suc q = length s" for q
  proof -
    have "s \<noteq> []" "length s - 1 = q" using that by auto
    then have "last s = s ! q" by (simp add: last_conv_nth)
    then show ?thesis using assms that \<open>s \<noteq> []\<close> by (simp add: breaks_alone_def nth_append)
  qed
  ultimately show ?thesis by (auto simp: wrappable_def nth_append)
qed

text \<open>C37: On a null-terminated UTF-8 text, with a line delimiter of spaces and line breaks and a width between 10 and
  \<open>UINT_MAX - 2\<close>, \<open>wrap_lines\<close> returns and stays in memory, and wrapping changes nothing but spaces and line breaks: the
  characters between them come out in the same order, none lost and none doubled. The text must not have a
  continuation byte immediately after a space or line break, and its last character must not be a hyphen, which
  can lead to a read behind the terminator (\<open>wrap_lines_final_hyphen\<close>).\<close>

theorem wrap_lines_keeps_text:
  assumes "breaks_alone s" "10 \<le> width" "width \<le> 0xFFFFFFFD" "set line_delim \<subseteq> {32, 13, 10}"
  shows "\<exists>out. wrap_lines (cstr s) (strview_length (Some 0) (length s)) width line_delim (Some (next_utf8_char (cstr s))) =
      Some (Inr out) \<and> visible out = visible s"
proof -
  have "visible line_delim = []" using assms(4) by (simp add: visible_none)
  moreover have w: "10 \<le> unat width" "unat width + 2 < 2 ^ 32" using assms(2,3) by (simp_all add: word_le_nat_alt)
  ultimately obtain out where "wrap_loop (next_utf8_char (s @ [0])) (s @ [0]) (length s) (unat width) line_delim 0 None 1 [] = Some out"
      "visible out = visible (slice (s @ [0]) 0 (length s))"
    using utf8_advance.wrap_loop_result [OF wrappable_text [OF assms(1)] w, of line_delim 0 0 1 None "[]"] w(1)
    by auto
  then show ?thesis using assms(2) by (simp add: wrap_lines_def strview_length_def cstr_def slice_def)
qed

theorem wrap_lines_keeps_text_witness:
  "\<exists>out. wrap_lines (cstr (lit ''123456 8-12345'')) (strview_length (Some 0) (length (lit ''123456 8-12345'' :: byte list))) 10 [10]
      (Some (next_utf8_char (cstr (lit ''123456 8-12345'')))) = Some (Inr out) \<and> visible out = lit ''1234568-12345''"
proof -
  have "breaks_alone (lit ''123456 8-12345'')" "visible (lit ''123456 8-12345'') = lit ''1234568-12345''" by code_simp+
  then show ?thesis using wrap_lines_keeps_text [of "lit ''123456 8-12345''" 10 "[10]"] by simp
qed

text \<open>What the hypothesis excludes and what the delimiter does not reach, on concrete texts: the character after a hyphen
  is skipped, so that a line break behind it is found only after a soft wrap and gives an empty line; a hyphen as the
  last character leads to a read behind the terminator; and a rest shorter than the width is copied with its line
  breaks.\<close>

lemma wrap_lines_hyphen_newline:
  "wrap_lines (cstr (lit ''a-'' @ [10] @ lit ''bcdefghij'')) (strview_length (Some 0) 12) 10 [13, 10]
     (Some (next_utf8_char (cstr (lit ''a-'' @ [10] @ lit ''bcdefghij'')))) =
   Some (Inr (lit ''a-'' @ [13, 10, 13, 10] @ lit ''bcdefghij''))"
  by code_simp

lemma wrap_lines_final_hyphen:
  "wrap_lines (cstr [0xe6, 0x88, 0x91, 0xe8, 0xae, 0xa4, 0xe4, 0xb8, 0xba, 97, 45]) (strview_length (Some 0) 11) 10 [10]
     (Some (next_utf8_char (cstr [0xe6, 0x88, 0x91, 0xe8, 0xae, 0xa4, 0xe4, 0xb8, 0xba, 97, 45]))) = None"
  by code_simp

lemma wrap_lines_short_rest:
  "wrap_lines (cstr (97 # 10 # lit ''b'')) (strview_length (Some 0) 3) 10 [13, 10]
     (Some (next_utf8_char (cstr (97 # 10 # lit ''b'')))) = Some (Inr (97 # 10 # lit ''b''))"
  by code_simp

end
