(* ===== verification/Interp.thy ===== *)
theory Interp
  imports Str_View Scan_Numbers Strutil
begin

text \<open>
  \<open>core/text/arg.h\<close>, \<open>arg.cpp\<close>, \<open>interp.h\<close> and \<open>interp.cpp\<close>: arguments of several types and their interpolation into
  a format, \<open>interp("found {1} error{1 ~ s||s}", {n})\<close>. The family \<open>printf\<close> of the C library is an argument
  \<open>printf fmt x\<close>, the text that the format \<open>fmt\<close> makes of the one argument \<open>x\<close>; \<open>double\<close> is a type parameter and its
  conversion to \<open>int\<close> an argument. Paths are the bytes of their native form. The theorem states what a template
  expands to, for the whole syntax of references that \<open>interp.h\<close> describes.
\<close>

section \<open>Arguments\<close>

datatype 'd arg =
    vt_empty
  | vt_signed "64 word"
  | vt_unsigned "64 word"
  | vt_float 'd
  | vt_date
  | vt_string "byte list"
  | vt_cstr "byte list option"
  | vt_path "byte list"
  | vt_str_view buffer str_view
  | vt_bool bool

text \<open>What is passed to a function of the family \<open>printf\<close>: 64 bits, a \<open>double\<close> or a C string.\<close>

datatype 'd c_arg = c_bits "64 word" | c_double 'd | c_string "byte list"

type_synonym 'd c_printf = "byte list \<Rightarrow> 'd c_arg \<Rightarrow> byte list"

text \<open>The constructors of \<open>arg\<close> for narrow integers extend them.\<close>

definition arg_int32 :: "32 word \<Rightarrow> 'd arg" where
  "arg_int32 i = vt_signed (scast i)"

definition arg_uint32 :: "32 word \<Rightarrow> 'd arg" where
  "arg_uint32 u = vt_unsigned (ucast u)"

definition arg_int16 :: "16 word \<Rightarrow> 'd arg" where
  "arg_int16 i = vt_signed (scast i)"

definition arg_uint16 :: "16 word \<Rightarrow> 'd arg" where
  "arg_uint16 u = vt_unsigned (ucast u)"

definition arg_int8 :: "8 word \<Rightarrow> 'd arg" where
  "arg_int8 i = vt_signed (scast i)"

definition arg_uint8 :: "8 word \<Rightarrow> 'd arg" where
  "arg_uint8 u = vt_unsigned (ucast u)"

definition bool_text :: "bool \<Rightarrow> byte list" where
  "bool_text b = (if b then lit ''true'' else lit ''false'')"

text \<open>\<open>snprintf\<close> of the C library: the bytes it writes into a buffer of \<open>buflen\<close> bytes and its result.\<close>

definition c_snprintf :: "nat \<Rightarrow> byte list \<Rightarrow> byte list \<times> nat" where
  "c_snprintf buflen out = (if buflen = 0 then [] else take (buflen - 1) out @ [0], length out)"

definition c_str :: "byte list \<Rightarrow> byte list" where
  "c_str s = takeWhile (\<lambda>c. c \<noteq> 0) s"

text \<open>The method for \<open>std::string\<close>, also reached for paths.\<close>

definition snprintf_string :: "'d c_printf \<Rightarrow> byte list \<Rightarrow> nat \<Rightarrow> byte list option \<Rightarrow> byte list \<times> nat" where
  "snprintf_string printf s buflen fmt =
     (if buflen < length s + 1 then ([], length s)
      else case fmt of
        None \<Rightarrow> (s @ [0], length s)
      | Some f \<Rightarrow> c_snprintf buflen (printf f (c_string (c_str s))))"

definition or_default :: "byte list option \<Rightarrow> string \<Rightarrow> byte list" where
  "or_default fmt dflt = (case fmt of None \<Rightarrow> lit dflt | Some f \<Rightarrow> f)"

text \<open>\<open>arg::snprintf\<close>: the bytes written at the start of the buffer, and the result. A null buffer is \<^term>\<open>None\<close>.\<close>

definition arg_snprintf ::
  "'d c_printf \<Rightarrow> 'd arg \<Rightarrow> nat option \<Rightarrow> byte list option \<Rightarrow> (byte list \<times> nat) option" where
  "arg_snprintf printf a buf fmt =
     (let buflen = (case buf of None \<Rightarrow> 0 | Some n \<Rightarrow> n) in
      case a of
        vt_empty \<Rightarrow> Some (c_snprintf buflen (printf (or_default fmt ''%s'') (c_string [])))
      | vt_signed i \<Rightarrow> Some (c_snprintf buflen (printf (or_default fmt ''%lld'') (c_bits i)))
      | vt_unsigned u \<Rightarrow> Some (c_snprintf buflen (printf (or_default fmt ''%llu'') (c_bits u)))
      | vt_float d \<Rightarrow> Some (c_snprintf buflen (printf (or_default fmt ''%g'') (c_double d)))
      | vt_bool b \<Rightarrow> Some (c_snprintf buflen (printf (lit ''%s'') (c_string (bool_text b))))
      | vt_date \<Rightarrow> Some ([], 0)
      | vt_path s \<Rightarrow> Some (snprintf_string printf s buflen fmt)
      | vt_string s \<Rightarrow> Some (snprintf_string printf s buflen fmt)
      | vt_str_view m v \<Rightarrow>
          if buflen < sv_length v + 1 then Some ([], sv_length v)
          else do {
            s \<leftarrow> (if sv_bool v
                  then do { b \<leftarrow> sv_begin v; map_option (\<lambda>n. slice m b (b + n)) (strlen_from m b) }
                  else Some []);
            Some (c_snprintf (sv_length v + 1) (printf (or_default fmt ''%s'') (c_string s)))
          }
      | vt_cstr s \<Rightarrow> Some (c_snprintf buflen (printf (or_default fmt ''%s'')
          (c_string (case s of None \<Rightarrow> lit ''(null)'' | Some t \<Rightarrow> t)))))"

text \<open>\<open>arg::to_string\<close>, with its buffer of 36 bytes for numbers.\<close>

definition number_text :: "byte list \<Rightarrow> byte list" where
  "number_text out = c_str (fst (c_snprintf 36 out))"

definition arg_to_string :: "'d c_printf \<Rightarrow> 'd arg \<Rightarrow> byte list option \<Rightarrow> byte list option" where
  "arg_to_string printf a fmt =
     (case a of
        vt_empty \<Rightarrow> Some []
      | vt_string s \<Rightarrow> Some s
      | vt_str_view m v \<Rightarrow>
          (case sv_begin v of
             None \<Rightarrow> if sv_length v = 0 then Some [] else None
           | Some b \<Rightarrow> if b + sv_length v \<le> length m then Some (slice m b (b + sv_length v)) else None)
      | vt_path s \<Rightarrow> Some s
      | vt_cstr s \<Rightarrow> Some (case s of None \<Rightarrow> lit ''(null)'' | Some t \<Rightarrow> t)
      | vt_bool b \<Rightarrow> Some (bool_text b)
      | vt_signed i \<Rightarrow> Some (number_text (printf (or_default fmt ''%lld'') (c_bits i)))
      | vt_unsigned u \<Rightarrow> Some (number_text (printf (or_default fmt ''%llu'') (c_bits u)))
      | vt_float d \<Rightarrow> Some (number_text (printf (or_default fmt ''%g'') (c_double d)))
      | vt_date \<Rightarrow> Some [])"

section \<open>References to arguments\<close>

text \<open>\<open>value_to_compare\<close>: the cases of the switch; paths and views fall under its default.\<close>

definition value_to_compare :: "('d \<Rightarrow> 32 word) \<Rightarrow> 'd arg \<Rightarrow> 32 word" where
  "value_to_compare to_int a =
     (case a of
        vt_empty \<Rightarrow> 0
      | vt_signed i \<Rightarrow> ucast i
      | vt_unsigned u \<Rightarrow> ucast u
      | vt_float d \<Rightarrow> to_int d
      | vt_date \<Rightarrow> 0
      | vt_string s \<Rightarrow> if s = [] then 0 else 1
      | vt_cstr s \<Rightarrow> if s \<noteq> None \<and> s \<noteq> Some [] then 1 else 0
      | vt_bool b \<Rightarrow> if b then 1 else 0
      | vt_path s \<Rightarrow> 0
      | vt_str_view m v \<Rightarrow> 0)"

text \<open>The loop over the candidates from \<open>begin\<close>; it returns the chosen text.\<close>

partial_function (option) candidate_loop :: "buffer \<Rightarrow> nat \<Rightarrow> nat \<Rightarrow> int \<Rightarrow> nat \<Rightarrow> int \<Rightarrow> byte list option" where
  "candidate_loop m e end_of_arg val bgn j =
     do {
       r \<leftarrow> find_char m (Some bgn) 124 end_of_arg;
       end_of_section \<leftarrow> r;
       if (j = val \<and> end_of_section < e) \<or> end_of_section = end_of_arg
       then do {
         r \<leftarrow> rtrim m (Some bgn) end_of_section None;
         end_of_section \<leftarrow> r;
         Some (if bgn < end_of_section then slice m bgn end_of_section else [])
       }
       else candidate_loop m e end_of_arg val (Suc end_of_section) (j + 1)
     }"

declare candidate_loop.simps [code]

definition format_specifier_buflen :: nat where
  "format_specifier_buflen = 32"

text \<open>The sections of a reference behind its number: the text it expands to, or \<^term>\<open>None\<close> where the code falls
  through to the end of \<open>scan_arg\<close>.\<close>

definition expand_sections ::
  "'d c_printf \<Rightarrow> ('d \<Rightarrow> 32 word) \<Rightarrow> buffer \<Rightarrow> nat \<Rightarrow> 'd arg \<Rightarrow> nat \<Rightarrow> nat \<Rightarrow> byte list option option" where
  "expand_sections printf to_int m e a end_of_section end_of_arg =
     do {
       next \<leftarrow> scan_spaces_and_tabs m end_of_section e;
       c \<leftarrow> rd m next;
       if c = asc CHR ''%'' then do {
         r \<leftarrow> find_any_char m (Some next) (lit ''}='') e;
         end_of_section \<leftarrow> r;
         r \<leftarrow> rtrim m (Some next) end_of_section None;
         end_of_section \<leftarrow> r;
         if end_of_section < next + format_specifier_buflen
         then map_option Some (arg_to_string printf a (Some (c_str (slice m next end_of_section))))
         else Some None
       }
       else if c = asc CHR ''}'' \<or> c = asc CHR ''='' then map_option Some (arg_to_string printf a None)
       else if c = asc CHR ''~'' then do {
         r \<leftarrow> ltrim m (Some (Suc next)) end_of_arg None;
         bgn \<leftarrow> r;
         map_option Some (candidate_loop m e end_of_arg (sint (value_to_compare to_int a)) bgn 0)
       }
       else Some None
     }"

text \<open>\<open>scan_arg\<close>: the new position and the text that is appended. The position is \<open>p\<close> where there is no valid
  reference. The number is compared as \<open>unsigned\<close>, but used with its 64 bits.\<close>

definition scan_arg ::
  "'d c_printf \<Rightarrow> ('d \<Rightarrow> 32 word) \<Rightarrow> buffer \<Rightarrow> nat \<Rightarrow> nat \<Rightarrow> 'd arg list \<Rightarrow> 32 word \<Rightarrow> (nat \<times> byte list) option" where
  "scan_arg printf to_int m p e args max_arg =
     do {
       (end_of_section, n) \<leftarrow> scan_decimal_digits_pre_radix m p e;
       if n > 0 \<and> (ucast n :: u32) \<le> max_arg
       then do {
         a \<leftarrow> (if unat n - 1 < length args then Some (args ! (unat n - 1)) else None);
         r \<leftarrow> find_any_char m (Some end_of_section) (lit ''}'' @ [13, 10]) e;
         end_of_arg \<leftarrow> r;
         found \<leftarrow> (if end_of_arg < e then map_option (\<lambda>c. c = asc CHR ''}'') (rd m end_of_arg) else Some False);
         if found
         then do {
           txt \<leftarrow> expand_sections printf to_int m e a end_of_section end_of_arg;
           Some (case txt of None \<Rightarrow> (p, []) | Some t \<Rightarrow> (end_of_arg, t))
         }
         else Some (p, [])
       }
       else Some (p, [])
     }"

section \<open>Interpolation\<close>

definition max_arg_count :: "'d arg list \<Rightarrow> 32 word" where
  "max_arg_count args = (let n = of_nat (length args) :: 32 word in if n > 99 then 99 else n)"

function interp_loop ::
  "'d c_printf \<Rightarrow> ('d \<Rightarrow> 32 word) \<Rightarrow> buffer \<Rightarrow> nat \<Rightarrow> 'd arg list \<Rightarrow> nat \<Rightarrow> byte list \<Rightarrow> byte list option" where
  "interp_loop printf to_int m e args p txt =
     (if p = e then Some txt
      else if length m \<le> p then None
      else let c = m ! p in
        if c = asc CHR ''{'' \<and> p + 2 < e
        then case rd m (Suc p) of
            None \<Rightarrow> None
          | Some d \<Rightarrow>
              if d = asc CHR ''{'' then interp_loop printf to_int m e args (Suc (Suc p)) (txt @ [c])
              else (case scan_arg printf to_int m (Suc p) e args (max_arg_count args) of
                      None \<Rightarrow> None
                    | Some (end_of_arg, t) \<Rightarrow>
                        if Suc p < end_of_arg then interp_loop printf to_int m e args (Suc end_of_arg) (txt @ t)
                        else interp_loop printf to_int m e args (Suc (Suc p)) (txt @ t @ [asc CHR ''{'', d]))
        else interp_loop printf to_int m e args (Suc p) (txt @ [c]))"
  by pat_completeness auto
termination
  by (relation "measure (\<lambda>(pf, ti, m, e, args, p, txt). length m - p)") auto

declare interp_loop.simps [simp del]

definition interp_into ::
  "'d c_printf \<Rightarrow> ('d \<Rightarrow> 32 word) \<Rightarrow> byte list \<Rightarrow> buffer \<Rightarrow> 'd arg list \<Rightarrow> byte list option" where
  "interp_into printf to_int txt format args =
     do { e \<leftarrow> strlen_from format 0; interp_loop printf to_int format e args 0 txt }"

definition interp :: "'d c_printf \<Rightarrow> ('d \<Rightarrow> 32 word) \<Rightarrow> buffer \<Rightarrow> 'd arg list \<Rightarrow> byte list option" where
  "interp printf to_int format args = interp_into printf to_int [] format args"

definition interp_no_args :: "buffer \<Rightarrow> byte list option" where
  "interp_no_args format = map_option (\<lambda>n. take n format) (strlen_from format 0)"

section \<open>Templates\<close>

datatype piece =
    Literal "byte list"
  | Brace
  | Reference nat "(byte list \<times> byte list) option" "(byte list \<times> byte list) option" "byte list"
  | Choice nat "byte list" "byte list" "byte list list"

definition decimal :: "nat \<Rightarrow> byte list" where
  "decimal n = (if n < 10 then [48 + of_nat n] else [48 + of_nat (n div 10), 48 + of_nat (n mod 10)])"

fun candidates :: "byte list list \<Rightarrow> byte list" where
  "candidates [] = []"
| "candidates [x] = x"
| "candidates (x # xs) = x @ 124 # candidates xs"

text \<open>A format specifier and a comment, each behind blanks, and the blanks before the closing brace.\<close>

definition sections :: "(byte list \<times> byte list) option \<Rightarrow> (byte list \<times> byte list) option \<Rightarrow> byte list \<Rightarrow> byte list" where
  "sections fmt comment tail =
     (case fmt of None \<Rightarrow> [] | Some (w, f) \<Rightarrow> w @ f) @ (case comment of None \<Rightarrow> [] | Some (w, c) \<Rightarrow> w @ 61 # c) @ tail"

fun render :: "piece \<Rightarrow> byte list" where
  "render (Literal s) = s"
| "render Brace = lit ''{{''"
| "render (Reference n fmt comment tail) = 123 # decimal n @ sections fmt comment tail @ [125]"
| "render (Choice n w w' opts) = 123 # decimal n @ (w @ 126 # w' @ candidates opts) @ [125]"

definition plain :: "byte list \<Rightarrow> byte list \<Rightarrow> bool" where
  "plain bad s \<longleftrightarrow> list_all (\<lambda>c. c \<noteq> 0 \<and> c \<notin> set bad) s"

definition trimmed :: "byte list \<Rightarrow> bool" where
  "trimmed s \<longleftrightarrow> s = [] \<or> \<not> in_cset ANY_WHITESPACE (last s)"

definition blanks :: "byte list \<Rightarrow> bool" where
  "blanks s \<longleftrightarrow> list_all (\<lambda>c. c = 32 \<or> c = 9) s"

fun wf_piece :: "nat \<Rightarrow> piece \<Rightarrow> bool" where
  "wf_piece k (Literal s) \<longleftrightarrow> s \<noteq> [] \<and> plain [123] s"
| "wf_piece k Brace \<longleftrightarrow> True"
| "wf_piece k (Reference n fmt comment tail) \<longleftrightarrow> 1 \<le> n \<and> n \<le> k \<and> n \<le> 99 \<and> blanks tail \<and>
     (case fmt of None \<Rightarrow> True
      | Some (w, f) \<Rightarrow> blanks w \<and> f \<noteq> [] \<and> hd f = asc CHR ''%'' \<and> length f < 32 \<and> plain [125, 61, 13, 10] f \<and> trimmed f) \<and>
     (case comment of None \<Rightarrow> True | Some (w, c) \<Rightarrow> blanks w \<and> plain [125, 13, 10] c)"
| "wf_piece k (Choice n w w' opts) \<longleftrightarrow> 1 \<le> n \<and> n \<le> k \<and> n \<le> 99 \<and> blanks w \<and> blanks w' \<and> opts \<noteq> [] \<and>
     list_all (plain [124, 125, 13, 10]) opts \<and>
     (hd opts = [] \<or> \<not> in_cset ANY_WHITESPACE (hd (hd opts)))"

definition wf_template :: "'d arg list \<Rightarrow> piece list \<Rightarrow> bool" where
  "wf_template args ps \<longleftrightarrow> length args < 2 ^ 32 \<and> list_all (wf_piece (length args)) ps"

text \<open>A text without the white space at its end.\<close>

definition without_tail :: "byte list \<Rightarrow> byte list" where
  "without_tail s = rev (dropWhile (in_cset ANY_WHITESPACE) (rev s))"

definition pick :: "int \<Rightarrow> 'a list \<Rightarrow> 'a" where
  "pick v opts = (if 0 \<le> v \<and> v < int (length opts) then opts ! nat v else last opts)"

fun expansion :: "'d c_printf \<Rightarrow> ('d \<Rightarrow> 32 word) \<Rightarrow> 'd arg list \<Rightarrow> piece \<Rightarrow> byte list option" where
  "expansion printf to_int args (Literal s) = Some s"
| "expansion printf to_int args Brace = Some (lit ''{'')"
| "expansion printf to_int args (Reference n fmt comment tail) = arg_to_string printf (args ! (n - 1)) (map_option snd fmt)"
| "expansion printf to_int args (Choice n w w' opts) = Some (without_tail (pick (sint (value_to_compare to_int (args ! (n - 1)))) opts))"

text \<open>A doubled brace at the very end of the template is not recognised.\<close>

fun expansions :: "'d c_printf \<Rightarrow> ('d \<Rightarrow> 32 word) \<Rightarrow> 'd arg list \<Rightarrow> piece list \<Rightarrow> byte list option" where
  "expansions printf to_int args [] = Some []"
| "expansions printf to_int args (x # ps) =
     (if x = Brace \<and> ps = [] then Some (lit ''{{'')
      else do {
        t \<leftarrow> expansion printf to_int args x;
        ts \<leftarrow> expansions printf to_int args ps;
        Some (t @ ts)
      })"

lemma without_tail_split:
  obtains ws where "s = without_tail s @ ws" "list_all (in_cset ANY_WHITESPACE) ws"
    "without_tail s = [] \<or> \<not> in_cset ANY_WHITESPACE (last (without_tail s))"
proof
  let ?P = "in_cset ANY_WHITESPACE"
  show "s = without_tail s @ rev (takeWhile ?P (rev s))"
    by (metis rev_append rev_rev_ident takeWhile_dropWhile_id without_tail_def)
  show "list_all ?P (rev (takeWhile ?P (rev s)))" by (auto simp: list_all_iff dest: set_takeWhileD)
  show "without_tail s = [] \<or> \<not> ?P (last (without_tail s))"
    using hd_dropWhile [of ?P "rev s"] by (cases "dropWhile ?P (rev s)") (auto simp: without_tail_def last_rev)
qed

lemma candidate_loop_pick:
  assumes "slice m bgn e' = candidates opts" "opts \<noteq> []" "bgn \<le> e'" "e' < e" "e \<le> length m"
    "list_all (plain [124, 125, 13, 10]) opts"
  shows "candidate_loop m e e' v bgn j = Some (without_tail (pick (v - j) opts))"
  using assms
proof (induction opts arbitrary: bgn j)
  case Nil
  then show ?case by simp
next
  case (Cons s opts)
  define rest where "rest = (if opts = [] then [] else 124 # candidates opts)"
  have sl: "slice m bgn e' = s @ rest" using Cons.prems(1) by (cases opts) (auto simp: rest_def)
  have s: "list_all (\<lambda>c. c \<noteq> 124) s" using Cons.prems(6) by (auto simp: plain_def list_all_iff)
  obtain ws where ws: "s = without_tail s @ ws" "list_all (in_cset ANY_WHITESPACE) ws"
    "without_tail s = [] \<or> \<not> in_cset ANY_WHITESPACE (last (without_tail s))" by (rule without_tail_split)
  have "scan_while (\<lambda>x. x \<noteq> 124) m bgn e' = Some (bgn + length s)"
    using sl s Cons.prems(3-5) by (intro scan_while_upto [where ys = rest]) (auto simp: rest_def)
  then have f: "find_char m (Some bgn) 124 e' = Some (Some (bgn + length s))"
    using Cons.prems(3) by (simp add: find_char_def)
  have sl': "slice m bgn e' = without_tail s @ ws @ rest" using sl ws(1) by (metis append.assoc)
  have len: "length s = length (without_tail s) + length ws" using ws(1) by (metis length_append)
  have r: "rtrim m (Some bgn) (bgn + length s) None = Some (Some (bgn + length (without_tail s)))"
    using rtrim_upto [OF sl' ws(2,3)] Cons.prems(3-5) len by (simp add: add.assoc)
  have "bgn \<le> e' \<and> e' \<le> length m" using Cons.prems(3-5) by simp
  then have ap: "bgn + length s \<le> e'" "slice m (bgn + length s) e' = rest" "slice m bgn (bgn + length (without_tail s)) = without_tail s"
    using slice_appendD [OF sl] slice_appendD [OF sl'] by auto
  show ?case
  proof (cases "opts = []")
    case True
    then have "bgn + length s = e'"
      using ap(1,2) length_slice [of e' m "bgn + length s"] Cons.prems(4,5) by (simp add: rest_def)
    then show ?thesis using True f r ap(3)
      by (subst candidate_loop.simps) (auto simp: pick_def)
  next
    case False
    then have ne: "bgn + length s < e'" "slice m (Suc (bgn + length s)) e' = candidates opts"
      using slice_ConsD [of m "bgn + length s" e' 124 "candidates opts"] ap(2) Cons.prems(4,5) by (auto simp: rest_def)
    show ?thesis
    proof (cases "j = v")
      case True
      then show ?thesis using f r ap(3) ne Cons.prems(4)
        by (subst candidate_loop.simps) (auto simp: pick_def)
    next
      case neq: False
      have "candidate_loop m e e' v (Suc (bgn + length s)) (j + 1) = Some (without_tail (pick (v - (j + 1)) opts))"
        using ne False Cons.prems(4-6) by (intro Cons.IH) auto
      moreover have "nat (v - (j + 1)) = nat (v - j) - 1" by arith
      then have "pick (v - (j + 1)) opts = pick (v - j) (s # opts)"
        using neq False by (auto simp: pick_def nth_Cons')
      ultimately show ?thesis using f ne neq
        by (subst candidate_loop.simps) auto
    qed
  qed
qed

lemma digit_char: "d < 10 \<Longrightarrow> small_digit 10 (48 + of_nat d) = Some d"
proof -
  assume "d < 10"
  moreover have "list_all (\<lambda>d. small_digit 10 (48 + of_nat d) = Some d) [0..<10]" by code_simp
  ultimately show ?thesis by (auto simp: list_all_iff)
qed

lemma decimal_scanned:
  assumes "1 \<le> n" "n \<le> 99"
  shows "list_all (\<lambda>c. small_digit 10 c \<noteq> None) (decimal n) \<and> decimal n \<noteq> [] \<and>
    digits_value 10 (List.map_filter (small_digit 10) (decimal n)) = n"
  using assms digit_char [of n] digit_char [of "n div 10"] digit_char [of "n mod 10"]
  by (simp add: decimal_def digits_value_def List.map_filter_simps)

lemma scan_number_of_reference:
  assumes "slice m p e = decimal n @ c # ys" "c \<in> {32, 9, 37, 61, 126, 125}" "1 \<le> n" "n \<le> 99" "p \<le> e" "e \<le> length m"
  shows "scan_decimal_digits_pre_radix m p e = Some (p + length (decimal n), of_nat n)"
proof -
  have "small_digit 10 c = None" "c \<noteq> asc CHR ''_''" using assms(2) by (auto simp: small_digit_def get_ascii_digit_value_def)
  then have "digit_run (small_digit 10) (slice m p e) = decimal n"
    unfolding digit_run_def assms(1) using decimal_scanned [OF assms(3,4)]
    by (intro takeWhile_upto) (auto simp: list_all_iff)
  then show ?thesis
    using decimal_scan.scan_digits_value [OF assms(5,6)] decimal_scanned [OF assms(3,4)]
    by (simp add: scan_decimal_digits_pre_radix_def run_value_def)
qed

lemma blanks_scanned:
  assumes "slice m p e = w @ c # zs" "blanks w" "c \<noteq> 32" "c \<noteq> 9" "p \<le> e" "e \<le> length m"
  shows "scan_spaces_and_tabs m p e = Some (p + length w)" "m ! (p + length w) = c" "p + length w < e"
proof -
  show "scan_spaces_and_tabs m p e = Some (p + length w)"
    unfolding scan_spaces_and_tabs_def using assms by (intro scan_while_upto [where ys = "c # zs"]) (auto simp: blanks_def)
  show "m ! (p + length w) = c" "p + length w < e"
    using slice_appendD [OF assms(1,5,6)] slice_ConsD [of m "p + length w" e c zs] assms(6) by auto
qed

lemma blanks_whitespace: "blanks w \<Longrightarrow> list_all (in_cset ANY_WHITESPACE) w"
  by (auto simp: blanks_def list_all_iff in_cset_def ANY_WHITESPACE_def)

lemma blanks_plain: "blanks w \<Longrightarrow> set bad \<inter> {32, 9} = {} \<Longrightarrow> plain bad w"
  by (auto simp: blanks_def plain_def list_all_iff)

text \<open>The blanks behind the number or the format, and the character that ends them.\<close>

lemma sections_tail:
  assumes "wf_piece k (Reference n fmt comment tail)"
  obtains ws c zs where "(case comment of None \<Rightarrow> [] | Some (w, c) \<Rightarrow> w @ 61 # c) @ tail @ 125 # ys = ws @ c # zs" "blanks ws" "c \<in> {125, 61}"
proof (cases comment)
  case None
  then show thesis using that [of tail 125 ys] assms by auto
next
  case (Some x)
  then show thesis using that [of "fst x" 61 "snd x @ tail @ 125 # ys"] assms by (cases x) auto
qed

lemma expand_reference:
  assumes "slice m p e = sections fmt comment tail @ 125 # ys" "wf_piece k (Reference n fmt comment tail)" "p \<le> e" "e \<le> length m"
  shows "expand_sections printf to_int m e a p (p + length (sections fmt comment tail)) =
    map_option Some (arg_to_string printf a (map_option snd fmt))"
proof -
  obtain ws c zs where ws: "(case comment of None \<Rightarrow> [] | Some (w, c) \<Rightarrow> w @ 61 # c) @ tail @ 125 # ys = ws @ c # zs"
      "blanks ws" "c \<in> {125, 61}" by (rule sections_tail [OF assms(2)])
  show ?thesis
  proof (cases fmt)
    case None
    have "slice m p e = ws @ c # zs" using assms(1) ws(1) None by (simp add: sections_def)
    from blanks_scanned [OF this ws(2) _ _ assms(3,4)] ws(3) show ?thesis using assms(4) None by (auto simp: expand_sections_def)
  next
    case (Some x)
    obtain w f where x: "x = (w, f)" by (cases x)
    then have f: "f \<noteq> []" "hd f = asc CHR ''%''" "length f < 32" "plain [125, 61, 13, 10] f" "trimmed f" "blanks w"
      using assms(2) Some by auto
    obtain f' where f': "f = 37 # f'" using f(1,2) by (cases f) auto
    have sl0: "slice m p e = w @ f @ ws @ c # zs" using assms(1) ws(1) Some x by (simp add: sections_def)
    let ?p = "p + length w"
    have spaces: "scan_spaces_and_tabs m p e = Some ?p" "m ! ?p = 37" "?p < e"
      using blanks_scanned [of m p e w 37 "f' @ ws @ c # zs"] sl0 f' f(6) assms(3,4) by simp_all
    have sl: "slice m ?p e = f @ ws @ c # zs" and le: "?p \<le> e" using slice_appendD [OF sl0 assms(3,4)] by auto
    have "scan_while (\<lambda>x. \<not> in_cset (lit ''}='') x) m ?p e = Some (?p + length (f @ ws))"
      using sl le assms(4) f(4) ws(2,3)
      by (intro scan_while_upto [where ys = "c # zs"]) (auto simp: in_cset_def plain_def blanks_def list_all_iff)
    moreover have "rtrim m (Some ?p) (?p + length f + length ws) None = Some (Some (?p + length f))"
      using sl le assms(4) f(5) blanks_whitespace [OF ws(2)] by (intro rtrim_upto [where ys = "c # zs"]) (auto simp: trimmed_def)
    moreover have "slice m ?p (?p + length f) = f" using slice_appendD [OF sl le assms(4)] by simp
    moreover have "c_str f = f" using f(4) by (auto simp: c_str_def plain_def list_all_iff)
    ultimately show ?thesis using assms(4) Some x f(3) spaces
      by (simp add: expand_sections_def find_any_char_def format_specifier_buflen_def add.assoc)
  qed
qed

lemma expand_choice:
  assumes "slice m p e = (w @ 126 # w' @ candidates opts) @ 125 # ys" "wf_piece k (Choice n w w' opts)" "p \<le> e" "e \<le> length m"
  shows "expand_sections printf to_int m e a p (p + length (w @ 126 # w' @ candidates opts)) =
    Some (Some (without_tail (pick (sint (value_to_compare to_int a)) opts)))"
proof -
  let ?b = "w @ 126 # w' @ candidates opts"
  let ?e = "p + length ?b" and ?q = "p + length w"
  have up: "slice m p ?e = ?b" "slice m ?e e = 125 # ys" using slice_appendD [OF assms(1,3,4)] by auto
  have e: "?e < e" using slice_ConsD [OF up(2) assms(4)] by simp
  have spaces: "scan_spaces_and_tabs m p e = Some ?q" "m ! ?q = 126" "?q < e"
    using blanks_scanned [of m p e w 126 "w' @ candidates opts @ 125 # ys"] assms by simp_all
  have "slice m ?q ?e = 126 # w' @ candidates opts" using slice_appendD [OF up(1)] e assms(4) by simp
  then have tail: "slice m (Suc ?q) ?e = w' @ candidates opts" using slice_ConsD [of m ?q ?e 126] e assms(4) by simp
  have len: "Suc ?q \<le> ?e" "?e \<le> length m" using e assms(4) by simp_all
  have tail2: "slice m (Suc ?q + length w') ?e = candidates opts" using slice_appendD [OF tail len] by simp
  have "candidates opts = [] \<or> \<not> in_cset ANY_WHITESPACE (hd (candidates opts))"
    using assms(2) by (cases opts rule: candidates.cases) (auto simp: hd_append in_cset_def ANY_WHITESPACE_def)
  then have "scan_while (in_cset ANY_WHITESPACE) m (Suc ?q) ?e = Some (Suc ?q + length w')"
    using tail len assms(2) blanks_whitespace by (intro scan_while_upto [where ys = "candidates opts"]) auto
  moreover have "candidate_loop m e ?e (sint (value_to_compare to_int a)) (Suc ?q + length w') 0 =
      Some (without_tail (pick (sint (value_to_compare to_int a)) opts))"
    using candidate_loop_pick [OF tail2, of e "sint (value_to_compare to_int a)" 0] assms(2,4) e by auto
  ultimately show ?thesis using spaces len assms(4)
    by (simp add: expand_sections_def ltrim_def chars_or_default_def)
qed

lemma scan_arg_valid:
  assumes "slice m p e = decimal n @ body @ 125 # ys" "body = [] \<or> hd body \<in> {32, 9, 37, 61, 126}" "plain [125, 13, 10] body"
    "p \<le> e" "e \<le> length m" "1 \<le> n" "n \<le> 99" "n \<le> length args" "length args < 2 ^ 32"
    "expand_sections printf to_int m e (args ! (n - 1)) (p + length (decimal n)) (p + length (decimal n) + length body) =
      map_option Some r"
  shows "scan_arg printf to_int m p e args (max_arg_count args) =
    map_option (\<lambda>t. (p + length (decimal n) + length body, t)) r"
proof -
  let ?q = "p + length (decimal n)"
  obtain c zs where c: "body @ 125 # ys = c # zs" "c \<in> {32, 9, 37, 61, 126, 125}" using assms(2) by (cases body) auto
  then have n: "scan_decimal_digits_pre_radix m p e = Some (?q, of_nat n)"
    using assms(1,4-7) by (intro scan_number_of_reference [where ys = zs]) auto
  have q: "slice m ?q e = body @ 125 # ys" "?q \<le> e" using slice_appendD [OF assms(1,4,5)] by auto
  have "scan_while (\<lambda>x. \<not> in_cset (lit ''}'' @ [13, 10]) x) m ?q e = Some (?q + length body)"
    using q assms(3,5) by (intro scan_while_upto [where ys = "125 # ys"]) (auto simp: in_cset_def plain_def list_all_iff)
  then have f: "find_any_char m (Some ?q) (lit ''}'' @ [13, 10]) e = Some (Some (?q + length body))"
    using q(2) by (simp add: find_any_char_def)
  have e: "?q + length body < e" "m ! (?q + length body) = 125"
    using slice_appendD [OF q assms(5)] slice_ConsD [of m "?q + length body" e 125 ys] assms(5) by auto
  have n64: "unat (of_nat n :: u64) = n" using assms(7) by (simp add: unat_of_nat)
  then have "unat (ucast (of_nat n :: u64) :: u32) = n" using assms(7) by (simp add: unsigned_ucast_eq take_bit_nat_eq_self)
  moreover have "unat (of_nat (length args) :: u32) = length args" using assms(9) by (simp add: unat_of_nat)
  ultimately have "(of_nat n :: u64) > 0" "(ucast (of_nat n :: u64) :: u32) \<le> max_arg_count args"
    using assms(6-8) by (auto simp: max_arg_count_def Let_def word_less_nat_alt word_le_nat_alt n64)
  then show ?thesis using n f e assms(5,8,10) n64 assms(6)
    by (cases r) (simp_all add: scan_arg_def)
qed

lemma interp_reference:
  assumes "slice m p e = 123 # decimal n @ body @ 125 # ys" "body = [] \<or> hd body \<in> {32, 9, 37, 61, 126}" "plain [125, 13, 10] body"
    "p \<le> e" "e \<le> length m" "1 \<le> n" "n \<le> 99" "n \<le> length args" "length args < 2 ^ 32"
    "expand_sections printf to_int m e (args ! (n - 1)) (Suc p + length (decimal n)) (Suc p + length (decimal n) + length body) =
      map_option Some r"
  shows "interp_loop printf to_int m e args p out =
    r \<bind> (\<lambda>t. interp_loop printf to_int m e args (p + length (123 # decimal n @ body @ [125])) (out @ t))"
proof -
  have p: "p < e" "m ! p = 123" "slice m (Suc p) e = decimal n @ body @ 125 # ys" using slice_ConsD [OF assms(1,5)] by auto
  obtain d ds where d: "decimal n = d # ds" using decimal_scanned [OF assms(6,7)] by (cases "decimal n") auto
  then have "small_digit 10 d \<noteq> None" using decimal_scanned [OF assms(6,7)] by auto
  then have d123: "d \<noteq> 123" by (auto simp: small_digit_def get_ascii_digit_value_def split: if_splits)
  have d1: "m ! Suc p = d" "Suc p < e" using slice_ConsD [of m "Suc p" e d "ds @ body @ 125 # ys"] p(3) d assms(5) by auto
  have "e - p = Suc (Suc (length ds + (length body + Suc (length ys))))"
    using arg_cong [OF assms(1), of length] assms(5) d by simp
  then have "p + 2 < e" by simp
  moreover have "scan_arg printf to_int m (Suc p) e args (max_arg_count args) =
      map_option (\<lambda>t. (Suc p + length (decimal n) + length body, t)) r"
    using p assms(2-10) by (intro scan_arg_valid [where ys = ys]) auto
  ultimately show ?thesis using p d1 d d123 assms(5)
    by (subst interp_loop.simps) (cases r, auto simp: add.assoc add.commute add.left_commute)
qed

lemma plain_simps [simp]:
  "plain bad []" "plain bad (c # s) \<longleftrightarrow> c \<noteq> 0 \<and> c \<notin> set bad \<and> plain bad s" "plain bad (s @ t) \<longleftrightarrow> plain bad s \<and> plain bad t"
  by (simp_all add: plain_def)

lemma plain_mono: "plain bad s \<Longrightarrow> set bad' \<subseteq> set bad \<Longrightarrow> plain bad' s"
  by (auto simp: plain_def list_all_iff)

lemma candidates_plain:
  assumes "list_all (plain [124, 125, 13, 10]) opts"
  shows "plain [125, 13, 10] (candidates opts)"
proof -
  have "list_all (plain [125, 13, 10]) opts"
    using assms plain_mono [of "[124, 125, 13, 10]" _ "[125, 13, 10]"] by (auto simp: list_all_iff)
  then show ?thesis by (induction opts rule: candidates.induct) simp_all
qed

lemma decimal_no_null: "1 \<le> n \<Longrightarrow> n \<le> 99 \<Longrightarrow> 0 \<notin> set (decimal n)"
proof -
  assume n: "1 \<le> n" "n \<le> 99"
  have "small_digit 10 0 = None" by code_simp
  then show ?thesis using decimal_scanned [OF n] by (auto simp: list_all_iff)
qed

lemma plain_no_null: "plain bad s \<Longrightarrow> 0 \<notin> set s"
  by (auto simp: plain_def list_all_iff)

lemma sections_plain:
  assumes "wf_piece k (Reference n fmt comment tail)"
  shows "plain [125, 13, 10] (sections fmt comment tail)"
    "sections fmt comment tail = [] \<or> hd (sections fmt comment tail) \<in> {32, 9, 37, 61, 126}"
proof -
  have "blanks tail" using assms by simp
  moreover have "plain [125, 13, 10] w" if "blanks w" for w using blanks_plain [OF that] by simp
  moreover have "plain [125, 13, 10] f" if "plain [125, 61, 13, 10] f" for f using plain_mono [OF that] by auto
  ultimately show "plain [125, 13, 10] (sections fmt comment tail)"
    using assms by (auto simp: sections_def split: option.splits prod.splits)
  have "xs = [] \<or> hd xs \<in> {32, 9}" if "blanks xs" for xs using that by (cases xs) (auto simp: blanks_def)
  then show "sections fmt comment tail = [] \<or> hd (sections fmt comment tail) \<in> {32, 9, 37, 61, 126}"
    using assms by (fastforce simp: sections_def hd_append split: option.splits prod.splits)
qed

lemma choice_plain:
  assumes "wf_piece k (Choice n w w' opts)"
  shows "plain [125, 13, 10] (w @ 126 # w' @ candidates opts)" "hd (w @ 126 # w' @ candidates opts) \<in> {32, 9, 37, 61, 126}"
proof -
  show "plain [125, 13, 10] (w @ 126 # w' @ candidates opts)"
    using assms candidates_plain [of opts] blanks_plain [of w "[125, 13, 10]"] blanks_plain [of w' "[125, 13, 10]"] by simp
  show "hd (w @ 126 # w' @ candidates opts) \<in> {32, 9, 37, 61, 126}"
    using assms by (cases w) (auto simp: blanks_def)
qed

lemma render_no_null: "wf_piece k x \<Longrightarrow> 0 \<notin> set (render x)"
proof (cases x)
  case (Reference n fmt comment tail)
  assume "wf_piece k x"
  then show ?thesis using Reference decimal_no_null [of n] plain_no_null [OF sections_plain(1), of k n fmt comment tail] by simp
next
  case (Choice n w w' opts)
  assume "wf_piece k x"
  then show ?thesis using Choice decimal_no_null [of n] plain_no_null [OF choice_plain(1), of k n w w' opts] by simp
qed (auto dest: plain_no_null)

lemma wf_render_nonempty: "wf_piece k x \<Longrightarrow> render x \<noteq> []"
  by (cases x) auto

lemma interp_piece:
  assumes "slice m p e = render x @ ys" "wf_piece (length args) x" "x = Brace \<Longrightarrow> ys \<noteq> []"
    "p \<le> e" "e \<le> length m" "length args < 2 ^ 32"
  shows "interp_loop printf to_int m e args p out =
    expansion printf to_int args x \<bind> (\<lambda>t. interp_loop printf to_int m e args (p + length (render x)) (out @ t))"
proof (cases x)
  case (Literal s)
  have "interp_loop printf to_int m e args p out = interp_loop printf to_int m e args (p + length s) (out @ s)"
    if "slice m p e = s @ ys" "plain [123] s" "p \<le> e" for s
    using that
  proof (induction s arbitrary: p out)
    case (Cons c s)
    have "p < e" "m ! p = c" "slice m (Suc p) e = s @ ys" using slice_ConsD [of m p e c "s @ ys"] Cons.prems(1) assms(5) by auto
    then show ?case using Cons.IH [of "Suc p" "out @ [c]"] Cons.prems(2) assms(5)
      by (subst interp_loop.simps) (auto simp: plain_def)
  qed simp
  then show ?thesis using Literal assms by auto
next
  case Brace
  then have s: "slice m p e = 123 # 123 # ys" "ys \<noteq> []" using assms(1,3) by auto
  have p: "p < e" "m ! p = 123" "slice m (Suc p) e = 123 # ys" using slice_ConsD [OF s(1) assms(5)] by auto
  have p': "Suc p < e" "m ! Suc p = 123" "slice m (Suc (Suc p)) e = ys" using slice_ConsD [OF p(3) assms(5)] by auto
  then have "p + 2 < e" using s(2) by (cases "p + 2 < e") auto
  then show ?thesis using Brace p p' assms(5) by (subst interp_loop.simps) simp
next
  case (Reference n fmt comment tail)
  let ?b = "sections fmt comment tail"
  note wf = sections_plain [of "length args" n fmt comment tail]
  have sl: "slice m p e = 123 # decimal n @ ?b @ 125 # ys" using assms(1) Reference by simp
  have "slice m (Suc p + length (decimal n)) e = ?b @ 125 # ys \<and> Suc p + length (decimal n) \<le> e"
    using slice_appendD [of m "Suc p" e "decimal n" "?b @ 125 # ys"] slice_ConsD [OF sl assms(5)] assms(5) by auto
  then have "expand_sections printf to_int m e (args ! (n - 1)) (Suc p + length (decimal n))
      (Suc p + length (decimal n) + length ?b) = map_option Some (arg_to_string printf (args ! (n - 1)) (map_option snd fmt))"
    using assms(2,5) Reference by (intro expand_reference [where ys = ys]) auto
  then show ?thesis using interp_reference [OF sl _ _ assms(4,5) _ _ _ assms(6)] assms(2) Reference wf by simp
next
  case (Choice n w w' opts)
  let ?b = "w @ 126 # w' @ candidates opts"
  note wf = choice_plain [of "length args" n w w' opts]
  have sl: "slice m p e = 123 # decimal n @ ?b @ 125 # ys" using assms(1) Choice by simp
  have "slice m (Suc p + length (decimal n)) e = ?b @ 125 # ys \<and> Suc p + length (decimal n) \<le> e"
    using slice_appendD [of m "Suc p" e "decimal n" "?b @ 125 # ys"] slice_ConsD [OF sl assms(5)] assms(5) by auto
  then have "expand_sections printf to_int m e (args ! (n - 1)) (Suc p + length (decimal n))
      (Suc p + length (decimal n) + length ?b) = map_option Some (expansion printf to_int args x)"
    using assms(2,5) Choice expand_choice [of m "Suc p + length (decimal n)" e w w' opts ys "length args" n] by (simp del: length_append)
  then show ?thesis
    using interp_reference [OF sl _ _ assms(4,5) _ _ _ assms(6), of printf to_int "expansion printf to_int args x" out]
      assms(2) Choice wf by simp
qed

lemma interp_pieces:
  assumes "slice m p e = concat (map render ps)" "list_all (wf_piece (length args)) ps"
    "p \<le> e" "e \<le> length m" "length args < 2 ^ 32"
  shows "interp_loop printf to_int m e args p out = map_option (\<lambda>t. out @ t) (expansions printf to_int args ps)"
  using assms(1-3)
proof (induction ps arbitrary: p out)
  case Nil
  then have "p = e" using length_slice [OF assms(4), of p] by simp
  then show ?case by (simp add: interp_loop.simps)
next
  case (Cons x ps)
  show ?case
  proof (cases "x = Brace \<and> ps = []")
    case True
    then have s: "slice m p e = [123, 123]" using Cons.prems(1) by simp
    have p: "p < e" "m ! p = 123" "slice m (Suc p) e = [123]" using slice_ConsD [OF s assms(4)] by auto
    have p': "Suc p < e" "m ! Suc p = 123" "slice m (Suc (Suc p)) e = []" using slice_ConsD [OF p(3) assms(4)] by auto
    then have "e = Suc (Suc p)" using length_slice [OF assms(4), of "Suc (Suc p)"] by simp
    then show ?thesis using True p p' assms(4)
      by (simp add: interp_loop.simps [of _ _ _ _ _ p] interp_loop.simps [of _ _ _ _ _ "Suc p"] interp_loop.simps [of _ _ _ _ _ "Suc (Suc p)"])
  next
    case False
    then have "x = Brace \<Longrightarrow> concat (map render ps) \<noteq> []" using Cons.prems(2) wf_render_nonempty by (cases ps) auto
    then have "interp_loop printf to_int m e args p out =
        expansion printf to_int args x \<bind> (\<lambda>t. interp_loop printf to_int m e args (p + length (render x)) (out @ t))"
      using Cons.prems assms(4,5) by (intro interp_piece) auto
    moreover have "p + length (render x) \<le> e \<and> slice m (p + length (render x)) e = concat (map render ps)"
      using slice_appendD [of m p e "render x"] Cons.prems(1,3) assms(4) by auto
    moreover have "expansions printf to_int args (x # ps) = expansion printf to_int args x \<bind> (\<lambda>t. map_option (\<lambda>ts. t @ ts) (expansions printf to_int args ps))"
      using False by (cases "expansions printf to_int args ps") auto
    ultimately show ?thesis using Cons.IH Cons.prems(2)
      by (cases "expansion printf to_int args x"; cases "expansions printf to_int args ps") simp_all
  qed
qed



text \<open>Where the code and its documentation part: a doubled brace at the end stays doubled, a path or view is compared as
  0 although it is a text that is not empty, and the number of a reference is checked by its low 32 bits only, so that
  a large one reads behind the arguments.\<close>

lemma interp_final_brace: "interp printf to_int (cstr (lit ''a{{'')) args = Some (lit ''a{{'')"
  by (simp add: interp_def interp_into_def cstr_def strlen_from.simps interp_loop.simps)

lemma path_counts_as_empty: "value_to_compare to_int (vt_path s) = 0" "value_to_compare to_int (vt_str_view m v) = 0"
  by (simp_all add: value_to_compare_def)

lemma interp_large_number:
  fixes printf :: "'d c_printf"
  shows "interp printf to_int (cstr (lit ''{4294967297}'')) [vt_bool True] = None"
proof -
  let ?args = "[vt_bool True :: 'd arg]"
  define m where "m = cstr (lit ''{4294967297}'')"
  have n: "scan_decimal_digits_pre_radix m (Suc 0) 12 = Some (11, 4294967297)" "strlen_from m 0 = Some 12"
      "rd m 0 = Some 123" "rd m (Suc 0) = Some 52" "length m = 13"
    unfolding m_def by code_simp+
  define big :: u64 where "big = 4294967297"
  have big: "0 < big" "(ucast big :: u32) \<le> max_arg_count ?args" unfolding big_def by code_simp+
  moreover have "unat big = 4294967297" by (simp add: big_def)
  moreover have "scan_decimal_digits_pre_radix m (Suc 0) 12 = Some (11, big)" using n(1) by (simp add: big_def)
  ultimately have "scan_arg printf to_int m (Suc 0) 12 ?args (max_arg_count ?args) = None"
    by (simp add: scan_arg_def)
  then have "interp printf to_int m ?args = None" using n(2-)
    by (simp add: interp_def interp_into_def interp_loop.simps [of _ _ _ _ _ 0] rd_eq_Some_iff)
  then show ?thesis by (simp add: m_def)
qed

end
