(* ===== verification/Json_Value.thy ===== *)
theory Json_Value
  imports Prelude Ordered_Map
begin

text \<open>
  \<open>core/data/json/value.h\<close> and \<open>value.cpp\<close>: the variant type of JSON values with its comments and source offsets.
  Arrays and objects are both \<open>std::map\<close>s, from indexes and from names; \<open>value&\<close> results are the updated
  value together with the key under which the referenced element is found. \<open>JSON_ASSERT_MESSAGE\<close> throws
  \<open>logic_error\<close>. The operations on \<open>double\<close> are the argument \<open>real_ops\<close>.
\<close>

section \<open>Data\<close>

datatype json_exception = json_runtime_error | json_logic_error

type_synonym 'a throws = "json_exception + 'a"

definition json_assert :: "bool \<Rightarrow> 'a throws \<Rightarrow> 'a throws" where
  "json_assert c r = (if c then r else Inl json_logic_error)"

datatype comment_placement = comment_before | comment_after_on_same_line | comment_after

record comment_info =
  ci_before :: "byte list option"
  ci_same_line :: "byte list option"
  ci_after :: "byte list option"

definition no_comments :: comment_info where
  "no_comments = \<lparr> ci_before = None, ci_same_line = None, ci_after = None \<rparr>"

text \<open>A string of the C library that is a null pointer is \<^term>\<open>None\<close>.\<close>

datatype 'd json_value = Value (payload: "'d payload") (comments: comment_info) (offset_start: nat) (offset_limit: nat)
  and 'd payload =
    vt_null
  | vt_int "64 word"
  | vt_uint "64 word"
  | vt_real 'd
  | vt_string "byte list option"
  | vt_bool bool
  | vt_array "(32 word \<times> 'd json_value) list"
  | vt_object "(byte list \<times> 'd json_value) list"

datatype value_type = ty_null | ty_int | ty_uint | ty_real | ty_string | ty_bool | ty_array | ty_object

definition type_of :: "'d json_value \<Rightarrow> value_type" where
  "type_of v = (case payload v of
       vt_null \<Rightarrow> ty_null | vt_int i \<Rightarrow> ty_int | vt_uint u \<Rightarrow> ty_uint | vt_real d \<Rightarrow> ty_real
     | vt_string s \<Rightarrow> ty_string | vt_bool b \<Rightarrow> ty_bool | vt_array xs \<Rightarrow> ty_array | vt_object xs \<Rightarrow> ty_object)"

definition type_code :: "value_type \<Rightarrow> int" where
  "type_code t = (case t of ty_null \<Rightarrow> 0 | ty_int \<Rightarrow> 1 | ty_uint \<Rightarrow> 2 | ty_real \<Rightarrow> 3 | ty_string \<Rightarrow> 4
     | ty_bool \<Rightarrow> 5 | ty_array \<Rightarrow> 6 | ty_object \<Rightarrow> 7)"

record 'd real_ops =
  rl_eq :: "'d \<Rightarrow> 'd \<Rightarrow> bool"
  rl_less :: "'d \<Rightarrow> 'd \<Rightarrow> bool"
  rl_of_int :: "int \<Rightarrow> 'd"
  rl_trunc :: "'d \<Rightarrow> int"
  rl_integral :: "'d \<Rightarrow> bool"

section \<open>Limits\<close>

definition min_int :: int where "min_int = - 2147483648"
definition max_int :: int where "max_int = 2147483647"
definition max_uint :: int where "max_uint = 4294967295"
definition min_int64 :: int where "min_int64 = - 9223372036854775808"
definition max_int64 :: int where "max_int64 = 9223372036854775807"
definition max_uint64 :: int where "max_uint64 = 18446744073709551615"

lemmas json_limits = min_int_def max_int_def max_uint_def min_int64_def max_int64_def max_uint64_def

section \<open>Strings and keys\<close>

text \<open>\<open>duplicate_and_prefix_string_value\<close>: a copy of the first \<open>len\<close> characters with the length in front, which has to fit.
  The constructors pass the length of the string, cast to \<open>unsigned\<close>.\<close>

definition duplicate_and_prefix_string_value :: "byte list \<Rightarrow> 32 word \<Rightarrow> byte list throws" where
  "duplicate_and_prefix_string_value s len = json_assert (uint len \<le> max_int - 5) (Inr (take (unat len) s))"

lemma duplicate_short:
  assumes "int (length s) \<le> max_int - 5"
  shows "duplicate_and_prefix_string_value s (of_nat (length s)) = Inr s"
proof -
  have "length s < 2 ^ 32" using assms by (simp add: max_int_def)
  then have "unat (of_nat (length s) :: 32 word) = length s" by (simp add: unat_of_nat)
  then show ?thesis using assms by (simp add: duplicate_and_prefix_string_value_def json_assert_def uint_nat)
qed

definition duplicate_string_value :: "byte list \<Rightarrow> byte list" where
  "duplicate_string_value s = (if max_int \<le> int (length s) then take (nat (max_int - 1)) s else s)"

text \<open>\<open>czstring\<close> keeps the length of a name in 30 bits.\<close>

definition czstring :: "byte list \<Rightarrow> byte list" where
  "czstring s = take (nat (int (length s) mod 2 ^ 30)) s"

fun memcmp :: "byte list \<Rightarrow> byte list \<Rightarrow> nat \<Rightarrow> int" where
  "memcmp (a # as) (b # bs) (Suc n) = (if a < b then - 1 else if b < a then 1 else memcmp as bs n)"
| "memcmp as bs n = 0"

definition czstring_less :: "byte list \<Rightarrow> byte list \<Rightarrow> bool" where
  "czstring_less a b =
     (let comp = memcmp a b (min (length a) (length b)) in
      if comp < 0 then True else if comp > 0 then False else length a < length b)"

definition czstring_equal :: "byte list \<Rightarrow> byte list \<Rightarrow> bool" where
  "czstring_equal a b \<longleftrightarrow> (if length a \<noteq> length b then False else memcmp a b (length a) = 0)"

section \<open>Construction\<close>

definition init_basic :: "'d payload \<Rightarrow> 'd json_value" where
  "init_basic p = Value p no_comments 0 0"

definition value_of_type :: "'d real_ops \<Rightarrow> value_type \<Rightarrow> 'd json_value" where
  "value_of_type R t = init_basic (case t of
       ty_null \<Rightarrow> vt_null | ty_int \<Rightarrow> vt_int 0 | ty_uint \<Rightarrow> vt_uint 0 | ty_real \<Rightarrow> vt_real (rl_of_int R 0)
     | ty_string \<Rightarrow> vt_string None | ty_bool \<Rightarrow> vt_bool False | ty_array \<Rightarrow> vt_array [] | ty_object \<Rightarrow> vt_object [])"

definition null_ref :: "'d json_value" where
  "null_ref = init_basic vt_null"

definition value_int32 :: "32 word \<Rightarrow> 'd json_value" where
  "value_int32 i = init_basic (vt_int (scast i))"

definition value_uint32 :: "32 word \<Rightarrow> 'd json_value" where
  "value_uint32 u = init_basic (vt_uint (ucast u))"

definition value_int64 :: "64 word \<Rightarrow> 'd json_value" where
  "value_int64 i = init_basic (vt_int i)"

definition value_uint64 :: "64 word \<Rightarrow> 'd json_value" where
  "value_uint64 u = init_basic (vt_uint u)"

definition value_double :: "'d \<Rightarrow> 'd json_value" where
  "value_double d = init_basic (vt_real d)"

definition value_bool :: "bool \<Rightarrow> 'd json_value" where
  "value_bool b = init_basic (vt_bool b)"

definition value_string :: "byte list \<Rightarrow> 'd json_value throws" where
  "value_string s = map_sum id (\<lambda>t. init_basic (vt_string (Some t))) (duplicate_and_prefix_string_value s (of_nat (length s)))"

definition value_static_string :: "byte list \<Rightarrow> 'd json_value" where
  "value_static_string s = init_basic (vt_string (Some s))"

text \<open>Swapping payloads leaves comments and offsets in place; the results are both values.\<close>

definition swap_payload :: "'d json_value \<Rightarrow> 'd json_value \<Rightarrow> 'd json_value \<times> 'd json_value" where
  "swap_payload v w =
     (Value (payload w) (comments v) (offset_start v) (offset_limit v),
      Value (payload v) (comments w) (offset_start w) (offset_limit w))"

definition set_payload :: "'d json_value \<Rightarrow> 'd json_value \<Rightarrow> 'd json_value" where
  "set_payload w v = fst (swap_payload v w)"

definition set_offset_start :: "nat \<Rightarrow> 'd json_value \<Rightarrow> 'd json_value" where
  "set_offset_start n v = Value (payload v) (comments v) n (offset_limit v)"

definition set_offset_limit :: "nat \<Rightarrow> 'd json_value \<Rightarrow> 'd json_value" where
  "set_offset_limit n v = Value (payload v) (comments v) (offset_start v) n"

section \<open>Comments\<close>

definition comment_of :: "comment_placement \<Rightarrow> comment_info \<Rightarrow> byte list option" where
  "comment_of pl c = (case pl of comment_before \<Rightarrow> ci_before c
     | comment_after_on_same_line \<Rightarrow> ci_same_line c | comment_after \<Rightarrow> ci_after c)"

definition with_comment :: "comment_placement \<Rightarrow> byte list \<Rightarrow> comment_info \<Rightarrow> comment_info" where
  "with_comment pl s c = (case pl of comment_before \<Rightarrow> c\<lparr> ci_before := Some s \<rparr>
     | comment_after_on_same_line \<Rightarrow> c\<lparr> ci_same_line := Some s \<rparr> | comment_after \<Rightarrow> c\<lparr> ci_after := Some s \<rparr>)"

text \<open>\<open>comment_info::set_comment\<close> wants a comment that is empty or starts with a slash. A trailing line feed is dropped.
  What is stored is read as a C string by all users.\<close>

definition set_comment :: "byte list \<Rightarrow> comment_placement \<Rightarrow> 'd json_value \<Rightarrow> 'd json_value throws" where
  "set_comment s pl v =
     (let len = (if s \<noteq> [] \<and> last s = 10 then length s - 1 else length s)
      in json_assert (s = [] \<or> hd s = 0 \<or> hd s = asc CHR ''/'')
           (Inr (Value (payload v)
             (with_comment pl (takeWhile (\<lambda>x. x \<noteq> 0) (duplicate_string_value (take len s))) (comments v))
             (offset_start v) (offset_limit v))))"

definition has_comment :: "comment_placement \<Rightarrow> 'd json_value \<Rightarrow> bool" where
  "has_comment pl v \<longleftrightarrow> comment_of pl (comments v) \<noteq> None"

definition get_comment :: "comment_placement \<Rightarrow> 'd json_value \<Rightarrow> byte list" where
  "get_comment pl v = (case comment_of pl (comments v) of None \<Rightarrow> [] | Some s \<Rightarrow> s)"

section \<open>Comparison\<close>

text \<open>\<open>operator<\<close>: first by type, then by value; maps by their size and then lexicographically, as \<open>std::map\<close> compares
  them. A null string is less than others.\<close>

definition string_less :: "byte list option \<Rightarrow> byte list option \<Rightarrow> bool" where
  "string_less a b = (case (a, b) of (Some x, Some y) \<Rightarrow> czstring_less x y | _ \<Rightarrow> b \<noteq> None)"

definition string_equal :: "byte list option \<Rightarrow> byte list option \<Rightarrow> bool" where
  "string_equal a b = (case (a, b) of (Some x, Some y) \<Rightarrow> czstring_equal x y | _ \<Rightarrow> a = b)"

text \<open>\<open>operator<\<close> and \<open>operator==\<close> of \<open>std::map\<close>: lexicographic by pairs of key and value, and element by element.\<close>

fun map_less :: "('k \<Rightarrow> 'k \<Rightarrow> bool) \<Rightarrow> ('v \<Rightarrow> 'v \<Rightarrow> bool) \<Rightarrow> ('k \<times> 'v) list \<Rightarrow> ('k \<times> 'v) list \<Rightarrow> bool" where
  "map_less klt vlt ((a, v) # xs) ((b, w) # ys) =
     (if klt a b \<or> \<not> klt b a \<and> vlt v w then True
      else if klt b a \<or> \<not> klt a b \<and> vlt w v then False
      else map_less klt vlt xs ys)"
| "map_less klt vlt [] ys = (ys \<noteq> [])"
| "map_less klt vlt (x # xs) [] = False"

definition map_equal :: "('k \<Rightarrow> 'k \<Rightarrow> bool) \<Rightarrow> ('v \<Rightarrow> 'v \<Rightarrow> bool) \<Rightarrow> ('k \<times> 'v) list \<Rightarrow> ('k \<times> 'v) list \<Rightarrow> bool" where
  "map_equal keq veq xs ys \<longleftrightarrow> list_all2 (\<lambda>(a, v) (b, w). keq a b \<and> veq v w) xs ys"

lemma map_less_cong [fundef_cong]:
  assumes "xs = xs'" "ys = ys'" "klt = klt'"
    "\<And>v w. v \<in> snd ` set xs' \<Longrightarrow> w \<in> snd ` set ys' \<Longrightarrow> vlt v w = vlt' v w"
    "\<And>v w. v \<in> snd ` set xs' \<Longrightarrow> w \<in> snd ` set ys' \<Longrightarrow> vlt w v = vlt' w v"
  shows "map_less klt vlt xs ys = map_less klt' vlt' xs' ys'"
  unfolding assms(1-3) using assms(4,5) by (induction klt' vlt xs' ys' rule: map_less.induct) auto

lemma map_equal_cong [fundef_cong]:
  assumes "xs = xs'" "ys = ys'" "keq = keq'"
    "\<And>v w. v \<in> snd ` set xs' \<Longrightarrow> w \<in> snd ` set ys' \<Longrightarrow> veq v w = veq' v w"
  shows "map_equal keq veq xs ys = map_equal keq' veq' xs' ys'"
  unfolding map_equal_def assms(1-3) using assms(4) by (intro list.rel_cong) force+

lemma size_element [termination_simp]: "(k, v) \<in> set xs \<Longrightarrow> size v < size_list (size_prod (\<lambda>x. 0) size) xs"
  by (induction xs) auto

lemma size_array: "payload v = vt_array xs \<Longrightarrow> x \<in> snd ` set xs \<Longrightarrow> size x < size v"
  by (cases v) (auto dest: size_element)

lemma size_object: "payload v = vt_object xs \<Longrightarrow> x \<in> snd ` set xs \<Longrightarrow> size x < size v"
  by (cases v) (auto dest: size_element)

function value_less :: "'d real_ops \<Rightarrow> 'd json_value \<Rightarrow> 'd json_value \<Rightarrow> bool" where
  "value_less R v w =
     (let type_delta = type_code (type_of v) - type_code (type_of w)
      in if type_delta \<noteq> 0 then type_delta < 0
         else case payload v of
             vt_null \<Rightarrow> False
           | vt_int i \<Rightarrow> (case payload w of vt_int j \<Rightarrow> i <s j | _ \<Rightarrow> False)
           | vt_uint i \<Rightarrow> (case payload w of vt_uint j \<Rightarrow> i < j | _ \<Rightarrow> False)
           | vt_real d \<Rightarrow> (case payload w of vt_real e \<Rightarrow> rl_less R d e | _ \<Rightarrow> False)
           | vt_bool b \<Rightarrow> (case payload w of vt_bool c \<Rightarrow> \<not> b \<and> c | _ \<Rightarrow> False)
           | vt_string a \<Rightarrow> (case payload w of vt_string b \<Rightarrow> string_less a b | _ \<Rightarrow> False)
           | vt_array xs \<Rightarrow> (case payload w of
               vt_array ys \<Rightarrow> if length xs \<noteq> length ys then length xs < length ys
                              else map_less (<) (value_less R) xs ys
             | _ \<Rightarrow> False)
           | vt_object xs \<Rightarrow> (case payload w of
               vt_object ys \<Rightarrow> if length xs \<noteq> length ys then length xs < length ys
                               else map_less czstring_less (value_less R) xs ys
             | _ \<Rightarrow> False))"
  by pat_completeness auto
termination
  by (relation "measure (\<lambda>(R, v, w). size v + size w)")
    (simp_all only: in_measure prod.case add.commute, auto intro: add_less_mono size_array size_object)

definition value_less_equal :: "'d real_ops \<Rightarrow> 'd json_value \<Rightarrow> 'd json_value \<Rightarrow> bool" where
  "value_less_equal R v w \<longleftrightarrow> \<not> value_less R w v"

definition value_greater_equal :: "'d real_ops \<Rightarrow> 'd json_value \<Rightarrow> 'd json_value \<Rightarrow> bool" where
  "value_greater_equal R v w \<longleftrightarrow> \<not> value_less R v w"

definition value_greater :: "'d real_ops \<Rightarrow> 'd json_value \<Rightarrow> 'd json_value \<Rightarrow> bool" where
  "value_greater R v w \<longleftrightarrow> value_less R w v"

definition value_compare :: "'d real_ops \<Rightarrow> 'd json_value \<Rightarrow> 'd json_value \<Rightarrow> int" where
  "value_compare R v w = (if value_less R v w then - 1 else if value_greater R v w then 1 else 0)"

function value_equal :: "'d real_ops \<Rightarrow> 'd json_value \<Rightarrow> 'd json_value \<Rightarrow> bool" where
  "value_equal R v w =
     (case payload v of
        vt_null \<Rightarrow> payload w = vt_null
      | vt_int i \<Rightarrow> (case payload w of vt_int j \<Rightarrow> i = j | _ \<Rightarrow> False)
      | vt_uint i \<Rightarrow> (case payload w of vt_uint j \<Rightarrow> i = j | _ \<Rightarrow> False)
      | vt_real d \<Rightarrow> (case payload w of vt_real e \<Rightarrow> rl_eq R d e | _ \<Rightarrow> False)
      | vt_bool b \<Rightarrow> (case payload w of vt_bool c \<Rightarrow> b = c | _ \<Rightarrow> False)
      | vt_string a \<Rightarrow> (case payload w of vt_string b \<Rightarrow> string_equal a b | _ \<Rightarrow> False)
      | vt_array xs \<Rightarrow> (case payload w of
          vt_array ys \<Rightarrow> length xs = length ys \<and> map_equal (=) (value_equal R) xs ys | _ \<Rightarrow> False)
      | vt_object xs \<Rightarrow> (case payload w of
          vt_object ys \<Rightarrow> length xs = length ys \<and> map_equal czstring_equal (value_equal R) xs ys | _ \<Rightarrow> False))"
  by pat_completeness auto
termination
  by (relation "measure (\<lambda>(R, v, w). size v + size w)")
    (simp_all only: in_measure prod.case add.commute, auto intro: add_less_mono size_array size_object)

definition value_not_equal :: "'d real_ops \<Rightarrow> 'd json_value \<Rightarrow> 'd json_value \<Rightarrow> bool" where
  "value_not_equal R v w \<longleftrightarrow> \<not> value_equal R v w"

declare value_less.simps [simp del]
declare value_equal.simps [simp del]

section \<open>Tests of the type\<close>

definition rl_le :: "'d real_ops \<Rightarrow> 'd \<Rightarrow> 'd \<Rightarrow> bool" where
  "rl_le R x y \<longleftrightarrow> rl_less R x y \<or> rl_eq R x y"

text \<open>\<open>in_range\<close> converts the limits to \<open>double\<close>.\<close>

definition in_range :: "'d real_ops \<Rightarrow> 'd \<Rightarrow> int \<Rightarrow> int \<Rightarrow> bool" where
  "in_range R d lo hi \<longleftrightarrow> rl_le R (rl_of_int R lo) d \<and> rl_le R d (rl_of_int R hi)"

definition is_null :: "'d json_value \<Rightarrow> bool" where
  "is_null v \<longleftrightarrow> type_of v = ty_null"

definition is_bool :: "'d json_value \<Rightarrow> bool" where
  "is_bool v \<longleftrightarrow> type_of v = ty_bool"

definition is_string :: "'d json_value \<Rightarrow> bool" where
  "is_string v \<longleftrightarrow> type_of v = ty_string"

definition is_array :: "'d json_value \<Rightarrow> bool" where
  "is_array v \<longleftrightarrow> type_of v = ty_array"

definition is_object :: "'d json_value \<Rightarrow> bool" where
  "is_object v \<longleftrightarrow> type_of v = ty_object"

definition is_int :: "'d real_ops \<Rightarrow> 'd json_value \<Rightarrow> bool" where
  "is_int R v \<longleftrightarrow> (case payload v of
       vt_int i \<Rightarrow> min_int \<le> sint i \<and> sint i \<le> max_int
     | vt_uint u \<Rightarrow> uint u \<le> max_int
     | vt_real d \<Rightarrow> in_range R d min_int max_int \<and> rl_integral R d
     | _ \<Rightarrow> False)"

definition is_uint :: "'d real_ops \<Rightarrow> 'd json_value \<Rightarrow> bool" where
  "is_uint R v \<longleftrightarrow> (case payload v of
       vt_int i \<Rightarrow> 0 \<le> sint i \<and> sint i \<le> max_uint
     | vt_uint u \<Rightarrow> uint u \<le> max_uint
     | vt_real d \<Rightarrow> in_range R d 0 max_uint \<and> rl_integral R d
     | _ \<Rightarrow> False)"

definition is_int64 :: "'d real_ops \<Rightarrow> 'd json_value \<Rightarrow> bool" where
  "is_int64 R v \<longleftrightarrow> (case payload v of
       vt_int i \<Rightarrow> True
     | vt_uint u \<Rightarrow> uint u \<le> max_int64
     | vt_real d \<Rightarrow> rl_le R (rl_of_int R min_int64) d \<and> rl_less R d (rl_of_int R max_int64) \<and> rl_integral R d
     | _ \<Rightarrow> False)"

definition is_uint64 :: "'d real_ops \<Rightarrow> 'd json_value \<Rightarrow> bool" where
  "is_uint64 R v \<longleftrightarrow> (case payload v of
       vt_int i \<Rightarrow> 0 \<le> sint i
     | vt_uint u \<Rightarrow> True
     | vt_real d \<Rightarrow> rl_le R (rl_of_int R 0) d \<and> rl_less R d (rl_of_int R max_uint64) \<and> rl_integral R d
     | _ \<Rightarrow> False)"

definition is_integral_value :: "'d real_ops \<Rightarrow> 'd json_value \<Rightarrow> bool" where
  "is_integral_value R v \<longleftrightarrow> is_int64 R v \<or> is_uint64 R v"

definition is_double :: "'d real_ops \<Rightarrow> 'd json_value \<Rightarrow> bool" where
  "is_double R v \<longleftrightarrow> type_of v = ty_real \<or> is_integral_value R v"

definition is_numeric :: "'d real_ops \<Rightarrow> 'd json_value \<Rightarrow> bool" where
  "is_numeric R v \<longleftrightarrow> is_integral_value R v \<or> is_double R v"

section \<open>Conversions\<close>

definition as_int :: "'d real_ops \<Rightarrow> 'd json_value \<Rightarrow> 32 word throws" where
  "as_int R v = (case payload v of
       vt_int i \<Rightarrow> json_assert (is_int R v) (Inr (ucast i))
     | vt_uint u \<Rightarrow> json_assert (is_int R v) (Inr (ucast u))
     | vt_real d \<Rightarrow> json_assert (in_range R d min_int max_int) (Inr (of_int (rl_trunc R d)))
     | vt_null \<Rightarrow> Inr 0
     | vt_bool b \<Rightarrow> Inr (if b then 1 else 0)
     | _ \<Rightarrow> Inl json_logic_error)"

definition as_uint :: "'d real_ops \<Rightarrow> 'd json_value \<Rightarrow> 32 word throws" where
  "as_uint R v = (case payload v of
       vt_int i \<Rightarrow> json_assert (is_uint R v) (Inr (ucast i))
     | vt_uint u \<Rightarrow> json_assert (is_uint R v) (Inr (ucast u))
     | vt_real d \<Rightarrow> json_assert (in_range R d 0 max_uint) (Inr (of_int (rl_trunc R d)))
     | vt_null \<Rightarrow> Inr 0
     | vt_bool b \<Rightarrow> Inr (if b then 1 else 0)
     | _ \<Rightarrow> Inl json_logic_error)"

definition as_int64 :: "'d real_ops \<Rightarrow> 'd json_value \<Rightarrow> 64 word throws" where
  "as_int64 R v = (case payload v of
       vt_int i \<Rightarrow> Inr i
     | vt_uint u \<Rightarrow> json_assert (is_int64 R v) (Inr u)
     | vt_real d \<Rightarrow> json_assert (in_range R d min_int64 max_int64) (Inr (of_int (rl_trunc R d)))
     | vt_null \<Rightarrow> Inr 0
     | vt_bool b \<Rightarrow> Inr (if b then 1 else 0)
     | _ \<Rightarrow> Inl json_logic_error)"

definition as_uint64 :: "'d real_ops \<Rightarrow> 'd json_value \<Rightarrow> 64 word throws" where
  "as_uint64 R v = (case payload v of
       vt_int i \<Rightarrow> json_assert (is_uint64 R v) (Inr i)
     | vt_uint u \<Rightarrow> Inr u
     | vt_real d \<Rightarrow> json_assert (in_range R d 0 max_uint64) (Inr (of_int (rl_trunc R d)))
     | vt_null \<Rightarrow> Inr 0
     | vt_bool b \<Rightarrow> Inr (if b then 1 else 0)
     | _ \<Rightarrow> Inl json_logic_error)"

definition as_double :: "'d real_ops \<Rightarrow> 'd json_value \<Rightarrow> 'd throws" where
  "as_double R v = (case payload v of
       vt_int i \<Rightarrow> Inr (rl_of_int R (sint i))
     | vt_uint u \<Rightarrow> Inr (rl_of_int R (uint u))
     | vt_real d \<Rightarrow> Inr d
     | vt_null \<Rightarrow> Inr (rl_of_int R 0)
     | vt_bool b \<Rightarrow> Inr (rl_of_int R (if b then 1 else 0))
     | _ \<Rightarrow> Inl json_logic_error)"

definition as_bool :: "'d real_ops \<Rightarrow> 'd json_value \<Rightarrow> bool throws" where
  "as_bool R v = (case payload v of
       vt_bool b \<Rightarrow> Inr b
     | vt_null \<Rightarrow> Inr False
     | vt_int i \<Rightarrow> Inr (i \<noteq> 0)
     | vt_uint u \<Rightarrow> Inr (u \<noteq> 0)
     | vt_real d \<Rightarrow> Inr (\<not> rl_eq R d (rl_of_int R 0))
     | _ \<Rightarrow> Inl json_logic_error)"

definition as_cstring :: "'d json_value \<Rightarrow> byte list option throws" where
  "as_cstring v = (case payload v of vt_string s \<Rightarrow> Inr s | _ \<Rightarrow> Inl json_logic_error)"

definition get_string :: "'d json_value \<Rightarrow> byte list option" where
  "get_string v = (case payload v of vt_string s \<Rightarrow> s | _ \<Rightarrow> None)"

text \<open>\<open>uint_to_string\<close> writes the digits from the right; \<open>value_to_string\<close> negates a negative number first, which leaves
  the least one as it is. For a \<open>double\<close> the text of \<open>snprintf("%.17g")\<close>, with its decimal comma replaced, is an argument.\<close>

function uint_to_string :: "64 word \<Rightarrow> byte list \<Rightarrow> byte list" where
  "uint_to_string n acc =
     (let acc' = (ucast (n mod 10) + asc CHR ''0'') # acc
      in if n div 10 = 0 then acc' else uint_to_string (n div 10) acc')"
  by pat_completeness auto
termination
  by (relation "measure (\<lambda>(n, acc). unat n)") (auto simp: unat_div word_less_nat_alt unat_eq_0 [symmetric] simp del: unat_eq_zero)

declare uint_to_string.simps [simp del]

definition value_to_string_uint :: "64 word \<Rightarrow> byte list" where
  "value_to_string_uint n = uint_to_string n []"

definition value_to_string_int :: "64 word \<Rightarrow> byte list" where
  "value_to_string_int i =
     (let is_negative = i <s 0;
          s = uint_to_string (if is_negative then - i else i) []
      in if is_negative then asc CHR ''-'' # s else s)"

definition value_to_string_bool :: "bool \<Rightarrow> byte list" where
  "value_to_string_bool b = (if b then lit ''true'' else lit ''false'')"

definition as_string :: "('d \<Rightarrow> byte list) \<Rightarrow> 'd json_value \<Rightarrow> byte list throws" where
  "as_string real_text v = (case payload v of
       vt_null \<Rightarrow> Inr []
     | vt_string s \<Rightarrow> Inr (case s of None \<Rightarrow> [] | Some t \<Rightarrow> t)
     | vt_bool b \<Rightarrow> Inr (value_to_string_bool b)
     | vt_int i \<Rightarrow> Inr (value_to_string_int i)
     | vt_uint u \<Rightarrow> Inr (value_to_string_uint u)
     | vt_real d \<Rightarrow> Inr (real_text d)
     | _ \<Rightarrow> Inl json_logic_error)"

definition is_convertible_to :: "'d real_ops \<Rightarrow> value_type \<Rightarrow> 'd json_value \<Rightarrow> bool" where
  "is_convertible_to R other v = (case other of
       ty_null \<Rightarrow> (is_numeric R v \<and> (case as_double R v of Inr d \<Rightarrow> rl_eq R d (rl_of_int R 0) | _ \<Rightarrow> False)) \<or>
         (case payload v of vt_bool b \<Rightarrow> \<not> b | vt_string s \<Rightarrow> s = None \<or> s = Some [] | vt_array xs \<Rightarrow> xs = []
          | vt_object xs \<Rightarrow> xs = [] | vt_null \<Rightarrow> True | _ \<Rightarrow> False)
     | ty_int \<Rightarrow> is_int R v \<or> (case payload v of vt_real d \<Rightarrow> in_range R d min_int max_int | _ \<Rightarrow> False) \<or> is_bool v \<or> is_null v
     | ty_uint \<Rightarrow> is_uint R v \<or> (case payload v of vt_real d \<Rightarrow> in_range R d 0 max_uint | _ \<Rightarrow> False) \<or> is_bool v \<or> is_null v
     | ty_real \<Rightarrow> is_numeric R v \<or> is_bool v \<or> is_null v
     | ty_bool \<Rightarrow> is_numeric R v \<or> is_bool v \<or> is_null v
     | ty_string \<Rightarrow> is_numeric R v \<or> is_bool v \<or> is_string v \<or> is_null v
     | ty_array \<Rightarrow> is_array v \<or> is_null v
     | ty_object \<Rightarrow> is_object v \<or> is_null v)"

section \<open>Arrays and objects\<close>

text \<open>The size of an array is its highest index plus one.\<close>

definition value_size :: "'d json_value \<Rightarrow> 32 word" where
  "value_size v = (case payload v of
       vt_array xs \<Rightarrow> if xs = [] then 0 else fst (last xs) + 1
     | vt_object xs \<Rightarrow> of_nat (length xs)
     | _ \<Rightarrow> 0)"

definition value_empty :: "'d json_value \<Rightarrow> bool" where
  "value_empty v \<longleftrightarrow> (if is_null v \<or> is_array v \<or> is_object v then value_size v = 0 else False)"

definition value_clear :: "'d json_value \<Rightarrow> 'd json_value throws" where
  "value_clear v = (case payload v of
       vt_null \<Rightarrow> Inr (Value vt_null (comments v) 0 0)
     | vt_array xs \<Rightarrow> Inr (Value (vt_array []) (comments v) 0 0)
     | vt_object xs \<Rightarrow> Inr (Value (vt_object []) (comments v) 0 0)
     | _ \<Rightarrow> Inl json_logic_error)"

text \<open>The element access that inserts a null value where there is none. A null value becomes an array or object by
  assignment, which also replaces its comments and offsets.\<close>

definition ensure :: "('k \<Rightarrow> 'k \<Rightarrow> bool) \<Rightarrow> 'k \<Rightarrow> ('k \<times> 'd json_value) list \<Rightarrow> ('k \<times> 'd json_value) list" where
  "ensure lt k xs = (case om_find lt xs k of None \<Rightarrow> om_assign lt k null_ref xs | Some v \<Rightarrow> xs)"

definition array_ref :: "32 word \<Rightarrow> 'd json_value \<Rightarrow> 'd json_value throws" where
  "array_ref i v = (case payload v of
       vt_null \<Rightarrow> Inr (init_basic (vt_array (ensure (<) i [])))
     | vt_array xs \<Rightarrow> Inr (Value (vt_array (ensure (<) i xs)) (comments v) (offset_start v) (offset_limit v))
     | _ \<Rightarrow> Inl json_logic_error)"

definition array_ref_int :: "32 word \<Rightarrow> 'd json_value \<Rightarrow> 'd json_value throws" where
  "array_ref_int i v = json_assert (0 \<le> sint i) (array_ref i v)"

definition array_at :: "32 word \<Rightarrow> 'd json_value \<Rightarrow> 'd json_value throws" where
  "array_at i v = (case payload v of
       vt_null \<Rightarrow> Inr null_ref
     | vt_array xs \<Rightarrow> Inr (case om_find (<) xs i of None \<Rightarrow> null_ref | Some w \<Rightarrow> w)
     | _ \<Rightarrow> Inl json_logic_error)"

definition array_at_int :: "32 word \<Rightarrow> 'd json_value \<Rightarrow> 'd json_value throws" where
  "array_at_int i v = json_assert (0 \<le> sint i) (array_at i v)"

definition resolve_reference :: "byte list \<Rightarrow> 'd json_value \<Rightarrow> 'd json_value throws" where
  "resolve_reference key v = (case payload v of
       vt_null \<Rightarrow> Inr (init_basic (vt_object (ensure czstring_less (czstring key) [])))
     | vt_object xs \<Rightarrow>
         Inr (Value (vt_object (ensure czstring_less (czstring key) xs)) (comments v) (offset_start v) (offset_limit v))
     | _ \<Rightarrow> Inl json_logic_error)"

definition find_member :: "byte list \<Rightarrow> 'd json_value \<Rightarrow> 'd json_value option throws" where
  "find_member key v = (case payload v of
       vt_null \<Rightarrow> Inr None
     | vt_object xs \<Rightarrow> Inr (om_find czstring_less xs (czstring key))
     | _ \<Rightarrow> Inl json_logic_error)"

definition member_at :: "byte list \<Rightarrow> 'd json_value \<Rightarrow> 'd json_value throws" where
  "member_at key v = map_sum id (\<lambda>r. case r of None \<Rightarrow> null_ref | Some w \<Rightarrow> w) (find_member key v)"

definition is_member :: "byte list \<Rightarrow> 'd json_value \<Rightarrow> bool throws" where
  "is_member key v = map_sum id (\<lambda>r. r \<noteq> None) (find_member key v)"

definition get_member :: "byte list \<Rightarrow> 'd json_value \<Rightarrow> 'd json_value \<Rightarrow> 'd json_value throws" where
  "get_member key dflt v = map_sum id (\<lambda>r. case r of None \<Rightarrow> dflt | Some w \<Rightarrow> w) (find_member key v)"

text \<open>\<open>get(index, default)\<close> recognises a missing element by the address of \<open>null_ref\<close>.\<close>

definition get_index :: "32 word \<Rightarrow> 'd json_value \<Rightarrow> 'd json_value \<Rightarrow> 'd json_value throws" where
  "get_index i dflt v = (case payload v of
       vt_null \<Rightarrow> Inr dflt
     | vt_array xs \<Rightarrow> Inr (case om_find (<) xs i of None \<Rightarrow> dflt | Some w \<Rightarrow> w)
     | _ \<Rightarrow> Inl json_logic_error)"

definition is_valid_index :: "32 word \<Rightarrow> 'd json_value \<Rightarrow> bool" where
  "is_valid_index i v \<longleftrightarrow> i < value_size v"

definition get_member_names :: "'d json_value \<Rightarrow> byte list list throws" where
  "get_member_names v = (case payload v of
       vt_null \<Rightarrow> Inr []
     | vt_object xs \<Rightarrow> Inr (map fst xs)
     | _ \<Rightarrow> Inl json_logic_error)"

text \<open>A reference to an element is a key; a pointer into a value is a path of keys from its root.\<close>

datatype key = key_index "32 word" | key_name "byte list"

definition upd_entry :: "'k \<Rightarrow> ('v \<Rightarrow> 'v) \<Rightarrow> ('k \<times> 'v) list \<Rightarrow> ('k \<times> 'v) list" where
  "upd_entry k f xs = map (\<lambda>(k', w). (k', if k' = k then f w else w)) xs"

definition upd_child :: "key \<Rightarrow> ('d json_value \<Rightarrow> 'd json_value) \<Rightarrow> 'd json_value \<Rightarrow> 'd json_value" where
  "upd_child k f v = Value
     (case (k, payload v) of
        (key_index i, vt_array xs) \<Rightarrow> vt_array (upd_entry i f xs)
      | (key_name s, vt_object xs) \<Rightarrow> vt_object (upd_entry s f xs)
      | (_, p) \<Rightarrow> p)
     (comments v) (offset_start v) (offset_limit v)"

fun upd_at :: "key list \<Rightarrow> ('d json_value \<Rightarrow> 'd json_value) \<Rightarrow> 'd json_value \<Rightarrow> 'd json_value" where
  "upd_at [] f v = f v"
| "upd_at (k # ks) f v = upd_child k (upd_at ks f) v"

definition child :: "key \<Rightarrow> 'd json_value \<Rightarrow> 'd json_value option" where
  "child k v = (case (k, payload v) of
       (key_index i, vt_array xs) \<Rightarrow> map_of xs i
     | (key_name s, vt_object xs) \<Rightarrow> map_of xs s
     | _ \<Rightarrow> None)"

fun value_at :: "key list \<Rightarrow> 'd json_value \<Rightarrow> 'd json_value option" where
  "value_at [] v = Some v"
| "value_at (k # ks) v = (case child k v of None \<Rightarrow> None | Some w \<Rightarrow> value_at ks w)"

text \<open>\<open>resize\<close>, \<open>append\<close> and removal. A failed \<open>assert\<close> ends the process and is \<^term>\<open>None\<close>.\<close>

definition erase_range :: "nat \<Rightarrow> nat \<Rightarrow> (32 word \<times> 'v) list \<Rightarrow> (32 word \<times> 'v) list" where
  "erase_range lo hi xs = fold (\<lambda>i. om_erase (<) (of_nat i)) [lo..<hi] xs"

definition value_resize :: "32 word \<Rightarrow> 'd json_value \<Rightarrow> 'd json_value throws option" where
  "value_resize new_size v =
     (if \<not> (is_null v \<or> is_array v) then Some (Inl json_logic_error)
      else let v = (if is_null v then init_basic (vt_array []) else v);
               old_size = value_size v
           in if new_size = 0 then Some (value_clear v)
              else if new_size > old_size then Some (array_ref (new_size - 1) v)
              else case payload v of
                  vt_array xs \<Rightarrow>
                    let v' = Value (vt_array (erase_range (unat new_size) (unat old_size) xs))
                        (comments v) (offset_start v) (offset_limit v)
                    in if value_size v' = new_size then Some (Inr v') else None
                | _ \<Rightarrow> Some (Inr v))"

definition append_value :: "'d json_value \<Rightarrow> 'd json_value \<Rightarrow> 'd json_value throws" where
  "append_value w v = map_sum id (upd_child (key_index (value_size v)) (\<lambda>_. w)) (array_ref (value_size v) v)"

text \<open>The results: whether something was removed, the new value, and the removed one.\<close>

definition remove_member :: "byte list \<Rightarrow> 'd json_value \<Rightarrow> bool \<times> 'd json_value \<times> 'd json_value option" where
  "remove_member key v = (case payload v of
       vt_object xs \<Rightarrow>
         (case om_find czstring_less xs (czstring key) of
            None \<Rightarrow> (False, v, None)
          | Some w \<Rightarrow> (True, Value (vt_object (om_erase czstring_less (czstring key) xs)) (comments v) (offset_start v)
              (offset_limit v), Some w))
     | _ \<Rightarrow> (False, v, None))"

definition take_member :: "byte list \<Rightarrow> 'd json_value \<Rightarrow> ('d json_value \<times> 'd json_value) throws" where
  "take_member key v = (case payload v of
       vt_null \<Rightarrow> Inr (v, null_ref)
     | vt_object xs \<Rightarrow>
         (case remove_member (takeWhile (\<lambda>c. c \<noteq> 0) key) v of (_, v', r) \<Rightarrow>
            Inr (v', case r of None \<Rightarrow> null_ref | Some w \<Rightarrow> w))
     | _ \<Rightarrow> Inl json_logic_error)"

text \<open>The loop of \<open>remove_index\<close>: the element behind moves to position \<open>i\<close>; it is created where it is missing.\<close>

definition shift_left :: "nat \<Rightarrow> (32 word \<times> 'd json_value) list \<Rightarrow> (32 word \<times> 'd json_value) list" where
  "shift_left i xs =
     (let ys = ensure (<) (of_nat i + 1) xs
      in om_assign (<) (of_nat i) (case om_find (<) ys (of_nat i + 1) of None \<Rightarrow> null_ref | Some w \<Rightarrow> w) ys)"

definition remove_index :: "32 word \<Rightarrow> 'd json_value \<Rightarrow> bool \<times> 'd json_value \<times> 'd json_value option" where
  "remove_index i v = (case payload v of
       vt_array xs \<Rightarrow>
         (case om_find (<) xs i of
            None \<Rightarrow> (False, v, None)
          | Some w \<Rightarrow>
              let old_size = value_size v;
                  ys = fold shift_left [unat i..<unat (old_size - 1)] xs
              in (True, Value (vt_array (om_erase (<) (old_size - 1) ys)) (comments v) (offset_start v) (offset_limit v),
                  Some w))
     | _ \<Rightarrow> (False, v, None))"

section \<open>Paths\<close>

datatype path_argument = kind_none | kind_index "32 word" | kind_key "byte list"

definition path_argument_key :: "byte list \<Rightarrow> path_argument" where
  "path_argument_key s = kind_key (takeWhile (\<lambda>c. c \<noteq> 0) s)"

text \<open>\<open>add_path_in_arg\<close> appends the argument that the iterator points to, if it has the wanted kind; the iterator
  stays where it is.\<close>

definition add_path_in_arg :: "path_argument list \<Rightarrow> bool \<Rightarrow> path_argument list \<Rightarrow> path_argument list" where
  "add_path_in_arg ins want_index args =
     (case ins of
        [] \<Rightarrow> args
      | a # _ \<Rightarrow> (case a of
            kind_none \<Rightarrow> args
          | kind_index i \<Rightarrow> if want_index then args @ [a] else args
          | kind_key s \<Rightarrow> if want_index then args else args @ [a]))"

definition path_index :: "byte list \<Rightarrow> 32 word" where
  "path_index ds = foldl (\<lambda>n c. n * 10 + scast (c - 48)) 0 ds"

definition is_path_digit :: "byte \<Rightarrow> bool" where
  "is_path_digit c \<longleftrightarrow> asc CHR ''0'' \<le>s c \<and> c \<le>s asc CHR ''9''"

text \<open>\<open>make_path\<close> on the rest of the path; \<open>invalidPath\<close> does nothing. In the branch for an index the last step skips one
  character, whatever it is. \<open>strchr\<close> also finds the terminator, so that a name ends at a null character, where
  the loop makes no progress.\<close>

function make_path :: "path_argument list \<Rightarrow> byte list \<Rightarrow> path_argument list \<Rightarrow> path_argument list option" where
  "make_path ins [] args = Some args"
| "make_path ins (c # cs) args =
     (if c = asc CHR ''['' then
        (if cs \<noteq> [] \<and> hd cs = asc CHR ''%''
         then make_path ins (drop 1 cs) (add_path_in_arg ins True args)
         else make_path ins (drop 1 (dropWhile is_path_digit cs)) (args @ [kind_index (path_index (takeWhile is_path_digit cs))]))
      else if c = asc CHR ''%'' then make_path ins cs (add_path_in_arg ins False args)
      else if c = asc CHR ''.'' then make_path ins cs args
      else if c = 0 then None
      else make_path ins (dropWhile (\<lambda>x. \<not> in_cset (lit ''[.'') x) cs)
             (args @ [kind_key (c # takeWhile (\<lambda>x. \<not> in_cset (lit ''[.'') x) cs)]))"
  by pat_completeness auto
termination
  by (relation "measure (\<lambda>(ins, cs, args). length cs)")
    (auto simp: less_Suc_eq_le length_dropWhile_le intro: le_trans [OF diff_le_self])

fun path_resolve :: "path_argument list \<Rightarrow> 'd json_value \<Rightarrow> 'd json_value throws" where
  "path_resolve [] v = Inr v"
| "path_resolve (a # as) v =
     (case (case a of kind_index i \<Rightarrow> array_at i v | kind_key s \<Rightarrow> member_at s v | kind_none \<Rightarrow> Inr v) of
        Inl e \<Rightarrow> Inl e | Inr w \<Rightarrow> path_resolve as w)"

fun path_resolve_default :: "path_argument list \<Rightarrow> 'd json_value \<Rightarrow> 'd json_value \<Rightarrow> 'd json_value throws" where
  "path_resolve_default [] dflt v = Inr v"
| "path_resolve_default (a # as) dflt v =
     (case a of
        kind_index i \<Rightarrow>
          if \<not> is_array v \<or> \<not> is_valid_index i v then Inr dflt
          else (case array_at i v of Inl e \<Rightarrow> Inl e | Inr w \<Rightarrow> path_resolve_default as dflt w)
      | kind_key s \<Rightarrow>
          if \<not> is_object v then Inr dflt
          else (case find_member s v of Inl e \<Rightarrow> Inl e | Inr None \<Rightarrow> Inr dflt
                | Inr (Some w) \<Rightarrow> path_resolve_default as dflt w)
      | kind_none \<Rightarrow> path_resolve_default as dflt v)"

text \<open>\<open>path::make\<close> creates the elements on the path: the new root, and the path of the element.\<close>

fun path_make :: "path_argument list \<Rightarrow> 'd json_value \<Rightarrow> ('d json_value \<times> key list) throws" where
  "path_make [] v = Inr (v, [])"
| "path_make (a # as) v =
     (case a of
        kind_none \<Rightarrow> path_make as v
      | kind_index i \<Rightarrow> (case array_ref i v of Inl e \<Rightarrow> Inl e | Inr v' \<Rightarrow>
          (case child (key_index i) v' of None \<Rightarrow> Inr (v', []) | Some w \<Rightarrow>
             (case path_make as w of Inl e \<Rightarrow> Inl e | Inr (w', ks) \<Rightarrow>
                Inr (upd_child (key_index i) (\<lambda>_. w') v', key_index i # ks))))
      | kind_key s \<Rightarrow> (case resolve_reference s v of Inl e \<Rightarrow> Inl e | Inr v' \<Rightarrow>
          (case child (key_name (czstring s)) v' of None \<Rightarrow> Inr (v', []) | Some w \<Rightarrow>
             (case path_make as w of Inl e \<Rightarrow> Inl e | Inr (w', ks) \<Rightarrow>
                Inr (upd_child (key_name (czstring s)) (\<lambda>_. w') v', key_name (czstring s) # ks)))))"

end
