(* ===== verification/Json_Reader.thy ===== *)
theory Json_Reader
  imports Json_Value
begin

text \<open>
  \<open>core/data/json/reader.h\<close> and \<open>reader.cpp\<close>, class \<open>reader\<close>; and \<open>codepoint_to_utf8\<close> of \<open>tool.h\<close>. The state of the reader
  is a record of its members, with the value that is built and, for pointers into it (the stack of nodes, the
  last value), paths. The global counter of the nesting depth is a field, too. A function that may throw and may
  read memory has a result of type \<open>'a throws option\<close>: \<^term>\<open>None\<close> where it reads outside the document and the byte
  behind it. \<open>sscanf("%lf")\<close> is an argument. The mutual recursion of values, objects and arrays has fuel; \<open>parse\<close>
  provides twice the length of the document and two, which is enough.
\<close>

section \<open>Control flow\<close>

definition bnd :: "'a throws option \<Rightarrow> ('a \<Rightarrow> 'b throws option) \<Rightarrow> 'b throws option" where
  "bnd r f = (case r of None \<Rightarrow> None | Some (Inl e) \<Rightarrow> Some (Inl e) | Some (Inr x) \<Rightarrow> f x)"

definition ret :: "'a \<Rightarrow> 'a throws option" where
  "ret x = Some (Inr x)"

definition mem :: "'a option \<Rightarrow> 'a throws option" where
  "mem r = map_option Inr r"

lemma bnd_cong [fundef_cong]: "r = r' \<Longrightarrow> (\<And>x. r' = Some (Inr x) \<Longrightarrow> f x = f' x) \<Longrightarrow> bnd r f = bnd r' f'"
  by (auto simp: bnd_def split: option.split sum.split)

section \<open>Data\<close>

record features =
  allow_comments :: bool
  strict_root :: bool
  allow_dropped_null_placeholders :: bool
  allow_numeric_keys :: bool

definition features_all :: features where
  "features_all = \<lparr> allow_comments = True, strict_root = False, allow_dropped_null_placeholders = False,
     allow_numeric_keys = False \<rparr>"

definition strict_mode :: features where
  "strict_mode = \<lparr> allow_comments = False, strict_root = True, allow_dropped_null_placeholders = False,
     allow_numeric_keys = False \<rparr>"

datatype token_type =
    tt_end_of_stream | tt_object_begin | tt_object_end | tt_array_begin | tt_array_end | tt_string | tt_number
  | tt_true | tt_false | tt_null | tt_array_separator | tt_member_separator | tt_comment | tt_error

record json_token =
  tk_type :: token_type
  tk_start :: nat
  tk_end :: nat

record error_info =
  ei_token :: json_token
  ei_message :: "byte list"
  ei_extra :: "nat option"

text \<open>What stays as it is during \<open>parse\<close>, and what changes.\<close>

record 'd reader_env =
  re_mem :: buffer
  re_begin :: nat
  re_end :: nat
  re_features :: features
  re_collect :: bool
  re_scan_double :: "byte list \<Rightarrow> 'd option"
  re_real_text :: "'d \<Rightarrow> byte list"

record 'd reader =
  r_errors :: "error_info list"
  r_current :: nat
  r_last_value_end :: "nat option"
  r_last_value :: "key list option"
  r_comments_before :: "byte list"
  r_nodes :: "key list list"
  r_root :: "'d json_value"
  r_depth :: int

definition stack_limit :: int where
  "stack_limit = 1000"

section \<open>Characters\<close>

definition is_digit_char :: "byte \<Rightarrow> bool" where
  "is_digit_char c \<longleftrightarrow> asc CHR ''0'' \<le>s c \<and> c \<le>s asc CHR ''9''"

function contains_new_line :: "buffer \<Rightarrow> nat \<Rightarrow> nat \<Rightarrow> bool option" where
  "contains_new_line m b e =
     (if b < e then do { c \<leftarrow> rd m b; if c = 10 \<or> c = 13 then Some True else contains_new_line m (Suc b) e }
      else Some False)"
  by pat_completeness auto
termination
  by (relation "measure (\<lambda>(m, b, e). e - b)") auto

declare contains_new_line.simps [simp del]

definition get_next_char :: "'d reader_env \<Rightarrow> 'd reader \<Rightarrow> (byte \<times> 'd reader) option" where
  "get_next_char E s =
     (if r_current s = re_end E then Some (0, s)
      else do { c \<leftarrow> rd (re_mem E) (r_current s); Some (c, s\<lparr> r_current := Suc (r_current s) \<rparr>) })"

text \<open>The loops that only move \<open>current_\<close> are functions from position to position.\<close>

function skip_spaces_from :: "buffer \<Rightarrow> nat \<Rightarrow> nat \<Rightarrow> nat option" where
  "skip_spaces_from m e p =
     (if p = e then Some p
      else if length m \<le> p then None
      else if m ! p = 32 \<or> m ! p = 9 \<or> m ! p = 13 \<or> m ! p = 10 then skip_spaces_from m e (Suc p)
      else Some p)"
  by pat_completeness auto
termination
  by (relation "measure (\<lambda>(m, e, p). length m - p)") auto

declare skip_spaces_from.simps [simp del]

definition skip_spaces :: "'d reader_env \<Rightarrow> 'd reader \<Rightarrow> 'd reader option" where
  "skip_spaces E s = map_option (\<lambda>p. s\<lparr> r_current := p \<rparr>) (skip_spaces_from (re_mem E) (re_end E) (r_current s))"

text \<open>\<open>match\<close> compares the whole pattern inside the document.\<close>

definition match_text :: "'d reader_env \<Rightarrow> byte list \<Rightarrow> 'd reader \<Rightarrow> (bool \<times> 'd reader) option" where
  "match_text E pat s =
     (let p = r_current s in
      if re_end E < p + length pat then Some (False, s)
      else if length (re_mem E) < p + length pat then None
      else if slice (re_mem E) p (p + length pat) = pat then Some (True, s\<lparr> r_current := p + length pat \<rparr>)
      else Some (False, s))"

section \<open>Comments\<close>

function c_comment_loop :: "buffer \<Rightarrow> nat \<Rightarrow> nat \<Rightarrow> nat option" where
  "c_comment_loop m e p =
     (if p = e then Some p
      else if length m \<le> p then None
      else if m ! p = asc CHR ''*''
      then (case rd m (Suc p) of
              None \<Rightarrow> None
            | Some d \<Rightarrow> if d = asc CHR ''/'' then Some (Suc p) else c_comment_loop m e (Suc p))
      else c_comment_loop m e (Suc p))"
  by pat_completeness auto
termination
  by (relation "measure (\<lambda>(m, e, p). length m - p)") auto

declare c_comment_loop.simps [simp del]

definition read_c_style_comment :: "'d reader_env \<Rightarrow> 'd reader \<Rightarrow> (bool \<times> 'd reader) option" where
  "read_c_style_comment E s =
     do {
       p \<leftarrow> c_comment_loop (re_mem E) (re_end E) (r_current s);
       (c, s) \<leftarrow> get_next_char E (s\<lparr> r_current := p \<rparr>);
       Some (c = asc CHR ''/'', s)
     }"

function cpp_comment_loop :: "buffer \<Rightarrow> nat \<Rightarrow> nat \<Rightarrow> nat option" where
  "cpp_comment_loop m e p =
     (if p = e then Some p
      else if length m \<le> p then None
      else if m ! p = 10 then Some (Suc p)
      else if m ! p = 13
      then (if Suc p \<noteq> e then map_option (\<lambda>d. if d = 10 then Suc (Suc p) else Suc p) (rd m (Suc p)) else Some (Suc p))
      else cpp_comment_loop m e (Suc p))"
  by pat_completeness auto
termination
  by (relation "measure (\<lambda>(m, e, p). length m - p)") auto

declare cpp_comment_loop.simps [simp del]

definition read_cpp_style_comment :: "'d reader_env \<Rightarrow> 'd reader \<Rightarrow> (bool \<times> 'd reader) option" where
  "read_cpp_style_comment E s =
     do { p \<leftarrow> cpp_comment_loop (re_mem E) (re_end E) (r_current s); Some (True, s\<lparr> r_current := p \<rparr>) }"

fun normalize_eol :: "byte list \<Rightarrow> byte list" where
  "normalize_eol [] = []"
| "normalize_eol (c # cs) =
     (if c = 13
      then 10 # (case cs of [] \<Rightarrow> [] | d # ds \<Rightarrow> if d = 10 then normalize_eol ds else normalize_eol cs)
      else c # normalize_eol cs)"

text \<open>A comment on the line of the last value goes to that value, others wait for the next value.\<close>

definition add_comment ::
  "'d reader_env \<Rightarrow> nat \<Rightarrow> nat \<Rightarrow> comment_placement \<Rightarrow> 'd reader \<Rightarrow> 'd reader throws option" where
  "add_comment E b e placement s =
     (if length (re_mem E) < e then None
      else let normalized = normalize_eol (slice (re_mem E) b e) in
        if placement = comment_after_on_same_line
        then (case r_last_value s of
                None \<Rightarrow> None
              | Some ks \<Rightarrow> (case value_at ks (r_root s) of
                    None \<Rightarrow> None
                  | Some v \<Rightarrow> (case set_comment normalized placement v of
                        Inl x \<Rightarrow> Some (Inl x)
                      | Inr v' \<Rightarrow> ret (s\<lparr> r_root := upd_at ks (\<lambda>_. v') (r_root s) \<rparr>))))
        else ret (s\<lparr> r_comments_before := r_comments_before s @ normalized \<rparr>))"

definition comment_place ::
  "'d reader_env \<Rightarrow> nat \<Rightarrow> byte \<Rightarrow> 'd reader \<Rightarrow> comment_placement option" where
  "comment_place E comment_begin c s =
     (case r_last_value_end s of
        None \<Rightarrow> Some comment_before
      | Some l \<Rightarrow> do {
          nl \<leftarrow> contains_new_line (re_mem E) l comment_begin;
          if nl then Some comment_before
          else do {
            nl2 \<leftarrow> (if c = asc CHR ''*'' then contains_new_line (re_mem E) comment_begin (r_current s) else Some False);
            Some (if nl2 then comment_before else comment_after_on_same_line)
          }
        })"

definition read_comment :: "'d reader_env \<Rightarrow> 'd reader \<Rightarrow> (bool \<times> 'd reader) throws option" where
  "read_comment E s =
     (let comment_begin = r_current s - 1 in
      bnd (mem (get_next_char E s)) (\<lambda>(c, s).
      bnd (mem (if c = asc CHR ''*'' then read_c_style_comment E s
                else if c = asc CHR ''/'' then read_cpp_style_comment E s
                else Some (False, s))) (\<lambda>(successful, s).
      if \<not> successful then ret (False, s)
      else if re_collect E
      then bnd (mem (comment_place E comment_begin c s)) (\<lambda>placement.
           bnd (add_comment E comment_begin (r_current s) placement s) (\<lambda>s. ret (True, s)))
      else ret (True, s))))"

section \<open>Tokens\<close>

text \<open>\<open>c = (current_ = p) < end_ ? *p++ : 0\<close>: the next character, the next \<open>p\<close> and the new \<open>current_\<close>.\<close>

definition number_next :: "buffer \<Rightarrow> nat \<Rightarrow> nat \<Rightarrow> (byte \<times> nat \<times> nat) option" where
  "number_next m e p = (if p < e then map_option (\<lambda>c. (c, Suc p, p)) (rd m p) else Some (0, p, p))"

lemma zero_not_digit [simp]: "\<not> is_digit_char 0"
  by (simp add: is_digit_char_def word_sle_eq)

function number_digits :: "buffer \<Rightarrow> nat \<Rightarrow> byte \<Rightarrow> nat \<Rightarrow> nat \<Rightarrow> (byte \<times> nat \<times> nat) option" where
  "number_digits m e c p cur =
     (if is_digit_char c
      then (if p < e
            then (if p < length m then number_digits m e (m ! p) (Suc p) p else None)
            else number_digits m e 0 p p)
      else Some (c, p, cur))"
  by pat_completeness auto
termination
  by (relation "measures [\<lambda>(m, e, c, p, cur). e - p, \<lambda>(m, e, c, p, cur). if is_digit_char c then 1 else 0]")
    auto

declare number_digits.simps [simp del]

definition number_fraction :: "buffer \<Rightarrow> nat \<Rightarrow> byte \<times> nat \<times> nat \<Rightarrow> (byte \<times> nat \<times> nat) option" where
  "number_fraction m e = (\<lambda>(c, p, cur).
     if c = asc CHR ''.'' then do { (c, p, cur) \<leftarrow> number_next m e p; number_digits m e c p cur }
     else Some (c, p, cur))"

definition number_sign :: "buffer \<Rightarrow> nat \<Rightarrow> byte \<times> nat \<times> nat \<Rightarrow> (byte \<times> nat \<times> nat) option" where
  "number_sign m e = (\<lambda>(c, p, cur). if c = asc CHR ''+'' \<or> c = asc CHR ''-'' then number_next m e p else Some (c, p, cur))"

definition number_exponent :: "buffer \<Rightarrow> nat \<Rightarrow> byte \<times> nat \<times> nat \<Rightarrow> (byte \<times> nat \<times> nat) option" where
  "number_exponent m e = (\<lambda>(c, p, cur).
     if c = asc CHR ''e'' \<or> c = asc CHR ''E''
     then do { st \<leftarrow> number_next m e p; (c, p, cur) \<leftarrow> number_sign m e st; number_digits m e c p cur }
     else Some (c, p, cur))"

definition read_number :: "'d reader_env \<Rightarrow> 'd reader \<Rightarrow> 'd reader option" where
  "read_number E s =
     do {
       st \<leftarrow> number_digits (re_mem E) (re_end E) (asc CHR ''0'') (r_current s) (r_current s);
       st \<leftarrow> number_fraction (re_mem E) (re_end E) st;
       (c, p, cur) \<leftarrow> number_exponent (re_mem E) (re_end E) st;
       Some (s\<lparr> r_current := cur \<rparr>)
     }"

function read_string_loop :: "buffer \<Rightarrow> nat \<Rightarrow> byte \<Rightarrow> nat \<Rightarrow> (byte \<times> nat) option" where
  "read_string_loop m e c p =
     (if p = e then Some (c, p)
      else if length m \<le> p then None
      else if m ! p = 92
      then (if Suc p = e then read_string_loop m e (m ! p) (Suc p)
            else if length m \<le> Suc p then None
            else read_string_loop m e (m ! p) (Suc (Suc p)))
      else if m ! p = 34 then Some (m ! p, Suc p)
      else read_string_loop m e (m ! p) (Suc p))"
  by pat_completeness auto
termination
  by (relation "measure (\<lambda>(m, e, c, p). length m - p)") auto

declare read_string_loop.simps [simp del]

definition read_string :: "'d reader_env \<Rightarrow> 'd reader \<Rightarrow> (bool \<times> 'd reader) option" where
  "read_string E s =
     do {
       (c, p) \<leftarrow> read_string_loop (re_mem E) (re_end E) 0 (r_current s);
       Some (c = 34, s\<lparr> r_current := p \<rparr>)
     }"

text \<open>\<open>read_token\<close> always returns true; its result is the token.\<close>

definition token_switch :: "'d reader_env \<Rightarrow> byte \<Rightarrow> 'd reader \<Rightarrow> (token_type \<times> bool \<times> 'd reader) throws option" where
  "token_switch E c s =
     (if c = asc CHR ''{'' then ret (tt_object_begin, True, s)
      else if c = asc CHR ''}'' then ret (tt_object_end, True, s)
      else if c = asc CHR ''['' then ret (tt_array_begin, True, s)
      else if c = asc CHR '']'' then ret (tt_array_end, True, s)
      else if c = 34 then bnd (mem (read_string E s)) (\<lambda>(ok, s). ret (tt_string, ok, s))
      else if c = asc CHR ''/'' then bnd (read_comment E s) (\<lambda>(ok, s). ret (tt_comment, ok, s))
      else if is_digit_char c \<or> c = asc CHR ''-'' then bnd (mem (read_number E s)) (\<lambda>s. ret (tt_number, True, s))
      else if c = asc CHR ''t'' then bnd (mem (match_text E (lit ''rue'') s)) (\<lambda>(ok, s). ret (tt_true, ok, s))
      else if c = asc CHR ''f'' then bnd (mem (match_text E (lit ''alse'') s)) (\<lambda>(ok, s). ret (tt_false, ok, s))
      else if c = asc CHR ''n'' then bnd (mem (match_text E (lit ''ull'') s)) (\<lambda>(ok, s). ret (tt_null, ok, s))
      else if c = asc CHR '','' then ret (tt_array_separator, True, s)
      else if c = asc CHR '':'' then ret (tt_member_separator, True, s)
      else if c = 0 then ret (tt_end_of_stream, True, s)
      else ret (tt_error, False, s))"

definition read_token :: "'d reader_env \<Rightarrow> 'd reader \<Rightarrow> (json_token \<times> 'd reader) throws option" where
  "read_token E s =
     bnd (mem (skip_spaces E s)) (\<lambda>s.
     let start = r_current s in
     bnd (mem (get_next_char E s)) (\<lambda>(c, s).
     bnd (token_switch E c s) (\<lambda>(ty, ok, s).
     ret (\<lparr> tk_type = (if ok then ty else tt_error), tk_start = start, tk_end = r_current s \<rparr>, s))))"

section \<open>Errors\<close>

definition add_error :: "byte list \<Rightarrow> json_token \<Rightarrow> nat option \<Rightarrow> 'd reader \<Rightarrow> 'd reader" where
  "add_error msg tok extra s =
     s\<lparr> r_errors := r_errors s @ [\<lparr> ei_token = tok, ei_message = msg, ei_extra = extra \<rparr>] \<rparr>"

section \<open>Decoding\<close>

definition codepoint_to_utf8 :: "32 word \<Rightarrow> byte list" where
  "codepoint_to_utf8 cp =
     (if cp \<le> 0x7f then [ucast cp]
      else if cp \<le> 0x7FF then [ucast (0xC0 OR (0x1f AND drop_bit 6 cp)), ucast (0x80 OR (0x3f AND cp))]
      else if cp \<le> 0xFFFF
      then [0xE0 OR ucast (0xf AND drop_bit 12 cp), 0x80 OR ucast (0x3f AND drop_bit 6 cp), ucast (0x80 OR (0x3f AND cp))]
      else if cp \<le> 0x10FFFF
      then [ucast (0xF0 OR (0x7 AND drop_bit 18 cp)), ucast (0x80 OR (0x3f AND drop_bit 12 cp)),
            ucast (0x80 OR (0x3f AND drop_bit 6 cp)), ucast (0x80 OR (0x3f AND cp))]
      else [])"

text \<open>A failed decoding gives the message and the location of the error.\<close>

type_synonym 'a decoded = "(byte list \<times> nat) + 'a"

fun hex_digits_loop :: "buffer \<Rightarrow> nat \<Rightarrow> nat \<Rightarrow> 32 word \<Rightarrow> (nat \<times> 32 word) decoded option" where
  "hex_digits_loop m 0 p n = Some (Inr (p, n))"
| "hex_digits_loop m (Suc k) p n =
     do {
       c \<leftarrow> rd m p;
       let n = n * 16;
       if is_digit_char c then hex_digits_loop m k (Suc p) (n + scast (c - asc CHR ''0''))
       else if asc CHR ''a'' \<le>s c \<and> c \<le>s asc CHR ''f'' then hex_digits_loop m k (Suc p) (n + scast (c - asc CHR ''a'') + 10)
       else if asc CHR ''A'' \<le>s c \<and> c \<le>s asc CHR ''F'' then hex_digits_loop m k (Suc p) (n + scast (c - asc CHR ''A'') + 10)
       else Some (Inl (lit ''Bad unicode escape sequence in string: hexadecimal digit expected.'', Suc p))
     }"

definition decode_unicode_escape_sequence :: "buffer \<Rightarrow> nat \<Rightarrow> nat \<Rightarrow> (nat \<times> 32 word) decoded option" where
  "decode_unicode_escape_sequence m p e =
     (if e < p + 4 then Some (Inl (lit ''Bad unicode escape sequence in string: four digits expected.'', p))
      else hex_digits_loop m 4 p 0)"

text \<open>The second half of a surrogate pair.\<close>

definition decode_surrogate :: "buffer \<Rightarrow> nat \<Rightarrow> nat \<Rightarrow> 32 word \<Rightarrow> (nat \<times> 32 word) decoded option" where
  "decode_surrogate m p e unicode =
     (if e < p + 6 then Some (Inl (lit ''additional six characters expected to parse unicode surrogate pair.'', p))
      else do {
        c \<leftarrow> rd m p;
        d \<leftarrow> (if c = 92 then rd m (Suc p) else Some 0);
        if c = 92 \<and> d = asc CHR ''u''
        then map_option
               (map_sum id (\<lambda>(p, pair). (p, 0x10000 + push_bit 10 (unicode AND 0x3FF) + (pair AND 0x3FF))))
               (decode_unicode_escape_sequence m (Suc (Suc p)) e)
        else Some (Inl (lit ''expecting another '' @ [92] @ lit ''u token to begin the second half of a unicode surrogate pair'',
               if c = 92 then Suc (Suc p) else Suc p))
      })"

definition decode_unicode_codepoint :: "buffer \<Rightarrow> nat \<Rightarrow> nat \<Rightarrow> (nat \<times> 32 word) decoded option" where
  "decode_unicode_codepoint m p e =
     do {
       r \<leftarrow> decode_unicode_escape_sequence m p e;
       (case r of
          Inl err \<Rightarrow> Some (Inl err)
        | Inr (p, unicode) \<Rightarrow>
            if 0xD800 \<le> unicode \<and> unicode \<le> 0xDBFF then decode_surrogate m p e unicode
            else Some (Inr (p, unicode)))
     }"

definition simple_escape :: "byte \<Rightarrow> byte option" where
  "simple_escape c =
     (if c = 34 then Some 34
      else if c = asc CHR ''/'' then Some (asc CHR ''/'')
      else if c = 92 then Some 92
      else if c = asc CHR ''b'' then Some 8
      else if c = asc CHR ''f'' then Some 12
      else if c = asc CHR ''n'' then Some 10
      else if c = asc CHR ''r'' then Some 13
      else if c = asc CHR ''t'' then Some 9
      else None)"

text \<open>The recursion of \<open>decode_string\<close> is over the positions up to \<open>end\<close>; \<open>k\<close> is a bound on the rounds, of which each
  advances.\<close>

fun decode_string_loop :: "nat \<Rightarrow> buffer \<Rightarrow> nat \<Rightarrow> nat \<Rightarrow> byte list \<Rightarrow> (byte list) decoded option" where
  "decode_string_loop 0 m p e acc = None"
| "decode_string_loop (Suc k) m p e acc =
     (if p = e then Some (Inr acc)
      else do {
        c \<leftarrow> rd m p;
        if c = 34 then Some (Inr acc)
        else if c = 92
        then (if Suc p = e then Some (Inl (lit ''Empty escape sequence in string'', Suc p))
              else do {
                escape \<leftarrow> rd m (Suc p);
                (case simple_escape escape of
                   Some d \<Rightarrow> decode_string_loop k m (Suc (Suc p)) e (acc @ [d])
                 | None \<Rightarrow>
                     if escape = asc CHR ''u''
                     then do {
                       r \<leftarrow> decode_unicode_codepoint m (Suc (Suc p)) e;
                       (case r of
                          Inl err \<Rightarrow> Some (Inl err)
                        | Inr (p, unicode) \<Rightarrow> decode_string_loop k m p e (acc @ codepoint_to_utf8 unicode))
                     }
                     else Some (Inl (lit ''Bad escape sequence in string'', Suc (Suc p))))
              })
        else decode_string_loop k m (Suc p) e (acc @ [c])
      })"

text \<open>\<open>decode_string(token, std::string&)\<close>: the string, or \<^term>\<open>None\<close> after recording the error.\<close>

definition decode_name :: "'d reader_env \<Rightarrow> json_token \<Rightarrow> 'd reader \<Rightarrow> (byte list option \<times> 'd reader) throws option" where
  "decode_name E tok s =
     bnd (mem (decode_string_loop (Suc (tk_end tok - tk_start tok)) (re_mem E) (Suc (tk_start tok)) (tk_end tok - 1) []))
       (\<lambda>r. case r of
          Inl (msg, at) \<Rightarrow> ret (None, add_error msg tok (Some at) s)
        | Inr d \<Rightarrow> ret (Some d, s))"

definition max_integer_value :: "bool \<Rightarrow> 64 word" where
  "max_integer_value is_negative = (if is_negative then of_int (- min_int64) else of_int max_uint64)"

text \<open>The loop over the digits: the number, or \<^term>\<open>None\<close> where the token is left to \<open>decode_double\<close>.\<close>

function number_loop :: "buffer \<Rightarrow> nat \<Rightarrow> nat \<Rightarrow> 64 word \<Rightarrow> 64 word \<Rightarrow> 64 word option option" where
  "number_loop m p e limit n =
     (if p < e
      then (case rd m p of
              None \<Rightarrow> None
            | Some c \<Rightarrow>
                if \<not> is_digit_char c then Some None
                else let digit = scast (c - asc CHR ''0'') :: 64 word in
                  if limit div 10 \<le> n \<and> (limit div 10 < n \<or> Suc p \<noteq> e \<or> limit mod 10 < digit) then Some None
                  else number_loop m (Suc p) e limit (n * 10 + digit))
      else Some (Some n))"
  by pat_completeness auto
termination
  by (relation "measure (\<lambda>(m, p, e, limit, n). e - p)") auto

declare number_loop.simps [simp del]

definition decode_double :: "'d reader_env \<Rightarrow> json_token \<Rightarrow> 'd reader \<Rightarrow> ('d payload option \<times> 'd reader) throws option" where
  "decode_double E tok s =
     (let len = sint (of_nat (tk_end tok - tk_start tok) :: 32 word) in
      if len < 0 then ret (None, add_error (lit ''Unable to parse token length'') tok None s)
      else if length (re_mem E) < tk_end tok then None
      else let text = slice (re_mem E) (tk_start tok) (tk_end tok) in
        case re_scan_double E text of
          Some d \<Rightarrow> ret (Some (vt_real d), s)
        | None \<Rightarrow> ret (None, s\<lparr> r_errors := r_errors s @
            [\<lparr> ei_token = tok, ei_message = [39] @ text @ [39] @ lit '' is not a number.'', ei_extra = None \<rparr>] \<rparr>))"

definition decode_number :: "'d reader_env \<Rightarrow> json_token \<Rightarrow> 'd reader \<Rightarrow> ('d payload option \<times> 'd reader) throws option" where
  "decode_number E tok s =
     bnd (mem (rd (re_mem E) (tk_start tok))) (\<lambda>c.
     let is_negative = (c = asc CHR ''-'');
         p = (if is_negative then Suc (tk_start tok) else tk_start tok)
     in bnd (mem (number_loop (re_mem E) p (tk_end tok) (max_integer_value is_negative) 0)) (\<lambda>r.
     case r of
       None \<Rightarrow> decode_double E tok s
     | Some n \<Rightarrow> ret (Some (if is_negative then vt_int (- n)
                            else if n \<le> of_int max_int then vt_int n else vt_uint n), s)))"

section \<open>Values\<close>

text \<open>\<open>current_value()\<close> is what the path on top of \<open>nodes_\<close> leads to.\<close>

definition upd_current :: "('d json_value \<Rightarrow> 'd json_value) \<Rightarrow> 'd reader \<Rightarrow> 'd reader option" where
  "upd_current f s = (case r_nodes s of
       [] \<Rightarrow> None
     | ks # _ \<Rightarrow> if value_at ks (r_root s) = None then None else Some (s\<lparr> r_root := upd_at ks f (r_root s) \<rparr>))"

definition upd_current_throws :: "('d json_value \<Rightarrow> 'd json_value throws) \<Rightarrow> 'd reader \<Rightarrow> 'd reader throws option" where
  "upd_current_throws f s = (case r_nodes s of
       [] \<Rightarrow> None
     | ks # _ \<Rightarrow> (case value_at ks (r_root s) of
           None \<Rightarrow> None
         | Some v \<Rightarrow> Some (map_sum id (\<lambda>w. s\<lparr> r_root := upd_at ks (\<lambda>_. w) (r_root s) \<rparr>) (f v))))"

text \<open>\<open>swap_payload\<close> with a new value, and the offsets of the token.\<close>

definition set_current :: "'d reader_env \<Rightarrow> 'd payload \<Rightarrow> nat \<Rightarrow> nat \<Rightarrow> 'd reader \<Rightarrow> 'd reader option" where
  "set_current E p start limit s =
     upd_current (\<lambda>v. set_offset_limit limit (set_offset_start start (set_payload (init_basic p) v))) s"

definition token_offset :: "'d reader_env \<Rightarrow> nat \<Rightarrow> nat" where
  "token_offset E p = p - re_begin E"

definition set_token_value :: "'d reader_env \<Rightarrow> 'd payload \<Rightarrow> json_token \<Rightarrow> 'd reader \<Rightarrow> 'd reader option" where
  "set_token_value E p tok s = set_current E p (token_offset E (tk_start tok)) (token_offset E (tk_end tok)) s"

definition push_node :: "key \<Rightarrow> 'd reader \<Rightarrow> 'd reader" where
  "push_node k s = s\<lparr> r_nodes := (hd (r_nodes s) @ [k]) # r_nodes s \<rparr>"

definition pop_node :: "'d reader \<Rightarrow> 'd reader" where
  "pop_node s = s\<lparr> r_nodes := tl (r_nodes s) \<rparr>"

lemma skip_spaces_from_le: "skip_spaces_from m e p = Some q \<Longrightarrow> p \<le> q"
proof (induction m e p rule: skip_spaces_from.induct)
  case (1 m e p)
  then show ?case by (subst (asm) (2) skip_spaces_from.simps) (auto split: if_splits)
qed

text \<open>Every token but the end of the stream advances the position, which stays in memory; this bounds the loops that read
  one token after the other.\<close>

lemma c_comment_loop_le: "c_comment_loop m e p = Some q \<Longrightarrow> p \<le> q"
proof (induction m e p rule: c_comment_loop.induct)
  case (1 m e p)
  then show ?case by (subst (asm) (3) c_comment_loop.simps) (fastforce split: if_splits option.splits)
qed

lemma cpp_comment_loop_le: "cpp_comment_loop m e p = Some q \<Longrightarrow> p \<le> q"
proof (induction m e p rule: cpp_comment_loop.induct)
  case (1 m e p)
  then show ?case by (subst (asm) (2) cpp_comment_loop.simps) (fastforce split: if_splits option.splits)
qed

lemma read_string_loop_le: "read_string_loop m e c p = Some (d, q) \<Longrightarrow> p \<le> q"
proof (induction m e c p rule: read_string_loop.induct)
  case (1 m e c p)
  then show ?case by (subst (asm) (4) read_string_loop.simps) (fastforce split: if_splits option.splits)
qed

lemma number_digits_le: "number_digits m e c p cur = Some (d, q, r) \<Longrightarrow> l \<le> cur \<Longrightarrow> l \<le> p \<Longrightarrow> l \<le> r \<and> l \<le> q"
proof (induction m e c p cur rule: number_digits.induct)
  case (1 m e c p cur)
  then show ?case by (subst (asm) (3) number_digits.simps) (fastforce split: if_splits option.splits)
qed

lemma bnd_eq_Inr: "bnd r f = Some (Inr y) \<longleftrightarrow> (\<exists>x. r = Some (Inr x) \<and> f x = Some (Inr y))"
  by (auto simp: bnd_def split: option.splits sum.splits)

lemma mem_eq_Inr [simp]: "mem r = Some (Inr x) \<longleftrightarrow> r = Some x"
  by (cases r) (auto simp: mem_def)

lemma ret_eq_Inr [simp]: "ret x = Some (Inr y) \<longleftrightarrow> x = y"
  by (simp add: ret_def)

lemma get_next_char_le: "get_next_char E s = Some (c, s') \<Longrightarrow> r_current s \<le> r_current s'"
  by (auto simp: get_next_char_def rd_def split: if_splits)

lemma match_text_le: "match_text E pat s = Some (ok, s') \<Longrightarrow> r_current s \<le> r_current s'"
  by (auto simp: match_text_def Let_def split: if_splits)

lemma read_string_le: "read_string E s = Some (ok, s') \<Longrightarrow> r_current s \<le> r_current s'"
  by (auto simp: read_string_def bind_eq_Some_conv dest: read_string_loop_le)

lemma number_next_le: "number_next m e p = Some (c, q, r) \<Longrightarrow> p \<le> q \<and> p \<le> r"
  by (auto simp: number_next_def rd_def split: if_splits)

lemma number_fraction_le: "number_fraction m e (c, p, cur) = Some (d, q, r) \<Longrightarrow> l \<le> cur \<Longrightarrow> l \<le> p \<Longrightarrow> l \<le> r \<and> l \<le> q"
  by (fastforce simp: number_fraction_def bind_eq_Some_conv split: if_splits dest!: number_next_le dest: number_digits_le [where l = l])

lemma number_exponent_le: "number_exponent m e (c, p, cur) = Some (d, q, r) \<Longrightarrow> l \<le> cur \<Longrightarrow> l \<le> p \<Longrightarrow> l \<le> r \<and> l \<le> q"
  by (fastforce simp: number_exponent_def number_sign_def bind_eq_Some_conv split: if_splits dest!: number_next_le
      dest: number_digits_le [where l = l])

lemma read_number_le: "read_number E s = Some s' \<Longrightarrow> r_current s \<le> r_current s'"
  by (fastforce simp: read_number_def bind_eq_Some_conv dest: number_exponent_le [where l = "r_current s"]
      number_fraction_le [where l = "r_current s"] number_digits_le [where l = "r_current s"])

lemma add_comment_current: "add_comment E b e pl s = Some (Inr s') \<Longrightarrow> r_current s' = r_current s"
  by (auto simp: add_comment_def Let_def split: if_splits option.splits sum.splits)

lemma read_comment_le: "read_comment E s = Some (Inr (ok, s')) \<Longrightarrow> r_current s \<le> r_current s'"
  by (fastforce simp: read_comment_def Let_def bnd_eq_Inr read_c_style_comment_def read_cpp_style_comment_def bind_eq_Some_conv
      split: if_splits prod.splits dest!: get_next_char_le c_comment_loop_le cpp_comment_loop_le add_comment_current)

lemma token_switch_le: "token_switch E c s = Some (Inr (ty, ok, s')) \<Longrightarrow> r_current s \<le> r_current s'"
  by (auto simp: token_switch_def bnd_eq_Inr split: if_splits
      dest: match_text_le read_string_le read_number_le read_comment_le)

lemma token_switch_0: "token_switch E 0 s = ret (tt_end_of_stream, True, s)"
  by (simp add: token_switch_def is_digit_char_def word_sle_eq)

lemma read_token_advances:
  assumes "read_token E s = Some (Inr (tok, s'))"
  shows "r_current s \<le> r_current s' \<and>
    (tk_type tok \<noteq> tt_end_of_stream \<longrightarrow> r_current s < r_current s' \<and> r_current s < length (re_mem E))"
proof -
  obtain s1 c s2 ty ok where s1: "skip_spaces E s = Some s1" and c: "get_next_char E s1 = Some (c, s2)"
    and t: "token_switch E c s2 = Some (Inr (ty, ok, s'))" and tok: "tk_type tok = (if ok then ty else tt_error)"
    using assms by (auto simp: read_token_def bnd_eq_Inr Let_def)
  have le: "r_current s \<le> r_current s1" using s1 by (auto simp: skip_spaces_def dest: skip_spaces_from_le)
  show ?thesis
  proof (cases "c = 0")
    case True
    then show ?thesis using t tok le get_next_char_le [OF c] by (simp add: token_switch_0)
  next
    case False
    then have "r_current s1 < length (re_mem E) \<and> r_current s2 = Suc (r_current s1)"
      using c by (auto simp: get_next_char_def rd_def split: if_splits)
    then show ?thesis using le token_switch_le [OF t] by auto
  qed
qed

text \<open>\<open>do read_token(token); while (token.type_ == tt_comment);\<close>\<close>

function read_past_comments :: "'d reader_env \<Rightarrow> 'd reader \<Rightarrow> (json_token \<times> 'd reader) throws option" where
  "read_past_comments E s =
     bnd (read_token E s) (\<lambda>(tok, s').
     if tk_type tok = tt_comment then read_past_comments E s' else ret (tok, s'))"
  by pat_completeness auto
termination
  by (relation "measure (\<lambda>(E, s). length (re_mem E) - r_current s)") (auto dest: read_token_advances)

declare read_past_comments.simps [simp del]

definition skip_comment_tokens :: "'d reader_env \<Rightarrow> 'd reader \<Rightarrow> (json_token \<times> 'd reader) throws option" where
  "skip_comment_tokens E s = (if allow_comments (re_features E) then read_past_comments E s else read_token E s)"

text \<open>\<open>recover_from_error\<close> skips to the given token; it returns false.\<close>

function recover_from_error :: "'d reader_env \<Rightarrow> token_type \<Rightarrow> 'd reader \<Rightarrow> 'd reader throws option" where
  "recover_from_error E until s =
     bnd (read_token E s) (\<lambda>(tok, s').
     if tk_type tok = until \<or> tk_type tok = tt_end_of_stream then ret s' else recover_from_error E until s')"
  by pat_completeness auto
termination
  by (relation "measure (\<lambda>(E, until, s). length (re_mem E) - r_current s)") (auto dest: read_token_advances)

declare recover_from_error.simps [simp del]

definition add_error_and_recover :: "'d reader_env \<Rightarrow> byte list \<Rightarrow> json_token \<Rightarrow> token_type \<Rightarrow> 'd reader \<Rightarrow> (bool \<times> 'd reader) throws option" where
  "add_error_and_recover E msg tok until s =
     bnd (recover_from_error E until (add_error msg tok None s)) (\<lambda>s. ret (False, s))"

definition fail_and_recover :: "'d reader_env \<Rightarrow> token_type \<Rightarrow> 'd reader \<Rightarrow> (bool \<times> 'd reader) throws option" where
  "fail_and_recover E until s = bnd (recover_from_error E until s) (\<lambda>s. ret (False, s))"

text \<open>The pieces of \<open>read_value\<close>, \<open>read_object\<close> and \<open>read_array\<close> around the recursive calls.\<close>

definition attach_comments :: "'d reader_env \<Rightarrow> 'd reader \<Rightarrow> 'd reader throws option" where
  "attach_comments E s =
     (if re_collect E \<and> r_comments_before s \<noteq> []
      then bnd (upd_current_throws (set_comment (r_comments_before s) comment_before) s)
             (\<lambda>s. ret (s\<lparr> r_comments_before := [] \<rparr>))
      else ret s)"

definition start_container :: "'d reader_env \<Rightarrow> 'd payload \<Rightarrow> json_token \<Rightarrow> 'd reader \<Rightarrow> 'd reader option" where
  "start_container E p tok s =
     upd_current (\<lambda>v. set_offset_start (token_offset E (tk_start tok)) (set_payload (init_basic p) v)) s"

definition limit_current :: "'d reader_env \<Rightarrow> 'd reader \<Rightarrow> 'd reader option" where
  "limit_current E s = upd_current (set_offset_limit (token_offset E (r_current s))) s"

definition finish_value :: "'d reader_env \<Rightarrow> bool \<Rightarrow> 'd reader \<Rightarrow> bool \<times> 'd reader" where
  "finish_value E ok s =
     (ok, (if re_collect E then s\<lparr> r_last_value_end := Some (r_current s), r_last_value := Some (hd (r_nodes s)) \<rparr> else s)
        \<lparr> r_depth := r_depth s - 1 \<rparr>)"

definition finish_scalar :: "'d reader_env \<Rightarrow> 'd payload option \<Rightarrow> json_token \<Rightarrow> 'd reader \<Rightarrow> (bool \<times> 'd reader) throws option" where
  "finish_scalar E r tok s = (case r of
       None \<Rightarrow> ret (finish_value E False s)
     | Some p \<Rightarrow> bnd (mem (set_token_value E p tok s)) (\<lambda>s. ret (finish_value E True s)))"

definition decode_string :: "'d reader_env \<Rightarrow> json_token \<Rightarrow> 'd reader \<Rightarrow> ('d payload option \<times> 'd reader) throws option" where
  "decode_string E tok s =
     bnd (decode_name E tok s) (\<lambda>(r, s).
     case r of
       None \<Rightarrow> ret (None, s)
     | Some d \<Rightarrow> bnd (Some (duplicate_and_prefix_string_value d (of_nat (length d)))) (\<lambda>t. ret (Some (vt_string (Some t)), s)))"

text \<open>A dropped null placeholder: the token is \<open>unread\<close>. The start offset is a \<open>size_t\<close>, one before the token.\<close>

definition dropped_null :: "'d reader_env \<Rightarrow> 'd reader \<Rightarrow> 'd reader option" where
  "dropped_null E s =
     (let s = s\<lparr> r_current := r_current s - 1 \<rparr>
      in set_current E vt_null (nat ((int (token_offset E (r_current s)) - 1) mod 2 ^ 64)) (token_offset E (r_current s)) s)"

definition value_expected :: "'d reader_env \<Rightarrow> json_token \<Rightarrow> 'd reader \<Rightarrow> (bool \<times> 'd reader) throws option" where
  "value_expected E tok s =
     bnd (mem (upd_current (\<lambda>v. set_offset_limit (token_offset E (tk_end tok)) (set_offset_start (token_offset E (tk_start tok)) v)) s))
       (\<lambda>s. ret (False, add_error (lit ''Syntax error: value, object or array expected.'') tok None s))"

text \<open>The name of a member: \<^term>\<open>None\<close> where decoding failed, \<open>Some None\<close> where the token is no name.\<close>

definition member_name :: "'d reader_env \<Rightarrow> json_token \<Rightarrow> 'd reader \<Rightarrow> (byte list option option \<times> 'd reader) throws option" where
  "member_name E tok s =
     (if tk_type tok = tt_string then bnd (decode_name E tok s) (\<lambda>(r, s). ret (map_option Some r, s))
      else if tk_type tok = tt_number \<and> allow_numeric_keys (re_features E)
      then bnd (decode_number E tok s) (\<lambda>(r, s). case r of
             None \<Rightarrow> ret (None, s)
           | Some p \<Rightarrow> bnd (Some (as_string (re_real_text E) (init_basic p))) (\<lambda>n. ret (Some (Some n), s)))
      else ret (Some None, s))"

fun read_value :: "nat \<Rightarrow> 'd reader_env \<Rightarrow> 'd reader \<Rightarrow> (bool \<times> 'd reader) throws option"
  and read_object_loop :: "nat \<Rightarrow> 'd reader_env \<Rightarrow> byte list \<Rightarrow> 'd reader \<Rightarrow> (bool \<times> 'd reader) throws option"
  and read_array_loop :: "nat \<Rightarrow> 'd reader_env \<Rightarrow> nat \<Rightarrow> 'd reader \<Rightarrow> (bool \<times> 'd reader) throws option" where
  "read_value 0 E s = None"
| "read_value (Suc n) E s =
     (if stack_limit \<le> r_depth s then Some (Inl json_runtime_error)
      else bnd (skip_comment_tokens E (s\<lparr> r_depth := r_depth s + 1 \<rparr>)) (\<lambda>(tok, s).
      bnd (attach_comments E s) (\<lambda>s.
      if tk_type tok = tt_object_begin then
        bnd (mem (start_container E (vt_object []) tok s)) (\<lambda>s.
        bnd (read_object_loop n E [] s) (\<lambda>(ok, s).
        bnd (mem (limit_current E s)) (\<lambda>s. ret (finish_value E ok s))))
      else if tk_type tok = tt_array_begin then
        bnd (mem (start_container E (vt_array []) tok s)) (\<lambda>s.
        bnd (mem (skip_spaces E s)) (\<lambda>s.
        bnd (mem (rd (re_mem E) (r_current s))) (\<lambda>c.
        bnd (if c = asc CHR '']'' then bnd (read_token E s) (\<lambda>(_, s). ret (True, s)) else read_array_loop n E 0 s) (\<lambda>(ok, s).
        bnd (mem (limit_current E s)) (\<lambda>s. ret (finish_value E ok s))))))
      else if tk_type tok = tt_number then bnd (decode_number E tok s) (\<lambda>(r, s). finish_scalar E r tok s)
      else if tk_type tok = tt_string then bnd (decode_string E tok s) (\<lambda>(r, s). finish_scalar E r tok s)
      else if tk_type tok = tt_true then finish_scalar E (Some (vt_bool True)) tok s
      else if tk_type tok = tt_false then finish_scalar E (Some (vt_bool False)) tok s
      else if tk_type tok = tt_null then finish_scalar E (Some vt_null) tok s
      else if tk_type tok \<in> {tt_array_separator, tt_object_end, tt_array_end} \<and> allow_dropped_null_placeholders (re_features E)
      then bnd (mem (dropped_null E s)) (\<lambda>s. ret (finish_value E True s))
      else value_expected E tok s)))"
| "read_object_loop 0 E name s = None"
| "read_object_loop (Suc n) E name s =
     bnd (read_past_comments E s) (\<lambda>(tok, s).
     if tk_type tok = tt_object_end \<and> name = [] then ret (True, s)
     else bnd (member_name E tok s) (\<lambda>(nm, s). case nm of
       None \<Rightarrow> fail_and_recover E tt_object_end s
     | Some None \<Rightarrow> add_error_and_recover E (lit ''Missing '' @ [39, 125, 39] @ lit '' or object member name'') tok tt_object_end s
     | Some (Some name) \<Rightarrow>
         bnd (read_token E s) (\<lambda>(colon, s).
         if tk_type colon \<noteq> tt_member_separator
         then add_error_and_recover E (lit ''Missing '' @ [39, 58, 39] @ lit '' after object member name'') colon tt_object_end s
         else bnd (upd_current_throws (resolve_reference name) s) (\<lambda>s.
         bnd (read_value n E (push_node (key_name (czstring name)) s)) (\<lambda>(ok, s).
         let s = pop_node s in
         if \<not> ok then fail_and_recover E tt_object_end s
         else bnd (read_token E s) (\<lambda>(comma, s).
         if tk_type comma \<notin> {tt_object_end, tt_array_separator, tt_comment}
         then add_error_and_recover E (lit ''Missing '' @ [39, 44, 39] @ lit '' or '' @ [39, 125, 39] @ lit '' in object declaration'') comma tt_object_end s
         else bnd (if tk_type comma = tt_comment then read_past_comments E s else ret (comma, s)) (\<lambda>(comma, s).
         if tk_type comma = tt_object_end then ret (True, s) else read_object_loop n E name s)))))))"
| "read_array_loop 0 E i s = None"
| "read_array_loop (Suc n) E i s =
     bnd (upd_current_throws (array_ref_int (of_nat i)) s) (\<lambda>s.
     bnd (read_value n E (push_node (key_index (of_nat i)) s)) (\<lambda>(ok, s).
     let s = pop_node s in
     if \<not> ok then fail_and_recover E tt_array_end s
     else bnd (read_past_comments E s) (\<lambda>(tok, s).
     if tk_type tok \<noteq> tt_array_separator \<and> tk_type tok \<noteq> tt_array_end
     then add_error_and_recover E (lit ''Missing '' @ [39, 44, 39] @ lit '' or '' @ [39, 93, 39] @ lit '' in array declaration'') tok tt_array_end s
     else if tk_type tok = tt_array_end then ret (True, s)
     else read_array_loop n E (Suc i) s)))"

section \<open>Documents\<close>

definition reader_init :: "'d reader_env \<Rightarrow> 'd json_value \<Rightarrow> 'd reader" where
  "reader_init E root =
     \<lparr> r_errors = [], r_current = re_begin E, r_last_value_end = None, r_last_value = None, r_comments_before = [],
       r_nodes = [[]], r_root = root, r_depth = 0 \<rparr>"

definition strict_root_check :: "'d reader_env \<Rightarrow> bool \<Rightarrow> 'd reader \<Rightarrow> bool \<times> 'd reader" where
  "strict_root_check E ok s =
     (if strict_root (re_features E) \<and> \<not> is_array (r_root s) \<and> \<not> is_object (r_root s)
      then (False, add_error (lit ''A valid JSON document must be either an array or an object value.'')
              \<lparr> tk_type = tt_error, tk_start = re_begin E, tk_end = re_end E \<rparr> None s)
      else (ok, s))"

definition parse_env :: "'d reader_env \<Rightarrow> 'd json_value \<Rightarrow> (bool \<times> 'd reader) throws option" where
  "parse_env E root =
     bnd (read_value (2 * (re_end E - re_begin E) + 2) E (reader_init E root)) (\<lambda>(ok, s).
     bnd (skip_comment_tokens E s) (\<lambda>(_, s).
     bnd (if re_collect E \<and> r_comments_before s \<noteq> []
          then bnd (Some (set_comment (r_comments_before s) comment_after (r_root s))) (\<lambda>v. ret (s\<lparr> r_root := v \<rparr>))
          else ret s) (\<lambda>s.
     ret (strict_root_check E ok s))))"

definition parse ::
  "(byte list \<Rightarrow> 'd option) \<Rightarrow> ('d \<Rightarrow> byte list) \<Rightarrow> features \<Rightarrow> buffer \<Rightarrow> nat \<Rightarrow> nat \<Rightarrow> 'd json_value \<Rightarrow> bool \<Rightarrow>
    (bool \<times> 'd reader) throws option" where
  "parse scan_double real_text features m begin_doc end_doc root collect_comments =
     parse_env
       \<lparr> re_mem = m, re_begin = begin_doc, re_end = end_doc, re_features = features,
         re_collect = (allow_comments features \<and> collect_comments),
         re_scan_double = scan_double, re_real_text = real_text \<rparr>
       root"

text \<open>\<open>parse(std::string)\<close>: the characters of a \<open>std::string\<close> are followed by a null character.\<close>

definition parse_string ::
  "(byte list \<Rightarrow> 'd option) \<Rightarrow> ('d \<Rightarrow> byte list) \<Rightarrow> features \<Rightarrow> byte list \<Rightarrow> 'd json_value \<Rightarrow> bool \<Rightarrow>
    (bool \<times> 'd reader) throws option" where
  "parse_string scan_double real_text features doc root collect_comments =
     parse scan_double real_text features (doc @ [0]) 0 (length doc) root collect_comments"

section \<open>Reports\<close>

definition good :: "'d reader \<Rightarrow> bool" where
  "good s \<longleftrightarrow> r_errors s = []"

function location_loop :: "buffer \<Rightarrow> nat \<Rightarrow> nat \<Rightarrow> nat \<Rightarrow> nat \<Rightarrow> nat \<Rightarrow> (nat \<times> nat) option" where
  "location_loop m e loc p line_start line =
     (if p < loc \<and> p \<noteq> e
      then (if length m \<le> p then None
            else if m ! p = 13
            then (case rd m (Suc p) of
                    None \<Rightarrow> None
                  | Some d \<Rightarrow> let q = (if d = 10 then Suc (Suc p) else Suc p) in location_loop m e loc q q (Suc line))
            else if m ! p = 10 then location_loop m e loc (Suc p) (Suc p) (Suc line)
            else location_loop m e loc (Suc p) line_start line)
      else Some (line_start, line))"
  by pat_completeness auto
termination
  by (relation "measure (\<lambda>(m, e, loc, p, ls, l). length m - p)") auto

declare location_loop.simps [simp del]

text \<open>Line and column start at 1.\<close>

definition get_location_line_and_column :: "'d reader_env \<Rightarrow> nat \<Rightarrow> (int \<times> int) option" where
  "get_location_line_and_column E loc =
     map_option (\<lambda>(line_start, line). (int line + 1, int loc - int line_start + 1))
       (location_loop (re_mem E) (re_end E) loc (re_begin E) (re_begin E) 0)"

definition location_text :: "'d reader_env \<Rightarrow> nat \<Rightarrow> byte list option" where
  "location_text E loc =
     map_option (\<lambda>(line, column).
         lit ''Line '' @ value_to_string_int (of_int line) @ lit '', Column '' @ value_to_string_int (of_int column))
       (get_location_line_and_column E loc)"

definition error_text :: "'d reader_env \<Rightarrow> error_info \<Rightarrow> byte list option" where
  "error_text E err =
     do {
       l \<leftarrow> location_text E (tk_start (ei_token err));
       x \<leftarrow> (case ei_extra err of
              None \<Rightarrow> Some []
            | Some at \<Rightarrow> map_option (\<lambda>t. lit ''See '' @ t @ lit '' for detail.'' @ [10]) (location_text E at));
       Some (lit ''* '' @ l @ [10] @ lit ''  '' @ ei_message err @ [10] @ x)
     }"

definition get_formatted_messages :: "'d reader_env \<Rightarrow> 'd reader \<Rightarrow> byte list option" where
  "get_formatted_messages E s = map_option concat (those (map (error_text E) (r_errors s)))"

definition get_structured_errors :: "'d reader_env \<Rightarrow> 'd reader \<Rightarrow> (nat \<times> nat \<times> byte list) list" where
  "get_structured_errors E s =
     map (\<lambda>err. (tk_start (ei_token err) - re_begin E, tk_end (ei_token err) - re_begin E, ei_message err)) (r_errors s)"

text \<open>\<open>push_error\<close>: without an extra value the end of the token is counted from the end of the document.\<close>

definition push_error :: "'d reader_env \<Rightarrow> 'd json_value \<Rightarrow> byte list \<Rightarrow> 'd reader \<Rightarrow> bool \<times> 'd reader" where
  "push_error E v msg s =
     (let len = re_end E - re_begin E in
      if offset_start v > len \<or> offset_limit v > len then (False, s)
      else (True, add_error msg \<lparr> tk_type = tt_error, tk_start = re_begin E + offset_start v,
              tk_end = re_end E + offset_limit v \<rparr> None s))"

definition push_error_extra :: "'d reader_env \<Rightarrow> 'd json_value \<Rightarrow> byte list \<Rightarrow> 'd json_value \<Rightarrow> 'd reader \<Rightarrow> bool \<times> 'd reader" where
  "push_error_extra E v msg extra s =
     (let len = re_end E - re_begin E in
      if offset_start v > len \<or> offset_limit v > len \<or> offset_limit extra > len then (False, s)
      else (True, add_error msg \<lparr> tk_type = tt_error, tk_start = re_begin E + offset_start v,
              tk_end = re_begin E + offset_limit v \<rparr> (Some (re_begin E + offset_start extra)) s))"

end
