(* ===== verification/Json_Safety.thy ===== *)
theory Json_Safety
  imports Json_Reader "HOL-Library.Sublist"
begin

text \<open>
  The reader on every document: it returns, it reads nothing but the document and the byte behind it, its pointers into
  the value stay valid, it throws nothing but the error of the nesting limit, and it fails exactly if it has
  recorded an error.
\<close>

section \<open>Shapes of values\<close>

lemma map_of_upd_entry: "map_of (upd_entry k f xs) k' = (if k' = k then map_option f (map_of xs k) else map_of xs k')"
  by (induction xs) (auto simp: upd_entry_def)

lemma child_upd_child: "child k' (upd_child k f v) = (if k' = k then map_option f (child k v) else child k' v)"
  by (cases k; cases k'; cases "payload v") (auto simp: child_def upd_child_def map_of_upd_entry)

lemma type_upd_child [simp]: "type_of (upd_child k f v) = type_of v"
  by (cases k; cases "payload v") (auto simp: type_of_def upd_child_def)

lemma value_at_append: "value_at (p @ q) r = (case value_at p r of None \<Rightarrow> None | Some v \<Rightarrow> value_at q v)"
  by (induction p arbitrary: r) (auto split: option.split)

lemma value_at_upd: "value_at (p @ q) (upd_at p f r) = (case value_at p r of None \<Rightarrow> None | Some v \<Rightarrow> value_at q (f v))"
  by (induction p arbitrary: r) (auto simp: child_upd_child split: option.split)

lemma value_at_upd_same: "value_at p (upd_at p f r) = map_option f (value_at p r)"
  using value_at_upd [of p "[]" f r] by (simp split: option.splits)

definition shape :: "'d json_value \<Rightarrow> key list \<Rightarrow> value_type option" where
  "shape r q = map_option type_of (value_at q r)"

definition same_shape :: "'d json_value \<Rightarrow> 'd json_value \<Rightarrow> bool" where
  "same_shape r r' \<longleftrightarrow> (\<forall>q. shape r' q = shape r q)"

text \<open>Only what lies at the path and below it may have changed.\<close>

definition frame :: "key list \<Rightarrow> 'd json_value \<Rightarrow> 'd json_value \<Rightarrow> bool" where
  "frame p r r' \<longleftrightarrow> (\<forall>q. \<not> prefix p q \<longrightarrow> shape r' q = shape r q)"

lemma shape_None [simp]: "shape r q = None \<longleftrightarrow> value_at q r = None"
  by (simp add: shape_def)

lemma same_shape_refl [simp]: "same_shape r r"
  by (simp add: same_shape_def)

lemma same_shape_trans: "same_shape r s \<Longrightarrow> same_shape s t \<Longrightarrow> same_shape r t"
  by (simp add: same_shape_def)

lemma same_shape_frame: "same_shape r r' \<Longrightarrow> frame p r r'"
  by (simp add: same_shape_def frame_def)

lemma frame_trans: "frame p r s \<Longrightarrow> frame p s t \<Longrightarrow> frame p r t"
  by (simp add: frame_def)

lemma frame_child: "frame (p @ [k]) r s \<Longrightarrow> frame p r s"
  by (auto simp: frame_def dest: append_prefixD)

lemma same_shape_value: "same_shape r r' \<Longrightarrow> value_at q r' = None \<longleftrightarrow> value_at q r = None"
  unfolding same_shape_def shape_None [symmetric] by simp

lemma frame_value: "frame p r r' \<Longrightarrow> \<not> prefix p q \<Longrightarrow> value_at q r' = None \<longleftrightarrow> value_at q r = None"
  unfolding frame_def shape_None [symmetric] by simp

lemma upd_frame: "frame p r (upd_at p f r)"
  unfolding frame_def
proof (intro allI impI)
  fix q
  assume "\<not> prefix p q"
  then show "shape (upd_at p f r) q = shape r q"
  proof (induction p arbitrary: q r)
    case (Cons k p)
    show ?case
    proof (cases q)
      case (Cons k' q')
      then show ?thesis using Cons.IH [of q'] Cons.prems
        by (cases "child k r") (auto simp: shape_def child_upd_child)
    qed (simp add: shape_def)
  qed simp
qed

lemma shape_payload: "payload v' = payload v \<Longrightarrow> shape v' q = shape v q"
  by (cases q) (auto simp: shape_def type_of_def child_def)

lemma upd_same_shape:
  assumes "\<And>v. value_at p r = Some v \<Longrightarrow> payload (f v) = payload v"
  shows "same_shape r (upd_at p f r)"
  unfolding same_shape_def
proof
  fix q
  show "shape (upd_at p f r) q = shape r q"
  proof (cases "prefix p q")
    case True
    then obtain q' where q: "q = p @ q'" by (auto simp: prefix_def)
    show ?thesis
    proof (cases "value_at p r")
      case (Some v)
      then have "shape (upd_at p f r) q = shape (f v) q'" "shape r q = shape v q'"
        by (simp_all add: q shape_def value_at_upd_same value_at_append)
      then show ?thesis using shape_payload [OF assms [OF Some]] by simp
    qed (simp add: q shape_def value_at_upd_same value_at_append)
  qed (use upd_frame [of p r f] in \<open>simp add: frame_def\<close>)
qed

section \<open>Outcomes\<close>

text \<open>A computation returns, with a result that satisfies \<open>P\<close>; or, for \<open>returns\<close>, throws the error of the nesting limit.\<close>

definition yields :: "('a \<Rightarrow> bool) \<Rightarrow> 'a throws option \<Rightarrow> bool" where
  "yields P r \<longleftrightarrow> (\<exists>x. r = Some (Inr x) \<and> P x)"

definition returns :: "('a \<Rightarrow> bool) \<Rightarrow> 'a throws option \<Rightarrow> bool" where
  "returns P r \<longleftrightarrow> r = Some (Inl json_runtime_error) \<or> yields P r"

lemma bnd_simps: "bnd (mem (Some x)) f = f x" "bnd (Some (Inr x)) f = f x" "bnd (ret x) f = f x"
  by (simp_all add: bnd_def mem_def ret_def)

lemma yields_bnd: "yields P r \<Longrightarrow> (\<And>x. P x \<Longrightarrow> yields Q (f x)) \<Longrightarrow> yields Q (bnd r f)"
  by (auto simp: yields_def bnd_def)

lemma returns_bnd: "returns P r \<Longrightarrow> (\<And>x. P x \<Longrightarrow> returns Q (f x)) \<Longrightarrow> returns Q (bnd r f)"
  unfolding returns_def yields_def bnd_def by fastforce

lemma yields_returns: "yields P r \<Longrightarrow> returns P r"
  by (simp add: returns_def)

lemma returns_yields_bnd: "yields P r \<Longrightarrow> (\<And>x. P x \<Longrightarrow> returns Q (f x)) \<Longrightarrow> returns Q (bnd r f)"
  unfolding returns_def yields_def bnd_def by fastforce

lemma yields_mem: "r = Some x \<Longrightarrow> P x \<Longrightarrow> yields P (mem r)"
  by (simp add: yields_def mem_def)

lemma yields_ret [simp]: "yields P (ret x) \<longleftrightarrow> P x"
  by (simp add: yields_def ret_def)

lemma returns_ret [simp]: "returns P (ret x) \<longleftrightarrow> P x"
  by (simp add: returns_def) (simp add: ret_def)

lemma yields_mono: "yields P r \<Longrightarrow> (\<And>x. P x \<Longrightarrow> Q x) \<Longrightarrow> yields Q r"
  by (auto simp: yields_def)

lemma returns_mono: "returns P r \<Longrightarrow> (\<And>x. P x \<Longrightarrow> Q x) \<Longrightarrow> returns Q r"
  by (auto simp: returns_def yields_def)

section \<open>Reading tokens\<close>

definition env_ok :: "'d reader_env \<Rightarrow> bool" where
  "env_ok E \<longleftrightarrow> re_begin E \<le> re_end E \<and> re_end E < length (re_mem E) \<and> re_end E - re_begin E < 2 ^ 30"

definition state_ok :: "'d reader_env \<Rightarrow> 'd reader \<Rightarrow> bool" where
  "state_ok E s \<longleftrightarrow> re_begin E \<le> r_current s \<and> r_current s \<le> re_end E \<and>
     (r_comments_before s = [] \<or> hd (r_comments_before s) = asc CHR ''/'') \<and>
     (r_last_value_end s \<noteq> None \<longrightarrow> r_last_value s \<noteq> None) \<and>
     (\<forall>q. r_last_value s = Some q \<longrightarrow> value_at q (r_root s) \<noteq> None)"

text \<open>Reading tokens moves forward, and changes comments only.\<close>

definition token_step :: "'d reader_env \<Rightarrow> 'd reader \<Rightarrow> 'd reader \<Rightarrow> bool" where
  "token_step E s s' \<longleftrightarrow> state_ok E s' \<and> r_current s \<le> r_current s' \<and> same_shape (r_root s) (r_root s') \<and>
     r_nodes s' = r_nodes s \<and> r_depth s' = r_depth s \<and> r_errors s' = r_errors s \<and> r_last_value s' = r_last_value s \<and>
     r_last_value_end s' = r_last_value_end s"

lemma token_step_trans: "token_step E s t \<Longrightarrow> token_step E t u \<Longrightarrow> token_step E s u"
  by (auto simp: token_step_def intro: same_shape_trans)

lemma token_step_refl: "state_ok E s \<Longrightarrow> token_step E s s"
  by (simp add: token_step_def)

lemma token_step_move:
  "state_ok E s \<Longrightarrow> r_current s \<le> p \<Longrightarrow> p \<le> re_end E \<Longrightarrow> token_step E s (s\<lparr> r_current := p \<rparr>)"
  by (auto simp: token_step_def state_ok_def)

lemma get_next_char_ok:
  assumes "env_ok E" "state_ok E s"
  obtains c s' where "get_next_char E s = Some (c, s')" "token_step E s s'"
    "r_current s = re_end E \<longrightarrow> c = 0 \<and> s' = s"
    "r_current s \<noteq> re_end E \<longrightarrow> c = re_mem E ! r_current s \<and> s' = s\<lparr> r_current := Suc (r_current s) \<rparr> \<and> Suc (r_current s) \<le> re_end E"
proof (cases "r_current s = re_end E")
  case True
  then show thesis using that [of 0 s] assms token_step_refl [of E s] by (simp add: get_next_char_def)
next
  case False
  then have "r_current s < re_end E" "re_end E < length (re_mem E)" using assms by (auto simp: state_ok_def env_ok_def)
  then show thesis using that [of "re_mem E ! r_current s"] False assms token_step_move [of E s "Suc (r_current s)"]
    by (simp add: get_next_char_def)
qed

lemma skip_spaces_from_ok:
  "p \<le> e \<Longrightarrow> e < length m \<Longrightarrow> \<exists>q. skip_spaces_from m e p = Some q \<and> p \<le> q \<and> q \<le> e"
proof (induction m e p rule: skip_spaces_from.induct)
  case (1 m e p)
  show ?case
  proof (cases "p = e")
    case False
    then have "Suc p \<le> e" "p < length m" using "1.prems" by auto
    then show ?thesis using 1 False
      by (subst skip_spaces_from.simps) (auto dest: Suc_leD)
  qed (simp add: skip_spaces_from.simps)
qed

lemma c_comment_loop_ok:
  "p \<le> e \<Longrightarrow> e < length m \<Longrightarrow> \<exists>q. c_comment_loop m e p = Some q \<and> p \<le> q \<and> q \<le> e"
proof (induction m e p rule: c_comment_loop.induct)
  case (1 m e p)
  show ?case
  proof (cases "p = e")
    case False
    then have "Suc p \<le> e" "Suc p < length m" using "1.prems" by auto
    then show ?thesis using 1 False
      by (subst c_comment_loop.simps) (auto dest: Suc_leD)
  qed (simp add: c_comment_loop.simps)
qed

lemma cpp_comment_loop_ok:
  "p \<le> e \<Longrightarrow> e < length m \<Longrightarrow> \<exists>q. cpp_comment_loop m e p = Some q \<and> p \<le> q \<and> q \<le> e"
proof (induction m e p rule: cpp_comment_loop.induct)
  case (1 m e p)
  show ?case
  proof (cases "p = e")
    case False
    then have "Suc p \<le> e" "Suc p < length m" using "1.prems" by auto
    then show ?thesis using 1 False
      by (subst cpp_comment_loop.simps) (auto dest: Suc_leD)
  qed (simp add: cpp_comment_loop.simps)
qed

lemma contains_new_line_ok: "e \<le> length m \<Longrightarrow> \<exists>b'. contains_new_line m b e = Some b'"
proof (induction m b e rule: contains_new_line.induct)
  case (1 m b e)
  then show ?case by (subst contains_new_line.simps) auto
qed

lemma number_digits_ok:
  "p \<le> e \<Longrightarrow> e < length m \<Longrightarrow> cur \<le> e \<Longrightarrow>
    \<exists>c' q r. number_digits m e c p cur = Some (c', q, r) \<and> q \<le> e \<and> r \<le> e"
proof (induction m e c p cur rule: number_digits.induct)
  case (1 m e c p cur)
  then show ?case by (subst number_digits.simps) auto
qed

lemma read_string_loop_ok:
  "p \<le> e \<Longrightarrow> e < length m \<Longrightarrow>
    \<exists>d q. read_string_loop m e c p = Some (d, q) \<and> p \<le> q \<and> q \<le> e \<and> (d = 34 \<longrightarrow> c = 34 \<or> p < q \<and> m ! (q - 1) = 34)"
proof (induction m e c p rule: read_string_loop.induct)
  case (1 m e c p)
  show ?case
  proof (cases "p = e")
    case False
    then have le: "Suc p \<le> e" "Suc p < length m" using "1.prems" by auto
    consider (esc) "m ! p = 92" "Suc p = e" | (esc2) "m ! p = 92" "Suc p \<noteq> e" | (q) "m ! p = 34" | (other) "m ! p \<noteq> 92" "m ! p \<noteq> 34"
      by auto
    then show ?thesis
    proof cases
      case esc
      then show ?thesis using False le by (simp add: read_string_loop.simps [of m e c p] read_string_loop.simps [of m e 92 e])
    next
      case esc2
      then obtain d q where "read_string_loop m e 92 (Suc (Suc p)) = Some (d, q)" "Suc (Suc p) \<le> q" "q \<le> e"
          "d = 34 \<longrightarrow> Suc (Suc p) < q \<and> m ! (q - 1) = 34"
        using "1.IH"(2) esc2 False le "1.prems"(2) by (auto simp: not_le)
      then show ?thesis using esc2 False le by (simp add: read_string_loop.simps [of m e c p])
    next
      case q
      then show ?thesis using False le by (simp add: read_string_loop.simps [of m e c p])
    next
      case other
      then obtain d q where "read_string_loop m e (m ! p) (Suc p) = Some (d, q)" "Suc p \<le> q" "q \<le> e"
          "d = 34 \<longrightarrow> Suc p < q \<and> m ! (q - 1) = 34"
        using "1.IH"(3) other False le "1.prems"(2) by (auto simp: not_le)
      then show ?thesis using other False le by (simp add: read_string_loop.simps [of m e c p])
    qed
  qed (simp add: read_string_loop.simps)
qed

lemma number_next_ok: "p \<le> e \<Longrightarrow> e < length m \<Longrightarrow> \<exists>c q r. number_next m e p = Some (c, q, r) \<and> q \<le> e \<and> r \<le> e"
  by (auto simp: number_next_def)

lemma number_fraction_ok:
  assumes "p \<le> e" "e < length m" "cur \<le> e"
  shows "\<exists>c' q r. number_fraction m e (c, p, cur) = Some (c', q, r) \<and> q \<le> e \<and> r \<le> e"
proof (cases "c = asc CHR ''.''")
  case True
  obtain c1 q1 r1 where 1: "number_next m e p = Some (c1, q1, r1)" "q1 \<le> e" "r1 \<le> e"
    using number_next_ok [OF assms(1,2)] by blast
  then show ?thesis using True number_digits_ok [OF 1(2) assms(2) 1(3), of c1] by (simp add: number_fraction_def)
qed (use assms in \<open>simp add: number_fraction_def\<close>)

lemma number_exponent_ok:
  assumes "p \<le> e" "e < length m" "cur \<le> e"
  shows "\<exists>c' q r. number_exponent m e (c, p, cur) = Some (c', q, r) \<and> q \<le> e \<and> r \<le> e"
proof (cases "c = asc CHR ''e'' \<or> c = asc CHR ''E''")
  case True
  obtain c1 q1 r1 where 1: "number_next m e p = Some (c1, q1, r1)" "q1 \<le> e" "r1 \<le> e"
    using number_next_ok [OF assms(1,2)] by blast
  have "\<exists>c q r. number_sign m e (c1, q1, r1) = Some (c, q, r) \<and> q \<le> e \<and> r \<le> e"
    using number_next_ok [OF 1(2) assms(2)] 1(2,3) by (cases "c1 = asc CHR ''+'' \<or> c1 = asc CHR ''-''") (auto simp: number_sign_def)
  then obtain c2 q2 r2 where 2: "number_sign m e (c1, q1, r1) = Some (c2, q2, r2)" "q2 \<le> e" "r2 \<le> e" by blast
  then show ?thesis using True 1 number_digits_ok [OF 2(2) assms(2) 2(3), of c2] by (auto simp: number_exponent_def)
qed (use assms in \<open>simp add: number_exponent_def\<close>)

lemma read_number_ok:
  assumes "env_ok E" "state_ok E s"
  obtains s' where "read_number E s = Some s'" "token_step E s s'"
proof -
  let ?m = "re_mem E" and ?e = "re_end E"
  have le: "r_current s \<le> ?e" "?e < length ?m" using assms by (auto simp: state_ok_def env_ok_def)
  obtain c1 q1 r1 where 1: "number_digits ?m ?e (asc CHR ''0'') (r_current s) (r_current s) = Some (c1, q1, r1)" "q1 \<le> ?e" "r1 \<le> ?e"
    using number_digits_ok [OF le le(1)] by blast
  obtain c2 q2 r2 where 2: "number_fraction ?m ?e (c1, q1, r1) = Some (c2, q2, r2)" "q2 \<le> ?e" "r2 \<le> ?e"
    using number_fraction_ok [OF 1(2) le(2) 1(3)] by blast
  obtain c3 q3 r3 where 3: "number_exponent ?m ?e (c2, q2, r2) = Some (c3, q3, r3)" "q3 \<le> ?e" "r3 \<le> ?e"
    using number_exponent_ok [OF 2(2) le(2) 2(3)] by blast
  have n: "read_number E s = Some (s\<lparr> r_current := r3 \<rparr>)" using 1 2 3 by (simp add: read_number_def)
  then show thesis using that token_step_move [OF assms(2), of r3] 3(3) read_number_le [OF n] by simp
qed

lemma read_string_ok:
  assumes "env_ok E" "state_ok E s"
  obtains ok s' where "read_string E s = Some (ok, s')" "token_step E s s'"
    "ok \<longrightarrow> r_current s < r_current s' \<and> re_mem E ! (r_current s' - 1) = 34"
proof -
  have le: "r_current s \<le> re_end E" "re_end E < length (re_mem E)" using assms by (auto simp: state_ok_def env_ok_def)
  obtain d q where q: "read_string_loop (re_mem E) (re_end E) 0 (r_current s) = Some (d, q)" "r_current s \<le> q" "q \<le> re_end E"
      "d = 34 \<longrightarrow> r_current s < q \<and> re_mem E ! (q - 1) = 34"
    using read_string_loop_ok [OF le, of 0] by auto
  then show thesis using that token_step_move [OF assms(2) q(2,3)] by (auto simp: read_string_def)
qed

lemma match_text_ok:
  assumes "env_ok E" "state_ok E s"
  obtains ok s' where "match_text E pat s = Some (ok, s')" "token_step E s s'"
proof -
  have le: "re_end E < length (re_mem E)" using assms by (auto simp: env_ok_def)
  then show thesis using that token_step_move [OF assms(2), of "r_current s + length pat"] token_step_refl [OF assms(2)]
    by (fastforce simp: match_text_def Let_def split: if_splits)
qed

lemma set_comment_ok:
  assumes "s \<noteq> []" "hd s = asc CHR ''/''"
  obtains v' where "set_comment s pl v = Inr v'" "payload v' = payload v"
  using assms that by (simp add: set_comment_def json_assert_def Let_def)

lemma normalize_eol_slash: "normalize_eol (47 # cs) = 47 # normalize_eol cs"
  by simp

lemma add_comment_ok:
  assumes "env_ok E" "state_ok E s" "b < e" "e \<le> length (re_mem E)" "re_mem E ! b = asc CHR ''/''"
    "pl = comment_after_on_same_line \<longrightarrow> r_last_value s \<noteq> None"
  shows "yields (\<lambda>s'. token_step E s s') (add_comment E b e pl s)"
proof -
  let ?n = "normalize_eol (slice (re_mem E) b e)"
  have n: "?n \<noteq> []" "hd ?n = asc CHR ''/''"
    using assms(3-5) slice_Cons [of b e "re_mem E"] by (simp_all add: normalize_eol_slash)
  show ?thesis
  proof (cases "pl = comment_after_on_same_line")
    case True
    then obtain q v where q: "r_last_value s = Some q" "value_at q (r_root s) = Some v"
      using assms(2,6) by (auto simp: state_ok_def)
    obtain v' where v': "set_comment ?n pl v = Inr v'" "payload v' = payload v" by (rule set_comment_ok [OF n])
    let ?r = "upd_at q (\<lambda>_. v') (r_root s)"
    have same: "same_shape (r_root s) ?r" using q(2) v'(2) by (intro upd_same_shape) simp
    have "value_at q ?r \<noteq> None" using q(2) by (simp add: value_at_upd_same)
    then have "state_ok E (s\<lparr> r_root := ?r \<rparr>)" using assms(2) q(1) by (simp add: state_ok_def)
    then have "token_step E s (s\<lparr> r_root := ?r \<rparr>)" using same by (simp add: token_step_def)
    then show ?thesis using q v' assms(4) True by (simp add: add_comment_def Let_def)
  next
    case False
    have "token_step E s (s\<lparr> r_comments_before := r_comments_before s @ ?n \<rparr>)"
      using assms(2) n by (auto simp: token_step_def state_ok_def hd_append)
    then show ?thesis using False assms(4) by (simp add: add_comment_def Let_def)
  qed
qed

lemma comment_place_ok:
  assumes "env_ok E" "state_ok E s" "b \<le> re_end E"
  obtains pl where "comment_place E b c s = Some pl" "pl = comment_after_on_same_line \<longrightarrow> r_last_value s \<noteq> None"
proof (cases "r_last_value_end s")
  case None
  then show thesis using that by (simp add: comment_place_def)
next
  case (Some l)
  have le: "b \<le> length (re_mem E)" "r_current s \<le> length (re_mem E)" using assms by (auto simp: env_ok_def state_ok_def)
  obtain x y where "contains_new_line (re_mem E) l b = Some x" "contains_new_line (re_mem E) b (r_current s) = Some y"
    using contains_new_line_ok [OF le(1), of l] contains_new_line_ok [OF le(2), of b] by blast
  then have "\<exists>pl. comment_place E b c s = Some pl" using Some
    by (cases x; cases "c = asc CHR ''*''") (simp_all add: comment_place_def)
  moreover have "r_last_value s \<noteq> None" using Some assms(2) by (auto simp: state_ok_def)
  ultimately show thesis using that by blast
qed

lemma read_comment_ok:
  assumes "env_ok E" "state_ok E s" "re_begin E < r_current s" "re_mem E ! (r_current s - 1) = asc CHR ''/''"
  shows "yields (\<lambda>(ok, s'). token_step E s s') (read_comment E s)"
proof -
  let ?b = "r_current s - 1"
  obtain c s1 where c: "get_next_char E s = Some (c, s1)" "token_step E s s1"
    by (rule get_next_char_ok [OF assms(1,2)])
  have s1: "state_ok E s1" "r_current s \<le> r_current s1" using c(2) by (auto simp: token_step_def)
  have len: "r_current s1 \<le> re_end E" "re_end E < length (re_mem E)" using assms(1) s1(1) by (auto simp: env_ok_def state_ok_def)
  have "\<exists>ok s2. (if c = asc CHR ''*'' then read_c_style_comment E s1 else if c = asc CHR ''/'' then read_cpp_style_comment E s1
      else Some (False, s1)) = Some (ok, s2) \<and> token_step E s1 s2"
  proof -
    obtain q where q: "c_comment_loop (re_mem E) (re_end E) (r_current s1) = Some q" "r_current s1 \<le> q" "q \<le> re_end E"
      using c_comment_loop_ok [OF len] by blast
    have t: "token_step E s1 (s1\<lparr> r_current := q \<rparr>)" by (rule token_step_move [OF s1(1) q(2,3)])
    then obtain d s2 where "get_next_char E (s1\<lparr> r_current := q \<rparr>) = Some (d, s2)" "token_step E (s1\<lparr> r_current := q \<rparr>) s2"
      using get_next_char_ok [OF assms(1)] by (metis token_step_def)
    moreover obtain q' where q': "cpp_comment_loop (re_mem E) (re_end E) (r_current s1) = Some q'" "r_current s1 \<le> q'" "q' \<le> re_end E"
      using cpp_comment_loop_ok [OF len] by blast
    ultimately show ?thesis using q t token_step_trans [OF t] token_step_move [OF s1(1) q'(2,3)] token_step_refl [OF s1(1)]
      by (auto simp: read_c_style_comment_def read_cpp_style_comment_def)
  qed
  then obtain ok s2 where s2: "(if c = asc CHR ''*'' then read_c_style_comment E s1 else if c = asc CHR ''/'' then
      read_cpp_style_comment E s1 else Some (False, s1)) = Some (ok, s2)" "token_step E s1 s2" by blast
  have s2': "state_ok E s2" "r_current s \<le> r_current s2" "token_step E s s2"
    using s2(2) s1(2) token_step_trans [OF c(2)] by (auto simp: token_step_def)
  have "?b \<le> re_end E" using assms(2) by (auto simp: state_ok_def)
  then obtain pl where pl: "comment_place E ?b c s2 = Some pl" "pl = comment_after_on_same_line \<longrightarrow> r_last_value s2 \<noteq> None"
    by (rule comment_place_ok [OF assms(1) s2'(1)])
  have "yields (\<lambda>s'. token_step E s2 s') (add_comment E ?b (r_current s2) pl s2)"
    using assms(1,3,4) s2' pl(2) by (intro add_comment_ok) (auto simp: state_ok_def env_ok_def)
  then have "yields (\<lambda>(ok, s'). token_step E s s') (bnd (add_comment E ?b (r_current s2) pl s2) (\<lambda>s. ret (True, s)))"
    by (rule yields_bnd) (use token_step_trans [OF s2'(3)] in auto)
  then show ?thesis using c s2(1) pl(1) s2'(3) by (simp add: read_comment_def Let_def bnd_def mem_def)
qed

lemma token_switch_ok:
  assumes "env_ok E" "state_ok E s" "c \<noteq> 0 \<longrightarrow> re_begin E < r_current s \<and> re_mem E ! (r_current s - 1) = c"
  shows "yields (\<lambda>(ty, ok, s'). token_step E s s' \<and> (ty = tt_string \<and> ok \<longrightarrow> r_current s < r_current s') \<and>
    (ty = tt_end_of_stream \<longrightarrow> c = 0)) (token_switch E c s)"
proof -
  have m: "yields (\<lambda>(ok, s'). token_step E s s') (mem (match_text E pat s))" for pat
    using match_text_ok [OF assms(1,2)] by (metis (mono_tags) yields_mem case_prodI)
  have st: "yields (\<lambda>(ok, s'). token_step E s s' \<and> (ok \<longrightarrow> r_current s < r_current s')) (mem (read_string E s))"
    using read_string_ok [OF assms(1,2)] by (metis (mono_tags, lifting) yields_mem case_prodI)
  have nm: "yields (\<lambda>s'. token_step E s s') (mem (read_number E s))"
    using read_number_ok [OF assms(1,2)] by (metis (mono_tags) yields_mem)
  have cm: "c = asc CHR ''/'' \<Longrightarrow> yields (\<lambda>(ok, s'). token_step E s s') (read_comment E s)"
    using assms by (intro read_comment_ok) auto
  show ?thesis
    using token_step_refl [OF assms(2)] unfolding token_switch_def
    by (auto intro!: yields_bnd [OF m] yields_bnd [OF st] yields_bnd [OF nm] yields_bnd [OF cm])
qed

definition token_ok :: "'d reader \<Rightarrow> json_token \<Rightarrow> 'd reader \<Rightarrow> bool" where
  "token_ok s tok s' \<longleftrightarrow> r_current s \<le> tk_start tok \<and> tk_start tok \<le> tk_end tok \<and> tk_end tok = r_current s' \<and>
     (tk_type tok \<noteq> tt_end_of_stream \<longrightarrow> tk_start tok < tk_end tok) \<and> (tk_type tok = tt_string \<longrightarrow> tk_start tok + 2 \<le> tk_end tok)"

lemma read_token_ok:
  assumes "env_ok E" "state_ok E s"
  shows "yields (\<lambda>(tok, s'). token_step E s s' \<and> token_ok s tok s') (read_token E s)"
proof -
  have len: "r_current s \<le> re_end E" "re_end E < length (re_mem E)" using assms by (auto simp: env_ok_def state_ok_def)
  obtain q where q: "skip_spaces_from (re_mem E) (re_end E) (r_current s) = Some q" "r_current s \<le> q" "q \<le> re_end E"
    using skip_spaces_from_ok [OF len] by blast
  let ?s1 = "s\<lparr> r_current := q \<rparr>"
  have s1: "token_step E s ?s1" by (rule token_step_move [OF assms(2) q(2,3)])
  then have s1': "state_ok E ?s1" by (simp add: token_step_def)
  obtain c s2 where c: "get_next_char E ?s1 = Some (c, s2)" "token_step E ?s1 s2"
    "q = re_end E \<longrightarrow> c = 0 \<and> s2 = ?s1" "q \<noteq> re_end E \<longrightarrow> c = re_mem E ! q \<and> s2 = ?s1\<lparr> r_current := Suc q \<rparr>"
    by (rule get_next_char_ok [OF assms(1) s1']) auto
  have s2: "state_ok E s2" "c \<noteq> 0 \<longrightarrow> r_current s2 = Suc q \<and> re_mem E ! q = c" using c by (auto simp: token_step_def)
  have "re_begin E \<le> q" using s1' by (simp add: state_ok_def)
  then have "yields (\<lambda>(ty, ok, s'). token_step E s2 s' \<and> (ty = tt_string \<and> ok \<longrightarrow> r_current s2 < r_current s') \<and>
      (ty = tt_end_of_stream \<longrightarrow> c = 0)) (token_switch E c s2)"
    using s2 by (intro token_switch_ok [OF assms(1) s2(1)]) auto
  then obtain ty ok s' where t: "token_switch E c s2 = Some (Inr (ty, ok, s'))" "token_step E s2 s'"
      "ty = tt_string \<and> ok \<longrightarrow> r_current s2 < r_current s'" "ty = tt_end_of_stream \<longrightarrow> c = 0"
    by (auto simp: yields_def)
  have "token_step E s s'" using token_step_trans [OF s1 token_step_trans [OF c(2) t(2)]] .
  moreover have "c = 0 \<longrightarrow> ty = tt_end_of_stream \<and> ok" using t(1) by (auto simp: token_switch_0)
  moreover have "r_current s2 \<le> r_current s'" "q \<le> r_current s2" using t(2) c(2) by (auto simp: token_step_def)
  ultimately show ?thesis using q c(1) t s2(2)
    by (auto simp: read_token_def skip_spaces_def mem_def bnd_def Let_def token_ok_def)
qed

lemma read_past_comments_ok:
  assumes "env_ok E" "state_ok E s"
  shows "yields (\<lambda>(tok, s'). token_step E s s' \<and> token_ok s tok s' \<and> tk_type tok \<noteq> tt_comment) (read_past_comments E s)"
  using assms
proof (induction E s rule: read_past_comments.induct)
  case (1 E s)
  obtain tok s' where t: "read_token E s = Some (Inr (tok, s'))" "token_step E s s'" "token_ok s tok s'"
    using read_token_ok [OF "1.prems"] by (auto simp: yields_def)
  have s': "state_ok E s'" "r_current s \<le> r_current s'" using t(2) by (auto simp: token_step_def)
  show ?case
  proof (cases "tk_type tok = tt_comment")
    case True
    then have "yields (\<lambda>(tok, s''). token_step E s' s'' \<and> token_ok s' tok s'' \<and> tk_type tok \<noteq> tt_comment) (read_past_comments E s')"
      using "1.IH" [OF t(1)] "1.prems"(1) s' by simp
    then have "yields (\<lambda>(tok, s''). token_step E s s'' \<and> token_ok s tok s'' \<and> tk_type tok \<noteq> tt_comment) (read_past_comments E s')"
      by (rule yields_mono) (use token_step_trans [OF t(2)] s'(2) in \<open>auto simp: token_ok_def\<close>)
    then show ?thesis using t(1) True by (subst read_past_comments.simps) (simp add: bnd_def)
  next
    case False
    then show ?thesis using t by (subst read_past_comments.simps) (simp add: bnd_def)
  qed
qed

lemma skip_comment_tokens_ok:
  assumes "env_ok E" "state_ok E s"
  shows "yields (\<lambda>(tok, s'). token_step E s s' \<and> token_ok s tok s') (skip_comment_tokens E s)"
  unfolding skip_comment_tokens_def using read_token_ok [OF assms] yields_mono [OF read_past_comments_ok [OF assms]] by auto

lemma recover_from_error_ok:
  assumes "env_ok E" "state_ok E s"
  shows "yields (\<lambda>s'. token_step E s s') (recover_from_error E until s)"
  using assms
proof (induction E until s rule: recover_from_error.induct)
  case (1 E until s)
  obtain tok s' where t: "read_token E s = Some (Inr (tok, s'))" "token_step E s s'" "token_ok s tok s'"
    using read_token_ok [OF "1.prems"] by (auto simp: yields_def)
  show ?case
  proof (cases "tk_type tok = until \<or> tk_type tok = tt_end_of_stream")
    case True
    then show ?thesis using t by (subst recover_from_error.simps) (simp add: bnd_def)
  next
    case False
    then have "yields (\<lambda>s''. token_step E s' s'') (recover_from_error E until s')"
      using "1.IH" [OF t(1)] "1.prems"(1) t(2) by (simp add: token_step_def)
    then have "yields (\<lambda>s''. token_step E s s'') (recover_from_error E until s')"
      by (rule yields_mono) (rule token_step_trans [OF t(2)])
    then show ?thesis using t(1) False by (subst recover_from_error.simps) (simp add: bnd_def)
  qed
qed

section \<open>Decoding\<close>

lemma hex_digits_loop_ok:
  "p + k \<le> length m \<Longrightarrow> \<exists>r. hex_digits_loop m k p n = Some r \<and> (\<forall>q u. r = Inr (q, u) \<longrightarrow> q = p + k)"
proof (induction k arbitrary: p n)
  case (Suc k)
  then have "p < length m" "Suc p + k \<le> length m" by auto
  then show ?case using Suc.IH [of "Suc p"] by (auto simp: Let_def)
qed simp

lemma decode_escape_ok:
  "p \<le> e \<Longrightarrow> e \<le> length m \<Longrightarrow>
    \<exists>r. decode_unicode_escape_sequence m p e = Some r \<and> (\<forall>q u. r = Inr (q, u) \<longrightarrow> q = p + 4 \<and> q \<le> e)"
  using hex_digits_loop_ok [of p 4 m 0] by (fastforce simp: decode_unicode_escape_sequence_def)

lemma decode_surrogate_ok:
  assumes "p \<le> e" "e \<le> length m"
  shows "\<exists>r. decode_surrogate m p e u = Some r \<and> (\<forall>q u'. r = Inr (q, u') \<longrightarrow> p \<le> q \<and> q \<le> e)"
proof (cases "e < p + 6")
  case False
  then have p: "Suc (Suc p) \<le> e" "p < length m" "Suc p < length m" using assms(2) by auto
  obtain r where "decode_unicode_escape_sequence m (Suc (Suc p)) e = Some r"
      "\<forall>q' u'. r = Inr (q', u') \<longrightarrow> q' = Suc (Suc p) + 4 \<and> q' \<le> e"
    using decode_escape_ok [OF p(1) assms(2)] by blast
  then show ?thesis using False p unfolding decode_surrogate_def
    by (cases r; cases "m ! p = 92"; cases "m ! Suc p = asc CHR ''u''") auto
qed (simp add: decode_surrogate_def)

lemma decode_codepoint_ok:
  assumes "p \<le> e" "e \<le> length m"
  shows "\<exists>r. decode_unicode_codepoint m p e = Some r \<and> (\<forall>q u. r = Inr (q, u) \<longrightarrow> p + 4 \<le> q \<and> q \<le> e)"
proof -
  obtain r where r: "decode_unicode_escape_sequence m p e = Some r" "\<forall>q u. r = Inr (q, u) \<longrightarrow> q = p + 4 \<and> q \<le> e"
    using decode_escape_ok [OF assms] by blast
  show ?thesis
  proof (cases r)
    case (Inr x)
    obtain q u where x: "x = (q, u)" by (cases x)
    then have q: "p + 4 \<le> q" "q \<le> e" using r(2) Inr by auto
    have "decode_unicode_codepoint m p e =
        (if 0xD800 \<le> u \<and> u \<le> 0xDBFF then decode_surrogate m q e u else Some (Inr (q, u)))"
      by (simp add: decode_unicode_codepoint_def r(1) Inr x)
    then show ?thesis using q decode_surrogate_ok [OF q(2) assms(2), of u]
      by (cases "0xD800 \<le> u \<and> u \<le> 0xDBFF") fastforce+
  qed (use r in \<open>auto simp: decode_unicode_codepoint_def\<close>)
qed

lemma codepoint_to_utf8_length: "length (codepoint_to_utf8 cp) \<le> 4"
  by (simp add: codepoint_to_utf8_def)

lemma decode_string_loop_ok:
  "p \<le> e \<Longrightarrow> e \<le> length m \<Longrightarrow> e - p < k \<Longrightarrow>
    \<exists>r. decode_string_loop k m p e acc = Some r \<and> (\<forall>d. r = Inr d \<longrightarrow> length d \<le> length acc + (e - p))"
proof (induction k arbitrary: p acc)
  case (Suc k)
  show ?case
  proof (cases "p = e")
    case False
    then have p: "p < length m" "Suc p \<le> e" using Suc.prems by auto
    consider (quote) "m ! p = 34" | (esc) "m ! p = 92" | (other) "m ! p \<noteq> 34" "m ! p \<noteq> 92" by blast
    then show ?thesis
    proof cases
      case quote
      then show ?thesis using False p by simp
    next
      case other
      have "\<exists>r. decode_string_loop k m (Suc p) e (acc @ [m ! p]) = Some r \<and>
          (\<forall>d. r = Inr d \<longrightarrow> length d \<le> length (acc @ [m ! p]) + (e - Suc p))"
        using Suc.prems p False by (intro Suc.IH) auto
      then show ?thesis using other False p by (fastforce simp: Suc_diff_Suc)
    next
      case esc
      show ?thesis
      proof (cases "Suc p = e")
        case neq: False
        then have p2: "Suc p < length m" "Suc (Suc p) \<le> e" using p Suc.prems by auto
        show ?thesis
        proof (cases "simple_escape (m ! Suc p)")
          case (Some d)
          have "\<exists>r. decode_string_loop k m (Suc (Suc p)) e (acc @ [d]) = Some r \<and>
              (\<forall>x. r = Inr x \<longrightarrow> length x \<le> length (acc @ [d]) + (e - Suc (Suc p)))"
            using Suc.prems p2 by (intro Suc.IH) auto
          then show ?thesis using Some esc False neq p p2 by fastforce
        next
          case None
          obtain r where r: "decode_unicode_codepoint m (Suc (Suc p)) e = Some r"
              "\<forall>q u. r = Inr (q, u) \<longrightarrow> Suc (Suc p) + 4 \<le> q \<and> q \<le> e"
            using decode_codepoint_ok [OF p2(2) Suc.prems(2)] by blast
          show ?thesis
          proof (cases r)
            case (Inr x)
            obtain q u where x: "x = (q, u)" by (cases x)
            then have q: "Suc (Suc p) + 4 \<le> q" "q \<le> e" using r(2) Inr by auto
            have "\<exists>r. decode_string_loop k m q e (acc @ codepoint_to_utf8 u) = Some r \<and>
                (\<forall>d. r = Inr d \<longrightarrow> length d \<le> length (acc @ codepoint_to_utf8 u) + (e - q))"
              using Suc.prems q by (intro Suc.IH) auto
            then show ?thesis using None esc False neq p p2 r(1) Inr x q codepoint_to_utf8_length [of u] by fastforce
          qed (use None esc False neq p p2 r(1) in auto)
        qed
      qed (use esc False p in simp)
    qed
  qed simp
qed simp

text \<open>A decoded token leaves the state as it is, but for an error where it fails.\<close>

definition decode_post :: "'d reader \<Rightarrow> bool \<Rightarrow> 'd reader \<Rightarrow> bool" where
  "decode_post s ok s' \<longleftrightarrow> (\<exists>es. s' = s\<lparr> r_errors := es \<rparr> \<and> (if ok then es = r_errors s else es \<noteq> []))"

lemma decode_post_refl: "decode_post s True s"
  unfolding decode_post_def by (rule exI [of _ "r_errors s"]) simp

lemma decode_post_error: "decode_post s False (add_error msg tok extra s)"
  by (auto simp: decode_post_def add_error_def)

lemma decode_name_ok:
  assumes "env_ok E" "tk_start tok + 2 \<le> tk_end tok" "tk_end tok \<le> re_end E"
  shows "yields (\<lambda>(r, s'). decode_post s (r \<noteq> None) s' \<and> (\<forall>d. r = Some d \<longrightarrow> length d \<le> tk_end tok - tk_start tok))
    (decode_name E tok s)"
proof -
  have le: "Suc (tk_start tok) \<le> tk_end tok - 1" "tk_end tok - 1 \<le> length (re_mem E)" using assms by (auto simp: env_ok_def)
  have "tk_end tok - 1 - Suc (tk_start tok) < Suc (tk_end tok - tk_start tok)" by simp
  then obtain r where r: "decode_string_loop (Suc (tk_end tok - tk_start tok)) (re_mem E) (Suc (tk_start tok)) (tk_end tok - 1) [] = Some r"
      "\<forall>d. r = Inr d \<longrightarrow> length d \<le> length ([] :: byte list) + (tk_end tok - 1 - Suc (tk_start tok))"
    using decode_string_loop_ok [OF le] by blast
  show ?thesis
  proof (cases r)
    case (Inl x)
    then show ?thesis using r(1) decode_post_error [of s] by (cases x) (simp add: decode_name_def bnd_def mem_def)
  next
    case (Inr d)
    then show ?thesis using r decode_post_refl [of s] by (simp add: decode_name_def bnd_def mem_def)
  qed
qed

lemma number_loop_ok: "e \<le> length m \<Longrightarrow> \<exists>r. number_loop m p e limit n = Some r"
proof (induction m p e limit n rule: number_loop.induct)
  case (1 m p e limit n)
  show ?case
  proof (cases "p < e")
    case True
    then have rd: "rd m p = Some (m ! p)" using "1.prems" by simp
    show ?thesis
    proof (cases "\<not> is_digit_char (m ! p) \<or> (limit div 10 \<le> n \<and> (limit div 10 < n \<or> Suc p \<noteq> e \<or>
        limit mod 10 < (scast (m ! p - asc CHR ''0'') :: 64 word)))")
      case True
      then show ?thesis using \<open>p < e\<close> rd by (subst number_loop.simps) (auto simp: Let_def)
    next
      case False
      then have "\<exists>r. number_loop m (Suc p) e limit (n * 10 + scast (m ! p - asc CHR ''0'')) = Some r"
        using "1.IH" [OF True rd _ refl] "1.prems" by blast
      then show ?thesis using False \<open>p < e\<close> rd by (subst number_loop.simps) (auto simp: Let_def)
    qed
  qed (simp add: number_loop.simps)
qed

definition scalar_payload :: "'d payload \<Rightarrow> bool" where
  "scalar_payload p \<longleftrightarrow> (case p of vt_array xs \<Rightarrow> False | vt_object xs \<Rightarrow> False | _ \<Rightarrow> True)"

lemma decode_double_ok:
  assumes "env_ok E" "tk_end tok \<le> re_end E"
  shows "yields (\<lambda>(r, s'). decode_post s (r \<noteq> None) s' \<and> (\<forall>p. r = Some p \<longrightarrow> scalar_payload p)) (decode_double E tok s)"
proof -
  have "tk_end tok \<le> length (re_mem E)" using assms by (auto simp: env_ok_def)
  then show ?thesis using decode_post_refl [of s] decode_post_error [of s]
    by (auto simp: decode_double_def Let_def scalar_payload_def split: option.split) (auto simp: decode_post_def)
qed

lemma decode_number_ok:
  assumes "env_ok E" "tk_start tok < tk_end tok" "tk_end tok \<le> re_end E"
  shows "yields (\<lambda>(r, s'). decode_post s (r \<noteq> None) s' \<and> (\<forall>p. r = Some p \<longrightarrow> scalar_payload p)) (decode_number E tok s)"
proof -
  have le: "tk_start tok < length (re_mem E)" "tk_end tok \<le> length (re_mem E)" using assms by (auto simp: env_ok_def)
  let ?neg = "re_mem E ! tk_start tok = asc CHR ''-''"
  obtain r where "number_loop (re_mem E) (if ?neg then Suc (tk_start tok) else tk_start tok) (tk_end tok) (max_integer_value ?neg) 0 = Some r"
    using number_loop_ok [OF le(2)] by blast
  then show ?thesis using le(1) decode_double_ok [OF assms(1,3), of s] decode_post_refl [of s]
    by (cases r) (auto simp: decode_number_def bnd_def mem_def Let_def scalar_payload_def)
qed

lemma decode_string_ok:
  assumes "env_ok E" "tk_start tok + 2 \<le> tk_end tok" "re_begin E \<le> tk_start tok" "tk_end tok \<le> re_end E"
  shows "yields (\<lambda>(r, s'). decode_post s (r \<noteq> None) s' \<and> (\<forall>p. r = Some p \<longrightarrow> scalar_payload p)) (decode_string E tok s)"
proof -
  obtain r s' where r: "decode_name E tok s = Some (Inr (r, s'))" "decode_post s (r \<noteq> None) s'"
      "\<forall>d. r = Some d \<longrightarrow> length d \<le> tk_end tok - tk_start tok"
    using decode_name_ok [OF assms(1,2,4), of s] by (auto simp: yields_def)
  show ?thesis
  proof (cases r)
    case (Some d)
    have "tk_end tok - tk_start tok < 2 ^ 30" using assms by (auto simp: env_ok_def)
    then have "length d < 2 ^ 30" using r(3) Some by fastforce
    then have "int (length d) \<le> max_int - 5" by (simp add: max_int_def)
    then show ?thesis using r Some
      by (simp add: decode_string_def bnd_def duplicate_short scalar_payload_def)
  qed (use r in \<open>simp add: decode_string_def bnd_def\<close>)
qed

lemma member_name_ok:
  assumes "env_ok E" "tk_type tok = tt_string \<longrightarrow> tk_start tok + 2 \<le> tk_end tok" "tk_type tok = tt_number \<longrightarrow> tk_start tok < tk_end tok"
    "tk_end tok \<le> re_end E"
  shows "yields (\<lambda>(r, s'). decode_post s (r \<noteq> None) s' \<and> (r = Some None \<or> r = None \<or> (\<exists>n. r = Some (Some n) \<and> tk_type tok \<noteq> tt_end_of_stream)))
    (member_name E tok s)"
proof -
  consider (str) "tk_type tok = tt_string" | (num) "tk_type tok = tt_number" "allow_numeric_keys (re_features E)"
    | (none) "tk_type tok \<noteq> tt_string" "\<not> (tk_type tok = tt_number \<and> allow_numeric_keys (re_features E))" by blast
  then show ?thesis
  proof cases
    case str
    then have "yields (\<lambda>(r, s'). decode_post s (r \<noteq> None) s') (decode_name E tok s)"
      using yields_mono [OF decode_name_ok [OF assms(1) _ assms(4), of s]] assms(2) by auto
    then show ?thesis using str by (auto simp: member_name_def yields_def bnd_def)
  next
    case num
    then obtain r s' where "decode_number E tok s = Some (Inr (r, s'))" "decode_post s (r \<noteq> None) s'"
        "\<forall>p. r = Some p \<longrightarrow> scalar_payload p"
      using decode_number_ok [OF assms(1) _ assms(4), of s] assms(3) by (auto simp: yields_def)
    then show ?thesis using num
      by (cases r) (auto simp: member_name_def bnd_def as_string_def scalar_payload_def init_basic_def split: payload.splits)
  next
    case none
    then show ?thesis using decode_post_refl [of s] by (auto simp: member_name_def)
  qed
qed

section \<open>Working on a node\<close>

definition node_ok :: "'d reader_env \<Rightarrow> key list \<Rightarrow> 'd reader \<Rightarrow> bool" where
  "node_ok E p s \<longleftrightarrow> state_ok E s \<and> (\<exists>ps. r_nodes s = p # ps) \<and> value_at p (r_root s) \<noteq> None"

text \<open>What reading at the node \<open>p\<close> keeps: the value outside \<open>p\<close>, the stack of nodes, the invariant.\<close>

definition node_post :: "'d reader_env \<Rightarrow> key list \<Rightarrow> 'd reader \<Rightarrow> 'd reader \<Rightarrow> bool" where
  "node_post E p s s' \<longleftrightarrow> state_ok E s' \<and> r_current s \<le> r_current s' \<and> r_nodes s' = r_nodes s \<and>
     value_at p (r_root s') \<noteq> None \<and> frame p (r_root s) (r_root s') \<and>
     (\<not> re_collect E \<longrightarrow> r_last_value s' = r_last_value s)"

lemma node_post_trans: "node_post E p s t \<Longrightarrow> node_post E p t u \<Longrightarrow> node_post E p s u"
  by (auto simp: node_post_def intro: frame_trans)

lemma node_post_ok: "node_ok E p s \<Longrightarrow> node_post E p s s' \<Longrightarrow> node_ok E p s'"
  by (auto simp: node_ok_def node_post_def)

lemma node_post_refl: "node_ok E p s \<Longrightarrow> node_post E p s s"
  by (auto simp: node_ok_def node_post_def frame_def)

lemma token_node_post: "token_step E s s' \<Longrightarrow> node_ok E p s \<Longrightarrow> node_post E p s s'"
  using same_shape_value [of "r_root s" "r_root s'" p] same_shape_frame [of "r_root s" "r_root s'" p]
  by (simp add: token_step_def node_ok_def node_post_def)

lemma decode_node_post: "decode_post s ok s' \<Longrightarrow> node_ok E p s \<Longrightarrow> node_post E p s s'"
  by (auto simp: decode_post_def node_ok_def node_post_def state_ok_def frame_def)

text \<open>The last value lies not below the node, or it is one of its children.\<close>

definition clear_below :: "key list \<Rightarrow> 'd reader \<Rightarrow> bool" where
  "clear_below p s \<longleftrightarrow> (\<forall>q. r_last_value s = Some q \<longrightarrow> \<not> strict_prefix p q)"

definition clear_children :: "key list \<Rightarrow> 'd reader \<Rightarrow> bool" where
  "clear_children p s \<longleftrightarrow> (\<forall>k. clear_below (p @ [k]) s)"

lemma clear_below_children: "clear_below p s \<Longrightarrow> clear_children p s"
  unfolding clear_below_def clear_children_def by (meson prefix_order.le_less_trans prefixI)

lemma upd_node:
  assumes "node_ok E p s" "\<And>q. r_last_value s = Some q \<Longrightarrow> value_at q (upd_at p f (r_root s)) \<noteq> None"
  shows "node_post E p s (s\<lparr> r_root := upd_at p f (r_root s) \<rparr>)"
  using assms upd_frame [of p "r_root s" f] by (auto simp: node_ok_def node_post_def state_ok_def value_at_upd_same)

lemma upd_node_clear:
  assumes "node_ok E p s" "clear_below p s"
  shows "node_post E p s (s\<lparr> r_root := upd_at p f (r_root s) \<rparr>)"
proof (rule upd_node [OF assms(1)])
  fix q
  assume q: "r_last_value s = Some q"
  show "value_at q (upd_at p f (r_root s)) \<noteq> None"
  proof (cases "q = p")
    case True
    then show ?thesis using assms(1) by (auto simp: node_ok_def value_at_upd_same)
  next
    case False
    then have "\<not> prefix p q" using assms(2) q by (auto simp: clear_below_def strict_prefix_def)
    then show ?thesis using frame_value [OF upd_frame, of p q f "r_root s"] assms(1) q by (auto simp: node_ok_def state_ok_def)
  qed
qed

lemma upd_node_payload:
  assumes "node_ok E p s" "\<And>v. payload (f v) = payload v"
  shows "node_post E p s (s\<lparr> r_root := upd_at p f (r_root s) \<rparr>)"
proof (rule upd_node [OF assms(1)])
  fix q
  assume "r_last_value s = Some q"
  then show "value_at q (upd_at p f (r_root s)) \<noteq> None"
    using same_shape_value [OF upd_same_shape, of p "r_root s" f q] assms by (auto simp: node_ok_def state_ok_def)
qed

lemma upd_current_node: "node_ok E p s \<Longrightarrow> upd_current f s = Some (s\<lparr> r_root := upd_at p f (r_root s) \<rparr>)"
  by (auto simp: upd_current_def node_ok_def)

lemma assign_keys: "fst ` set xs \<subseteq> fst ` set (om_assign lt k v xs)"
  by (induction lt k v xs rule: om_assign.induct) (simp_all, blast)

lemma assign_key: "(\<And>a b. \<not> lt a b \<Longrightarrow> \<not> lt b a \<Longrightarrow> a = b) \<Longrightarrow> k \<in> fst ` set (om_assign lt k v xs)"
  by (induction lt k v xs rule: om_assign.induct) simp_all

lemma find_key: "(\<And>a b. \<not> lt a b \<Longrightarrow> \<not> lt b a \<Longrightarrow> a = b) \<Longrightarrow> om_find lt xs k = Some v \<Longrightarrow> k \<in> fst ` set xs"
  by (induction lt xs k rule: om_find.induct) (simp_all split: if_splits)

lemma ensure_keys:
  assumes "\<And>a b. \<not> lt a b \<Longrightarrow> \<not> lt b a \<Longrightarrow> a = b"
  shows "insert k (fst ` set xs) \<subseteq> fst ` set (ensure lt k xs)"
proof (cases "om_find lt xs k")
  case None
  then show ?thesis using assign_key [of lt k null_ref xs, OF assms] assign_keys [of xs lt k null_ref] by (simp add: ensure_def)
next
  case (Some v)
  then show ?thesis using find_key [of lt xs k v, OF assms Some] by (auto simp: ensure_def)
qed

lemma map_of_key: "map_of xs k = None \<longleftrightarrow> k \<notin> fst ` set xs"
  by (rule map_of_eq_None_iff)

text \<open>The order of names is the lexicographic one.\<close>

lemma memcmp_full: "memcmp a b (min (length a) (length b)) = 0 \<Longrightarrow> length a = length b \<Longrightarrow> a = b"
  by (induction a b "min (length a) (length b)" rule: memcmp.induct) (auto split: if_splits)

lemma memcmp_swap: "memcmp b a n = - memcmp a b n"
  by (induction a b n rule: memcmp.induct) auto

lemma czstring_less_total: "\<not> czstring_less a b \<Longrightarrow> \<not> czstring_less b a \<Longrightarrow> a = b"
  using memcmp_swap [of b a] by (intro memcmp_full) (auto simp: czstring_less_def Let_def min.commute split: if_splits)

text \<open>Creating an element of the node.\<close>

lemma upd_child_created:
  assumes "node_ok E p s" "clear_children p s" "value_at p (r_root s) = Some v" "type_of w = type_of v"
    "\<And>k. child k v \<noteq> None \<Longrightarrow> child k w \<noteq> None" "child k w \<noteq> None"
  shows "node_post E p s (s\<lparr> r_root := upd_at p (\<lambda>_. w) (r_root s) \<rparr>) \<and>
    shape (upd_at p (\<lambda>_. w) (r_root s)) p = shape (r_root s) p \<and> value_at (p @ [k]) (upd_at p (\<lambda>_. w) (r_root s)) \<noteq> None"
proof -
  let ?r = "upd_at p (\<lambda>_. w) (r_root s)"
  have "value_at q ?r \<noteq> None" if q: "r_last_value s = Some q" for q
  proof -
    have valid: "value_at q (r_root s) \<noteq> None" using assms(1) q by (auto simp: node_ok_def state_ok_def)
    show ?thesis
    proof (cases "prefix p q")
      case False
      then show ?thesis using frame_value [OF upd_frame, of p q "\<lambda>_. w" "r_root s"] valid by (simp del: not_None_eq)
    next
      case True
      then obtain ks where ks: "q = p @ ks" by (auto simp: prefix_def)
      show ?thesis
      proof (cases ks)
        case Nil
        then show ?thesis using ks assms(3) by (simp add: value_at_upd_same)
      next
        case (Cons k' ks')
        then have "ks' = []" using assms(2) q ks by (auto simp: clear_children_def clear_below_def strict_prefix_def)
        then have "child k' v \<noteq> None" using valid ks Cons assms(3) by (auto simp: value_at_append split: option.splits)
        then have "child k' w \<noteq> None" by (rule assms(5))
        then show ?thesis using assms(3) ks Cons \<open>ks' = []\<close> by (auto simp: value_at_upd)
      qed
    qed
  qed
  then have "node_post E p s (s\<lparr> r_root := ?r \<rparr>)" by (rule upd_node [OF assms(1)])
  then show ?thesis using assms(3,4,6) by (auto simp: shape_def value_at_upd_same value_at_upd)
qed

lemma resolve_ok:
  assumes "node_ok E p s" "clear_children p s" "shape (r_root s) p = Some ty_object"
  obtains r where "upd_current_throws (resolve_reference name) s = Some (Inr (s\<lparr> r_root := r \<rparr>))"
    "node_post E p s (s\<lparr> r_root := r \<rparr>)" "shape r p = Some ty_object" "value_at (p @ [key_name (czstring name)]) r \<noteq> None"
proof -
  obtain v where v: "value_at p (r_root s) = Some v" "type_of v = ty_object" using assms(3) by (auto simp: shape_def)
  obtain xs where xs: "payload v = vt_object xs" using v(2) by (auto simp: type_of_def split: payload.splits)
  let ?w = "Value (vt_object (ensure czstring_less (czstring name) xs)) (comments v) (offset_start v) (offset_limit v)"
  have keys: "insert (czstring name) (fst ` set xs) \<subseteq> fst ` set (ensure czstring_less (czstring name) xs)"
    by (rule ensure_keys) (rule czstring_less_total)
  have "child k ?w \<noteq> None" if "child k v \<noteq> None" for k
    using that keys xs unfolding child_def by (cases k) (auto simp: map_of_key)
  moreover have "child (key_name (czstring name)) ?w \<noteq> None" using keys by (auto simp: child_def map_of_key)
  ultimately have *: "node_post E p s (s\<lparr> r_root := upd_at p (\<lambda>_. ?w) (r_root s) \<rparr>) \<and>
      shape (upd_at p (\<lambda>_. ?w) (r_root s)) p = shape (r_root s) p \<and>
      value_at (p @ [key_name (czstring name)]) (upd_at p (\<lambda>_. ?w) (r_root s)) \<noteq> None"
    using xs v by (intro upd_child_created [OF assms(1,2) v(1)]) (auto simp: type_of_def)
  have "upd_current_throws (resolve_reference name) s = Some (Inr (s\<lparr> r_root := upd_at p (\<lambda>_. ?w) (r_root s) \<rparr>))"
    using assms(1) v xs by (auto simp: upd_current_throws_def node_ok_def resolve_reference_def)
  then show thesis using that * assms(3) by metis
qed

lemma array_ok:
  assumes "node_ok E p s" "clear_children p s" "shape (r_root s) p = Some ty_array" "i < 2 ^ 31"
  obtains r where "upd_current_throws (array_ref_int (of_nat i)) s = Some (Inr (s\<lparr> r_root := r \<rparr>))"
    "node_post E p s (s\<lparr> r_root := r \<rparr>)" "shape r p = Some ty_array" "value_at (p @ [key_index (of_nat i)]) r \<noteq> None"
proof -
  obtain v where v: "value_at p (r_root s) = Some v" "type_of v = ty_array" using assms(3) by (auto simp: shape_def)
  obtain xs where xs: "payload v = vt_array xs" using v(2) by (auto simp: type_of_def split: payload.splits)
  let ?i = "of_nat i :: 32 word"
  let ?w = "Value (vt_array (ensure (<) ?i xs)) (comments v) (offset_start v) (offset_limit v)"
  have keys: "insert ?i (fst ` set xs) \<subseteq> fst ` set (ensure (<) ?i xs)"
    by (rule ensure_keys) auto
  have "child k ?w \<noteq> None" if "child k v \<noteq> None" for k
    using that keys xs unfolding child_def by (cases k) (auto simp: map_of_key)
  moreover have "child (key_index ?i) ?w \<noteq> None" using keys by (auto simp: child_def map_of_key)
  ultimately have *: "node_post E p s (s\<lparr> r_root := upd_at p (\<lambda>_. ?w) (r_root s) \<rparr>) \<and>
      shape (upd_at p (\<lambda>_. ?w) (r_root s)) p = shape (r_root s) p \<and>
      value_at (p @ [key_index ?i]) (upd_at p (\<lambda>_. ?w) (r_root s)) \<noteq> None"
    using xs v by (intro upd_child_created [OF assms(1,2) v(1)]) (auto simp: type_of_def)
  have "sint ?i = int i" using assms(4) by (simp add: sint_uint uint_nat unat_of_nat signed_take_bit_int_eq_self)
  then have "upd_current_throws (array_ref_int ?i) s = Some (Inr (s\<lparr> r_root := upd_at p (\<lambda>_. ?w) (r_root s) \<rparr>))"
    using assms(1) v xs by (auto simp: upd_current_throws_def node_ok_def array_ref_int_def array_ref_def json_assert_def)
  then show thesis using that * assms(3) by metis
qed

lemma push_ok: "node_ok E p s \<Longrightarrow> value_at (p @ [k]) (r_root s) \<noteq> None \<Longrightarrow> node_ok E (p @ [k]) (push_node k s)"
  by (auto simp: node_ok_def push_node_def state_ok_def)

lemma pop_post:
  assumes "node_ok E p s" "node_post E (p @ [k]) (push_node k s) s'"
  shows "node_post E p s (pop_node s')" "r_nodes s' = (p @ [k]) # r_nodes s"
    "shape (r_root (pop_node s')) p = shape (r_root s) p"
proof -
  have fr: "frame (p @ [k]) (r_root s) (r_root s')" using assms(2) by (simp add: node_post_def push_node_def)
  then have "shape (r_root s') p = shape (r_root s) p" by (simp add: frame_def)
  then show "shape (r_root (pop_node s')) p = shape (r_root s) p" by (simp add: pop_node_def)
  then have "value_at p (r_root s') \<noteq> None" using assms(1) unfolding shape_None [symmetric] by (simp add: pop_node_def node_ok_def shape_def)
  then show "node_post E p s (pop_node s')"
    using assms frame_child [OF fr] by (auto simp: node_post_def push_node_def pop_node_def node_ok_def state_ok_def)
  show "r_nodes s' = (p @ [k]) # r_nodes s" using assms by (auto simp: node_post_def push_node_def node_ok_def)
qed

section \<open>Values\<close>

definition loop_post :: "'d reader_env \<Rightarrow> key list \<Rightarrow> 'd reader \<Rightarrow> bool \<times> 'd reader \<Rightarrow> bool" where
  "loop_post E p s = (\<lambda>(ok, s'). node_post E p s s' \<and> (if ok then r_errors s' = r_errors s else r_errors s' \<noteq> []))"

definition value_post :: "'d reader_env \<Rightarrow> key list \<Rightarrow> 'd reader \<Rightarrow> bool \<times> 'd reader \<Rightarrow> bool" where
  "value_post E p s = (\<lambda>(ok, s'). loop_post E p s (ok, s') \<and> (ok \<and> re_collect E \<longrightarrow> r_last_value s' = Some p))"

lemma finish_ok:
  assumes "node_ok E p s" "loop_post E p s (ok, t)"
  shows "value_post E p s (finish_value E ok t)"
proof -
  have t: "node_ok E p t" using assms node_post_ok by (auto simp: loop_post_def)
  then have "hd (r_nodes t) = p" by (auto simp: node_ok_def)
  then show ?thesis using assms(2) t
    by (cases "re_collect E"; cases "r_last_value t")
      (auto simp: value_post_def loop_post_def finish_value_def node_post_def node_ok_def state_ok_def split: if_splits)
qed

lemma limit_ok:
  assumes "node_ok E p s" "loop_post E p s (ok, t)"
  obtains u where "limit_current E t = Some u" "loop_post E p s (ok, u)"
proof -
  have t: "node_ok E p t" using assms node_post_ok by (auto simp: loop_post_def)
  let ?f = "set_offset_limit (token_offset E (r_current t))"
  have "node_post E p t (t\<lparr> r_root := upd_at p ?f (r_root t) \<rparr>)"
    by (rule upd_node_payload [OF t]) (simp add: set_offset_limit_def)
  then show thesis using that upd_current_node [OF t, of ?f] assms(2)
    by (auto simp: limit_current_def loop_post_def intro: node_post_trans split: if_splits)
qed

lemma finish_scalar_ok:
  assumes "node_ok E p s" "node_post E p s t" "clear_below p t"
    "if r = None then r_errors t \<noteq> [] else r_errors t = r_errors s"
  shows "returns (value_post E p s) (finish_scalar E r tok t)"
proof (cases r)
  case None
  then show ?thesis using assms finish_ok [OF assms(1), of False t] by (simp add: finish_scalar_def loop_post_def)
next
  case (Some x)
  have t: "node_ok E p t" by (rule node_post_ok [OF assms(1,2)])
  let ?f = "\<lambda>v. set_offset_limit (token_offset E (tk_end tok)) (set_offset_start (token_offset E (tk_start tok)) (set_payload (init_basic x) v))"
  have "loop_post E p s (True, t\<lparr> r_root := upd_at p ?f (r_root t) \<rparr>)"
    using node_post_trans [OF assms(2) upd_node_clear [OF t assms(3), of ?f]] assms(4) Some by (simp add: loop_post_def)
  then show ?thesis using Some finish_ok [OF assms(1)] upd_current_node [OF t, of ?f]
    by (simp add: finish_scalar_def set_token_value_def set_current_def bnd_def mem_def)
qed

lemma attach_comments_ok:
  assumes "node_ok E p s"
  obtains u where "attach_comments E s = Some (Inr u)" "node_post E p s u" "r_errors u = r_errors s" "r_current u = r_current s"
    "r_last_value u = r_last_value s"
proof (cases "re_collect E \<and> r_comments_before s \<noteq> []")
  case True
  then have c: "r_comments_before s \<noteq> []" "hd (r_comments_before s) = asc CHR ''/''" using assms by (auto simp: node_ok_def state_ok_def)
  obtain ps v where v: "r_nodes s = p # ps" "value_at p (r_root s) = Some v" using assms by (auto simp: node_ok_def)
  obtain w where w: "set_comment (r_comments_before s) comment_before v = Inr w" "payload w = payload v" by (rule set_comment_ok [OF c])
  let ?r = "upd_at p (\<lambda>_. w) (r_root s)"
  have same: "same_shape (r_root s) ?r" by (rule upd_same_shape) (use v(2) w(2) in simp)
  have "node_post E p s (s\<lparr> r_root := ?r \<rparr>)"
    by (rule upd_node [OF assms]) (use same_shape_value [OF same] assms in \<open>auto simp: node_ok_def state_ok_def\<close>)
  then have "node_post E p s (s\<lparr> r_root := ?r, r_comments_before := [] \<rparr>)" by (auto simp: node_post_def state_ok_def)
  then show thesis using that [of "s\<lparr> r_root := ?r, r_comments_before := [] \<rparr>"] True v w
    by (simp add: attach_comments_def upd_current_throws_def bnd_def ret_def)
next
  case False
  then show thesis using that [of s] node_post_refl [OF assms] by (auto simp: attach_comments_def ret_def)
qed

lemma recover_ok:
  assumes "node_ok E p s" "env_ok E" "node_post E p s t" "r_errors t \<noteq> []"
  shows "returns (loop_post E p s) (fail_and_recover E until t)"
proof -
  have t: "node_ok E p t" by (rule node_post_ok [OF assms(1,3)])
  then have "yields (\<lambda>u. token_step E t u) (recover_from_error E until t)"
    using recover_from_error_ok assms(2) by (auto simp: node_ok_def)
  then show ?thesis unfolding fail_and_recover_def
    by (rule returns_yields_bnd) (use assms(3,4) t token_node_post node_post_trans in \<open>fastforce simp: loop_post_def token_step_def\<close>)
qed

lemma error_recover_ok:
  assumes "node_ok E p s" "env_ok E" "node_post E p s t"
  shows "returns (loop_post E p s) (add_error_and_recover E msg tok until t)"
proof -
  have "node_post E p s (add_error msg tok None t)" "r_errors (add_error msg tok None t) \<noteq> []"
    using assms(3) by (auto simp: node_post_def state_ok_def add_error_def)
  then show ?thesis using recover_ok [OF assms(1,2), of "add_error msg tok None t"]
    by (simp add: add_error_and_recover_def fail_and_recover_def)
qed


lemma start_ok:
  assumes "node_ok E p s" "clear_below p s"
  obtains u where "start_container E x tok s = Some u" "node_post E p s u" "r_errors u = r_errors s" "r_current u = r_current s"
    "clear_children p u" "shape (r_root u) p = Some (type_of (init_basic x :: 'd json_value))"
proof -
  let ?f = "\<lambda>v. set_offset_start (token_offset E (tk_start tok)) (set_payload (init_basic x) v)"
  let ?u = "s\<lparr> r_root := upd_at p ?f (r_root s) \<rparr>"
  have "start_container E x tok s = Some ?u" by (simp add: start_container_def upd_current_node [OF assms(1)])
  moreover have "node_post E p s ?u" by (rule upd_node_clear [OF assms])
  moreover have "clear_children p ?u" using clear_below_children [OF assms(2)] by (simp add: clear_children_def clear_below_def)
  moreover have "shape (r_root ?u) p = Some (type_of (init_basic x :: 'd json_value))"
    using assms(1) by (auto simp: shape_def value_at_upd_same node_ok_def type_of_def set_offset_start_def set_payload_def swap_payload_def)
  ultimately show thesis using that by simp
qed


lemma type_containers [simp]:
  "type_of (init_basic (vt_object xs)) = ty_object" "type_of (init_basic (vt_array ys)) = ty_array"
  by (simp_all add: type_of_def init_basic_def)

lemma dropped_null_ok:
  assumes "node_ok E p s" "node_post E p s t" "clear_below p t" "r_current s < r_current t" "r_errors t = r_errors s"
  shows "returns (value_post E p s) (bnd (mem (dropped_null E t)) (\<lambda>s. ret (finish_value E True s)))"
proof -
  let ?t = "t\<lparr> r_current := r_current t - 1 \<rparr>"
  have "node_post E p s ?t" using assms(1,2,4) by (auto simp: node_post_def state_ok_def node_ok_def)
  moreover from this have t: "node_ok E p ?t" by (rule node_post_ok [OF assms(1)])
  moreover have "clear_below p ?t" using assms(3) by (simp add: clear_below_def)
  ultimately have "loop_post E p s (True, ?t\<lparr> r_root := upd_at p f (r_root ?t) \<rparr>)" for f
    using node_post_trans [OF _ upd_node_clear] assms(5) by (fastforce simp: loop_post_def)
  then show ?thesis using finish_ok [OF assms(1)] upd_current_node [OF t]
    by (simp add: dropped_null_def set_current_def Let_def bnd_def mem_def)
qed

lemma value_expected_ok:
  assumes "node_ok E p s" "node_post E p s t"
  shows "returns (value_post E p s) (value_expected E tok t)"
proof -
  have t: "node_ok E p t" by (rule node_post_ok [OF assms])
  let ?f = "\<lambda>v. set_offset_limit (token_offset E (tk_end tok)) (set_offset_start (token_offset E (tk_start tok)) v)"
  have "node_post E p t (t\<lparr> r_root := upd_at p ?f (r_root t) \<rparr>)"
    by (rule upd_node_payload [OF t]) (simp add: set_offset_limit_def set_offset_start_def)
  then have "node_post E p s (t\<lparr> r_root := upd_at p ?f (r_root t) \<rparr>)" by (rule node_post_trans [OF assms(2)])
  then show ?thesis using upd_current_node [OF t, of ?f]
    by (auto simp: value_expected_def value_post_def loop_post_def add_error_def node_post_def state_ok_def bnd_def mem_def)
qed


section \<open>The recursion\<close>

text \<open>What each of the three functions does with fuel \<open>n\<close>: twice the rest of the document and one or two is enough.\<close>

definition value_reads :: "nat \<Rightarrow> 'd reader_env \<Rightarrow> bool" where
  "value_reads n E \<longleftrightarrow> (\<forall>p s. node_ok E p s \<and> clear_below p s \<and> 2 * (re_end E - r_current s) + 1 \<le> n \<longrightarrow>
     returns (value_post E p s) (read_value n E s))"

definition object_reads :: "nat \<Rightarrow> 'd reader_env \<Rightarrow> bool" where
  "object_reads n E \<longleftrightarrow> (\<forall>p s name. node_ok E p s \<and> clear_children p s \<and> shape (r_root s) p = Some ty_object \<and>
     2 * (re_end E - r_current s) + 2 \<le> n \<longrightarrow> returns (loop_post E p s) (read_object_loop n E name s))"

definition array_reads :: "nat \<Rightarrow> 'd reader_env \<Rightarrow> bool" where
  "array_reads n E \<longleftrightarrow> (\<forall>p s i. node_ok E p s \<and> clear_children p s \<and> shape (r_root s) p = Some ty_array \<and>
     i \<le> r_current s - re_begin E \<and> 2 * (re_end E - r_current s) + 2 \<le> n \<longrightarrow> returns (loop_post E p s) (read_array_loop n E i s))"

lemma returns_limit:
  assumes "node_ok E p s" "returns (loop_post E p s) r"
  shows "returns (value_post E p s) (bnd r (\<lambda>(ok, s). bnd (mem (limit_current E s)) (\<lambda>s. ret (finish_value E ok s))))"
  using assms(2)
proof (rule returns_bnd)
  fix x
  assume "loop_post E p s x"
  then obtain ok t u where "x = (ok, t)" "limit_current E t = Some u" "loop_post E p s (ok, u)"
    using limit_ok [OF assms(1)] by (metis surj_pair)
  then show "returns (value_post E p s) (case x of (ok, s) \<Rightarrow> bnd (mem (limit_current E s)) (\<lambda>s. ret (finish_value E ok s)))"
    using finish_ok [OF assms(1)] by (simp add: bnd_def mem_def)
qed

lemma loop_post_trans:
  assumes "node_post E p s t" "r_errors t = r_errors s" "returns (loop_post E p t) r"
  shows "returns (loop_post E p s) r"
  using assms(3) by (rule returns_mono) (use assms(1,2) node_post_trans in \<open>fastforce simp: loop_post_def\<close>)

lemma object_value_ok:
  assumes "object_reads n E" "node_ok E p s" "node_post E p s t" "clear_below p t" "r_errors t = r_errors s"
    "2 * (re_end E - r_current t) + 2 \<le> n"
  shows "returns (value_post E p s) (bnd (mem (start_container E (vt_object []) tok t)) (\<lambda>s.
        bnd (read_object_loop n E [] s) (\<lambda>(ok, s). bnd (mem (limit_current E s)) (\<lambda>s. ret (finish_value E ok s)))))"
proof -
  have t: "node_ok E p t" by (rule node_post_ok [OF assms(2,3)])
  obtain u where u: "start_container E (vt_object []) tok t = Some u" "node_post E p t u" "r_errors u = r_errors t"
      "r_current u = r_current t" "clear_children p u" "shape (r_root u) p = Some ty_object"
    by (rule start_ok [OF t assms(4), of "vt_object []" tok]) simp
  have "node_ok E p u" by (rule node_post_ok [OF t u(2)])
  then have "returns (loop_post E p u) (read_object_loop n E [] u)"
    using assms(1,6) u(4-6) by (simp add: object_reads_def)
  then have "returns (loop_post E p s) (read_object_loop n E [] u)"
    using node_post_trans [OF assms(3) u(2)] u(3) assms(5) by (intro loop_post_trans [of E p s u]) simp_all
  then show ?thesis using u(1) returns_limit [OF assms(2)] by (simp add: bnd_simps)
qed


lemma array_value_ok:
  assumes "env_ok E" "array_reads n E" "node_ok E p s" "node_post E p s t" "clear_below p t" "r_errors t = r_errors s"
    "2 * (re_end E - r_current t) + 2 \<le> n"
  shows "returns (value_post E p s) (bnd (mem (start_container E (vt_array []) tok t)) (\<lambda>s.
        bnd (mem (skip_spaces E s)) (\<lambda>s.
        bnd (mem (rd (re_mem E) (r_current s))) (\<lambda>c.
        bnd (if c = asc CHR '']'' then bnd (read_token E s) (\<lambda>(_, s). ret (True, s)) else read_array_loop n E 0 s) (\<lambda>(ok, s).
        bnd (mem (limit_current E s)) (\<lambda>s. ret (finish_value E ok s)))))))"
proof -
  have t: "node_ok E p t" by (rule node_post_ok [OF assms(3,4)])
  obtain u where u: "start_container E (vt_array []) tok t = Some u" "node_post E p t u" "r_errors u = r_errors t"
      "r_current u = r_current t" "clear_children p u" "shape (r_root u) p = Some ty_array"
    by (rule start_ok [OF t assms(5), of "vt_array []" tok]) simp
  have "node_ok E p u" by (rule node_post_ok [OF t u(2)])
  then have "state_ok E u" by (simp add: node_ok_def)
  then have len: "r_current u \<le> re_end E" "re_end E < length (re_mem E)" using assms(1) by (auto simp: state_ok_def env_ok_def)
  obtain q where q: "skip_spaces_from (re_mem E) (re_end E) (r_current u) = Some q" "r_current u \<le> q" "q \<le> re_end E"
    using skip_spaces_from_ok [OF len] by blast
  let ?v = "u\<lparr> r_current := q \<rparr>"
  have step: "token_step E u ?v" by (rule token_step_move [OF \<open>state_ok E u\<close> q(2,3)])
  have uv: "node_post E p u ?v" by (rule token_node_post [OF step \<open>node_ok E p u\<close>])
  then have v: "node_ok E p ?v" by (rule node_post_ok [OF \<open>node_ok E p u\<close>])
  have sv: "node_post E p s ?v" using node_post_trans [OF assms(4) node_post_trans [OF u(2) uv]] .
  have "returns (loop_post E p ?v) (bnd (read_token E ?v) (\<lambda>(_, s). ret (True, s)))"
    by (rule returns_yields_bnd [OF read_token_ok [OF assms(1)]])
      (use v in \<open>auto simp: node_ok_def loop_post_def token_step_def intro!: token_node_post\<close>)
  moreover have "returns (loop_post E p ?v) (read_array_loop n E 0 ?v)"
    using assms(2,7) v u(4-6) q by (auto simp: array_reads_def clear_children_def clear_below_def)
  ultimately have "returns (loop_post E p s) (if c = asc CHR '']'' then bnd (read_token E ?v) (\<lambda>(_, s). ret (True, s))
      else read_array_loop n E 0 ?v)" for c
    using u(3) assms(6) by (intro loop_post_trans [OF sv]) simp_all
  then show ?thesis using u(1) q(1) len q(3) returns_limit [OF assms(3)] by (simp add: bnd_simps skip_spaces_def)
qed


text \<open>A token that is decoded, and the value that is set to it.\<close>

lemma decoded_value_ok:
  fixes E :: "'d reader_env"
  assumes "node_ok E p s" "node_post E p s t" "clear_below p t" "r_errors t = r_errors s"
    "yields (\<lambda>(r, s'). decode_post t (r \<noteq> None) s' \<and> (\<forall>p. r = Some p \<longrightarrow> scalar_payload p)) d"
  shows "returns (value_post E p s) (bnd d (\<lambda>(r, s). finish_scalar E r tok s))"
  using assms(5)
proof (rule returns_yields_bnd, clarify)
  fix r :: "'d payload option" and t'
  assume d: "decode_post t (r \<noteq> None) t'"
  then have "node_post E p s t'" using node_post_trans [OF assms(2)] decode_node_post node_post_ok [OF assms(1,2)] by blast
  moreover have "clear_below p t'" "if r = None then r_errors t' \<noteq> [] else r_errors t' = r_errors s"
    using d assms(3,4) by (auto simp: decode_post_def clear_below_def split: if_splits)
  ultimately show "returns (value_post E p s) (finish_scalar E r tok t')" by (rule finish_scalar_ok [OF assms(1)])
qed

lemma value_step:
  assumes env: "env_ok E" and "object_reads n E" "array_reads n E"
  shows "value_reads (Suc n) E"
  unfolding value_reads_def
proof (intro allI impI, elim conjE)
  fix p s
  assume s: "node_ok E p s" "clear_below p s" and fuel: "2 * (re_end E - r_current s) + 1 \<le> Suc n"
  let ?s = "s\<lparr> r_depth := r_depth s + 1 \<rparr>"
  have s': "state_ok E ?s" using s(1) by (simp add: node_ok_def state_ok_def)
  obtain tok t where t: "skip_comment_tokens E ?s = Some (Inr (tok, t))" "token_step E ?s t" "token_ok ?s tok t"
    using skip_comment_tokens_ok [OF env s'] by (auto simp: yields_def)
  have "node_ok E p ?s" using s(1) s' by (simp add: node_ok_def)
  then have st: "node_post E p s t" using token_node_post [OF t(2)] by (simp add: node_post_def)
  obtain u where u: "attach_comments E t = Some (Inr u)" "node_post E p t u" "r_errors u = r_errors t" "r_current u = r_current t"
      "r_last_value u = r_last_value t"
    by (rule attach_comments_ok [OF node_post_ok [OF s(1) st]])
  have su: "node_post E p s u" by (rule node_post_trans [OF st u(2)])
  have clear: "clear_below p u" and err: "r_errors u = r_errors s"
    using s(2) t(2) u(3,5) by (auto simp: clear_below_def token_step_def)
  have tok: "re_begin E \<le> tk_start tok" "tk_end tok \<le> re_end E" "tk_end tok = r_current u" "r_current s \<le> tk_start tok"
      "tk_type tok \<noteq> tt_end_of_stream \<longrightarrow> tk_start tok < tk_end tok" "tk_type tok = tt_string \<longrightarrow> tk_start tok + 2 \<le> tk_end tok"
    using t(2,3) u(4) s' by (auto simp: token_ok_def token_step_def state_ok_def)
  have less: "2 * (re_end E - r_current u) + 2 \<le> n" if "tk_type tok \<noteq> tt_end_of_stream" using that fuel tok by auto
  note obj = object_value_ok [OF assms(2) s(1) su clear err] and arr = array_value_ok [OF env assms(3) s(1) su clear err]
    and dec = decoded_value_ok [OF s(1) su clear err] and sc = finish_scalar_ok [OF s(1) su clear]
    and dropped = dropped_null_ok [OF s(1) su clear _ err] and expected = value_expected_ok [OF s(1) su]
  have num: "yields (\<lambda>(r, s'). decode_post u (r \<noteq> None) s' \<and> (\<forall>p. r = Some p \<longrightarrow> scalar_payload p)) (decode_number E tok u)"
    if "tk_type tok = tt_number" using decode_number_ok [OF env _ tok(2)] tok(5) that by simp
  have str: "yields (\<lambda>(r, s'). decode_post u (r \<noteq> None) s' \<and> (\<forall>p. r = Some p \<longrightarrow> scalar_payload p)) (decode_string E tok u)"
    if "tk_type tok = tt_string" using decode_string_ok [OF env _ tok(1,2)] tok(6) that by simp
  have lt: "r_current s < r_current u" if "tk_type tok \<noteq> tt_end_of_stream" using that tok(3-5) by auto
  show "returns (value_post E p s) (read_value (Suc n) E s)"
  proof (cases "stack_limit \<le> r_depth s")
    case True
    then show ?thesis by (simp add: returns_def)
  next
    case False
    then show ?thesis unfolding read_value.simps t(1) if_not_P [OF False] bnd_simps prod.case u(1)
      using obj [OF less] arr [OF less] dec [OF num] dec [OF str] sc [of "Some _"] err dropped [OF lt] expected
      by (auto split del: if_split split: if_split)
  qed
qed


text \<open>Reading one element or member.\<close>

lemma element_ok:
  assumes "value_reads n E" "node_ok E p t" "clear_children p t" "value_at (p @ [k]) (r_root t) \<noteq> None"
    "2 * (re_end E - r_current t) + 1 \<le> n"
  shows "returns (\<lambda>(ok, u). loop_post E p t (ok, pop_node u) \<and>
      (ok \<longrightarrow> clear_children p (pop_node u) \<and> shape (r_root (pop_node u)) p = shape (r_root t) p)) (read_value n E (push_node k t))"
proof -
  have "node_ok E (p @ [k]) (push_node k t)" by (rule push_ok [OF assms(2,4)])
  moreover have "clear_below (p @ [k]) (push_node k t)" using assms(3) by (simp add: clear_children_def clear_below_def push_node_def)
  ultimately have "returns (value_post E (p @ [k]) (push_node k t)) (read_value n E (push_node k t))"
    using assms(1,5) by (simp add: value_reads_def push_node_def)
  then show ?thesis
  proof (rule returns_mono, clarify)
    fix ok u
    assume v: "value_post E (p @ [k]) (push_node k t) (ok, u)"
    then have post: "node_post E (p @ [k]) (push_node k t) u" by (simp add: value_post_def loop_post_def)
    have "clear_children p (pop_node u)" if ok
    proof (cases "re_collect E")
      case True
      then have "r_last_value u = Some (p @ [k])" using v that by (simp add: value_post_def)
      then show ?thesis by (auto simp: clear_children_def clear_below_def pop_node_def strict_prefix_def prefix_def)
    next
      case False
      then have "r_last_value u = r_last_value t" using post by (simp add: node_post_def push_node_def)
      then show ?thesis using assms(3) by (simp add: clear_children_def clear_below_def pop_node_def)
    qed
    then show "loop_post E p t (ok, pop_node u) \<and>
        (ok \<longrightarrow> clear_children p (pop_node u) \<and> shape (r_root (pop_node u)) p = shape (r_root t) p)"
      using pop_post [OF assms(2) post] v by (auto simp: value_post_def loop_post_def pop_node_def push_node_def split: if_splits)
  qed
qed

lemma node_bounds: "node_ok E p s \<Longrightarrow> re_begin E \<le> r_current s \<and> r_current s \<le> re_end E"
  by (simp add: node_ok_def state_ok_def)

text \<open>After an element, and after a token.\<close>

lemma token_after:
  assumes "node_ok E p t" "node_post E p t u" "r_errors u = r_errors t" "clear_children p u" "shape (r_root u) p = ty"
    "token_step E u w"
  shows "node_post E p t w" "node_ok E p w" "r_errors w = r_errors t" "clear_children p w" "shape (r_root w) p = ty"
proof -
  show "node_post E p t w" by (rule node_post_trans [OF assms(2) token_node_post [OF assms(6) node_post_ok [OF assms(1,2)]]])
  then show "node_ok E p w" by (rule node_post_ok [OF assms(1)])
qed (use assms(3-6) in \<open>auto simp: token_step_def same_shape_def clear_children_def clear_below_def\<close>)

lemma array_next:
  assumes env: "env_ok E" and "array_reads n E" "node_ok E p t" "node_post E p t u" "r_errors u = r_errors t"
    "clear_children p u" "shape (r_root u) p = Some ty_array" "i \<le> r_current t - re_begin E" "2 * (re_end E - r_current t) + 1 \<le> n"
  shows "returns (loop_post E p t) (bnd (read_past_comments E u) (\<lambda>(tok, s).
       if tk_type tok \<noteq> tt_array_separator \<and> tk_type tok \<noteq> tt_array_end
       then add_error_and_recover E msg tok tt_array_end s
       else if tk_type tok = tt_array_end then ret (True, s)
       else read_array_loop n E (Suc i) s))"
proof (rule returns_yields_bnd [OF read_past_comments_ok [OF env]], goal_cases)
  case 1
  then show ?case using assms(4) by (simp add: node_post_def)
next
  case (2 x)
  then obtain tok w where x: "x = (tok, w)" "token_step E u w" "token_ok u tok w" by auto
  note w = token_after [OF assms(3-7) x(2)]
  have "r_current t \<le> r_current u" using assms(4) by (simp add: node_post_def)
  then have "i < r_current w - re_begin E" "2 * (re_end E - r_current w) + 2 \<le> n" if "tk_type tok = tt_array_separator"
    using that x(3) assms(8,9) node_bounds [OF w(2)] node_bounds [OF assms(3)] by (auto simp: token_ok_def)
  then have "returns (loop_post E p w) (read_array_loop n E (Suc i) w)" if "tk_type tok = tt_array_separator"
    using assms(2) w that by (simp add: array_reads_def)
  then have "returns (loop_post E p t) (read_array_loop n E (Suc i) w)" if "tk_type tok = tt_array_separator"
    using loop_post_trans [OF w(1,3)] that by blast
  then show ?case using x(1) error_recover_ok [OF assms(3) env w(1)] w(1,3) by (auto simp: loop_post_def)
qed

lemma array_step:
  assumes env: "env_ok E" and "value_reads n E" "array_reads n E"
  shows "array_reads (Suc n) E"
  unfolding array_reads_def
proof (intro allI impI, elim conjE)
  fix p s i
  assume s: "node_ok E p s" "clear_children p s" "shape (r_root s) p = Some ty_array" and i: "i \<le> r_current s - re_begin E"
    and fuel: "2 * (re_end E - r_current s) + 2 \<le> Suc n"
  have "r_current s - re_begin E < 2 ^ 30" using node_bounds [OF s(1)] env by (auto simp: env_ok_def)
  then have "i < 2 ^ 31" using i by simp
  then obtain r where r: "upd_current_throws (array_ref_int (of_nat i)) s = Some (Inr (s\<lparr> r_root := r \<rparr>))"
      "node_post E p s (s\<lparr> r_root := r \<rparr>)" "shape r p = Some ty_array" "value_at (p @ [key_index (of_nat i)]) r \<noteq> None"
    by (rule array_ok [OF s])
  let ?t = "s\<lparr> r_root := r \<rparr>" and ?k = "key_index (of_nat i)"
  have t: "node_ok E p ?t" by (rule node_post_ok [OF s(1) r(2)])
  have "clear_children p ?t" using s(2) by (simp add: clear_children_def clear_below_def)
  then have v: "returns (\<lambda>(ok, u). loop_post E p ?t (ok, pop_node u) \<and>
      (ok \<longrightarrow> clear_children p (pop_node u) \<and> shape (r_root (pop_node u)) p = Some ty_array)) (read_value n E (push_node ?k ?t))"
    using element_ok [OF assms(2) t _ _, of ?k] r(3,4) fuel by simp
  have "returns (loop_post E p ?t) (read_array_loop (Suc n) E i s)" unfolding read_array_loop.simps r(1) bnd_simps
    using v
  proof (rule returns_bnd, clarsimp simp: Let_def split del: if_split, goal_cases)
    case (1 ok u)
    then have u: "node_post E p ?t (pop_node u)" "if ok then r_errors (pop_node u) = r_errors ?t else r_errors (pop_node u) \<noteq> []"
      by (auto simp: loop_post_def)
    then show ?case using recover_ok [OF t env u(1)] array_next [OF env assms(3) t u(1) _ _ _, of i] 1 i fuel
      by (cases ok) (simp_all split del: if_split)
  qed
  then show "returns (loop_post E p s) (read_array_loop (Suc n) E i s)" using loop_post_trans [OF r(2)] by simp
qed


lemma object_next:
  assumes env: "env_ok E" and "object_reads n E" "node_ok E p t" "node_post E p t u" "r_errors u = r_errors t"
    "clear_children p u" "shape (r_root u) p = Some ty_object" "2 * (re_end E - r_current t) + 1 \<le> n"
  shows "returns (loop_post E p t) (bnd (read_token E u) (\<lambda>(comma, s).
       if tk_type comma \<notin> {tt_object_end, tt_array_separator, tt_comment}
       then add_error_and_recover E msg comma tt_object_end s
       else bnd (if tk_type comma = tt_comment then read_past_comments E s else ret (comma, s)) (\<lambda>(comma, s).
       if tk_type comma = tt_object_end then ret (True, s) else read_object_loop n E name s)))"
proof (rule returns_yields_bnd [OF read_token_ok [OF env]], goal_cases)
  case 1
  then show ?case using assms(4) by (simp add: node_post_def)
next
  case (2 x)
  then obtain comma w where x: "x = (comma, w)" "token_step E u w" "token_ok u comma w" by auto
  note w = token_after [OF assms(3-7) x(2)]
  have "r_current t \<le> r_current u" using assms(4) by (simp add: node_post_def)
  then have fuel: "2 * (re_end E - r_current w) + 2 \<le> n" if "tk_type comma \<in> {tt_object_end, tt_array_separator, tt_comment}"
    using that x(3) assms(8) node_bounds [OF w(2)] by (auto simp: token_ok_def)
  have "state_ok E w" using w(2) by (simp add: node_ok_def)
  then have "yields (\<lambda>(c, v). token_step E w v) (if tk_type comma = tt_comment then read_past_comments E w else ret (comma, w))"
    using yields_mono [OF read_past_comments_ok [OF env]] token_step_refl by fastforce
  then have "returns (loop_post E p t) (bnd (if tk_type comma = tt_comment then read_past_comments E w else ret (comma, w)) (\<lambda>(comma, s).
       if tk_type comma = tt_object_end then ret (True, s) else read_object_loop n E name s))"
    if "tk_type comma \<in> {tt_object_end, tt_array_separator, tt_comment}"
  proof (rule returns_yields_bnd, clarify)
    fix c v
    assume step: "token_step E w v"
    note v = token_after [OF assms(3) w(1,3-5) step]
    have "r_current w \<le> r_current v" using step by (simp add: token_step_def)
    then have "returns (loop_post E p v) (read_object_loop n E name v)"
      using assms(2) v(2,4,5) fuel [OF that] by (auto simp: object_reads_def)
    then have "returns (loop_post E p t) (read_object_loop n E name v)" by (rule loop_post_trans [OF v(1,3)])
    then show "returns (loop_post E p t) (if tk_type c = tt_object_end then ret (True, v) else read_object_loop n E name v)"
      using v(1,3) by (simp add: loop_post_def)
  qed
  then show ?case using x(1) error_recover_ok [OF assms(3) env w(1)] by auto
qed

lemma object_member:
  assumes env: "env_ok E" and "value_reads n E" "object_reads n E" "node_ok E p t" "clear_children p t"
    "shape (r_root t) p = Some ty_object" "2 * (re_end E - r_current t) + 1 \<le> n"
  shows "returns (loop_post E p t) (bnd (read_token E t) (\<lambda>(colon, s).
         if tk_type colon \<noteq> tt_member_separator then add_error_and_recover E msg colon tt_object_end s
         else bnd (upd_current_throws (resolve_reference name) s) (\<lambda>s.
         bnd (read_value n E (push_node (key_name (czstring name)) s)) (\<lambda>(ok, s).
         let s = pop_node s in
         if \<not> ok then fail_and_recover E tt_object_end s
         else bnd (read_token E s) (\<lambda>(comma, s).
         if tk_type comma \<notin> {tt_object_end, tt_array_separator, tt_comment}
         then add_error_and_recover E msg' comma tt_object_end s
         else bnd (if tk_type comma = tt_comment then read_past_comments E s else ret (comma, s)) (\<lambda>(comma, s).
         if tk_type comma = tt_object_end then ret (True, s) else read_object_loop n E name s))))))"
proof (rule returns_yields_bnd [OF read_token_ok [OF env]], goal_cases)
  case 1
  then show ?case using assms(4) by (simp add: node_ok_def)
next
  case (2 x)
  then obtain colon w where x: "x = (colon, w)" "token_step E t w" by auto
  note w = token_after [OF assms(4) node_post_refl [OF assms(4)] refl assms(5,6) x(2)]
  obtain r where r: "upd_current_throws (resolve_reference name) w = Some (Inr (w\<lparr> r_root := r \<rparr>))"
      "node_post E p w (w\<lparr> r_root := r \<rparr>)" "shape r p = Some ty_object" "value_at (p @ [key_name (czstring name)]) r \<noteq> None"
    by (rule resolve_ok [OF w(2,4,5)])
  let ?w = "w\<lparr> r_root := r \<rparr>" and ?k = "key_name (czstring name)"
  have tw: "node_post E p t ?w" by (rule node_post_trans [OF w(1) r(2)])
  have w': "node_ok E p ?w" by (rule node_post_ok [OF w(2) r(2)])
  have "clear_children p ?w" using w(4) by (simp add: clear_children_def clear_below_def)
  moreover have fuel: "2 * (re_end E - r_current ?w) + 1 \<le> n" using x(2) assms(7) by (auto simp: token_step_def)
  ultimately have v: "returns (\<lambda>(ok, u). loop_post E p ?w (ok, pop_node u) \<and>
      (ok \<longrightarrow> clear_children p (pop_node u) \<and> shape (r_root (pop_node u)) p = Some ty_object)) (read_value n E (push_node ?k ?w))"
    using element_ok [OF assms(2) w' _ _, of ?k] r(3,4) by simp
  have "returns (loop_post E p ?w) (bnd (read_value n E (push_node ?k ?w)) (\<lambda>(ok, s).
         let s = pop_node s in
         if \<not> ok then fail_and_recover E tt_object_end s
         else bnd (read_token E s) (\<lambda>(comma, s).
         if tk_type comma \<notin> {tt_object_end, tt_array_separator, tt_comment}
         then add_error_and_recover E msg' comma tt_object_end s
         else bnd (if tk_type comma = tt_comment then read_past_comments E s else ret (comma, s)) (\<lambda>(comma, s).
         if tk_type comma = tt_object_end then ret (True, s) else read_object_loop n E name s))))" using v
  proof (rule returns_bnd, clarsimp simp: Let_def split del: if_split, goal_cases)
    case (1 ok u)
    then have u: "node_post E p ?w (pop_node u)" "if ok then r_errors (pop_node u) = r_errors ?w else r_errors (pop_node u) \<noteq> []"
      by (auto simp: loop_post_def)
    then show ?case using recover_ok [OF w' env u(1)] object_next [OF env assms(3) w' u(1) _ _ _ fuel, of msg' name] 1
      by (cases ok) (simp_all split del: if_split)
  qed
  from loop_post_trans [OF tw _ this] show ?case unfolding x(1) prod.case r(1) bnd_simps
    using w(3) error_recover_ok [OF assms(4) env w(1)] by (cases "tk_type colon = tt_member_separator") simp_all
qed


lemma object_step:
  assumes env: "env_ok E" and "value_reads n E" "object_reads n E"
  shows "object_reads (Suc n) E"
  unfolding object_reads_def
proof (intro allI impI, elim conjE)
  fix p s name
  assume s: "node_ok E p s" "clear_children p s" "shape (r_root s) p = Some ty_object" and
    fuel: "2 * (re_end E - r_current s) + 2 \<le> Suc n"
  show "returns (loop_post E p s) (read_object_loop (Suc n) E name s)"
    unfolding read_object_loop.simps
  proof (rule returns_yields_bnd [OF read_past_comments_ok [OF env]], goal_cases)
    case 1
    then show ?case using s(1) by (simp add: node_ok_def)
  next
    case (2 x)
    then obtain tok w where x: "x = (tok, w)" "token_step E s w" "token_ok s tok w" by auto
    note w = token_after [OF s(1) node_post_refl [OF s(1)] refl s(2,3) x(2)]
    have tok: "tk_type tok = tt_string \<longrightarrow> tk_start tok + 2 \<le> tk_end tok" "tk_type tok = tt_number \<longrightarrow> tk_start tok < tk_end tok"
        "tk_end tok \<le> re_end E" "r_current s \<le> r_current w"
      using x(3) node_bounds [OF w(2)] by (auto simp: token_ok_def)
    obtain nm v where nm: "member_name E tok w = Some (Inr (nm, v))" "decode_post w (nm \<noteq> None) v"
      using member_name_ok [OF env tok(1-3), of w] by (auto simp: yields_def)
    have sv: "node_post E p s v" by (rule node_post_trans [OF w(1) decode_node_post [OF nm(2) w(2)]])
    have v: "node_ok E p v" "clear_children p v" "shape (r_root v) p = Some ty_object" "r_current v = r_current w"
        "if nm = None then r_errors v \<noteq> [] else r_errors v = r_errors s"
      using node_post_ok [OF s(1) sv] nm(2) w(3-5)
      by (auto simp: decode_post_def clear_children_def clear_below_def split: if_splits)
    have "2 * (re_end E - r_current v) + 1 \<le> n" using fuel tok(4) v(4) by simp
    from loop_post_trans [OF sv _ object_member [OF env assms(2,3) v(1-3) this]] show ?case
      unfolding x(1) prod.case nm(1) bnd_simps
      using v(5) recover_ok [OF s(1) env sv] error_recover_ok [OF s(1) env sv] w(1,3)
      by (auto simp: loop_post_def split: option.split simp del: insert_iff split del: if_split split: if_split)
  qed
qed

lemma reads_ok:
  assumes "env_ok E"
  shows "value_reads n E \<and> object_reads n E \<and> array_reads n E"
proof (induction n)
  case 0
  show ?case by (simp add: value_reads_def object_reads_def array_reads_def)
next
  case (Suc n)
  then show ?case using value_step object_step array_step assms by blast
qed


section \<open>Documents\<close>

lemma init_ok: "env_ok E \<Longrightarrow> node_ok E [] (reader_init E root) \<and> clear_below [] (reader_init E root)"
  by (simp add: node_ok_def state_ok_def env_ok_def reader_init_def clear_below_def)

lemma strict_root_ok:
  assumes "if ok then r_errors s = [] else r_errors s \<noteq> []"
  shows "case strict_root_check E ok s of (ok, s') \<Rightarrow> (ok \<longleftrightarrow> good s') \<and> r_nodes s' = r_nodes s"
  using assms by (auto simp: strict_root_check_def good_def add_error_def split: if_splits)

lemma parse_env_ok:
  assumes "env_ok E"
  shows "returns (\<lambda>(ok, s). (ok \<longleftrightarrow> good s) \<and> r_nodes s = [[]]) (parse_env E root)"
proof -
  let ?s = "reader_init E root"
  have v: "returns (value_post E [] ?s) (read_value (2 * (re_end E - re_begin E) + 2) E ?s)"
    using reads_ok [OF assms, of "2 * (re_end E - re_begin E) + 2"] init_ok [OF assms, of root]
    by (simp add: value_reads_def reader_init_def del: read_value.simps)
  show ?thesis unfolding parse_env_def using v
  proof (rule returns_bnd, clarify)
    fix ok t
    assume "value_post E [] ?s (ok, t)"
    then have t: "state_ok E t" "if ok then r_errors t = [] else r_errors t \<noteq> []" "r_nodes t = [[]]"
      by (auto simp: value_post_def loop_post_def node_post_def reader_init_def split: if_splits)
    obtain tok u where u: "skip_comment_tokens E t = Some (Inr (tok, u))" "token_step E t u"
      using skip_comment_tokens_ok [OF assms t(1)] by (auto simp: yields_def)
    then have u': "state_ok E u" "if ok then r_errors u = [] else r_errors u \<noteq> []" "r_nodes u = [[]]"
      using t(2,3) by (auto simp: token_step_def)
    obtain r where "(if re_collect E \<and> r_comments_before u \<noteq> []
        then bnd (Some (set_comment (r_comments_before u) comment_after (r_root u))) (\<lambda>v. ret (u\<lparr> r_root := v \<rparr>)) else ret u) =
        ret (u\<lparr> r_root := r \<rparr>)"
    proof (cases "re_collect E \<and> r_comments_before u \<noteq> []")
      case True
      then have "r_comments_before u \<noteq> []" "hd (r_comments_before u) = asc CHR ''/''" using u'(1) by (auto simp: state_ok_def)
      then obtain v where "set_comment (r_comments_before u) comment_after (r_root u) = Inr v" by (rule set_comment_ok)
      then show thesis using that [of v] True by (simp add: bnd_simps)
    next
      case False
      then show thesis using that [of "r_root u"] by auto
    qed
    then show "returns (\<lambda>(ok, s). (ok \<longleftrightarrow> good s) \<and> r_nodes s = [[]]) (bnd (skip_comment_tokens E t) (\<lambda>(_, s).
        bnd (if re_collect E \<and> r_comments_before s \<noteq> []
          then bnd (Some (set_comment (r_comments_before s) comment_after (r_root s))) (\<lambda>v. ret (s\<lparr> r_root := v \<rparr>))
          else ret s) (\<lambda>s. ret (strict_root_check E ok s))))"
      using strict_root_ok [of ok "u\<lparr> r_root := r \<rparr>" E] u'(2,3) u(1) by (simp only: bnd_simps prod.case) simp
  qed
qed

text \<open>C5: \<open>reader::parse\<close> on every document of less than \<open>2 ^ 30\<close> characters that is followed by one more readable byte: it
  returns (the recursion has enough fuel), reads no other memory, follows no dangling pointer into the value, fails no
  assertion and throws nothing but the error of the nesting limit; and if it returns, it returns true exactly if
  no error was recorded, and has popped every node it has pushed.\<close>

theorem parse_returns:
  assumes "begin_doc \<le> end_doc" "end_doc < length m" "end_doc - begin_doc < 2 ^ 30"
  shows "parse scan_double real_text features m begin_doc end_doc root collect = Some (Inl json_runtime_error) \<or>
    (\<exists>ok s. parse scan_double real_text features m begin_doc end_doc root collect = Some (Inr (ok, s)) \<and>
      (ok \<longleftrightarrow> good s) \<and> r_nodes s = [[]])"
proof -
  have "env_ok \<lparr> re_mem = m, re_begin = begin_doc, re_end = end_doc, re_features = features,
      re_collect = (allow_comments features \<and> collect), re_scan_double = scan_double, re_real_text = real_text \<rparr>"
    using assms by (simp add: env_ok_def)
  from parse_env_ok [OF this, of root] show ?thesis by (auto simp: parse_def returns_def yields_def)
qed

theorem parse_returns_witness:
  "parse (\<lambda>_. Some (0 :: nat)) (\<lambda>_. []) features_all (lit ''[1, {'' @ [0]) 0 5 null_ref True = Some (Inl json_runtime_error) \<or>
    (\<exists>ok s. parse (\<lambda>_. Some (0 :: nat)) (\<lambda>_. []) features_all (lit ''[1, {'' @ [0]) 0 5 null_ref True = Some (Inr (ok, s)) \<and>
      (ok \<longleftrightarrow> good s) \<and> r_nodes s = [[]])"
  by (rule parse_returns) simp_all

end
