(* ===== verification/Json_Grammar.thy ===== *)
theory Json_Grammar
  imports Json_Reader
begin

text \<open>
  A specification of JSON: trees, the values that represent them, and the texts that denote them. It says nothing of
  comments and offsets. The texts are those of the standard with what the reader accepts on top of them: leading
  zeros, digits that are missing behind a sign or a point, and control characters in strings. A name that occurs
  twice in an object denotes its last value. Digits alone denote an integer if it fits into 64 bits; otherwise, and with
  a fraction or an exponent, they denote the double that \<open>sscanf\<close> finds in the text.
\<close>

datatype 'd json_tree =
    T_null | T_int "64 word" | T_uint "64 word" | T_real 'd | T_string "byte list" | T_bool bool
  | T_array "'d json_tree list"
  | T_object "(byte list \<times> 'd json_tree) list"

definition indexes :: "nat \<Rightarrow> nat \<Rightarrow> 32 word list" where
  "indexes i n = map of_nat [i..<i + n]"

fun represents :: "'d json_tree \<Rightarrow> 'd json_value \<Rightarrow> bool" where
  "represents T_null v = (case payload v of vt_null \<Rightarrow> True | _ \<Rightarrow> False)"
| "represents (T_int i) v = (case payload v of vt_int j \<Rightarrow> j = i | _ \<Rightarrow> False)"
| "represents (T_uint i) v = (case payload v of vt_uint j \<Rightarrow> j = i | _ \<Rightarrow> False)"
| "represents (T_real d) v = (case payload v of vt_real e \<Rightarrow> e = d | _ \<Rightarrow> False)"
| "represents (T_string s) v = (case payload v of vt_string t \<Rightarrow> t = Some s | _ \<Rightarrow> False)"
| "represents (T_bool b) v = (case payload v of vt_bool c \<Rightarrow> c = b | _ \<Rightarrow> False)"
| "represents (T_array ts) v = (case payload v of
      vt_array xs \<Rightarrow> map fst xs = indexes 0 (length ts) \<and> list_all2 (\<lambda>t x. represents t (snd x)) ts xs
    | _ \<Rightarrow> False)"
| "represents (T_object ms) v = (case payload v of
      vt_object xs \<Rightarrow> map fst xs = map fst ms \<and> list_all2 (\<lambda>m x. represents (snd m) (snd x)) ms xs
    | _ \<Rightarrow> False)"

section \<open>Texts\<close>

definition white :: "byte \<Rightarrow> bool" where
  "white c \<longleftrightarrow> c = 32 \<or> c = 9 \<or> c = 13 \<or> c = 10"

definition blank :: "byte list \<Rightarrow> bool" where
  "blank a \<longleftrightarrow> list_all white a"

definition digits :: "byte list \<Rightarrow> bool" where
  "digits ds \<longleftrightarrow> list_all is_digit_char ds"

definition digits_value :: "nat \<Rightarrow> byte list \<Rightarrow> nat" where
  "digits_value = foldl (\<lambda>n c. n * 10 + unat (c - asc CHR ''0''))"

definition fraction_text :: "byte list \<Rightarrow> bool" where
  "fraction_text f \<longleftrightarrow> f = [] \<or> (\<exists>ds. f = asc CHR ''.'' # ds \<and> digits ds)"

definition exponent_text :: "byte list \<Rightarrow> bool" where
  "exponent_text x \<longleftrightarrow> x = [] \<or> (\<exists>e sg ds. x = e # sg @ ds \<and> e \<in> {asc CHR ''e'', asc CHR ''E''} \<and>
     sg \<in> {[], [asc CHR ''+''], [asc CHR ''-'']} \<and> digits ds)"

text \<open>A number with a fraction or an exponent.\<close>

definition real_text :: "byte list \<Rightarrow> bool" where
  "real_text t \<longleftrightarrow> (\<exists>c ds f x. t = c # ds @ f @ x \<and> (is_digit_char c \<or> c = asc CHR ''-'') \<and> digits ds \<and>
     fraction_text f \<and> exponent_text x \<and> (f \<noteq> [] \<or> x \<noteq> []))"

definition hex_digit_value :: "byte \<Rightarrow> 32 word option" where
  "hex_digit_value c =
     (if is_digit_char c then Some (scast (c - asc CHR ''0''))
      else if asc CHR ''a'' \<le>s c \<and> c \<le>s asc CHR ''f'' then Some (scast (c - asc CHR ''a'') + 10)
      else if asc CHR ''A'' \<le>s c \<and> c \<le>s asc CHR ''F'' then Some (scast (c - asc CHR ''A'') + 10)
      else None)"

definition hex4 :: "32 word \<Rightarrow> byte list \<Rightarrow> bool" where
  "hex4 u h \<longleftrightarrow> length h = 4 \<and> map_option (foldl (\<lambda>n d. n * 16 + d) 0) (those (map hex_digit_value h)) = Some u"

definition high_surrogate :: "32 word \<Rightarrow> bool" where
  "high_surrogate u \<longleftrightarrow> 0xD800 \<le> u \<and> u \<le> 0xDBFF"

inductive string_text :: "byte list \<Rightarrow> byte list \<Rightarrow> bool" where
  st_nil: "string_text [] []"
| st_char: "c \<noteq> 34 \<Longrightarrow> c \<noteq> 92 \<Longrightarrow> string_text s t \<Longrightarrow> string_text (c # s) (c # t)"
| st_escape: "simple_escape e = Some d \<Longrightarrow> string_text s t \<Longrightarrow> string_text (d # s) (92 # e # t)"
| st_unicode: "hex4 u h \<Longrightarrow> \<not> high_surrogate u \<Longrightarrow> string_text s t \<Longrightarrow>
    string_text (codepoint_to_utf8 u @ s) (92 # asc CHR ''u'' # h @ t)"
| st_pair: "hex4 u h \<Longrightarrow> high_surrogate u \<Longrightarrow> hex4 u' h' \<Longrightarrow> string_text s t \<Longrightarrow>
    string_text (codepoint_to_utf8 (0x10000 + push_bit 10 (u AND 0x3FF) + (u' AND 0x3FF)) @ s)
      (92 # asc CHR ''u'' # h @ 92 # asc CHR ''u'' # h' @ t)"

definition quoted :: "byte list \<Rightarrow> byte list" where
  "quoted t = 34 # t @ [34]"

text \<open>The entries of an object with the given members, in the order of names.\<close>

definition assigned :: "(byte list \<times> 'a) list \<Rightarrow> (byte list \<times> 'a) list \<Rightarrow> (byte list \<times> 'a) list" where
  "assigned = foldl (\<lambda>xs (k, v). om_assign czstring_less (czstring k) v xs)"

text \<open>The texts of a tree that is nested at most \<open>n\<close> levels deep; the elements of an array and the members of an object
  with the blanks around them.\<close>

inductive json_text :: "(byte list \<Rightarrow> 'd option) \<Rightarrow> nat \<Rightarrow> 'd json_tree \<Rightarrow> byte list \<Rightarrow> bool"
  and elements_text :: "(byte list \<Rightarrow> 'd option) \<Rightarrow> nat \<Rightarrow> 'd json_tree list \<Rightarrow> byte list \<Rightarrow> bool"
  and members_text :: "(byte list \<Rightarrow> 'd option) \<Rightarrow> nat \<Rightarrow> (byte list \<times> 'd json_tree) list \<Rightarrow> byte list \<Rightarrow> bool"
  for scan where
  jt_null: "json_text scan (Suc n) T_null (lit ''null'')"
| jt_true: "json_text scan (Suc n) (T_bool True) (lit ''true'')"
| jt_false: "json_text scan (Suc n) (T_bool False) (lit ''false'')"
| jt_negative: "digits ds \<Longrightarrow> digits_value 0 ds \<le> 2 ^ 63 \<Longrightarrow>
    json_text scan (Suc n) (T_int (- of_nat (digits_value 0 ds))) (asc CHR ''-'' # ds)"
| jt_int: "digits ds \<Longrightarrow> ds \<noteq> [] \<Longrightarrow> digits_value 0 ds < 2 ^ 31 \<Longrightarrow>
    json_text scan (Suc n) (T_int (of_nat (digits_value 0 ds))) ds"
| jt_uint: "digits ds \<Longrightarrow> ds \<noteq> [] \<Longrightarrow> 2 ^ 31 \<le> digits_value 0 ds \<Longrightarrow> digits_value 0 ds < 2 ^ 64 \<Longrightarrow>
    json_text scan (Suc n) (T_uint (of_nat (digits_value 0 ds))) ds"
| jt_big: "digits ds \<Longrightarrow> 2 ^ 64 \<le> digits_value 0 ds \<Longrightarrow> scan ds = Some d \<Longrightarrow> json_text scan (Suc n) (T_real d) ds"
| jt_big_negative: "digits ds \<Longrightarrow> 2 ^ 63 < digits_value 0 ds \<Longrightarrow> scan (asc CHR ''-'' # ds) = Some d \<Longrightarrow>
    json_text scan (Suc n) (T_real d) (asc CHR ''-'' # ds)"
| jt_real: "real_text t \<Longrightarrow> scan t = Some d \<Longrightarrow> json_text scan (Suc n) (T_real d) t"
| jt_string: "string_text s t \<Longrightarrow> json_text scan (Suc n) (T_string s) (quoted t)"
| jt_no_elements: "blank a \<Longrightarrow> json_text scan (Suc n) (T_array []) (asc CHR ''['' # a @ [asc CHR '']''])"
| jt_array: "elements_text scan n ts y \<Longrightarrow> json_text scan (Suc n) (T_array ts) (asc CHR ''['' # y @ [asc CHR '']''])"
| jt_no_members: "blank a \<Longrightarrow> json_text scan (Suc n) (T_object []) (asc CHR ''{'' # a @ [asc CHR ''}''])"
| jt_object: "members_text scan n ms y \<Longrightarrow> json_text scan (Suc n) (T_object (assigned [] ms)) (asc CHR ''{'' # y @ [asc CHR ''}''])"
| et_last: "json_text scan n t x \<Longrightarrow> blank a \<Longrightarrow> blank b \<Longrightarrow> elements_text scan n [t] (a @ x @ b)"
| et_next: "json_text scan n t x \<Longrightarrow> elements_text scan n ts y \<Longrightarrow> blank a \<Longrightarrow> blank b \<Longrightarrow>
    elements_text scan n (t # ts) (a @ x @ b @ asc CHR '','' # y)"
| mt_last: "json_text scan n t x \<Longrightarrow> string_text k z \<Longrightarrow> blank a \<Longrightarrow> blank b \<Longrightarrow> blank c \<Longrightarrow> blank d \<Longrightarrow>
    members_text scan n [(k, t)] (a @ quoted z @ b @ asc CHR '':'' # c @ x @ d)"
| mt_next: "json_text scan n t x \<Longrightarrow> members_text scan n ms y \<Longrightarrow> string_text k z \<Longrightarrow> blank a \<Longrightarrow> blank b \<Longrightarrow> blank c \<Longrightarrow> blank d \<Longrightarrow>
    members_text scan n ((k, t) # ms) (a @ quoted z @ b @ asc CHR '':'' # c @ x @ d @ asc CHR '','' # y)"

end
