(* ===== verification/Json_Accepts.thy ===== *)
theory Json_Accepts
  imports Json_Grammar Json_Safety
begin

text \<open>The reader on the texts of \<open>Json_Grammar\<close>: it accepts each of them, and the value it builds represents the tree.\<close>

section \<open>Text in memory\<close>

definition text_at :: "buffer \<Rightarrow> nat \<Rightarrow> byte list \<Rightarrow> bool" where
  "text_at m p x \<longleftrightarrow> take (length x) (drop p m) = x"

lemma text_at_Nil [simp]: "text_at m p []"
  by (simp add: text_at_def)

lemma text_at_Cons [simp]: "text_at m p (c # x) \<longleftrightarrow> p < length m \<and> m ! p = c \<and> text_at m (Suc p) x"
proof (cases "p < length m")
  case True
  then have "drop p m = m ! p # drop (Suc p) m" by (simp add: Cons_nth_drop_Suc)
  then show ?thesis using True by (auto simp: text_at_def)
qed (simp add: text_at_def)

lemma text_at_append [simp]: "text_at m p (x @ y) \<longleftrightarrow> text_at m p x \<and> text_at m (p + length x) y"
  by (induction x arbitrary: p) auto

lemma text_at_slice: "text_at m p x \<Longrightarrow> slice m p (p + length x) = x"
  by (simp add: text_at_def slice_def)

lemma text_at_length: "text_at m p x \<Longrightarrow> x \<noteq> [] \<Longrightarrow> p + length x \<le> length m"
  by (induction x arbitrary: p) fastforce+

lemma blank_Nil [simp]: "blank []"
  by (simp add: blank_def)

lemma blank_Cons [simp]: "blank (c # a) \<longleftrightarrow> white c \<and> blank a"
  by (simp add: blank_def)

lemma skip_spaces_over:
  assumes "blank a" "text_at m p a" "p + length a \<le> e" "p + length a = e \<or> p + length a < length m \<and> \<not> white (m ! (p + length a))"
  shows "skip_spaces_from m e p = Some (p + length a)"
  using assms
proof (induction a arbitrary: p)
  case Nil
  then show ?case by (subst skip_spaces_from.simps) (auto simp: white_def)
next
  case (Cons c a)
  then have "skip_spaces_from m e (Suc p) = Some (Suc p + length a)" by (intro Cons.IH) auto
  then show ?case using Cons.prems by (subst skip_spaces_from.simps) (auto simp: white_def)
qed

section \<open>Tokens\<close>

lemma read_token_at:
  assumes "blank a" "text_at (re_mem E) (r_current s) (a @ [c])" "r_current s + length a < re_end E" "\<not> white c"
  shows "read_token E s = bnd (token_switch E c (s\<lparr> r_current := Suc (r_current s + length a) \<rparr>)) (\<lambda>(ty, ok, s').
    ret (\<lparr> tk_type = (if ok then ty else tt_error), tk_start = r_current s + length a, tk_end = r_current s' \<rparr>, s'))"
proof -
  have "skip_spaces_from (re_mem E) (re_end E) (r_current s) = Some (r_current s + length a)"
    using assms by (intro skip_spaces_over) auto
  then show ?thesis using assms(2,3)
    by (simp add: read_token_def skip_spaces_def bnd_simps get_next_char_def Let_def)
qed

text \<open>A token of one character.\<close>

definition mark_type :: "byte \<Rightarrow> token_type option" where
  "mark_type c =
     (if c = asc CHR ''{'' then Some tt_object_begin else if c = asc CHR ''}'' then Some tt_object_end
      else if c = asc CHR ''['' then Some tt_array_begin else if c = asc CHR '']'' then Some tt_array_end
      else if c = asc CHR '','' then Some tt_array_separator else if c = asc CHR '':'' then Some tt_member_separator else None)"

lemma read_mark:
  assumes "blank a" "text_at (re_mem E) (r_current s) (a @ [c])" "r_current s + length a < re_end E" "mark_type c = Some ty"
  shows "read_token E s = ret (\<lparr> tk_type = ty, tk_start = r_current s + length a, tk_end = Suc (r_current s + length a) \<rparr>,
    s\<lparr> r_current := Suc (r_current s + length a) \<rparr>)"
proof -
  have "\<not> white c" using assms(4) by (auto simp: mark_type_def white_def split: if_splits)
  moreover have "token_switch E c t = ret (ty, True, t)" for t
    using assms(4) by (auto simp: mark_type_def token_switch_def is_digit_char_def word_sle_eq split: if_splits)
  ultimately show ?thesis using assms(1-3) by (simp add: read_token_at bnd_simps)
qed

lemma past_comments: "read_token E s = ret (tok, s') \<Longrightarrow> tk_type tok \<noteq> tt_comment \<Longrightarrow> read_past_comments E s = ret (tok, s')"
  by (subst read_past_comments.simps) (simp add: bnd_simps)

lemma past_comment_tokens: "read_token E s = ret (tok, s') \<Longrightarrow> tk_type tok \<noteq> tt_comment \<Longrightarrow> skip_comment_tokens E s = ret (tok, s')"
  by (simp add: skip_comment_tokens_def past_comments)

lemma mark_no_comment [simp]: "mark_type c \<noteq> Some tt_comment"
  by (simp add: mark_type_def)

text \<open>\<open>true\<close>, \<open>false\<close>, \<open>null\<close>.\<close>

lemma match_text_at:
  assumes "text_at (re_mem E) (r_current s) pat" "r_current s + length pat \<le> re_end E" "pat \<noteq> []"
  shows "match_text E pat s = Some (True, s\<lparr> r_current := r_current s + length pat \<rparr>)"
  using assms text_at_length [of "re_mem E" "r_current s" pat] by (auto simp: match_text_def Let_def text_at_slice)

definition word_type :: "byte list \<Rightarrow> token_type option" where
  "word_type x =
     (if x = lit ''true'' then Some tt_true else if x = lit ''false'' then Some tt_false
      else if x = lit ''null'' then Some tt_null else None)"

lemma read_word:
  assumes "blank a" "text_at (re_mem E) (r_current s) (a @ x)" "r_current s + length (a @ x) \<le> re_end E" "word_type x = Some ty"
  shows "read_token E s = ret (\<lparr> tk_type = ty, tk_start = r_current s + length a, tk_end = r_current s + length (a @ x) \<rparr>,
    s\<lparr> r_current := r_current s + length (a @ x) \<rparr>)"
proof -
  obtain c y where x: "x = c # y" "y \<noteq> []" "\<not> white c"
      "\<And>t. token_switch E c t = bnd (mem (match_text E y t)) (\<lambda>(ok, s). ret (ty, ok, s))"
    using assms(4) that [of "hd x" "tl x"]
    by (auto simp: word_type_def white_def token_switch_def is_digit_char_def word_sle_eq split: if_splits)
  let ?s = "s\<lparr> r_current := Suc (r_current s + length a) \<rparr>"
  have "match_text E y ?s = Some (True, ?s\<lparr> r_current := r_current ?s + length y \<rparr>)"
    using assms(2,3) x(1,2) by (intro match_text_at) auto
  then show ?thesis using assms(1-3) x by (simp add: read_token_at bnd_simps add.assoc)
qed


text \<open>Strings.\<close>

definition plain_char :: "byte \<Rightarrow> bool" where
  "plain_char c \<longleftrightarrow> c \<noteq> 34 \<and> c \<noteq> 92"

lemma string_loop_plain:
  "list_all plain_char h \<Longrightarrow> text_at m p h \<Longrightarrow> p + length h \<le> e \<Longrightarrow> \<exists>c'. read_string_loop m e c p = read_string_loop m e c' (p + length h)"
proof (induction h arbitrary: c p)
  case (Cons d h)
  then have "read_string_loop m e c p = read_string_loop m e d (Suc p)"
    by (subst read_string_loop.simps) (auto simp: plain_char_def)
  then show ?case using Cons.IH [of "Suc p" d] Cons.prems by simp
qed auto

lemma those_hex_plain: "those (map hex_digit_value h) = Some ds \<Longrightarrow> list_all plain_char h"
proof (induction h arbitrary: ds)
  case (Cons c h)
  have "hex_digit_value c \<noteq> None" using Cons.prems by (auto split: option.splits)
  then have "plain_char c" unfolding plain_char_def
    by (auto simp: hex_digit_value_def is_digit_char_def word_sle_eq split: if_splits)
  then show ?case using Cons by (auto split: option.splits)
qed simp

lemma hex4_plain: "hex4 u h \<Longrightarrow> list_all plain_char h \<and> length h = 4"
  by (auto simp: hex4_def intro: those_hex_plain)

lemma read_string_loop_at:
  "string_text s t \<Longrightarrow> text_at m p (t @ [34]) \<Longrightarrow> p + length t < e \<Longrightarrow> read_string_loop m e c p = Some (34, Suc (p + length t))"
proof (induction s t arbitrary: c p rule: string_text.induct)
  case st_nil
  then show ?case by (subst read_string_loop.simps) simp
next
  case (st_char d s t)
  then show ?case by (subst read_string_loop.simps) auto
next
  case (st_escape ec d s t)
  then show ?case by (subst read_string_loop.simps) simp
next
  case (st_unicode u h s t)
  have h: "list_all plain_char h" "length h = 4" using hex4_plain [OF st_unicode.hyps(1)] by auto
  obtain c' where "read_string_loop m e 92 (p + 2) = read_string_loop m e c' (p + 2 + length h)"
    using string_loop_plain [OF h(1), of m "p + 2" e 92] st_unicode.prems by auto
  moreover have "read_string_loop m e c' (p + 2 + length h) = Some (34, Suc (p + 2 + length h + length t))"
    using st_unicode.prems by (intro st_unicode.IH) auto
  ultimately show ?case using st_unicode.prems by (subst read_string_loop.simps) (auto simp: add.commute add.left_commute)
next
  case (st_pair u h u' h' s t)
  have h: "list_all plain_char h" "length h = 4" "list_all plain_char h'" "length h' = 4"
    using hex4_plain [OF st_pair.hyps(1)] hex4_plain [OF st_pair.hyps(3)] by auto
  obtain c' where "read_string_loop m e 92 (p + 2) = read_string_loop m e c' (p + 2 + length h)"
    using string_loop_plain [OF h(1), of m "p + 2" e 92] st_pair.prems by auto
  moreover have "read_string_loop m e c' (p + 6) = read_string_loop m e 92 (p + 8)"
    using st_pair.prems h by (subst read_string_loop.simps) (auto simp: add.commute add.left_commute numeral_eq_Suc)
  moreover obtain c'' where "read_string_loop m e 92 (p + 8) = read_string_loop m e c'' (p + 8 + length h')"
    using string_loop_plain [OF h(3), of m "p + 8" e 92] st_pair.prems h by (auto simp: numeral_eq_Suc)
  moreover have "read_string_loop m e c'' (p + 8 + length h') = Some (34, Suc (p + 8 + length h' + length t))"
    using st_pair.prems h by (intro st_pair.IH) (auto simp: numeral_eq_Suc)
  ultimately show ?case using st_pair.prems h by (subst read_string_loop.simps) (auto simp: add.commute add.left_commute numeral_eq_Suc)
qed

lemma read_quoted:
  assumes "blank a" "string_text k t" "text_at (re_mem E) (r_current s) (a @ quoted t)" "r_current s + length (a @ quoted t) \<le> re_end E"
  shows "read_token E s = ret (\<lparr> tk_type = tt_string, tk_start = r_current s + length a, tk_end = r_current s + length (a @ quoted t) \<rparr>,
    s\<lparr> r_current := r_current s + length (a @ quoted t) \<rparr>)"
proof -
  let ?p = "Suc (r_current s + length a)"
  have "read_string_loop (re_mem E) (re_end E) 0 ?p = Some (34, Suc (?p + length t))"
    using assms(3,4) by (intro read_string_loop_at [OF assms(2)]) (auto simp: quoted_def)
  then have "token_switch E 34 (s\<lparr> r_current := ?p \<rparr>) = ret (tt_string, True, s\<lparr> r_current := Suc (?p + length t) \<rparr>)"
    by (simp add: token_switch_def read_string_def bnd_simps)
  then show ?thesis using assms(1,3,4) by (simp add: read_token_at [of a _ _ 34] quoted_def white_def bnd_simps add.assoc)
qed


lemma hex_digits_loop_at:
  "those (map hex_digit_value h) = Some ds \<Longrightarrow> text_at m p h \<Longrightarrow>
    hex_digits_loop m (length h) p n = Some (Inr (p + length h, foldl (\<lambda>n d. n * 16 + d) n ds))"
proof (induction h arbitrary: p n ds)
  case (Cons c h)
  then obtain d ds' where d: "hex_digit_value c = Some d" "those (map hex_digit_value h) = Some ds'" "ds = d # ds'"
    by (auto split: option.splits)
  have "hex_digits_loop m (length (c # h)) p n = hex_digits_loop m (length h) (Suc p) (n * 16 + d)"
    using Cons.prems(2) d(1) by (auto simp: hex_digit_value_def Let_def add.assoc split: if_splits)
  then show ?case using Cons.IH [OF d(2), of "Suc p"] Cons.prems(2) d(3) by simp
qed simp

lemma decode_hex4:
  assumes "hex4 u h" "text_at m p h" "p + 4 \<le> e"
  shows "decode_unicode_escape_sequence m p e = Some (Inr (p + 4, u))"
proof -
  obtain ds where "those (map hex_digit_value h) = Some ds" "length h = 4" "u = foldl (\<lambda>n d. n * 16 + d) 0 ds"
    using assms(1) by (auto simp: hex4_def)
  then show ?thesis using hex_digits_loop_at [of h ds m p 0] assms(2,3) by (simp add: decode_unicode_escape_sequence_def)
qed

lemma decode_string_loop_at:
  "string_text s t \<Longrightarrow> text_at m p t \<Longrightarrow> e = p + length t \<Longrightarrow> length t < k \<Longrightarrow>
    decode_string_loop k m p e acc = Some (Inr (acc @ s))"
proof (induction s t arbitrary: k p acc rule: string_text.induct)
  case st_nil
  then show ?case by (cases k) auto
next
  case (st_char c s t)
  then show ?case by (cases k) auto
next
  case (st_escape ec d s t)
  then show ?case by (cases k) auto
next
  case (st_unicode u h s t)
  have h: "length h = 4" using hex4_plain [OF st_unicode.hyps(1)] by simp
  obtain k' where k: "k = Suc k'" using st_unicode.prems by (cases k) auto
  have "decode_unicode_codepoint m (Suc (Suc p)) e = Some (Inr (p + 6, u))"
    using decode_hex4 [OF st_unicode.hyps(1), of m "Suc (Suc p)" e] st_unicode.hyps(2) st_unicode.prems h
    by (auto simp: decode_unicode_codepoint_def high_surrogate_def)
  moreover have "decode_string_loop k' m (p + 6) e (acc @ codepoint_to_utf8 u) = Some (Inr ((acc @ codepoint_to_utf8 u) @ s))"
    using st_unicode.prems h k by (intro st_unicode.IH) (auto simp: add.commute add.left_commute numeral_eq_Suc)
  ultimately show ?case using st_unicode.prems k by (simp add: simple_escape_def)
next
  case (st_pair u h u' h' s t)
  have h: "length h = 4" "length h' = 4" using hex4_plain [OF st_pair.hyps(1)] hex4_plain [OF st_pair.hyps(3)] by auto
  obtain k' where k: "k = Suc k'" using st_pair.prems by (cases k) auto
  let ?u = "0x10000 + push_bit 10 (u AND 0x3FF) + (u' AND 0x3FF)"
  have "decode_unicode_escape_sequence m (Suc (Suc p)) e = Some (Inr (p + 6, u))"
    using decode_hex4 [OF st_pair.hyps(1), of m "Suc (Suc p)" e] st_pair.prems h by auto
  moreover have "decode_unicode_escape_sequence m (p + 8) e = Some (Inr (p + 12, u'))"
    using decode_hex4 [OF st_pair.hyps(3), of m "p + 8" e] st_pair.prems h by (auto simp: numeral_eq_Suc)
  ultimately have "decode_unicode_codepoint m (Suc (Suc p)) e = Some (Inr (p + 12, ?u))"
    using st_pair.prems st_pair.hyps(2) h
    by (auto simp: decode_unicode_codepoint_def decode_surrogate_def high_surrogate_def numeral_eq_Suc)
  moreover have "decode_string_loop k' m (p + 12) e (acc @ codepoint_to_utf8 ?u) = Some (Inr ((acc @ codepoint_to_utf8 ?u) @ s))"
    using st_pair.prems h k by (intro st_pair.IH) (auto simp: add.commute add.left_commute numeral_eq_Suc)
  ultimately show ?case using st_pair.prems k by (simp add: simple_escape_def)
qed

lemma decode_name_at:
  assumes "string_text k t" "text_at (re_mem E) p (quoted t)" "tk_start tok = p" "tk_end tok = p + length (quoted t)"
  shows "decode_name E tok s = ret (Some k, s)"
proof -
  have "decode_string_loop (Suc (tk_end tok - tk_start tok)) (re_mem E) (Suc (tk_start tok)) (tk_end tok - 1) [] = Some (Inr ([] @ k))"
    using assms(2-4) by (intro decode_string_loop_at [OF assms(1)]) (auto simp: quoted_def)
  then show ?thesis by (simp add: decode_name_def bnd_simps)
qed


text \<open>Numbers: \<open>number_next\<close> at a position is the state of the scanner there.\<close>

definition number_char :: "byte \<Rightarrow> bool" where
  "number_char c \<longleftrightarrow> is_digit_char c \<or> c \<in> {asc CHR ''.'', asc CHR ''e'', asc CHR ''E'', asc CHR ''+'', asc CHR ''-''}"

definition ends_at :: "(byte \<Rightarrow> bool) \<Rightarrow> buffer \<Rightarrow> nat \<Rightarrow> nat \<Rightarrow> bool" where
  "ends_at P m e q \<longleftrightarrow> q = e \<or> q < e \<and> \<not> P (m ! q)"

lemma bind_chain: "Option.bind a f = b \<Longrightarrow> Option.bind b g = c \<Longrightarrow> Option.bind a (\<lambda>x. Option.bind (f x) g) = c"
  by (cases a) auto

lemma number_digits_stop: "\<not> is_digit_char c \<Longrightarrow> number_digits m e c p cur = Some (c, p, cur)"
  by (simp add: number_digits.simps)

lemma number_digits_at:
  "digits ds \<Longrightarrow> text_at m p ds \<Longrightarrow> p + length ds \<le> e \<Longrightarrow> e < length m \<Longrightarrow> ends_at is_digit_char m e (p + length ds) \<Longrightarrow> is_digit_char c \<Longrightarrow>
    number_digits m e c p cur = number_next m e (p + length ds)"
proof (induction ds arbitrary: c p cur)
  case Nil
  then show ?case
    by (auto simp: number_digits.simps [of m e c] number_digits_stop number_next_def ends_at_def)
next
  case (Cons d ds)
  then have "number_digits m e d (Suc p) p = number_next m e (Suc p + length ds)"
    by (intro Cons.IH) (auto simp: digits_def)
  then show ?case using Cons.prems by (simp add: number_digits.simps [of m e c p cur])
qed

lemma number_digits_from:
  assumes "digits ds" "text_at m q ds" "q + length ds \<le> e" "e < length m" "ends_at is_digit_char m e (q + length ds)"
  shows "number_next m e q \<bind> (\<lambda>(c, p, cur). number_digits m e c p cur) = number_next m e (q + length ds)"
proof (cases ds)
  case Nil
  then show ?thesis using assms(3-5)
    by (auto simp: number_next_def ends_at_def number_digits_stop)
next
  case (Cons d ds')
  then have "number_digits m e d (Suc q) q = number_next m e (Suc q + length ds')"
    using assms by (intro number_digits_at) (auto simp: digits_def)
  then show ?thesis using assms Cons by (simp add: number_next_def)
qed

lemma number_fraction_at:
  assumes "fraction_text f" "text_at m q f" "q + length f \<le> e" "e < length m" "ends_at is_digit_char m e (q + length f)"
    "ends_at (\<lambda>c. c = asc CHR ''.'') m e (q + length f)"
  shows "number_next m e q \<bind> number_fraction m e = number_next m e (q + length f)"
proof (cases "f = []")
  case True
  then show ?thesis using assms by (auto simp: number_next_def number_fraction_def ends_at_def)
next
  case False
  then obtain ds where f: "f = asc CHR ''.'' # ds" "digits ds" using assms(1) by (auto simp: fraction_text_def)
  then have "number_next m e (Suc q) \<bind> (\<lambda>(c, p, cur). number_digits m e c p cur) = number_next m e (Suc q + length ds)"
    using assms by (intro number_digits_from) auto
  then show ?thesis using assms f by (simp add: number_next_def [of m e q] number_fraction_def)
qed

lemma number_exponent_at:
  assumes "exponent_text x" "text_at m q x" "q + length x \<le> e" "e < length m" "ends_at number_char m e (q + length x)"
  shows "number_next m e q \<bind> number_exponent m e = number_next m e (q + length x)"
proof (cases "x = []")
  case True
  then show ?thesis using assms by (auto simp: number_next_def number_exponent_def ends_at_def number_char_def)
next
  case False
  then obtain ec sg ds where x: "x = ec # sg @ ds" "ec \<in> {asc CHR ''e'', asc CHR ''E''}" "digits ds"
      and sg: "sg \<in> {[], [asc CHR ''+''], [asc CHR ''-'']}"
    using assms(1) by (auto simp: exponent_text_def)
  have ends: "ends_at is_digit_char m e (Suc q + length sg + length ds)"
    using assms(5) x(1) by (auto simp: ends_at_def number_char_def add.assoc)
  have d: "number_next m e (Suc q + length sg) \<bind> (\<lambda>(c, p, cur). number_digits m e c p cur) = number_next m e (Suc q + length sg + length ds)"
    using assms x ends by (intro number_digits_from) auto
  have "number_next m e (Suc q) \<bind> number_sign m e = number_next m e (Suc q + length sg)"
  proof (cases "sg = []")
    case True
    have "Suc q = e \<or> \<not> (m ! Suc q = asc CHR ''+'' \<or> m ! Suc q = asc CHR ''-'')"
    proof (cases ds)
      case Nil
      then show ?thesis using assms(5) x(1) True by (auto simp: ends_at_def number_char_def)
    next
      case (Cons d ds')
      then have "is_digit_char (m ! Suc q)" using assms(2) x True by (auto simp: digits_def)
      then show ?thesis by (auto simp: is_digit_char_def word_sle_eq)
    qed
    then show ?thesis using True assms x by (auto simp: number_next_def number_sign_def)
  next
    case False
    then show ?thesis using sg assms x by (auto simp: number_next_def [of m e "Suc q"] number_sign_def)
  qed
  from bind_chain [OF this d] show ?thesis using assms x
    by (auto simp: number_next_def [of m e q] number_exponent_def add.assoc)
qed


text \<open>The text of a number, and what follows it.\<close>

lemma fraction_head: "fraction_text f \<Longrightarrow> exponent_text x \<Longrightarrow> f @ x = c # r \<Longrightarrow> \<not> is_digit_char c"
  by (auto simp: fraction_text_def exponent_text_def is_digit_char_def word_sle_eq)

lemma exponent_head: "exponent_text x \<Longrightarrow> x = c # r \<Longrightarrow> \<not> is_digit_char c \<and> c \<noteq> asc CHR ''.''"
  by (auto simp: exponent_text_def is_digit_char_def word_sle_eq)

lemma ends_at_text:
  assumes "text_at m q y" "q + length y \<le> e" "ends_at number_char m e (q + length y)" "\<And>c. P c \<Longrightarrow> number_char c"
    "\<And>c r. y = c # r \<Longrightarrow> \<not> P c"
  shows "ends_at P m e q"
  using assms by (cases y) (auto simp: ends_at_def)

lemma read_number_at:
  assumes "env_ok E" "digits ds" "fraction_text f" "exponent_text x" "text_at (re_mem E) (r_current s) (ds @ f @ x)"
    "r_current s + length (ds @ f @ x) \<le> re_end E" "ends_at number_char (re_mem E) (re_end E) (r_current s + length (ds @ f @ x))"
  shows "read_number E s = Some (s\<lparr> r_current := r_current s + length (ds @ f @ x) \<rparr>)"
proof -
  let ?m = "re_mem E" and ?e = "re_end E" and ?p = "r_current s"
  have e: "?e < length ?m" using assms(1) by (simp add: env_ok_def)
  have ends: "ends_at is_digit_char ?m ?e (?p + length ds)" "ends_at is_digit_char ?m ?e (?p + length ds + length f)"
      "ends_at (\<lambda>c. c = asc CHR ''.'') ?m ?e (?p + length ds + length f)"
    using assms(5-7) fraction_head [OF assms(3,4)] exponent_head [OF assms(4)]
    by (auto intro: ends_at_text [where y = "f @ x"] ends_at_text [where y = x] simp: number_char_def add.assoc)
  have d: "number_digits ?m ?e (asc CHR ''0'') ?p ?p = number_next ?m ?e (?p + length ds)"
    using assms(2,5,6) e ends(1) by (intro number_digits_at) (auto simp: is_digit_char_def word_sle_eq)
  moreover have "number_next ?m ?e (?p + length ds) \<bind> number_fraction ?m ?e = number_next ?m ?e (?p + length ds + length f)"
    using assms(5,6) e ends(2,3) by (intro number_fraction_at [OF assms(3)]) auto
  moreover have "number_next ?m ?e (?p + length ds + length f) \<bind> number_exponent ?m ?e = number_next ?m ?e (?p + length ds + length f + length x)"
    using assms(5-7) e by (intro number_exponent_at [OF assms(4)]) (auto simp: add.assoc)
  moreover have "\<exists>c q. number_next ?m ?e (?p + length ds + length f + length x) = Some (c, q, ?p + length ds + length f + length x)"
    using assms(6) e by (auto simp: number_next_def)
  ultimately show ?thesis by (auto simp: read_number_def add.assoc simp flip: bind_assoc)
qed

lemma read_number_token:
  assumes "env_ok E" "blank a" "is_digit_char c \<or> c = asc CHR ''-''" "digits ds" "fraction_text f" "exponent_text x"
    "text_at (re_mem E) (r_current s) (a @ c # ds @ f @ x)" "r_current s + length (a @ c # ds @ f @ x) \<le> re_end E"
    "ends_at number_char (re_mem E) (re_end E) (r_current s + length (a @ c # ds @ f @ x))"
  shows "read_token E s = ret (\<lparr> tk_type = tt_number, tk_start = r_current s + length a,
      tk_end = r_current s + length (a @ c # ds @ f @ x) \<rparr>, s\<lparr> r_current := r_current s + length (a @ c # ds @ f @ x) \<rparr>)"
proof -
  let ?s = "s\<lparr> r_current := Suc (r_current s + length a) \<rparr>"
  have "read_number E ?s = Some (?s\<lparr> r_current := r_current ?s + length (ds @ f @ x) \<rparr>)"
    using assms(7-9) by (intro read_number_at [OF assms(1,4-6)]) (auto simp: add.assoc)
  moreover have "\<not> white c" "token_switch E c t = bnd (mem (read_number E t)) (\<lambda>s. ret (tt_number, True, s))" for t
    using assms(3) by (auto simp: white_def token_switch_def is_digit_char_def word_sle_eq)
  ultimately show ?thesis using assms(2,7,8) by (simp add: read_token_at [of a _ _ c] bnd_simps add.assoc)
qed


section \<open>Decoding numbers\<close>

lemma digit_char_value:
  assumes "is_digit_char c"
  shows "unat (c - asc CHR ''0'') < 10" "(scast (c - asc CHR ''0'') :: 64 word) = of_nat (unat (c - asc CHR ''0''))"
    "unat (scast (c - asc CHR ''0'') :: 64 word) = unat (c - asc CHR ''0'')"
proof -
  have "sint c \<in> {48..57}" using assms by (simp add: is_digit_char_def word_sle_eq)
  moreover have "{48..57 :: int} = set [48, 49, 50, 51, 52, 53, 54, 55, 56, 57]" unfolding set_eq_iff by (simp, presburger)
  ultimately have "sint c \<in> set [48, 49, 50, 51, 52, 53, 54, 55, 56, 57]" by (simp only:)
  from imageI [OF this, of "word_of_int :: int \<Rightarrow> byte"] have "c \<in> set [48, 49, 50, 51, 52, 53, 54, 55, 56, 57]" by simp
  then show "unat (c - asc CHR ''0'') < 10" "(scast (c - asc CHR ''0'') :: 64 word) = of_nat (unat (c - asc CHR ''0''))"
    "unat (scast (c - asc CHR ''0'') :: 64 word) = unat (c - asc CHR ''0'')"
    by (auto simp: signed_eq_0_iff)
qed

lemma digits_value_Cons: "digits_value n (c # ds) = digits_value (n * 10 + unat (c - asc CHR ''0'')) ds"
  by (simp add: digits_value_def)

lemma digits_value_ge: "n \<le> digits_value n ds"
proof (induction ds arbitrary: n)
  case (Cons c ds)
  have "n \<le> n * 10 + unat (c - asc CHR ''0'')" by simp
  also have "\<dots> \<le> digits_value n (c # ds)" unfolding digits_value_Cons by (rule Cons.IH)
  finally show ?case .
qed (simp add: digits_value_def)

lemma digit_bound:
  fixes L :: nat
  assumes "n * 10 + d \<le> L" "L div 10 \<le> n"
  shows "n = L div 10 \<and> d \<le> L mod 10"
proof -
  have "n * 10 div 10 \<le> L div 10" using assms(1) by (intro div_le_mono) simp
  then have "n = L div 10" using assms(2) by simp
  moreover have "L div 10 * 10 + L mod 10 = L" by (rule div_mult_mod_eq)
  ultimately show ?thesis using assms(1) by linarith
qed

lemma hundred_bound:
  fixes L :: nat
  assumes "n = L div 10" "10 \<le> L"
  shows "\<not> n * 100 \<le> L"
proof -
  have "L div 10 * 10 + L mod 10 = L" "L mod 10 < 10" by (rule div_mult_mod_eq) simp
  moreover have "1 \<le> L div 10" using div_le_mono [OF assms(2), of 10] by simp
  ultimately show ?thesis using assms(1) by linarith
qed

lemma number_loop_at:
  assumes "digits ds" "text_at m p ds" "e = p + length ds" "digits_value n ds \<le> unat limit" "10 \<le> unat limit"
  shows "number_loop m p e limit (of_nat n) = Some (Some (of_nat (digits_value n ds)))"
  using assms
proof (induction ds arbitrary: n p)
  case Nil
  then show ?case by (subst number_loop.simps) (simp add: digits_value_def)
next
  case (Cons c ds)
  let ?d = "unat (c - asc CHR ''0'')" and ?L = "unat limit"
  have c: "is_digit_char c" using Cons.prems(1) by (simp add: digits_def)
  have le: "n * 10 + ?d \<le> ?L" using digits_value_ge [of "n * 10 + ?d" ds] Cons.prems(4) unfolding digits_value_Cons by (rule order_trans)
  have "?L < 2 ^ 64" by (rule order.strict_trans2 [OF unsigned_less]) simp
  then have "n < 2 ^ 64" using le by simp
  then have n: "unat (of_nat n :: 64 word) = n" by (simp add: unat_of_nat)
  have stop: "\<not> (limit div 10 \<le> of_nat n \<and> (limit div 10 < of_nat n \<or> Suc p \<noteq> e \<or> limit mod 10 < (scast (c - asc CHR ''0'') :: 64 word)))"
  proof
    assume a: "limit div 10 \<le> of_nat n \<and> (limit div 10 < of_nat n \<or> Suc p \<noteq> e \<or> limit mod 10 < (scast (c - asc CHR ''0'') :: 64 word))"
    then have b: "?L div 10 \<le> n" "?L div 10 < n \<or> Suc p \<noteq> e \<or> ?L mod 10 < ?d"
      using n digit_char_value(3) [OF c] by (simp_all add: word_le_nat_alt word_less_nat_alt unat_div unat_mod)
    then have "n = ?L div 10" "?d \<le> ?L mod 10" using digit_bound [OF le] by auto
    then have "ds \<noteq> []" using b(2) Cons.prems(3) by auto
    then obtain c' ds' where "ds = c' # ds'" by (cases ds) auto
    then have "(n * 10 + ?d) * 10 \<le> digits_value n (c # ds)"
      using digits_value_ge [of "(n * 10 + ?d) * 10 + unat (c' - asc CHR ''0'')" ds'] by (simp add: digits_value_Cons)
    then have "n * 100 \<le> ?L" using Cons.prems(4) by simp
    then show False using hundred_bound [OF \<open>n = ?L div 10\<close> Cons.prems(5)] by simp
  qed
  have "number_loop m (Suc p) e limit (of_nat (n * 10 + ?d)) = Some (Some (of_nat (digits_value (n * 10 + ?d) ds)))"
    using Cons.prems by (intro Cons.IH) (auto simp: digits_def digits_value_Cons)
  then show ?case using Cons.prems(2,3) c stop digit_char_value(2) [OF c]
    by (subst number_loop.simps) (auto simp: digits_value_Cons Let_def)
qed

text \<open>Digits beyond the limit are left to \<open>decode_double\<close>.\<close>

lemma number_loop_big:
  assumes "digits ds" "text_at m p ds" "e = p + length ds" "unat limit < digits_value n ds" "n \<le> unat limit"
  shows "number_loop m p e limit (of_nat n) = Some None"
  using assms
proof (induction ds arbitrary: n p)
  case Nil
  then show ?case by (simp add: digits_value_def)
next
  case (Cons c ds)
  let ?d = "unat (c - asc CHR ''0'')" and ?L = "unat limit"
  let ?stop = "limit div 10 \<le> of_nat n \<and> (limit div 10 < of_nat n \<or> Suc p \<noteq> e \<or> limit mod 10 < (scast (c - asc CHR ''0'') :: 64 word))"
  have c: "is_digit_char c" using Cons.prems(1) by (simp add: digits_def)
  have "?L < 2 ^ 64" by (rule order.strict_trans2 [OF unsigned_less]) simp
  then have n: "unat (of_nat n :: 64 word) = n" using Cons.prems(5) by (simp add: unat_of_nat)
  show ?case
  proof (cases ?stop)
    case True
    then show ?thesis using Cons.prems(2,3) c by (subst number_loop.simps) (auto simp: Let_def)
  next
    case False
    then have "n < ?L div 10 \<or> n = ?L div 10 \<and> ds = [] \<and> ?d \<le> ?L mod 10"
      using n digit_char_value(3) [OF c] Cons.prems(3)
      by (auto simp: word_le_nat_alt word_less_nat_alt unat_div unat_mod not_le not_less)
    then have le: "n * 10 + ?d \<le> ?L"
      using digit_char_value(1) [OF c] div_mult_mod_eq [of ?L 10] by (elim disjE conjE) linarith+
    have "number_loop m (Suc p) e limit (of_nat (n * 10 + ?d)) = Some None"
      using Cons.prems le by (intro Cons.IH) (auto simp: digits_def digits_value_Cons)
    then show ?thesis using Cons.prems(2,3) c False digit_char_value(2) [OF c]
      by (subst number_loop.simps) (auto simp: Let_def)
  qed
qed

lemma number_loop_real:
  assumes "digits ds" "\<not> is_digit_char c" "text_at m p (ds @ [c])" "p + length ds < e"
  shows "number_loop m p e limit n = Some None"
  using assms
proof (induction ds arbitrary: n p)
  case Nil
  then show ?case by (subst number_loop.simps) auto
next
  case (Cons d ds)
  then have "number_loop m (Suc p) e limit k = Some None" for k by (intro Cons.IH) (auto simp: digits_def)
  then show ?case using Cons.prems by (subst number_loop.simps) (auto simp: digits_def Let_def)
qed


lemma max_integer_values: "unat (max_integer_value True) = 2 ^ 63" "unat (max_integer_value False) = 2 ^ 64 - 1"
  by (simp_all add: max_integer_value_def min_int64_def max_uint64_def)

lemma digit_not_minus: "is_digit_char c \<Longrightarrow> c \<noteq> asc CHR ''-''"
  by (auto simp: is_digit_char_def word_sle_eq)

lemma decode_negative:
  assumes "digits ds" "digits_value 0 ds \<le> 2 ^ 63" "text_at (re_mem E) p (asc CHR ''-'' # ds)" "tk_start tok = p"
    "tk_end tok = p + length (asc CHR ''-'' # ds)"
  shows "decode_number E tok s = ret (Some (vt_int (- of_nat (digits_value 0 ds))), s)"
proof -
  have "number_loop (re_mem E) (Suc p) (tk_end tok) (max_integer_value True) (of_nat 0) = Some (Some (of_nat (digits_value 0 ds)))"
    using assms max_integer_values(1) by (intro number_loop_at) auto
  then show ?thesis using assms(3,4) by (simp add: decode_number_def bnd_simps Let_def)
qed

lemma decode_unsigned:
  assumes "digits ds" "ds \<noteq> []" "digits_value 0 ds < 2 ^ 64" "text_at (re_mem E) p ds" "tk_start tok = p" "tk_end tok = p + length ds"
  shows "decode_number E tok s = ret (Some (if digits_value 0 ds < 2 ^ 31 then vt_int (of_nat (digits_value 0 ds))
    else vt_uint (of_nat (digits_value 0 ds))), s)"
proof -
  let ?n = "digits_value 0 ds"
  obtain c r where ds: "ds = c # r" using assms(2) by (cases ds) auto
  have c: "re_mem E ! p = c" "p < length (re_mem E)" "c \<noteq> asc CHR ''-''"
    using assms(1,4) ds digit_not_minus by (auto simp: digits_def)
  have "number_loop (re_mem E) p (tk_end tok) (max_integer_value False) (of_nat 0) = Some (Some (of_nat ?n))"
    using assms max_integer_values(2) by (intro number_loop_at) auto
  moreover have "(of_nat ?n :: 64 word) \<le> of_int max_int \<longleftrightarrow> ?n < 2 ^ 31"
    using assms(3) by (auto simp: word_le_nat_alt max_int_def unat_of_nat)
  ultimately show ?thesis using assms(5) c by (simp add: decode_number_def bnd_simps Let_def)
qed

lemma decode_double_at:
  assumes "env_ok E" "re_scan_double E t = Some d" "text_at (re_mem E) (tk_start tok) t" "tk_end tok = tk_start tok + length t"
    "re_begin E \<le> tk_start tok" "tk_end tok \<le> re_end E"
  shows "decode_double E tok s = ret (Some (vt_real d), s)"
proof -
  have "length t < 2 ^ 31" using assms(1,4-6) by (auto simp: env_ok_def)
  then have "0 \<le> sint (of_nat (length t) :: 32 word)" by (simp add: sint_uint uint_nat unat_of_nat signed_take_bit_int_eq_self)
  moreover have "slice (re_mem E) (tk_start tok) (tk_start tok + length t) = t" "tk_start tok + length t \<le> length (re_mem E)"
    using text_at_slice [OF assms(3)] assms(1,4,6) by (auto simp: env_ok_def)
  ultimately show ?thesis using assms(2,4) by (simp add: decode_double_def Let_def)
qed

lemma decode_big:
  assumes "env_ok E" "digits ds" "sg = [] \<and> 2 ^ 64 \<le> digits_value 0 ds \<or> sg = [asc CHR ''-''] \<and> 2 ^ 63 < digits_value 0 ds"
    "re_scan_double E (sg @ ds) = Some d" "text_at (re_mem E) (tk_start tok) (sg @ ds)" "tk_end tok = tk_start tok + length (sg @ ds)"
    "re_begin E \<le> tk_start tok" "tk_end tok \<le> re_end E"
  shows "decode_number E tok s = ret (Some (vt_real d), s)"
proof -
  have "decode_double E tok s = ret (Some (vt_real d), s)" by (rule decode_double_at [OF assms(1,4-8)])
  moreover have "number_loop (re_mem E) (tk_start tok + length sg) (tk_end tok) (max_integer_value (sg \<noteq> [])) (of_nat 0) = Some None"
    using assms(2,3,5,6) by (intro number_loop_big) (auto simp: max_integer_values)
  moreover have "\<exists>c r. ds = c # r \<and> c \<noteq> asc CHR ''-''"
    using assms(2,3) digit_not_minus by (cases ds) (auto simp: digits_value_def digits_def)
  ultimately show ?thesis using assms(3,5) by (auto simp: decode_number_def bnd_simps Let_def)
qed

lemma decode_real:
  assumes "env_ok E" "real_text t" "re_scan_double E t = Some d" "text_at (re_mem E) p t" "tk_start tok = p" "tk_end tok = p + length t"
    "re_begin E \<le> p" "p + length t \<le> re_end E"
  shows "decode_number E tok s = ret (Some (vt_real d), s)"
proof -
  obtain c ds f x where t: "t = c # ds @ f @ x" "is_digit_char c \<or> c = asc CHR ''-''" "digits ds" "fraction_text f" "exponent_text x"
      "f \<noteq> [] \<or> x \<noteq> []"
    using assms(2) by (auto simp: real_text_def)
  obtain h r where h: "f @ x = h # r" "\<not> is_digit_char h" using t(6) fraction_head [OF t(4,5)] by (cases "f @ x") auto
  have at: "text_at (re_mem E) p (c # ds @ h # r)" "length t = Suc (length ds + Suc (length r))"
    using assms(4) t(1) h(1) by auto
  let ?p = "if c = asc CHR ''-'' then Suc p else p"
  have "number_loop (re_mem E) ?p (tk_end tok) limit 0 = Some None" for limit
  proof (cases "c = asc CHR ''-''")
    case True
    then show ?thesis using number_loop_real [OF t(3) h(2), of "re_mem E" "Suc p" "tk_end tok" limit 0] at assms(6) by auto
  next
    case False
    then have "digits (c # ds)" using t(2,3) by (simp add: digits_def)
    then show ?thesis using number_loop_real [OF _ h(2), of "c # ds" "re_mem E" p "tk_end tok" limit 0] False at assms(6) by auto
  qed
  moreover have "decode_double E tok s = ret (Some (vt_real d), s)" using assms by (intro decode_double_at [OF assms(1,3)]) auto
  ultimately show ?thesis using assms(5,6) at(1)
    by (cases "c = asc CHR ''-''") (simp_all add: decode_number_def bnd_simps Let_def)
qed


section \<open>Values\<close>

definition kept :: "'d reader \<Rightarrow> 'd reader \<Rightarrow> bool" where
  "kept s s' \<longleftrightarrow> r_errors s' = r_errors s \<and> r_nodes s' = r_nodes s \<and> r_depth s' = r_depth s \<and> r_comments_before s' = r_comments_before s"

definition ready :: "'d reader_env \<Rightarrow> key list \<Rightarrow> 'd reader \<Rightarrow> bool" where
  "ready E p s \<longleftrightarrow> (\<exists>ps. r_nodes s = p # ps) \<and> value_at p (r_root s) \<noteq> None \<and> r_comments_before s = [] \<and> re_begin E \<le> r_current s"

definition before :: "'d reader_env \<Rightarrow> 'd reader \<Rightarrow> byte list \<Rightarrow> bool" where
  "before E s x \<longleftrightarrow> text_at (re_mem E) (r_current s) x \<and> r_current s + length x \<le> re_end E"

text \<open>The node has been changed to a value with the property \<open>P\<close>, and nothing else has changed.\<close>

definition node_read :: "key list \<Rightarrow> 'd reader \<Rightarrow> nat \<Rightarrow> ('d json_value \<Rightarrow> bool) \<Rightarrow> (bool \<times> 'd reader) throws option \<Rightarrow> bool" where
  "node_read p s q P r \<longleftrightarrow> (\<exists>s' f. r = ret (True, s') \<and> kept s s' \<and> r_current s' = q \<and> r_root s' = upd_at p f (r_root s) \<and>
     (\<forall>v. value_at p (r_root s) = Some v \<longrightarrow> P (f v)))"

lemma upd_child_comp: "upd_child k f (upd_child k g v) = upd_child k (\<lambda>w. f (g w)) v"
  by (cases k; cases "payload v") (auto simp: upd_child_def upd_entry_def)

lemma upd_at_comp: "upd_at p f (upd_at p g r) = upd_at p (\<lambda>w. f (g w)) r"
  by (induction p arbitrary: r) (simp_all add: upd_child_comp)

lemma upd_at_snoc: "upd_at (p @ [k]) f r = upd_at p (upd_child k f) r"
proof (induction p arbitrary: r)
  case Nil
  have "upd_at [] f = f" by auto
  then show ?case by simp
next
  case (Cons k' p)
  then have "upd_at (p @ [k]) f = upd_at p (upd_child k f)" by auto
  then show ?case by simp
qed

lemma upd_id_at: "upd_at p (\<lambda>x. x) r = r" for r :: "'d json_value"
proof (induction p arbitrary: r)
  case (Cons k p)
  have "upd_at p (\<lambda>x. x) = (\<lambda>x :: 'd json_value. x)" by (rule ext) (rule Cons.IH)
  then show ?case by (cases r; cases k; cases "payload r") (auto simp: upd_child_def upd_entry_def)
qed simp

lemma finish_scalar_at:
  assumes "ready E p s" "\<And>v. payload v = pl \<Longrightarrow> P v"
  shows "node_read p s q P (finish_scalar E (Some pl) tok (s\<lparr> r_depth := r_depth s + 1, r_current := q \<rparr>))"
proof -
  let ?f = "\<lambda>v. set_offset_limit (token_offset E (tk_end tok)) (set_offset_start (token_offset E (tk_start tok)) (set_payload (init_basic pl) v))"
  let ?t = "s\<lparr> r_depth := r_depth s + 1, r_current := q, r_root := upd_at p ?f (r_root s) \<rparr>"
  have "finish_scalar E (Some pl) tok (s\<lparr> r_depth := r_depth s + 1, r_current := q \<rparr>) = ret (finish_value E True ?t)"
    using assms(1) by (auto simp: finish_scalar_def set_token_value_def set_current_def upd_current_def ready_def bnd_simps)
  moreover have "P (?f v)" for v
    by (rule assms(2)) (simp add: set_offset_limit_def set_offset_start_def set_payload_def swap_payload_def init_basic_def)
  ultimately show ?thesis by (auto simp: node_read_def finish_value_def kept_def intro!: exI [of _ ?f])
qed

text \<open>\<open>read_value\<close> up to its \<open>switch\<close>, by the type of the token.\<close>

lemma read_value_switch:
  assumes "ready E p s" "r_depth s < stack_limit" "read_token E (s\<lparr> r_depth := r_depth s + 1 \<rparr>) = ret (tok, t)"
    "t = s\<lparr> r_depth := r_depth s + 1, r_current := q \<rparr>"
  shows
    "tk_type tok = tt_number \<Longrightarrow> read_value (Suc n) E s = bnd (decode_number E tok t) (\<lambda>(r, s). finish_scalar E r tok s)"
    "tk_type tok = tt_string \<Longrightarrow> read_value (Suc n) E s = bnd (decode_string E tok t) (\<lambda>(r, s). finish_scalar E r tok s)"
    "tk_type tok = tt_true \<Longrightarrow> read_value (Suc n) E s = finish_scalar E (Some (vt_bool True)) tok t"
    "tk_type tok = tt_false \<Longrightarrow> read_value (Suc n) E s = finish_scalar E (Some (vt_bool False)) tok t"
    "tk_type tok = tt_null \<Longrightarrow> read_value (Suc n) E s = finish_scalar E (Some vt_null) tok t"
    "tk_type tok = tt_object_begin \<Longrightarrow> read_value (Suc n) E s = bnd (mem (start_container E (vt_object []) tok t)) (\<lambda>s.
        bnd (read_object_loop n E [] s) (\<lambda>(ok, s). bnd (mem (limit_current E s)) (\<lambda>s. ret (finish_value E ok s))))"
    "tk_type tok = tt_array_begin \<Longrightarrow> read_value (Suc n) E s = bnd (mem (start_container E (vt_array []) tok t)) (\<lambda>s.
        bnd (mem (skip_spaces E s)) (\<lambda>s. bnd (mem (rd (re_mem E) (r_current s))) (\<lambda>c.
        bnd (if c = asc CHR '']'' then bnd (read_token E s) (\<lambda>(_, s). ret (True, s)) else read_array_loop n E 0 s) (\<lambda>(ok, s).
        bnd (mem (limit_current E s)) (\<lambda>s. ret (finish_value E ok s))))))"
proof -
  have "attach_comments E t = ret t" using assms(1,4) by (simp add: attach_comments_def ready_def)
  moreover have "skip_comment_tokens E (s\<lparr> r_depth := r_depth s + 1 \<rparr>) = ret (tok, t)" if "tk_type tok \<noteq> tt_comment"
    using past_comment_tokens [OF assms(3) that] .
  moreover have "\<not> stack_limit \<le> r_depth s" using assms(2) by simp
  ultimately show "tk_type tok = tt_number \<Longrightarrow> read_value (Suc n) E s = bnd (decode_number E tok t) (\<lambda>(r, s). finish_scalar E r tok s)"
    "tk_type tok = tt_string \<Longrightarrow> read_value (Suc n) E s = bnd (decode_string E tok t) (\<lambda>(r, s). finish_scalar E r tok s)"
    "tk_type tok = tt_true \<Longrightarrow> read_value (Suc n) E s = finish_scalar E (Some (vt_bool True)) tok t"
    "tk_type tok = tt_false \<Longrightarrow> read_value (Suc n) E s = finish_scalar E (Some (vt_bool False)) tok t"
    "tk_type tok = tt_null \<Longrightarrow> read_value (Suc n) E s = finish_scalar E (Some vt_null) tok t"
    "tk_type tok = tt_object_begin \<Longrightarrow> read_value (Suc n) E s = bnd (mem (start_container E (vt_object []) tok t)) (\<lambda>s.
        bnd (read_object_loop n E [] s) (\<lambda>(ok, s). bnd (mem (limit_current E s)) (\<lambda>s. ret (finish_value E ok s))))"
    "tk_type tok = tt_array_begin \<Longrightarrow> read_value (Suc n) E s = bnd (mem (start_container E (vt_array []) tok t)) (\<lambda>s.
        bnd (mem (skip_spaces E s)) (\<lambda>s. bnd (mem (rd (re_mem E) (r_current s))) (\<lambda>c.
        bnd (if c = asc CHR '']'' then bnd (read_token E s) (\<lambda>(_, s). ret (True, s)) else read_array_loop n E 0 s) (\<lambda>(ok, s).
        bnd (mem (limit_current E s)) (\<lambda>s. ret (finish_value E ok s))))))"
    by (simp_all add: bnd_simps)
qed


section \<open>Entries of arrays and objects\<close>

text \<open>The map of an array or object, for a linear order of the keys: reading into the entry that \<open>operator[]\<close> has created is
  an assignment.\<close>

locale entries = ordered_map lt "\<lambda>k. True" for lt :: "'k \<Rightarrow> 'k \<Rightarrow> bool" +
  assumes total: "\<not> lt a b \<Longrightarrow> \<not> lt b a \<Longrightarrow> a = b"
begin

lemma upd_entry_absent: "k \<notin> fst ` set xs \<Longrightarrow> upd_entry k f xs = xs"
  by (induction xs) (auto simp: upd_entry_def)

lemma later_keys: "om_ok lt (\<lambda>k. True) ((k', v) # xs) \<Longrightarrow> k = k' \<or> lt k k' \<Longrightarrow> k \<notin> fst ` set xs"
  using irrefl trans unfolding om_ok_Cons by blast

lemma upd_ensure:
  assumes "om_ok lt (\<lambda>k. True) xs"
  shows "\<exists>u. map_of (ensure lt k xs) k = Some u \<and> (\<forall>f. upd_entry k f (ensure lt k xs) = om_assign lt k (f u) xs)"
  using assms
proof (induction xs)
  case Nil
  then show ?case by (simp add: ensure_def upd_entry_def)
next
  case (Cons x xs)
  obtain k' v where x: "x = (k', v)" by (cases x)
  have xs: "om_ok lt (\<lambda>k. True) xs" using Cons.prems x by (simp add: om_ok_Cons)
  show ?case
  proof (cases k' k rule: three_way)
    case before
    then have "k' \<noteq> k" using irrefl by auto
    moreover have "ensure lt k (x # xs) = x # ensure lt k xs" using before x by (simp add: ensure_def split: option.split)
    ultimately show ?thesis using Cons.IH [OF xs] before x by (auto simp: upd_entry_def)
  next
    case after
    then have no: "\<not> lt k' k" "k' \<noteq> k" using asym irrefl by auto
    have "k \<notin> fst ` set xs" using later_keys [of k' v xs k] Cons.prems after x by blast
    then have "upd_entry k f xs = xs" for f by (rule upd_entry_absent)
    then show ?thesis using no after x by (auto simp: ensure_def upd_entry_def)
  next
    case equiv
    then have k: "k' = k" "\<not> lt k k" using total irrefl by (auto simp: om_equiv_def)
    have "k \<notin> fst ` set xs" using later_keys [of k' v xs k] Cons.prems k x by blast
    then have "upd_entry k f xs = xs" for f by (rule upd_entry_absent)
    then show ?thesis using k x by (auto simp: ensure_def upd_entry_def)
  qed
qed

end

text \<open>Names are ordered lexicographically, indexes as numbers.\<close>

lemma czstring_less_Nil [simp]: "czstring_less a [] = False" "czstring_less [] (y # b) = True"
  by (simp_all add: czstring_less_def Let_def)

lemma czstring_less_Cons [simp]: "czstring_less (x # a) (y # b) \<longleftrightarrow> x < y \<or> x = y \<and> czstring_less a b"
  by (auto simp: czstring_less_def Let_def)

lemma czstring_less_irrefl: "\<not> czstring_less a a"
  by (induction a) auto

lemma czstring_less_trans: "czstring_less a b \<Longrightarrow> czstring_less b c \<Longrightarrow> czstring_less a c"
proof (induction a arbitrary: b c)
  case Nil
  then show ?case by (cases b; cases c) auto
next
  case (Cons x a)
  then show ?case by (cases b; cases c) auto
qed

interpretation names: entries czstring_less
proof unfold_locales
  fix a b c :: "byte list"
  show "czstring_less a c \<Longrightarrow> czstring_less a b \<or> czstring_less b c"
    using czstring_less_total [of a b] czstring_less_trans [of b a c] by blast
qed (use czstring_less_irrefl czstring_less_trans czstring_less_total in blast)+

interpretation slots: entries "(<) :: 32 word \<Rightarrow> 32 word \<Rightarrow> bool"
  by unfold_locales auto

lemma assign_last: "\<forall>x \<in> set xs. fst x < i \<Longrightarrow> om_assign (<) i w xs = xs @ [(i, w)]" for i :: "32 word"
  by (induction xs) auto


section \<open>Acceptance\<close>

declare read_value.simps [simp del] read_array_loop.simps [simp del] read_object_loop.simps [simp del]

text \<open>What the reader makes of a text, with fuel for twice its length: of a value behind blanks; of the elements of an
  array and the closing bracket; of the members of an object and the closing brace.\<close>

definition accepts_value :: "'d reader_env \<Rightarrow> nat \<Rightarrow> 'd json_tree \<Rightarrow> byte list \<Rightarrow> bool" where
  "accepts_value E n t x \<longleftrightarrow> (\<forall>a s p k. blank a \<and> before E s (a @ x) \<and>
     ends_at number_char (re_mem E) (re_end E) (r_current s + length (a @ x)) \<and> ready E p s \<and>
     r_depth s + int n \<le> stack_limit \<and> 2 * length x \<le> k \<longrightarrow>
     node_read p s (r_current s + length (a @ x)) (represents t) (read_value k E s))"

definition accepts_elements :: "'d reader_env \<Rightarrow> nat \<Rightarrow> 'd json_tree list \<Rightarrow> byte list \<Rightarrow> bool" where
  "accepts_elements E n ts y \<longleftrightarrow> (\<forall>s p k v xs. before E s (y @ [asc CHR '']'']) \<and> ready E p s \<and>
     r_depth s + int n \<le> stack_limit \<and> 2 * length y + 1 \<le> k \<and> value_at p (r_root s) = Some v \<and> payload v = vt_array xs \<and>
     map fst xs = indexes 0 (length xs) \<and> length xs + length y < 2 ^ 30 \<longrightarrow>
     node_read p s (r_current s + length (y @ [asc CHR '']''])) (\<lambda>w. \<exists>ys. payload w = vt_array (xs @ ys) \<and>
       map fst ys = indexes (length xs) (length ts) \<and> list_all2 (\<lambda>t x. represents t (snd x)) ts ys)
     (read_array_loop k E (length xs) s))"

definition accepts_members :: "'d reader_env \<Rightarrow> nat \<Rightarrow> (byte list \<times> 'd json_tree) list \<Rightarrow> byte list \<Rightarrow> bool" where
  "accepts_members E n ms y \<longleftrightarrow> (\<forall>s p k v xs name. before E s (y @ [asc CHR ''}'']) \<and> ready E p s \<and>
     r_depth s + int n \<le> stack_limit \<and> 2 * length y + 1 \<le> k \<and> value_at p (r_root s) = Some v \<and> payload v = vt_object xs \<and>
     om_ok czstring_less (\<lambda>k. True) xs \<longrightarrow>
     node_read p s (r_current s + length (y @ [asc CHR ''}''])) (\<lambda>w. \<exists>ws. payload w = vt_object (assigned xs (zip (map fst ms) ws)) \<and>
       list_all2 (\<lambda>m. represents (snd m)) ms ws)
     (read_object_loop k E name s))"

definition opens :: "byte list \<Rightarrow> bool" where
  "opens x \<longleftrightarrow> (case x of [] \<Rightarrow> False | c # r \<Rightarrow> \<not> white c \<and> c \<noteq> asc CHR '']'')"

text \<open>Values of one token.\<close>

lemma token_value_at:
  assumes "ready E p s" "read_token E (s\<lparr> r_depth := r_depth s + 1 \<rparr>) = ret (tok, s\<lparr> r_depth := r_depth s + 1, r_current := q \<rparr>)"
    "r_depth s + int (Suc n) \<le> stack_limit" "1 \<le> k" "\<And>v. payload v = pl \<Longrightarrow> P v"
    "tk_type tok = tt_number \<and> (\<forall>u. decode_number E tok u = ret (Some pl, u)) \<or>
     tk_type tok = tt_string \<and> (\<forall>u. decode_string E tok u = ret (Some pl, u)) \<or>
     tk_type tok = tt_true \<and> pl = vt_bool True \<or> tk_type tok = tt_false \<and> pl = vt_bool False \<or> tk_type tok = tt_null \<and> pl = vt_null"
  shows "node_read p s q P (read_value k E s)"
proof -
  obtain k' where k: "k = Suc k'" using assms(4) by (cases k) auto
  have "r_depth s < stack_limit" using assms(3) by simp
  note sw = read_value_switch [OF assms(1) this assms(2) refl, of k']
  have "read_value k E s = finish_scalar E (Some pl) tok (s\<lparr> r_depth := r_depth s + 1, r_current := q \<rparr>)"
    using assms(6) sw(1-5) unfolding k by (elim disjE conjE) (simp_all add: bnd_simps)
  then show ?thesis using finish_scalar_at [OF assms(1,5)] by simp
qed

lemma depth_before: "before E (s\<lparr> r_depth := d \<rparr>) x = before E s x"
  by (simp add: before_def)

lemma word_accepted:
  assumes "word_type x = Some ty" "ty = tt_true \<and> t = T_bool True \<or> ty = tt_false \<and> t = T_bool False \<or> ty = tt_null \<and> t = T_null"
  shows "accepts_value E (Suc n) t x"
  unfolding accepts_value_def
proof (intro allI impI, elim conjE)
  fix a s p k
  assume a: "blank a" "before E s (a @ x)" "ready E p s" "r_depth s + int (Suc n) \<le> stack_limit" "2 * length x \<le> k"
  have "x \<noteq> []" using assms(1) by (auto simp: word_type_def split: if_splits)
  then have k: "1 \<le> k" using a(5) by (cases x) auto
  let ?s = "s\<lparr> r_depth := r_depth s + 1 \<rparr>" and ?q = "r_current s + length (a @ x)"
  have "read_token E ?s = ret (\<lparr> tk_type = ty, tk_start = r_current ?s + length a, tk_end = r_current ?s + length (a @ x) \<rparr>,
      ?s\<lparr> r_current := r_current ?s + length (a @ x) \<rparr>)"
    using a(2) by (intro read_word [OF a(1) _ _ assms(1)]) (simp_all add: before_def)
  then show "node_read p s ?q (represents t) (read_value k E s)"
    using assms(2) by (intro token_value_at [OF a(3) _ a(4) k, where pl = "case ty of tt_true \<Rightarrow> vt_bool True | tt_false \<Rightarrow> vt_bool False | _ \<Rightarrow> vt_null"])
      auto
qed

lemma number_accepted:
  assumes env: "env_ok E" and x: "x = c # ds @ f @ e" "is_digit_char c \<or> c = asc CHR ''-''" "digits ds" "fraction_text f" "exponent_text e"
    and dec: "\<And>tok u. text_at (re_mem E) (tk_start tok) x \<Longrightarrow> tk_end tok = tk_start tok + length x \<Longrightarrow> re_begin E \<le> tk_start tok \<Longrightarrow>
      tk_end tok \<le> re_end E \<Longrightarrow> decode_number E tok u = ret (Some pl, u)"
    and rep: "\<And>v. payload v = pl \<Longrightarrow> represents t v"
  shows "accepts_value E (Suc n) t x"
  unfolding accepts_value_def
proof (intro allI impI, elim conjE)
  fix a s p k
  assume a: "blank a" "before E s (a @ x)" "ends_at number_char (re_mem E) (re_end E) (r_current s + length (a @ x))" "ready E p s"
    "r_depth s + int (Suc n) \<le> stack_limit" "2 * length x \<le> k"
  have k: "1 \<le> k" using a(6) x(1) by simp
  let ?s = "s\<lparr> r_depth := r_depth s + 1 \<rparr>" and ?q = "r_current s + length (a @ x)"
  let ?tok = "\<lparr> tk_type = tt_number, tk_start = r_current s + length a, tk_end = ?q \<rparr>"
  have "read_token E ?s = ret (?tok, ?s\<lparr> r_current := ?q \<rparr>)"
    using read_number_token [OF env a(1) x(2-5), of ?s] a(2,3) x(1) by (simp add: before_def)
  moreover have "decode_number E ?tok u = ret (Some pl, u)" for u
    using a(2,4) by (intro dec) (auto simp: before_def ready_def)
  ultimately show "node_read p s ?q (represents t) (read_value k E s)"
    by (intro token_value_at [OF a(4) _ a(5) k rep]) auto
qed


lemma negative_accepted:
  assumes "env_ok E" "digits ds" "digits_value 0 ds \<le> 2 ^ 63"
  shows "accepts_value E (Suc n) (T_int (- of_nat (digits_value 0 ds))) (asc CHR ''-'' # ds)"
  by (rule number_accepted [OF assms(1), of _ "asc CHR ''-''" ds "[]" "[]"])
    (use assms(2) decode_negative [OF assms(2,3)] in \<open>auto simp: fraction_text_def exponent_text_def\<close>)

lemma unsigned_accepted:
  assumes "env_ok E" "digits ds" "ds \<noteq> []" "digits_value 0 ds < 2 ^ 64"
    "t = (if digits_value 0 ds < 2 ^ 31 then T_int (of_nat (digits_value 0 ds)) else T_uint (of_nat (digits_value 0 ds)))"
  shows "accepts_value E (Suc n) t ds"
proof -
  obtain c r where ds: "ds = c # r" using assms(3) by (cases ds) auto
  then have c: "is_digit_char c" "digits r" using assms(2) by (auto simp: digits_def)
  show ?thesis
    by (rule number_accepted [OF assms(1), of _ c r "[]" "[]", OF _ _ c(2) _ _ decode_unsigned [OF assms(2-4)]])
      (use ds c(1) assms(5) in \<open>auto simp: fraction_text_def exponent_text_def\<close>)
qed

lemma big_accepted:
  assumes env: "env_ok E" and ds: "digits ds" and sg: "sg = [] \<and> 2 ^ 64 \<le> digits_value 0 ds \<or> sg = [asc CHR ''-''] \<and> 2 ^ 63 < digits_value 0 ds"
    and d: "re_scan_double E (sg @ ds) = Some d"
  shows "accepts_value E (Suc n) (T_real d) (sg @ ds) \<and> opens (sg @ ds)"
proof -
  obtain c r where x: "sg @ ds = c # r" "is_digit_char c \<or> c = asc CHR ''-''" "digits r"
    using ds sg by (cases ds) (auto simp: digits_def digits_value_def)
  then have "sg @ ds = c # r @ [] @ []" by simp
  from number_accepted [OF env this x(2,3) _ _ decode_big [OF env ds sg d]]
  have "accepts_value E (Suc n) (T_real d) (sg @ ds)" by (simp add: fraction_text_def exponent_text_def)
  moreover have "opens (c # r)" using x(2) by (auto simp: opens_def white_def is_digit_char_def word_sle_eq)
  ultimately show ?thesis using x(1) by simp
qed

lemma real_accepted:
  assumes "env_ok E" "real_text x" "re_scan_double E x = Some d"
  shows "accepts_value E (Suc n) (T_real d) x"
proof -
  obtain c ds f e where x: "x = c # ds @ f @ e" "is_digit_char c \<or> c = asc CHR ''-''" "digits ds" "fraction_text f" "exponent_text e"
    using assms(2) by (auto simp: real_text_def)
  show ?thesis by (rule number_accepted [OF assms(1) x decode_real [OF assms]]) auto
qed

lemma string_accepted:
  assumes env: "env_ok E" and x: "string_text d z"
  shows "accepts_value E (Suc n) (T_string d) (quoted z)"
  unfolding accepts_value_def
proof (intro allI impI, elim conjE)
  fix a s p k
  assume a: "blank a" "before E s (a @ quoted z)" "ready E p s" "r_depth s + int (Suc n) \<le> stack_limit" "2 * length (quoted z) \<le> k"
  have k: "1 \<le> k" using a(5) by (simp add: quoted_def)
  let ?s = "s\<lparr> r_depth := r_depth s + 1 \<rparr>" and ?q = "r_current s + length (a @ quoted z)"
  let ?tok = "\<lparr> tk_type = tt_string, tk_start = r_current s + length a, tk_end = ?q \<rparr>"
  have "read_token E ?s = ret (?tok, ?s\<lparr> r_current := ?q \<rparr>)"
    using read_quoted [OF a(1) x, of E ?s] a(2) by (simp add: before_def)
  moreover have "decode_string E ?tok u = ret (Some (vt_string (Some d)), u)" for u
  proof -
    have name: "decode_name E ?tok u = ret (Some d, u)"
      using a(2) by (intro decode_name_at [OF x]) (auto simp: before_def)
    have tok: "tk_start ?tok + 2 \<le> tk_end ?tok" "tk_end ?tok \<le> re_end E" using a(2) by (auto simp: before_def quoted_def)
    have "length d \<le> tk_end ?tok - tk_start ?tok"
      using decode_name_ok [OF env tok, of u] name by (auto simp: yields_def ret_def)
    moreover have "re_begin E \<le> tk_start ?tok" using a(3) by (auto simp: ready_def)
    ultimately have "length d < 2 ^ 30" using env tok(2) unfolding env_ok_def by linarith
    then have "int (length d) \<le> max_int - 5" by (simp add: max_int_def)
    then show ?thesis using name by (simp add: decode_string_def bnd_simps duplicate_short)
  qed
  ultimately show "node_read p s ?q (represents (T_string d)) (read_value k E s)"
    by (intro token_value_at [OF a(3) _ a(4) k, where pl = "vt_string (Some d)"]) auto
qed

text \<open>An element or member: the node is created, read and left.\<close>

lemma element_at:
  assumes "accepts_value E n t x" "blank a" "before E s (a @ x)" "ends_at number_char (re_mem E) (re_end E) (r_current s + length (a @ x))"
    "ready E p s" "r_depth s + int n \<le> stack_limit" "2 * length x \<le> k" "value_at (p @ [key]) (r_root s) = Some u"
  obtains s' f where "read_value k E (push_node key s) = ret (True, s')" "kept s (pop_node s')"
    "r_current (pop_node s') = r_current s + length (a @ x)" "r_root (pop_node s') = upd_at p (upd_child key f) (r_root s)" "represents t (f u)"
proof -
  let ?s = "push_node key s"
  have "ready E (p @ [key]) ?s" using assms(5,8) by (auto simp: ready_def push_node_def)
  then have "node_read (p @ [key]) ?s (r_current ?s + length (a @ x)) (represents t) (read_value k E ?s)"
    using assms(1) [unfolded accepts_value_def, rule_format, of a ?s "p @ [key]" k] assms(2-4,6,7)
    by (auto simp: before_def push_node_def)
  then obtain s' f where "read_value k E ?s = ret (True, s')" "kept ?s s'" "r_current s' = r_current s + length (a @ x)"
      "r_root s' = upd_at (p @ [key]) f (r_root s)" "represents t (f u)"
    using assms(8) by (auto simp: node_read_def push_node_def)
  then show thesis by (intro that [of s' f]) (auto simp: kept_def pop_node_def push_node_def upd_at_snoc)
qed

lemma ends_at_mark:
  assumes "text_at m q (b @ [c])" "blank b" "q + length b < e" "mark_type c = Some ty"
  shows "ends_at number_char m e q"
proof -
  have "\<not> number_char c" using assms(4) by (auto simp: mark_type_def number_char_def is_digit_char_def word_sle_eq split: if_splits)
  moreover have "white d \<Longrightarrow> \<not> number_char d" for d by (auto simp: white_def number_char_def is_digit_char_def word_sle_eq)
  ultimately show ?thesis using assms(1-3) by (cases b) (auto simp: ends_at_def)
qed


lemma value_at_child: "value_at p r = Some v \<Longrightarrow> value_at (p @ [k]) (upd_at p f r) = child k (f v)"
  by (simp add: value_at_upd split: option.split)

lemma read_loop_upd:
  assumes "ready E p s" "value_at p (r_root s) = Some v" "g v = Inr w" "child key w = Some u" "accepts_value E n t x" "blank a" "blank b"
    "before E s (a @ x @ b @ [c])" "mark_type c = Some ty" "r_depth s + int n \<le> stack_limit" "2 * length x \<le> k"
  obtains s1 s2 f where "upd_current_throws g s = ret s1" "read_value k E (push_node key s1) = ret (True, s2)" "kept s (pop_node s2)"
    "r_current (pop_node s2) = r_current s + length (a @ x)" "r_root (pop_node s2) = upd_at p (\<lambda>_. upd_child key f w) (r_root s)"
    "represents t (f u)" "ready E p (pop_node s2)" "before E (pop_node s2) (b @ [c])"
proof -
  let ?s = "s\<lparr> r_root := upd_at p (\<lambda>_. w) (r_root s) \<rparr>"
  have g: "upd_current_throws g s = ret ?s" using assms(1-3) by (auto simp: upd_current_throws_def ready_def ret_def)
  have ready: "ready E p ?s" using assms(1,2) by (auto simp: ready_def value_at_upd_same)
  have u: "value_at (p @ [key]) (r_root ?s) = Some u" using assms(2,4) by (simp add: value_at_child)
  have "ends_at number_char (re_mem E) (re_end E) (r_current s + length (a @ x))"
    using assms(7-9) by (intro ends_at_mark [of _ _ b c]) (auto simp: before_def add.assoc)
  then obtain s2 f where s2: "read_value k E (push_node key ?s) = ret (True, s2)" "kept ?s (pop_node s2)"
      "r_current (pop_node s2) = r_current s + length (a @ x)" "r_root (pop_node s2) = upd_at p (upd_child key f) (r_root ?s)" "represents t (f u)"
    using element_at [OF assms(5,6) _ _ ready _ assms(11) u] assms(8,10) by (auto simp: before_def)
  have root: "r_root (pop_node s2) = upd_at p (\<lambda>_. upd_child key f w) (r_root s)" using s2(4) by (simp add: upd_at_comp)
  moreover have "kept s (pop_node s2)" using s2(2) by (simp add: kept_def)
  moreover have "ready E p (pop_node s2)"
    using assms(1,2) calculation s2(3) by (auto simp: ready_def kept_def value_at_upd_same)
  moreover have "before E (pop_node s2) (b @ [c])" using assms(8) s2(3) by (auto simp: before_def add.assoc)
  ultimately show thesis using that g s2(1,3,5) by blast
qed

lemma read_mark_after:
  assumes "blank b" "before E s (b @ [c])" "mark_type c = Some ty"
  obtains tok s' where "read_token E s = ret (tok, s')" "read_past_comments E s = ret (tok, s')" "tk_type tok = ty"
    "s' = s\<lparr> r_current := r_current s + length (b @ [c]) \<rparr>"
proof -
  have "read_token E s = ret (\<lparr> tk_type = ty, tk_start = r_current s + length b, tk_end = Suc (r_current s + length b) \<rparr>,
      s\<lparr> r_current := Suc (r_current s + length b) \<rparr>)"
    using assms by (intro read_mark) (auto simp: before_def)
  then show thesis using that past_comments assms(3) mark_no_comment by fastforce
qed

lemma indexes_snoc: "indexes 0 (Suc n) = indexes 0 n @ [of_nat n]"
  by (simp add: indexes_def)

lemma indexes_less:
  assumes "k \<in> set (indexes 0 n)" "n < 2 ^ 32"
  shows "k < of_nat n"
proof -
  obtain j where "k = of_nat j" "j < n" using assms(1) by (auto simp: indexes_def)
  then show ?thesis using assms(2) by (simp add: word_less_nat_alt unat_of_nat)
qed

lemma indexes_sorted: "n < 2 ^ 32 \<Longrightarrow> sorted_wrt (<) (indexes 0 n)"
proof (induction n)
  case (Suc n)
  then show ?case using indexes_less [of _ n] by (simp add: indexes_snoc sorted_wrt_append)
qed (simp add: indexes_def)

lemma array_slot:
  assumes "payload v = vt_array xs" "map fst xs = indexes 0 (length xs)" "length xs < 2 ^ 31"
  obtains w u where "array_ref_int (of_nat (length xs)) v = Inr w" "child (key_index (of_nat (length xs))) w = Some u"
    "\<And>f. payload (upd_child (key_index (of_nat (length xs))) f w) = vt_array (xs @ [(of_nat (length xs), f u)])"
proof -
  let ?i = "of_nat (length xs) :: 32 word"
  have i: "0 \<le> sint ?i" using assms(3) by (simp add: sint_uint uint_nat unat_of_nat signed_take_bit_int_eq_self)
  have less: "\<forall>x \<in> set xs. fst x < ?i"
  proof
    fix x
    assume "x \<in> set xs"
    then have "fst x \<in> set (map fst xs)" by simp
    then show "fst x < ?i" unfolding assms(2) using assms(3) by (intro indexes_less) simp_all
  qed
  have "om_ok (<) (\<lambda>k. True) xs" using indexes_sorted [of "length xs"] assms(2,3) by (simp add: om_ok_def list_all_iff flip: sorted_wrt_map)
  then obtain u where "map_of (ensure (<) ?i xs) ?i = Some u" "\<And>f. upd_entry ?i f (ensure (<) ?i xs) = om_assign (<) ?i (f u) xs"
    using slots.upd_ensure by blast
  then show thesis using that [of "Value (vt_array (ensure (<) ?i xs)) (comments v) (offset_start v) (offset_limit v)" u] assms(1) i assign_last [OF less]
    by (simp add: array_ref_int_def json_assert_def array_ref_def child_def upd_child_def)
qed


lemma array_element:
  assumes "accepts_value E n t x" "blank a" "blank b" "before E s (a @ x @ b @ [c])" "mark_type c = Some ty" "ready E p s"
    "r_depth s + int n \<le> stack_limit" "2 * length x \<le> k" "value_at p (r_root s) = Some v" "payload v = vt_array xs"
    "map fst xs = indexes 0 (length xs)" "length xs < 2 ^ 31" "ty = tt_array_separator \<or> ty = tt_array_end"
  obtains s' u w where "read_array_loop (Suc k) E (length xs) s = (if ty = tt_array_end then ret (True, s') else read_array_loop k E (Suc (length xs)) s')"
    "kept s s'" "ready E p s'" "r_current s' = r_current s + length (a @ x @ b @ [c])" "r_root s' = upd_at p (\<lambda>_. w) (r_root s)"
    "payload w = vt_array (xs @ [(of_nat (length xs), u)])" "represents t u"
proof -
  let ?key = "key_index (of_nat (length xs))"
  obtain w u where w: "array_ref_int (of_nat (length xs)) v = Inr w" "child ?key w = Some u"
      "\<And>f. payload (upd_child ?key f w) = vt_array (xs @ [(of_nat (length xs), f u)])"
    using array_slot [OF assms(10-12)] by blast
  obtain s1 s2 f where s: "upd_current_throws (array_ref_int (of_nat (length xs))) s = ret s1" "read_value k E (push_node ?key s1) = ret (True, s2)"
      "kept s (pop_node s2)" "r_current (pop_node s2) = r_current s + length (a @ x)"
      "r_root (pop_node s2) = upd_at p (\<lambda>_. upd_child ?key f w) (r_root s)" "represents t (f u)" "ready E p (pop_node s2)"
      "before E (pop_node s2) (b @ [c])"
    using read_loop_upd [where g = "array_ref_int (of_nat (length xs))", OF assms(6,9) w(1,2) assms(1-5,7,8)] by blast
  obtain tok s3 where t: "read_past_comments E (pop_node s2) = ret (tok, s3)" "tk_type tok = ty"
      "s3 = pop_node s2\<lparr> r_current := r_current (pop_node s2) + length (b @ [c]) \<rparr>"
    using read_mark_after [OF assms(3) s(8) assms(5)] by blast
  show thesis
  proof (rule that [of s3 "upd_child ?key f w" "f u"])
    show "read_array_loop (Suc k) E (length xs) s = (if ty = tt_array_end then ret (True, s3) else read_array_loop k E (Suc (length xs)) s3)"
      using s(1,2) t(1,2) assms(13) by (auto simp: bnd_simps read_array_loop.simps)
  qed (use s(3-7) t(3) w(3) in \<open>auto simp: kept_def ready_def add.assoc\<close>)
qed

lemma last_element_accepted:
  assumes "accepts_value E n t x" "blank a" "blank b"
  shows "accepts_elements E n [t] (a @ x @ b)"
  unfolding accepts_elements_def
proof (intro allI impI, elim conjE)
  fix s p k v xs
  assume a: "before E s ((a @ x @ b) @ [asc CHR '']''])" "ready E p s" "r_depth s + int n \<le> stack_limit" "2 * length (a @ x @ b) + 1 \<le> k"
    "value_at p (r_root s) = Some v" "payload v = vt_array xs" "map fst xs = indexes 0 (length xs)" "length xs + length (a @ x @ b) < 2 ^ 30"
  obtain k' where k: "k = Suc k'" "2 * length x \<le> k'" using a(4) by (cases k) auto
  obtain s' u w where "read_array_loop k E (length xs) s = ret (True, s')" "kept s s'"
      "r_current s' = r_current s + length (a @ x @ b @ [asc CHR '']''])" "r_root s' = upd_at p (\<lambda>_. w) (r_root s)"
      "payload w = vt_array (xs @ [(of_nat (length xs), u)])" "represents t u"
    using array_element [OF assms _ _ a(2,3) k(2) a(5-7), of "asc CHR '']''" tt_array_end] a(1,8) k(1) by (simp add: mark_type_def) blast
  then show "node_read p s (r_current s + length ((a @ x @ b) @ [asc CHR '']''])) (\<lambda>w. \<exists>ys. payload w = vt_array (xs @ ys) \<and>
      map fst ys = indexes (length xs) (length [t]) \<and> list_all2 (\<lambda>t x. represents t (snd x)) [t] ys) (read_array_loop k E (length xs) s)"
    by (auto simp: node_read_def indexes_def intro!: exI [of _ "\<lambda>_. w"])
qed

lemma next_element_accepted:
  assumes "accepts_value E n t x" "accepts_elements E n ts y" "blank a" "blank b"
  shows "accepts_elements E n (t # ts) (a @ x @ b @ asc CHR '','' # y)"
  unfolding accepts_elements_def
proof (intro allI impI, elim conjE)
  fix s p k v xs
  let ?y = "a @ x @ b @ asc CHR '','' # y" and ?c = "asc CHR '']''"
  assume a: "before E s (?y @ [?c])" "ready E p s" "r_depth s + int n \<le> stack_limit" "2 * length ?y + 1 \<le> k"
    "value_at p (r_root s) = Some v" "payload v = vt_array xs" "map fst xs = indexes 0 (length xs)" "length xs + length ?y < 2 ^ 30"
  obtain k' where k: "k = Suc k'" "2 * length x \<le> k'" "2 * length y + 1 \<le> k'" using a(4) by (cases k) auto
  have "before E s (a @ x @ b @ [asc CHR '',''])" using a(1) by (auto simp: before_def)
  then obtain s' u w where s': "read_array_loop k E (length xs) s = read_array_loop k' E (Suc (length xs)) s'" "kept s s'" "ready E p s'"
      "r_current s' = r_current s + length (a @ x @ b @ [asc CHR '',''])" "r_root s' = upd_at p (\<lambda>_. w) (r_root s)"
      "payload w = vt_array (xs @ [(of_nat (length xs), u)])" "represents t u"
    using array_element [OF assms(1,3,4) _ _ a(2,3) k(2) a(5-7), of "asc CHR '',''" tt_array_separator] a(8) k(1) by (simp add: mark_type_def) blast
  let ?xs = "xs @ [(of_nat (length xs), u)]"
  have "before E s' (y @ [?c])" using a(1) s'(4) by (auto simp: before_def add.assoc)
  moreover have "value_at p (r_root s') = Some w" using s'(5) a(5) by (simp add: value_at_upd_same)
  moreover have "map fst ?xs = indexes 0 (length ?xs)" using a(7) by (simp add: indexes_snoc)
  moreover have "r_depth s' + int n \<le> stack_limit" using s'(2) a(3) by (simp add: kept_def)
  moreover have "length ?xs + length y < 2 ^ 30" using a(8) by simp
  ultimately have "node_read p s' (r_current s' + length (y @ [?c])) (\<lambda>w. \<exists>ys. payload w = vt_array (?xs @ ys) \<and>
      map fst ys = indexes (length ?xs) (length ts) \<and> list_all2 (\<lambda>t x. represents t (snd x)) ts ys) (read_array_loop k' E (length ?xs) s')"
    using assms(2) s'(3,6) k(3) unfolding accepts_elements_def by blast
  then obtain s2 f ys where s2: "read_array_loop k E (length xs) s = ret (True, s2)" "kept s' s2" "r_current s2 = r_current s' + length (y @ [?c])"
      "r_root s2 = upd_at p f (r_root s')" "payload (f w) = vt_array (?xs @ ys)" "map fst ys = indexes (length ?xs) (length ts)"
      "list_all2 (\<lambda>t x. represents t (snd x)) ts ys"
    using s'(1,5) a(5) by (auto simp: node_read_def value_at_upd_same)
  have "map fst ((of_nat (length xs), u) # ys) = indexes (length xs) (length (t # ts))"
    using s2(6) by (simp add: indexes_def upt_conv_Cons del: upt_Suc)
  then show "node_read p s (r_current s + length (?y @ [?c])) (\<lambda>w. \<exists>ys. payload w = vt_array (xs @ ys) \<and>
      map fst ys = indexes (length xs) (length (t # ts)) \<and> list_all2 (\<lambda>t x. represents t (snd x)) (t # ts) ys) (read_array_loop k E (length xs) s)"
    unfolding node_read_def using s2 s'(2,4,5,7)
    by (intro exI [of _ s2] exI [of _ "\<lambda>_. f w"] conjI) (auto simp: kept_def upd_at_comp intro!: exI [of _ "(of_nat (length xs), u) # ys"])
qed


lemma object_slot:
  assumes "payload v = vt_object xs" "om_ok czstring_less (\<lambda>k. True) xs"
  obtains w u where "resolve_reference nm v = Inr w" "child (key_name (czstring nm)) w = Some u"
    "\<And>f. payload (upd_child (key_name (czstring nm)) f w) = vt_object (om_assign czstring_less (czstring nm) (f u) xs)"
proof -
  let ?k = "czstring nm"
  obtain u where "map_of (ensure czstring_less ?k xs) ?k = Some u"
      "\<And>f. upd_entry ?k f (ensure czstring_less ?k xs) = om_assign czstring_less ?k (f u) xs"
    using names.upd_ensure [OF assms(2)] by blast
  then show thesis
    using that [of "Value (vt_object (ensure czstring_less ?k xs)) (comments v) (offset_start v) (offset_limit v)" u] assms(1)
    by (simp add: resolve_reference_def child_def upd_child_def)
qed

text \<open>The name of a member and the colon.\<close>

lemma read_name_at:
  assumes "string_text nm z" "blank a" "blank b" "before E s (a @ quoted z @ b @ asc CHR '':'' # y)"
  obtains tok s1 colon s2 where "read_past_comments E s = ret (tok, s1)" "tk_type tok = tt_string" "member_name E tok s1 = ret (Some (Some nm), s1)"
    "read_token E s1 = ret (colon, s2)" "tk_type colon = tt_member_separator"
    "s2 = s\<lparr> r_current := r_current s + length (a @ quoted z @ b @ [asc CHR '':'']) \<rparr>" "before E s2 y"
proof -
  let ?q = "r_current s + length (a @ quoted z)"
  let ?tok = "\<lparr> tk_type = tt_string, tk_start = r_current s + length a, tk_end = ?q \<rparr>" and ?s1 = "s\<lparr> r_current := ?q \<rparr>"
  have "read_token E s = ret (?tok, ?s1)" using assms(4) by (intro read_quoted [OF assms(2,1)]) (auto simp: before_def)
  then have 1: "read_past_comments E s = ret (?tok, ?s1)" by (rule past_comments) simp
  have "decode_name E ?tok ?s1 = ret (Some nm, ?s1)"
    using assms(4) by (intro decode_name_at [OF assms(1)]) (auto simp: before_def)
  then have 2: "member_name E ?tok ?s1 = ret (Some (Some nm), ?s1)" by (simp add: member_name_def bnd_simps)
  have "before E ?s1 (b @ [asc CHR '':''])" using assms(4) by (auto simp: before_def add.assoc)
  moreover have "mark_type (asc CHR '':'') = Some tt_member_separator" by (simp add: mark_type_def)
  ultimately obtain colon s2 where "read_token E ?s1 = ret (colon, s2)" "tk_type colon = tt_member_separator"
      "s2 = ?s1\<lparr> r_current := r_current ?s1 + length (b @ [asc CHR '':'']) \<rparr>"
    using read_mark_after [OF assms(3)] by blast
  then show thesis using that [OF 1 _ 2] assms(4) by (auto simp: before_def add.assoc)
qed

lemma object_member_at:
  assumes "accepts_value E n t x" "string_text nm z" "blank a" "blank b" "blank c" "blank d"
    "before E s (a @ quoted z @ b @ asc CHR '':'' # c @ x @ d @ [e])" "mark_type e = Some ty" "ready E p s"
    "r_depth s + int n \<le> stack_limit" "2 * length x \<le> k" "value_at p (r_root s) = Some v" "payload v = vt_object xs"
    "om_ok czstring_less (\<lambda>k. True) xs" "ty = tt_array_separator \<or> ty = tt_object_end"
  obtains s' u w where "read_object_loop (Suc k) E name s = (if ty = tt_object_end then ret (True, s') else read_object_loop k E nm s')"
    "kept s s'" "ready E p s'" "r_current s' = r_current s + length (a @ quoted z @ b @ asc CHR '':'' # c @ x @ d @ [e])"
    "r_root s' = upd_at p (\<lambda>_. w) (r_root s)" "payload w = vt_object (om_assign czstring_less (czstring nm) u xs)" "represents t u"
proof -
  let ?key = "key_name (czstring nm)"
  obtain tok s1 colon s2 where nm: "read_past_comments E s = ret (tok, s1)" "tk_type tok = tt_string" "member_name E tok s1 = ret (Some (Some nm), s1)"
      "read_token E s1 = ret (colon, s2)" "tk_type colon = tt_member_separator"
      "s2 = s\<lparr> r_current := r_current s + length (a @ quoted z @ b @ [asc CHR '':'']) \<rparr>" "before E s2 (c @ x @ d @ [e])"
    by (rule read_name_at [OF assms(2-4,7)])
  have s2: "ready E p s2" "value_at p (r_root s2) = Some v" "r_depth s2 + int n \<le> stack_limit" using nm(6) assms(9,10,12) by (auto simp: ready_def)
  obtain w u where w: "resolve_reference nm v = Inr w" "child ?key w = Some u"
      "\<And>f. payload (upd_child ?key f w) = vt_object (om_assign czstring_less (czstring nm) (f u) xs)"
    using object_slot [OF assms(13,14), of nm] by blast
  obtain s3 s4 f where s: "upd_current_throws (resolve_reference nm) s2 = ret s3" "read_value k E (push_node ?key s3) = ret (True, s4)"
      "kept s2 (pop_node s4)" "r_current (pop_node s4) = r_current s2 + length (c @ x)"
      "r_root (pop_node s4) = upd_at p (\<lambda>_. upd_child ?key f w) (r_root s2)" "represents t (f u)" "ready E p (pop_node s4)"
      "before E (pop_node s4) (d @ [e])"
    by (rule read_loop_upd [where g = "resolve_reference nm", OF s2(1,2) w(1,2) assms(1,5,6) nm(7) assms(8) s2(3) assms(11)])
  obtain comma s5 where t: "read_token E (pop_node s4) = ret (comma, s5)" "tk_type comma = ty"
      "s5 = pop_node s4\<lparr> r_current := r_current (pop_node s4) + length (d @ [e]) \<rparr>"
    using read_mark_after [OF assms(6) s(8) assms(8)] by blast
  show thesis
  proof (rule that [of s5 "upd_child ?key f w" "f u"])
    show "read_object_loop (Suc k) E name s = (if ty = tt_object_end then ret (True, s5) else read_object_loop k E nm s5)"
      using nm(1-5) s(1,2) t(1,2) assms(15) by (auto simp: bnd_simps read_object_loop.simps)
  qed (use s(3-7) t(3) w(3) nm(6) in \<open>auto simp: kept_def ready_def\<close>)
qed


lemma assign_sorted: "om_ok czstring_less (\<lambda>k. True) xs \<Longrightarrow> om_ok czstring_less (\<lambda>k. True) (om_assign czstring_less k v xs)"
  by (rule names.assign_ok) simp_all

lemma assigned_Cons: "assigned xs ((k, v) # ms) = assigned (om_assign czstring_less (czstring k) v xs) ms"
  by (simp add: assigned_def)

lemma last_member_accepted:
  assumes "accepts_value E n t x" "string_text nm z" "blank a" "blank b" "blank c" "blank d"
  shows "accepts_members E n [(nm, t)] (a @ quoted z @ b @ asc CHR '':'' # c @ x @ d)"
  unfolding accepts_members_def
proof (intro allI impI, elim conjE)
  fix s p k v xs name
  let ?y = "a @ quoted z @ b @ asc CHR '':'' # c @ x @ d" and ?e = "asc CHR ''}''"
  assume a: "before E s (?y @ [?e])" "ready E p s" "r_depth s + int n \<le> stack_limit" "2 * length ?y + 1 \<le> k"
    "value_at p (r_root s) = Some v" "payload v = vt_object xs" "om_ok czstring_less (\<lambda>k. True) xs"
  obtain k' where k: "k = Suc k'" "2 * length x \<le> k'" using a(4) by (cases k) auto
  have e: "mark_type ?e = Some tt_object_end" by (simp add: mark_type_def)
  have "before E s (a @ quoted z @ b @ asc CHR '':'' # c @ x @ d @ [?e])" using a(1) by simp
  from object_member_at [OF assms this e a(2,3) k(2) a(5-7), of name]
  obtain s' u w where "read_object_loop k E name s = ret (True, s')" "kept s s'" "r_current s' = r_current s + length (?y @ [?e])"
      "r_root s' = upd_at p (\<lambda>_. w) (r_root s)" "payload w = vt_object (om_assign czstring_less (czstring nm) u xs)" "represents t u"
    using k(1) by (simp add: add.assoc) blast
  then show "node_read p s (r_current s + length (?y @ [?e])) (\<lambda>w. \<exists>ws. payload w = vt_object (assigned xs (zip (map fst [(nm, t)]) ws)) \<and>
      list_all2 (\<lambda>m. represents (snd m)) [(nm, t)] ws) (read_object_loop k E name s)"
    by (auto simp: node_read_def assigned_def intro!: exI [of _ "\<lambda>_. w"] exI [of _ "[u]"])
qed

lemma next_member_accepted:
  assumes "accepts_value E n t x" "accepts_members E n ms y" "string_text nm z" "blank a" "blank b" "blank c" "blank d"
  shows "accepts_members E n ((nm, t) # ms) (a @ quoted z @ b @ asc CHR '':'' # c @ x @ d @ asc CHR '','' # y)"
  unfolding accepts_members_def
proof (intro allI impI, elim conjE)
  fix s p k v xs name
  let ?h = "a @ quoted z @ b @ asc CHR '':'' # c @ x @ d @ [asc CHR '','']" and ?e = "asc CHR ''}''"
  let ?y = "a @ quoted z @ b @ asc CHR '':'' # c @ x @ d @ asc CHR '','' # y"
  assume a: "before E s (?y @ [?e])" "ready E p s" "r_depth s + int n \<le> stack_limit" "2 * length ?y + 1 \<le> k"
    "value_at p (r_root s) = Some v" "payload v = vt_object xs" "om_ok czstring_less (\<lambda>k. True) xs"
  obtain k' where k: "k = Suc k'" "2 * length x \<le> k'" "2 * length y + 1 \<le> k'" using a(4) by (cases k) auto
  have e: "mark_type (asc CHR '','') = Some tt_array_separator" by (simp add: mark_type_def)
  have "before E s ?h" using a(1) by (auto simp: before_def add.assoc)
  from object_member_at [OF assms(1,3-7) this e a(2,3) k(2) a(5-7), of name]
  obtain s' u w where s': "read_object_loop k E name s = read_object_loop k' E nm s'" "kept s s'" "ready E p s'"
      "r_current s' = r_current s + length ?h" "r_root s' = upd_at p (\<lambda>_. w) (r_root s)"
      "payload w = vt_object (om_assign czstring_less (czstring nm) u xs)" "represents t u"
    using k(1) by (simp add: add.assoc) blast
  let ?xs = "om_assign czstring_less (czstring nm) u xs"
  have "before E s' (y @ [?e])" using a(1) s'(4) by (auto simp: before_def add.assoc)
  moreover have "value_at p (r_root s') = Some w" using s'(5) a(5) by (simp add: value_at_upd_same)
  moreover have "r_depth s' + int n \<le> stack_limit" using s'(2) a(3) by (simp add: kept_def)
  moreover have "om_ok czstring_less (\<lambda>k. True) ?xs" by (rule assign_sorted [OF a(7)])
  ultimately have "node_read p s' (r_current s' + length (y @ [?e])) (\<lambda>w. \<exists>ws. payload w = vt_object (assigned ?xs (zip (map fst ms) ws)) \<and>
      list_all2 (\<lambda>m. represents (snd m)) ms ws) (read_object_loop k' E nm s')"
    using assms(2) s'(3,6) k(3) unfolding accepts_members_def by blast
  then obtain s2 f ws where s2: "read_object_loop k E name s = ret (True, s2)" "kept s' s2" "r_current s2 = r_current s' + length (y @ [?e])"
      "r_root s2 = upd_at p f (r_root s')" "payload (f w) = vt_object (assigned ?xs (zip (map fst ms) ws))"
      "list_all2 (\<lambda>m. represents (snd m)) ms ws"
    using s'(1,5) a(5) by (auto simp: node_read_def value_at_upd_same)
  then show "node_read p s (r_current s + length (?y @ [?e])) (\<lambda>w. \<exists>ws. payload w = vt_object (assigned xs (zip (map fst ((nm, t) # ms)) ws)) \<and>
      list_all2 (\<lambda>m. represents (snd m)) ((nm, t) # ms) ws) (read_object_loop k E name s)"
    unfolding node_read_def using s'(2,4,5,7)
    by (intro exI [of _ s2] exI [of _ "\<lambda>_. f w"] conjI) (auto simp: kept_def upd_at_comp assigned_Cons intro!: exI [of _ "u # ws"])
qed


text \<open>Arrays and objects as values.\<close>

lemma open_container_at:
  assumes "ready E p s" "mark_type c = Some ty" "blank a" "before E s (a @ c # y)" "r_depth s + int (Suc n) \<le> stack_limit"
  obtains tok t where "read_token E (s\<lparr> r_depth := r_depth s + 1 \<rparr>) = ret (tok, t)" "tk_type tok = ty" "r_depth s < stack_limit"
    "t = s\<lparr> r_depth := r_depth s + 1, r_current := r_current s + length (a @ [c]) \<rparr>" "before E t y"
proof -
  let ?s = "s\<lparr> r_depth := r_depth s + 1 \<rparr>"
  have "before E ?s (a @ [c])" using assms(4) by (auto simp: before_def)
  then obtain tok t where "read_token E ?s = ret (tok, t)" "tk_type tok = ty" "t = ?s\<lparr> r_current := r_current ?s + length (a @ [c]) \<rparr>"
    using read_mark_after [OF assms(3) _ assms(2)] by blast
  then show thesis using that assms(4,5) by (auto simp: before_def add.assoc)
qed

lemma start_container_at:
  assumes "ready E p t"
  obtains t' v w where "start_container E pl tok t = Some t'" "t' = t\<lparr> r_root := upd_at p w (r_root t) \<rparr>" "ready E p t'"
    "value_at p (r_root t') = Some v" "payload v = pl"
proof -
  let ?w = "\<lambda>v. set_offset_start (token_offset E (tk_start tok)) (set_payload (init_basic pl) v)"
  obtain u where "value_at p (r_root t) = Some u" using assms by (auto simp: ready_def)
  then show thesis using assms that [of "t\<lparr> r_root := upd_at p ?w (r_root t) \<rparr>" ?w "?w u"]
    by (auto simp: start_container_def upd_current_def ready_def value_at_upd_same set_offset_start_def set_payload_def swap_payload_def init_basic_def)
qed

text \<open>What is left after the loop: the limit, the last value, the depth.\<close>

lemma represents_payload: "payload w = payload v \<Longrightarrow> represents t v \<Longrightarrow> represents t w"
  by (cases t) auto

lemma finish_container_at:
  assumes "ready E p s" "t = s\<lparr> r_depth := r_depth s + 1, r_current := q0 \<rparr>" "t' = t\<lparr> r_root := upd_at p w (r_root t) \<rparr>"
    "value_at p (r_root t') = Some v" "node_read p t' q (represents tr) r"
  shows "node_read p s q (represents tr) (bnd r (\<lambda>(ok, s). bnd (mem (limit_current E s)) (\<lambda>s. ret (finish_value E ok s))))"
proof -
  obtain s' f where s': "r = ret (True, s')" "kept t' s'" "r_current s' = q" "r_root s' = upd_at p f (r_root t')"
      "\<forall>v. value_at p (r_root t') = Some v \<longrightarrow> represents tr (f v)"
    using assms(5) by (auto simp: node_read_def)
  obtain ps u where p: "r_nodes s = p # ps" "value_at p (r_root s) = Some u" using assms(1) by (auto simp: ready_def)
  let ?l = "set_offset_limit (token_offset E q)"
  have nodes: "r_nodes s' = p # ps" using s'(2) assms(2,3) p(1) by (simp add: kept_def)
  have at: "value_at p (r_root s') = Some (f v)" using s'(4) assms(4) by (simp add: value_at_upd_same)
  have "upd_at p ?l (r_root s') = upd_at p (\<lambda>x. ?l (f (w x))) (r_root s)" using s'(4) assms(2,3) by (simp add: upd_at_comp)
  then have l: "limit_current E s' = Some (s'\<lparr> r_root := upd_at p (\<lambda>x. ?l (f (w x))) (r_root s) \<rparr>)"
    using nodes at s'(3) by (simp add: limit_current_def upd_current_def)
  have v: "w u = v" using assms(2-4) p(2) by (simp add: value_at_upd_same)
  have "payload (?l (f v)) = payload (f v)" by (simp add: set_offset_limit_def)
  moreover have "represents tr (f v)" using s'(5) assms(4) by blast
  ultimately have rep: "represents tr (?l (f (w u)))" unfolding v by (rule represents_payload)
  let ?s = "snd (finish_value E True (s'\<lparr> r_root := upd_at p (\<lambda>x. ?l (f (w x))) (r_root s) \<rparr>))"
  have "bnd r (\<lambda>(ok, s). bnd (mem (limit_current E s)) (\<lambda>s. ret (finish_value E ok s))) = ret (True, ?s)"
    using s'(1) l by (simp add: bnd_simps finish_value_def)
  moreover have "kept s ?s" "r_current ?s = q" "r_root ?s = upd_at p (\<lambda>x. ?l (f (w x))) (r_root s)"
    using s'(2,3) assms(2,3) by (auto simp: kept_def finish_value_def)
  ultimately show ?thesis using rep p(2) unfolding node_read_def by auto
qed

lemma node_read_mono: "node_read p s q P r \<Longrightarrow> (\<And>w. P w \<Longrightarrow> Q w) \<Longrightarrow> node_read p s q Q r"
  unfolding node_read_def by blast


lemma opens_append [simp]: "opens x \<Longrightarrow> opens (x @ y)"
  by (cases x) (auto simp: opens_def)

lemma skip_spaces_at:
  assumes "blank a" "before E s (a @ c # y)" "\<not> white c"
  shows "skip_spaces E s = Some (s\<lparr> r_current := r_current s + length a \<rparr>)"
  using skip_spaces_over [OF assms(1), of "re_mem E" "r_current s" "re_end E"] assms(2,3) by (auto simp: skip_spaces_def before_def)

lemma container_begin:
  assumes "ready E p s" "mark_type c = Some ty" "blank a" "before E s (a @ c # y)" "r_depth s + int (Suc n) \<le> stack_limit"
  obtains tok t t' v w where "read_token E (s\<lparr> r_depth := r_depth s + 1 \<rparr>) = ret (tok, t)" "tk_type tok = ty" "r_depth s < stack_limit"
    "t = s\<lparr> r_depth := r_depth s + 1, r_current := r_current s + length (a @ [c]) \<rparr>" "start_container E pl tok t = Some t'"
    "t' = t\<lparr> r_root := upd_at p w (r_root t) \<rparr>" "value_at p (r_root t') = Some v" "payload v = pl" "ready E p t'" "before E t' y"
    "r_current t' = r_current s + length (a @ [c])" "r_depth t' + int n \<le> stack_limit"
proof -
  obtain tok t where t: "read_token E (s\<lparr> r_depth := r_depth s + 1 \<rparr>) = ret (tok, t)" "tk_type tok = ty" "r_depth s < stack_limit"
      "t = s\<lparr> r_depth := r_depth s + 1, r_current := r_current s + length (a @ [c]) \<rparr>" "before E t y"
    using open_container_at [OF assms] by blast
  have "ready E p t" using assms(1) t(4) by (auto simp: ready_def)
  then obtain t' v w where t': "start_container E pl tok t = Some t'" "t' = t\<lparr> r_root := upd_at p w (r_root t) \<rparr>" "ready E p t'"
      "value_at p (r_root t') = Some v" "payload v = pl"
    by (rule start_container_at)
  then have "before E t' y" "r_current t' = r_current s + length (a @ [c])" "r_depth t' + int n \<le> stack_limit"
    using t(4,5) assms(5) by (auto simp: before_def)
  then show thesis using that t(1-4) t' by blast
qed

text \<open>The first character behind the opening bracket and blanks decides whether an array is empty.\<close>

lemma array_value_at:
  assumes "ready E p s" "blank a" "before E s (a @ asc CHR ''['' # b @ c # y)" "blank b" "\<not> white c" "r_depth s + int (Suc n) \<le> stack_limit"
    "\<And>t v. before E t (c # y) \<Longrightarrow> ready E p t \<Longrightarrow> r_depth t + int n \<le> stack_limit \<Longrightarrow> value_at p (r_root t) = Some v \<Longrightarrow>
      payload v = vt_array [] \<Longrightarrow> node_read p t (r_current t + length (c # y)) (represents tr)
        (if c = asc CHR '']'' then bnd (read_token E t) (\<lambda>(_, s). ret (True, s)) else read_array_loop k E 0 t)"
  shows "node_read p s (r_current s + length (a @ asc CHR ''['' # b @ c # y)) (represents tr) (read_value (Suc k) E s)"
proof -
  have m: "mark_type (asc CHR ''['') = Some tt_array_begin" by (simp add: mark_type_def)
  obtain tok t t' v w where t: "read_token E (s\<lparr> r_depth := r_depth s + 1 \<rparr>) = ret (tok, t)" "tk_type tok = tt_array_begin" "r_depth s < stack_limit"
      "t = s\<lparr> r_depth := r_depth s + 1, r_current := r_current s + length (a @ [asc CHR ''['']) \<rparr>" "start_container E (vt_array []) tok t = Some t'"
      "t' = t\<lparr> r_root := upd_at p w (r_root t) \<rparr>" "value_at p (r_root t') = Some v" "payload v = vt_array []" "ready E p t'"
      "before E t' (b @ c # y)" "r_current t' = r_current s + length (a @ [asc CHR ''[''])" "r_depth t' + int n \<le> stack_limit"
    by (rule container_begin [OF assms(1) m assms(2,3,6)])
  let ?t = "t'\<lparr> r_current := r_current t' + length b \<rparr>"
  have c: "skip_spaces E t' = Some ?t" "rd (re_mem E) (r_current ?t) = Some c"
    using skip_spaces_at [OF assms(4) t(10) assms(5)] t(10) by (auto simp: before_def)
  let ?r = "if c = asc CHR '']'' then bnd (read_token E ?t) (\<lambda>(_, s). ret (True, s)) else read_array_loop k E 0 ?t"
  have "node_read p ?t (r_current ?t + length (c # y)) (represents tr) ?r"
    by (rule assms(7)) (use t(7-10,12) in \<open>auto simp: before_def ready_def\<close>)
  then have "node_read p t' (r_current ?t + length (c # y)) (represents tr) ?r" by (simp add: node_read_def kept_def)
  note fin = finish_container_at [OF assms(1) t(4,6,7) this]
  have rv: "read_value (Suc k) E s = bnd ?r (\<lambda>(ok, s). bnd (mem (limit_current E s)) (\<lambda>s. ret (finish_value E ok s)))"
    unfolding read_value_switch(7) [OF assms(1) t(3,1,4,2), of k] t(5) bnd_simps c ..
  have pos: "r_current s + length (a @ asc CHR ''['' # b @ c # y) = r_current ?t + length (c # y)" using t(11) by simp
  show ?thesis unfolding rv pos by (rule fin)
qed

lemma no_elements_accepted:
  assumes "blank b"
  shows "accepts_value E (Suc n) (T_array []) (asc CHR ''['' # b @ [asc CHR '']''])"
  unfolding accepts_value_def
proof (intro allI impI, elim conjE)
  fix a s p k
  let ?x = "asc CHR ''['' # b @ [asc CHR '']'']" and ?c = "asc CHR '']''"
  assume a: "blank a" "before E s (a @ ?x)" "ready E p s" "r_depth s + int (Suc n) \<le> stack_limit" "2 * length ?x \<le> k"
  obtain k' where k: "k = Suc k'" using a(5) by (cases k) auto
  have close_mark: "mark_type ?c = Some tt_array_end" by (simp add: mark_type_def)
  show "node_read p s (r_current s + length (a @ ?x)) (represents (T_array [])) (read_value k E s)" unfolding k
  proof (rule array_value_at [OF a(3,1,2) assms _ a(4)])
    show "\<not> white ?c" by (simp add: white_def)
    fix t v
    assume t: "before E t [?c]" "value_at p (r_root t) = Some v" "payload v = vt_array []"
    then obtain tok where "read_token E t = ret (tok, t\<lparr> r_current := Suc (r_current t) \<rparr>)"
      using read_mark_after [OF blank_Nil _ close_mark, of E t] by force
    then show "node_read p t (r_current t + length [?c]) (represents (T_array []))
        (if ?c = asc CHR '']'' then bnd (read_token E t) (\<lambda>(_, s). ret (True, s)) else read_array_loop k' E 0 t)"
      using t(2,3) by (auto simp: node_read_def bnd_simps kept_def indexes_def upd_id_at intro!: exI [of _ "\<lambda>x. x"])
  qed
qed

lemma array_accepted:
  assumes env: "env_ok E" and "accepts_elements E n ts z" "blank b" "opens z"
  shows "accepts_value E (Suc n) (T_array ts) (asc CHR ''['' # (b @ z) @ [asc CHR '']''])"
  unfolding accepts_value_def
proof (intro allI impI, elim conjE)
  fix a s p k
  obtain c y where z: "z = c # y" "\<not> white c" "c \<noteq> asc CHR '']''" using assms(4) by (cases z) (auto simp: opens_def)
  let ?x = "asc CHR ''['' # (b @ z) @ [asc CHR '']'']" and ?c = "asc CHR '']''"
  assume a: "blank a" "before E s (a @ ?x)" "ready E p s" "r_depth s + int (Suc n) \<le> stack_limit" "2 * length ?x \<le> k"
  obtain k' where k: "k = Suc k'" "2 * length z + 1 \<le> k'" using a(5) by (cases k) auto
  have "before E s (a @ asc CHR ''['' # b @ c # y @ [?c])" using a(2) z(1) by simp
  then have "node_read p s (r_current s + length (a @ asc CHR ''['' # b @ c # y @ [?c])) (represents (T_array ts)) (read_value (Suc k') E s)"
  proof (rule array_value_at [OF a(3,1) _ assms(3) z(2) a(4)])
    fix t v
    assume t: "before E t (c # y @ [?c])" "ready E p t" "r_depth t + int n \<le> stack_limit" "value_at p (r_root t) = Some v" "payload v = vt_array []"
    have "length z < 2 ^ 30" using t(1,2) env z(1) by (auto simp: before_def ready_def env_ok_def)
    then have "node_read p t (r_current t + length (z @ [?c])) (\<lambda>w. \<exists>ys. payload w = vt_array ys \<and>
        map fst ys = indexes 0 (length ts) \<and> list_all2 (\<lambda>t x. represents t (snd x)) ts ys) (read_array_loop k' E 0 t)"
      using assms(2) [unfolded accepts_elements_def, rule_format, of t p k' v "[]"] t k(2) z(1) by (simp add: indexes_def)
    then have "node_read p t (r_current t + length (z @ [?c])) (represents (T_array ts)) (read_array_loop k' E 0 t)"
      by (rule node_read_mono) auto
    then show "node_read p t (r_current t + length (c # y @ [?c])) (represents (T_array ts))
        (if c = asc CHR '']'' then bnd (read_token E t) (\<lambda>(_, s). ret (True, s)) else read_array_loop k' E 0 t)"
      using z(1,3) by simp
  qed
  then show "node_read p s (r_current s + length (a @ ?x)) (represents (T_array ts)) (read_value k E s)" using k(1) z(1) by simp
qed


lemma object_value_at:
  assumes "ready E p s" "blank a" "before E s (a @ asc CHR ''{'' # y)" "r_depth s + int (Suc n) \<le> stack_limit"
    "\<And>t v. before E t y \<Longrightarrow> ready E p t \<Longrightarrow> r_depth t + int n \<le> stack_limit \<Longrightarrow> value_at p (r_root t) = Some v \<Longrightarrow>
      payload v = vt_object [] \<Longrightarrow> node_read p t (r_current t + length y) (represents tr) (read_object_loop k E [] t)"
  shows "node_read p s (r_current s + length (a @ asc CHR ''{'' # y)) (represents tr) (read_value (Suc k) E s)"
proof -
  have m: "mark_type (asc CHR ''{'') = Some tt_object_begin" by (simp add: mark_type_def)
  obtain tok t t' v w where t: "read_token E (s\<lparr> r_depth := r_depth s + 1 \<rparr>) = ret (tok, t)" "tk_type tok = tt_object_begin" "r_depth s < stack_limit"
      "t = s\<lparr> r_depth := r_depth s + 1, r_current := r_current s + length (a @ [asc CHR ''{'']) \<rparr>" "start_container E (vt_object []) tok t = Some t'"
      "t' = t\<lparr> r_root := upd_at p w (r_root t) \<rparr>" "value_at p (r_root t') = Some v" "payload v = vt_object []" "ready E p t'"
      "before E t' y" "r_current t' = r_current s + length (a @ [asc CHR ''{''])" "r_depth t' + int n \<le> stack_limit"
    by (rule container_begin [OF assms(1) m assms(2-4)])
  note fin = finish_container_at [OF assms(1) t(4,6,7) assms(5) [OF t(10,9,12,7,8)]]
  have rv: "read_value (Suc k) E s = bnd (read_object_loop k E [] t') (\<lambda>(ok, s). bnd (mem (limit_current E s)) (\<lambda>s. ret (finish_value E ok s)))"
    unfolding read_value_switch(6) [OF assms(1) t(3,1,4,2), of k] t(5) bnd_simps ..
  have pos: "r_current s + length (a @ asc CHR ''{'' # y) = r_current t' + length y" using t(11) by simp
  show ?thesis unfolding rv pos by (rule fin)
qed

lemma no_members_accepted:
  assumes "blank b"
  shows "accepts_value E (Suc n) (T_object []) (asc CHR ''{'' # b @ [asc CHR ''}''])"
  unfolding accepts_value_def
proof (intro allI impI, elim conjE)
  fix a s p k
  let ?x = "asc CHR ''{'' # b @ [asc CHR ''}'']" and ?c = "asc CHR ''}''"
  assume a: "blank a" "before E s (a @ ?x)" "ready E p s" "r_depth s + int (Suc n) \<le> stack_limit" "2 * length ?x \<le> k"
  obtain k' where k: "k = Suc (Suc k')" using a(5) by (cases k; cases "k - 1") auto
  have close_mark: "mark_type ?c = Some tt_object_end" by (simp add: mark_type_def)
  show "node_read p s (r_current s + length (a @ ?x)) (represents (T_object [])) (read_value k E s)" unfolding k
  proof (rule object_value_at [OF a(3,1,2,4)])
    fix t v
    assume t: "before E t (b @ [?c])" "value_at p (r_root t) = Some v" "payload v = vt_object []"
    then obtain tok where "read_past_comments E t = ret (tok, t\<lparr> r_current := r_current t + length (b @ [?c]) \<rparr>)" "tk_type tok = tt_object_end"
      using read_mark_after [OF assms t(1) close_mark] by metis
    then show "node_read p t (r_current t + length (b @ [?c])) (represents (T_object [])) (read_object_loop (Suc k') E [] t)"
      using t(2,3) by (auto simp: read_object_loop.simps node_read_def bnd_simps kept_def upd_id_at intro!: exI [of _ "\<lambda>x. x"])
  qed
qed

text \<open>Assigning members one after the other keeps trees and values in step.\<close>

definition entry_represents :: "byte list \<times> 'd json_tree \<Rightarrow> byte list \<times> 'd json_value \<Rightarrow> bool" where
  "entry_represents m x \<longleftrightarrow> fst m = fst x \<and> represents (snd m) (snd x)"

lemma entry_represents_pair [simp]: "entry_represents (k, t) (k', w) \<longleftrightarrow> k = k' \<and> represents t w"
  by (simp add: entry_represents_def)

lemma assign_represents:
  "list_all2 entry_represents es xs \<Longrightarrow> represents t w \<Longrightarrow> list_all2 entry_represents (om_assign lt k t es) (om_assign lt k w xs)"
proof (induction es xs rule: list_all2_induct)
  case (Cons e es x xs)
  then show ?case by (cases e; cases x) auto
qed simp

lemma assigned_represents:
  "list_all2 (\<lambda>m. represents (snd m)) ms ws \<Longrightarrow> list_all2 entry_represents es xs \<Longrightarrow>
    list_all2 entry_represents (assigned es ms) (assigned xs (zip (map fst ms) ws))"
proof (induction ms ws arbitrary: es xs rule: list_all2_induct)
  case Nil
  then show ?case by (simp add: assigned_def)
next
  case (Cons m w ms ws)
  obtain k t where "m = (k, t)" by (cases m)
  then show ?case using Cons.hyps Cons.prems Cons.IH [OF assign_represents] by (simp add: assigned_Cons)
qed

lemma object_represents:
  assumes "list_all2 entry_represents es xs" "payload w = vt_object xs"
  shows "represents (T_object es) w"
proof -
  have "map fst xs = map fst es" using assms(1) by (induction es xs rule: list_all2_induct) (auto simp: entry_represents_def)
  moreover have "list_all2 (\<lambda>m x. represents (snd m) (snd x)) es xs"
    using assms(1) by (rule list_all2_mono) (simp add: entry_represents_def)
  ultimately show ?thesis using assms(2) by simp
qed

lemma object_accepted:
  assumes "accepts_members E n ms y"
  shows "accepts_value E (Suc n) (T_object (assigned [] ms)) (asc CHR ''{'' # y @ [asc CHR ''}''])"
  unfolding accepts_value_def
proof (intro allI impI, elim conjE)
  fix a s p k
  let ?x = "asc CHR ''{'' # y @ [asc CHR ''}'']" and ?c = "asc CHR ''}''"
  assume a: "blank a" "before E s (a @ ?x)" "ready E p s" "r_depth s + int (Suc n) \<le> stack_limit" "2 * length ?x \<le> k"
  obtain k' where k: "k = Suc k'" "2 * length y + 1 \<le> k'" using a(5) by (cases k) auto
  show "node_read p s (r_current s + length (a @ ?x)) (represents (T_object (assigned [] ms))) (read_value k E s)" unfolding k(1)
  proof (rule object_value_at [OF a(3,1,2,4)])
    fix t v
    assume t: "before E t (y @ [?c])" "ready E p t" "r_depth t + int n \<le> stack_limit" "value_at p (r_root t) = Some v" "payload v = vt_object []"
    have "node_read p t (r_current t + length (y @ [?c])) (\<lambda>w. \<exists>ws. payload w = vt_object (assigned [] (zip (map fst ms) ws)) \<and>
        list_all2 (\<lambda>m. represents (snd m)) ms ws) (read_object_loop k' E [] t)"
      using assms [unfolded accepts_members_def, rule_format, of t p k' v "[]" "[]"] t k(2) by (simp add: om_ok_def)
    then show "node_read p t (r_current t + length (y @ [?c])) (represents (T_object (assigned [] ms))) (read_object_loop k' E [] t)"
    proof (rule node_read_mono, elim exE conjE)
      fix w ws
      assume w: "payload w = vt_object (assigned [] (zip (map fst ms) ws))" "list_all2 (\<lambda>m. represents (snd m)) ms ws"
      show "represents (T_object (assigned [] ms)) w" by (rule object_represents [OF assigned_represents [OF w(2) list.rel_intros(1)] w(1)])
    qed
  qed
qed


section \<open>Documents\<close>

lemma digit_opens: "is_digit_char c \<Longrightarrow> opens (c # r)"
  by (auto simp: opens_def white_def is_digit_char_def word_sle_eq)

lemma digits_open: "digits ds \<Longrightarrow> ds \<noteq> [] \<Longrightarrow> opens ds"
  using digit_opens by (cases ds) (auto simp: digits_def)

lemma real_opens: "real_text x \<Longrightarrow> opens x"
  unfolding real_text_def using digit_opens by (auto simp: opens_def white_def)

lemma text_accepted:
  assumes env: "env_ok E"
  shows "json_text (re_scan_double E) n t x \<Longrightarrow> accepts_value E n t x \<and> opens x"
    and "elements_text (re_scan_double E) n ts y \<Longrightarrow> \<exists>b z. y = b @ z \<and> blank b \<and> opens z \<and> accepts_elements E n ts z \<and> accepts_elements E n ts y"
    and "members_text (re_scan_double E) n ms y \<Longrightarrow> accepts_members E n ms y"
proof (induction rule: json_text_elements_text_members_text.inducts)
  case (jt_null n)
  show ?case using word_accepted [of "lit ''null''" tt_null T_null E n] by (simp add: word_type_def opens_def white_def)
next
  case (jt_true n)
  show ?case using word_accepted [of "lit ''true''" tt_true "T_bool True" E n] by (simp add: word_type_def opens_def white_def)
next
  case (jt_false n)
  show ?case using word_accepted [of "lit ''false''" tt_false "T_bool False" E n] by (simp add: word_type_def opens_def white_def)
next
  case (jt_negative ds n)
  then show ?case using negative_accepted [OF env jt_negative] by (simp add: opens_def white_def)
next
  case (jt_int ds n)
  then show ?case using unsigned_accepted [OF env jt_int(1,2)] digits_open by simp
next
  case (jt_uint ds n)
  then show ?case using unsigned_accepted [OF env jt_uint(1,2)] digits_open by simp
next
  case (jt_big ds d n)
  then show ?case using big_accepted [OF env, of ds "[]" d n] by simp
next
  case (jt_big_negative ds d n)
  then show ?case using big_accepted [OF env, of ds "[asc CHR ''-'']" d n] by simp
next
  case (jt_real x d n)
  then show ?case using real_accepted [OF env] real_opens by simp
next
  case (jt_string s z n)
  then show ?case using string_accepted [OF env] by (simp add: opens_def white_def quoted_def)
next
  case (jt_no_elements a n)
  then show ?case using no_elements_accepted by (simp add: opens_def white_def)
next
  case (jt_array n ts y)
  then obtain b z where "y = b @ z" "blank b" "opens z" "accepts_elements E n ts z" by blast
  then show ?case using array_accepted [OF env] by (simp add: opens_def white_def)
next
  case (jt_no_members a n)
  then show ?case using no_members_accepted by (simp add: opens_def white_def)
next
  case (jt_object n ms y)
  then show ?case using object_accepted by (simp add: opens_def white_def)
next
  case (et_last n t x a b)
  then show ?case using last_element_accepted [of E n t x a b] last_element_accepted [of E n t x "[]" b]
    by (intro exI [of _ a] exI [of _ "x @ b"]) auto
next
  case (et_next n t x ts y a b)
  then have "accepts_elements E n ts y" by blast
  then show ?case using et_next next_element_accepted [of E n t x ts y a b] next_element_accepted [of E n t x ts y "[]" b]
    by (intro exI [of _ a] exI [of _ "x @ b @ asc CHR '','' # y"]) auto
next
  case (mt_last n t x k z a b c d)
  then show ?case using last_member_accepted by blast
next
  case (mt_next n t x ms y k z a b c d)
  then show ?case using next_member_accepted by blast
qed

text \<open>Behind the value, blanks up to the end of the document.\<close>

lemma read_end_at:
  assumes "blank b" "before E s b" "r_current s + length b = re_end E"
  shows "skip_comment_tokens E s = ret (\<lparr> tk_type = tt_end_of_stream, tk_start = re_end E, tk_end = re_end E \<rparr>, s\<lparr> r_current := re_end E \<rparr>)"
proof -
  have "skip_spaces_from (re_mem E) (re_end E) (r_current s) = Some (r_current s + length b)"
    using assms by (intro skip_spaces_over) (auto simp: before_def)
  then have "read_token E s = ret (\<lparr> tk_type = tt_end_of_stream, tk_start = re_end E, tk_end = re_end E \<rparr>, s\<lparr> r_current := re_end E \<rparr>)"
    using assms(3) by (simp add: read_token_def skip_spaces_def bnd_simps get_next_char_def Let_def token_switch_0)
  then show ?thesis by (rule past_comment_tokens) simp
qed

lemma ends_at_blank: "text_at m q b \<Longrightarrow> blank b \<Longrightarrow> q + length b = e \<Longrightarrow> ends_at number_char m e q"
  by (cases b) (auto simp: ends_at_def white_def number_char_def is_digit_char_def word_sle_eq)

definition is_container :: "'d json_tree \<Rightarrow> bool" where
  "is_container t \<longleftrightarrow> (case t of T_array ts \<Rightarrow> True | T_object ms \<Rightarrow> True | _ \<Rightarrow> False)"

lemma container_type: "represents t v \<Longrightarrow> is_container t \<Longrightarrow> is_array v \<or> is_object v"
  by (cases t) (auto simp: is_container_def is_array_def is_object_def type_of_def split: payload.splits)

lemma parse_env_accepts:
  assumes env: "env_ok E" and "json_text (re_scan_double E) 1000 t x" "blank a" "blank b" "text_at (re_mem E) (re_begin E) (a @ x @ b)"
    "re_begin E + length (a @ x @ b) = re_end E" "strict_root (re_features E) \<longrightarrow> is_container t"
  shows "\<exists>s. parse_env E root = ret (True, s) \<and> good s \<and> represents t (r_root s)"
proof -
  let ?s = "reader_init E root" and ?k = "2 * (re_end E - re_begin E) + 2"
  have ends: "ends_at number_char (re_mem E) (re_end E) (re_begin E + length (a @ x))"
    using assms(4-6) by (intro ends_at_blank [of _ _ b]) (auto simp: add.assoc)
  have "accepts_value E 1000 t x" using text_accepted(1) [OF env assms(2)] by simp
  then have "node_read [] ?s (re_begin E + length (a @ x)) (represents t) (read_value ?k E ?s)"
    unfolding accepts_value_def
    using assms(3-6) ends by (elim allE [of _ a] allE [of _ ?s] allE [of _ "[]"] allE [of _ ?k])
      (auto simp: before_def ready_def reader_init_def stack_limit_def)
  then obtain s' where s': "read_value ?k E ?s = ret (True, s')" "kept ?s s'" "r_current s' = re_begin E + length (a @ x)" "represents t (r_root s')"
    by (auto simp: node_read_def reader_init_def)
  let ?t = "s'\<lparr> r_current := re_end E \<rparr>"
  have "skip_comment_tokens E s' = ret (\<lparr> tk_type = tt_end_of_stream, tk_start = re_end E, tk_end = re_end E \<rparr>, ?t)"
    using assms(5,6) s'(3) by (intro read_end_at [OF assms(4)]) (auto simp: before_def add.assoc)
  moreover have "r_comments_before ?t = []" "r_errors ?t = []" using s'(2) by (auto simp: kept_def reader_init_def)
  moreover have "strict_root_check E True ?t = (True, ?t)"
    using container_type [OF s'(4)] assms(7) by (auto simp: strict_root_check_def)
  ultimately show ?thesis using s'(1,4) unfolding parse_env_def by (auto simp: bnd_simps good_def)
qed

lemma parse_text:
  assumes "json_text scan_double 1000 t x" "blank a" "blank b" "length (a @ x @ b) < 2 ^ 30" "strict_root features \<longrightarrow> is_container t"
  shows "\<exists>s. parse_string scan_double real_to_text features (a @ x @ b) root collect = Some (Inr (True, s)) \<and> good s \<and> represents t (r_root s)"
proof -
  let ?E = "\<lparr> re_mem = (a @ x @ b) @ [0], re_begin = 0, re_end = length (a @ x @ b), re_features = features,
      re_collect = (allow_comments features \<and> collect), re_scan_double = scan_double, re_real_text = real_to_text \<rparr>"
  have "env_ok ?E" using assms(4) by (simp add: env_ok_def)
  moreover have "text_at (re_mem ?E) (re_begin ?E) (a @ x @ b)" by (simp only: text_at_def) simp
  ultimately have "\<exists>s. parse_env ?E root = ret (True, s) \<and> good s \<and> represents t (r_root s)"
    using assms by (intro parse_env_accepts [of ?E t x a b root]) simp_all
  then show ?thesis by (simp add: parse_string_def parse_def ret_def)
qed


text \<open>C6: \<open>reader::parse\<close> accepts every text of the grammar of less than \<open>2 ^ 30\<close> characters, nested at most 1000 levels deep
  and with blanks around it, and records no error. The value it builds represents the tree that the text denotes: digits
  alone as an integer where they fit into 64 bits, the numbers that do not and those with a fraction or an exponent as the
  double that \<open>sscanf\<close> finds in their text (the grammar asks that it finds one), strings with their escapes decoded,
  arrays with the indexes from 0, objects with the last value of every name in the order of names. With \<open>strict_root_\<close>
  the tree has to be an array or an object.\<close>

theorem parse_accepts:
  assumes "json_text scan_double 1000 t x" "blank a" "blank b" "length (a @ x @ b) < 2 ^ 30" "strict_root features \<longrightarrow> is_container t"
  shows "\<exists>s. parse_string scan_double real_to_text features (a @ x @ b) root collect = Some (Inr (True, s)) \<and> good s \<and> represents t (r_root s)"
  using assms by (rule parse_text)

text \<open>The hypotheses hold for the document \<open> [1,1.5,18446744073709551616] \<close>, with a function that reads its two doubles.\<close>

definition scan_sample :: "byte list \<Rightarrow> int option" where
  "scan_sample t = (if t = lit ''1.5'' then Some 15 else if t = lit ''18446744073709551616'' then Some 16 else None)"

lemma real_text_sample: "real_text (lit ''1.5'')"
  unfolding real_text_def fraction_text_def exponent_text_def
  by (rule exI [of _ 49], rule exI [of _ "[]"], rule exI [of _ "lit ''.5''"], rule exI [of _ "[]"])
    (simp add: digits_def is_digit_char_def word_sle_eq)

theorem parse_accepts_witness:
  "\<exists>s. parse_string scan_sample (\<lambda>d. []) strict_mode ([32] @ lit ''[1,1.5,18446744073709551616]'' @ [10]) (init_basic vt_null) False = Some (Inr (True, s))
     \<and> good s \<and> represents (T_array [T_int 1, T_real 15, T_real 16]) (r_root s)"
proof -
  note digit = digits_def is_digit_char_def word_sle_eq digits_value_def
  let ?t = "json_text scan_sample 999" and ?e = "elements_text scan_sample 999" and ?big = "lit ''18446744073709551616''"
  have one: "?t (T_int 1) (lit ''1'')" using jt_int [of "lit ''1''" scan_sample 998] by (simp add: digit)
  have real: "?t (T_real 15) (lit ''1.5'')" using real_text_sample jt_real [of "lit ''1.5''" scan_sample 15 998] by (simp add: scan_sample_def)
  have "?t (T_real 16) ?big" using jt_big [of ?big scan_sample 16 998] by (simp add: digit scan_sample_def)
  then have "?e [T_real 16] ([] @ ?big @ [])" by (rule et_last) (simp_all add: blank_def)
  moreover have b: "blank []" by (simp add: blank_def)
  ultimately have "?e [T_int 1, T_real 15, T_real 16] ([] @ lit ''1'' @ [] @ asc CHR '','' # [] @ lit ''1.5'' @ [] @ asc CHR '','' # [] @ ?big @ [])"
    by (intro et_next one real b)
  from jt_array [OF this] have "json_text scan_sample 1000 (T_array [T_int 1, T_real 15, T_real 16]) (lit ''[1,1.5,18446744073709551616]'')" by simp
  then show ?thesis by (rule parse_accepts) (simp_all add: blank_def white_def is_container_def)
qed

end
