(* ===== verification/Json_Writer.thy ===== *)
theory Json_Writer
  imports Json_Reader
begin

text \<open>
  \<open>core/data/json/writer.cpp\<close>: quoting and the class \<open>fast_writer\<close>. A text of the C library ends at its first
  null character; the content of a value may go on behind it. The text of a \<open>double\<close> is an argument, as in \<open>as_string\<close>.
\<close>

section \<open>Quoting\<close>

definition c_text :: "byte list \<Rightarrow> byte list" where
  "c_text s = takeWhile (\<lambda>c. c \<noteq> 0) s"

definition is_control_char :: "byte \<Rightarrow> bool" where
  "is_control_char ch \<longleftrightarrow> 0 <s ch \<and> ch \<le>s 0x1F"

fun contains_control_char :: "byte list \<Rightarrow> bool" where
  "contains_control_char [] = False"
| "contains_control_char (c # cs) = (if c = 0 then False else if is_control_char c then True else contains_control_char cs)"

fun contains_control_char0 :: "byte list \<Rightarrow> bool" where
  "contains_control_char0 [] = False"
| "contains_control_char0 (c # cs) = (if is_control_char c \<or> c = 0 then True else contains_control_char0 cs)"

text \<open>\<open>operator<<\<close> with \<open>hex\<close>, \<open>uppercase\<close>, \<open>setfill('0')\<close> and \<open>setw(4)\<close>.\<close>

definition hex_digit_char :: "nat \<Rightarrow> byte" where
  "hex_digit_char d = (if d < 10 then of_nat d + asc CHR ''0'' else of_nat (d - 10) + asc CHR ''A'')"

fun hex_text :: "nat \<Rightarrow> byte list" where
  "hex_text n = (if n < 16 then [hex_digit_char n] else hex_text (n div 16) @ [hex_digit_char (n mod 16)])"

declare hex_text.simps [simp del]

definition hex_padded :: "nat \<Rightarrow> byte list" where
  "hex_padded n = (let t = hex_text n in replicate (4 - length t) (asc CHR ''0'') @ t)"

text \<open>The \<open>switch\<close> over a character; \<open>zero\<close> tells whether the null character is escaped, too.\<close>

definition escape_char :: "bool \<Rightarrow> byte \<Rightarrow> byte list" where
  "escape_char zero c =
     (if c = 34 then [92, 34]
      else if c = 92 then [92, 92]
      else if c = 8 then [92, asc CHR ''b'']
      else if c = 12 then [92, asc CHR ''f'']
      else if c = 10 then [92, asc CHR ''n'']
      else if c = 13 then [92, asc CHR ''r'']
      else if c = 9 then [92, asc CHR ''t'']
      else if is_control_char c \<or> zero \<and> c = 0 then [92, asc CHR ''u''] @ hex_padded (unat c)
      else [c])"

definition quoted_specials :: "byte list" where
  "quoted_specials = [34, 92, 8, 12, 10, 13, 9]"

fun escape_loop :: "byte list \<Rightarrow> byte list" where
  "escape_loop [] = []"
| "escape_loop (c # cs) = (if c = 0 then [] else escape_char False c @ escape_loop cs)"

definition value_to_quoted_string :: "byte list option \<Rightarrow> byte list" where
  "value_to_quoted_string r = (case r of
       None \<Rightarrow> []
     | Some s \<Rightarrow>
         if \<not> list_ex (\<lambda>c. c \<in> set quoted_specials) (c_text s) \<and> \<not> contains_control_char s then 34 # c_text s @ [34]
         else 34 # escape_loop s @ [34])"

fun strnpbrk :: "byte list \<Rightarrow> byte list \<Rightarrow> nat option" where
  "strnpbrk [] accept = None"
| "strnpbrk (c # cs) accept = (if c \<in> set accept then Some 0 else map_option Suc (strnpbrk cs accept))"

definition value_to_quoted_string_n :: "byte list option \<Rightarrow> byte list" where
  "value_to_quoted_string_n r = (case r of
       None \<Rightarrow> []
     | Some s \<Rightarrow>
         if strnpbrk s quoted_specials = None \<and> \<not> contains_control_char0 s then 34 # c_text s @ [34]
         else 34 # concat (map (escape_char True) s) @ [34])"

section \<open>Children\<close>

text \<open>\<open>value[index]\<close> for the indexes below \<open>n\<close>, and \<open>value[name]\<close> for the names of \<open>get_member_names\<close>.\<close>

definition elements :: "nat \<Rightarrow> 'd json_value \<Rightarrow> 'd json_value list" where
  "elements n v = map (\<lambda>i. case array_at (of_nat i) v of Inl e \<Rightarrow> null_ref | Inr w \<Rightarrow> w) [0..<n]"

definition members :: "'d json_value \<Rightarrow> (byte list \<times> 'd json_value) list" where
  "members v = (case get_member_names v of
       Inl e \<Rightarrow> []
     | Inr names \<Rightarrow> map (\<lambda>name. (name, case member_at name v of Inl e \<Rightarrow> null_ref | Inr w \<Rightarrow> w)) names)"

lemma om_find_in: "om_find lt xs k = Some v \<Longrightarrow> v \<in> snd ` set xs"
  by (induction lt xs k rule: om_find.induct) (auto split: if_splits)

text \<open>The measure of the recursion over values: a missing element is read as a null value, which has no children.\<close>

definition weight :: "'d json_value \<Rightarrow> nat" where
  "weight v = (case payload v of vt_array xs \<Rightarrow> size v | vt_object xs \<Rightarrow> size v | _ \<Rightarrow> 0)"

lemma weight_child: "payload v = vt_array xs \<or> payload v = vt_object ys \<Longrightarrow> size w < size v \<or> w = null_ref \<Longrightarrow> weight w < weight v"
  by (cases v) (auto simp: weight_def null_ref_def init_basic_def split: payload.splits)

lemma weight_elements: "payload v = vt_array xs \<Longrightarrow> w \<in> set (elements n v) \<Longrightarrow> weight w < weight v"
  by (rule weight_child) (auto simp: elements_def array_at_def split: option.splits intro: size_array [OF _ om_find_in])

lemma weight_members: "payload v = vt_object xs \<Longrightarrow> (name, w) \<in> set (members v) \<Longrightarrow> weight w < weight v"
  by (rule weight_child) (auto simp: members_def get_member_names_def member_at_def find_member_def split: option.splits
      intro: size_object [OF _ om_find_in])

section \<open>The fast writer\<close>

record fast_writer =
  yaml_compatibility_enabled :: bool
  drop_null_placeholders :: bool
  omit_ending_line_feed :: bool

definition fast_writer_init :: fast_writer where
  "fast_writer_init = \<lparr> yaml_compatibility_enabled = False, drop_null_placeholders = False, omit_ending_line_feed = False \<rparr>"

definition comma_between :: "nat \<Rightarrow> byte list" where
  "comma_between i = (if i > 0 then [asc CHR '','' ] else [])"

text \<open>The text that \<open>write_value\<close> appends to the document.\<close>

function fast_write_value :: "fast_writer \<Rightarrow> ('d \<Rightarrow> byte list) \<Rightarrow> 'd json_value \<Rightarrow> byte list" where
  "fast_write_value W real_text v = (case payload v of
       vt_null \<Rightarrow> if drop_null_placeholders W then [] else lit ''null''
     | vt_int i \<Rightarrow> value_to_string_int i
     | vt_uint u \<Rightarrow> value_to_string_uint u
     | vt_real d \<Rightarrow> real_text d
     | vt_string s \<Rightarrow> value_to_quoted_string s
     | vt_bool b \<Rightarrow> value_to_string_bool b
     | vt_array xs \<Rightarrow>
         asc CHR ''['' #
         concat (map (\<lambda>(i, w). comma_between i @ fast_write_value W real_text w)
           (enumerate 0 (elements (nat (sint (value_size v))) v))) @
         [asc CHR '']'']
     | vt_object xs \<Rightarrow>
         asc CHR ''{'' #
         concat (map (\<lambda>(i, name, w). comma_between i @ value_to_quoted_string_n (Some name) @
             (if yaml_compatibility_enabled W then lit '': '' else lit '':'') @ fast_write_value W real_text w)
           (enumerate 0 (members v))) @
         [asc CHR ''}''])"
  by pat_completeness auto
termination
  by (relation "measure (\<lambda>(W, real_text, v). weight v)")
    (auto simp: in_set_enumerate_eq intro: weight_elements [OF _ nth_mem], metis nth_mem weight_members)

declare fast_write_value.simps [simp del]

definition fast_write :: "fast_writer \<Rightarrow> ('d \<Rightarrow> byte list) \<Rightarrow> 'd json_value \<Rightarrow> byte list" where
  "fast_write W real_text root = fast_write_value W real_text root @ (if omit_ending_line_feed W then [] else [10])"

end
