(* ===== verification/Json_Invariant.thy ===== *)
theory Json_Invariant
  imports Json_Accepts Json_Writer
begin

text \<open>
  The type invariant of JSON values and the arrays as lists. A value is well formed if the maps of all arrays and objects in it
  are ordered, without double keys, and names have at most 30 bits of length, as \<open>czstring\<close> keeps them. Every value that the
  operations of \<open>core/data/json/value.cpp\<close> build is well formed.
\<close>

section \<open>Well-formed values\<close>

definition short_name :: "byte list \<Rightarrow> bool" where
  "short_name k \<longleftrightarrow> length k < 2 ^ 30"

function value_ok :: "'d json_value \<Rightarrow> bool" where
  "value_ok v \<longleftrightarrow> (case payload v of
       vt_array xs \<Rightarrow> om_ok (<) (\<lambda>i. True) xs \<and> (\<forall>w \<in> snd ` set xs. value_ok w)
     | vt_object xs \<Rightarrow> om_ok czstring_less short_name xs \<and> (\<forall>w \<in> snd ` set xs. value_ok w)
     | _ \<Rightarrow> True)"
  by pat_completeness auto
termination
  by (relation "measure size") (auto intro: size_array size_object)

declare value_ok.simps [simp del]

definition entries_ok :: "('k \<Rightarrow> 'k \<Rightarrow> bool) \<Rightarrow> ('k \<Rightarrow> bool) \<Rightarrow> ('k \<times> 'd json_value) list \<Rightarrow> bool" where
  "entries_ok lt key_ok xs \<longleftrightarrow> om_ok lt key_ok xs \<and> (\<forall>w \<in> snd ` set xs. value_ok w)"

lemma value_ok_array [simp]: "payload v = vt_array xs \<Longrightarrow> value_ok v \<longleftrightarrow> entries_ok (<) (\<lambda>i. True) xs"
  by (subst value_ok.simps) (simp add: entries_ok_def)

lemma value_ok_object [simp]: "payload v = vt_object xs \<Longrightarrow> value_ok v \<longleftrightarrow> entries_ok czstring_less short_name xs"
  by (subst value_ok.simps) (simp add: entries_ok_def)

lemma value_ok_scalar: "(\<And>xs. payload v \<noteq> vt_array xs) \<Longrightarrow> (\<And>xs. payload v \<noteq> vt_object xs) \<Longrightarrow> value_ok v"
  by (subst value_ok.simps) (simp split: payload.splits)

lemma value_ok_payload: "value_ok w \<Longrightarrow> payload v = payload w \<Longrightarrow> value_ok v"
  using value_ok_scalar [of v] by (cases "payload w") auto

lemma value_ok_null [simp]: "value_ok null_ref"
  by (rule value_ok_scalar) (simp_all add: null_ref_def init_basic_def)

lemma entries_ok_Nil [simp]: "entries_ok lt key_ok []"
  by (simp add: entries_ok_def om_ok_def)

lemma entries_value: "entries_ok lt key_ok xs \<Longrightarrow> (k, w) \<in> set xs \<Longrightarrow> value_ok w"
  by (force simp: entries_ok_def)

section \<open>Maps\<close>

text \<open>The operations of \<open>std::map\<close> keep well-formed entries.\<close>

lemma om_ok_True: "om_ok lt key_ok xs \<Longrightarrow> om_ok lt (\<lambda>k. True) xs"
  by (simp add: om_ok_def list_all_iff)

lemma om_ok_keys_iff: "om_ok lt key_ok xs \<longleftrightarrow> om_ok lt (\<lambda>k. True) xs \<and> (\<forall>k \<in> fst ` set xs. key_ok k)"
  by (auto simp: om_ok_def list_all_iff)

context entries
begin

lemma equiv_eq: "om_equiv lt a b \<longleftrightarrow> a = b"
  using total irrefl by (auto simp: om_equiv_def)

lemma find_assigned: "om_ok lt (\<lambda>k. True) xs \<Longrightarrow> om_find lt (om_assign lt k v xs) j = (if k = j then Some v else om_find lt xs j)"
  using find_assign [of xs k v j] by (simp add: equiv_eq)

lemma find_erased: "om_ok lt (\<lambda>k. True) xs \<Longrightarrow> om_find lt (om_erase lt k xs) j = (if k = j then None else om_find lt xs j)"
  using find_erase [of xs k j] by (simp add: equiv_eq)

lemma find_ensure:
  "om_ok lt (\<lambda>k. True) xs \<Longrightarrow>
    om_find lt (ensure lt k xs) j = (if k = j then Some (case om_find lt xs k of None \<Rightarrow> null_ref | Some w \<Rightarrow> w) else om_find lt xs j)"
  by (auto simp: ensure_def find_assigned split: option.splits)

lemma values_assign: "snd ` set (om_assign lt k v xs) \<subseteq> insert v (snd ` set xs)"
  by (induction xs) (force split: if_splits)+

lemma assign_entries:
  assumes "entries_ok lt key_ok xs" "key_ok k" "value_ok v"
  shows "entries_ok lt key_ok (om_assign lt k v xs)"
proof -
  have "om_ok lt (\<lambda>k. True) (om_assign lt k v xs)" using assms(1) by (intro assign_ok) (auto simp: entries_ok_def dest: om_ok_True)
  moreover have "key_ok k'" if "k' \<in> fst ` set (om_assign lt k v xs)" for k'
    using that keys_assign [of k v xs] assms(1,2) om_ok_keys_iff [of lt key_ok xs] unfolding entries_ok_def by blast
  moreover have "value_ok w" if "w \<in> snd ` set (om_assign lt k v xs)" for w
    using that values_assign [of k v xs] assms(1,3) unfolding entries_ok_def by blast
  ultimately show ?thesis unfolding entries_ok_def om_ok_keys_iff [of lt key_ok] by blast
qed

lemma ensure_sorted: "om_ok lt (\<lambda>k. True) xs \<Longrightarrow> om_ok lt (\<lambda>k. True) (ensure lt k xs)"
  by (simp add: ensure_def assign_ok split: option.split)

lemma ensure_entries: "entries_ok lt key_ok xs \<Longrightarrow> key_ok k \<Longrightarrow> entries_ok lt key_ok (ensure lt k xs)"
  by (simp add: ensure_def assign_entries split: option.splits)

lemma erase_entries:
  assumes "entries_ok lt key_ok xs"
  shows "entries_ok lt key_ok (om_erase lt k xs)"
proof -
  have "om_ok lt (\<lambda>k. True) (om_erase lt k xs)" using assms by (intro erase_ok) (auto simp: entries_ok_def dest: om_ok_True)
  then show ?thesis using assms erase_subset [of k xs] unfolding entries_ok_def om_ok_keys_iff [of lt key_ok] by blast
qed

lemma find_value: "entries_ok lt key_ok xs \<Longrightarrow> om_find lt xs k = Some w \<Longrightarrow> value_ok w"
  by (auto simp: entries_ok_def dest: om_find_in)

lemma find_nth:
  assumes "om_ok lt (\<lambda>k. True) xs" "i < length xs"
  shows "om_find lt xs (fst (xs ! i)) = Some (snd (xs ! i))"
  using assms
proof (induction xs arbitrary: i)
  case (Cons x xs)
  then show ?case using irrefl by (cases x; cases i) (auto simp: om_ok_Cons)
qed simp

lemma assign_behind: "\<forall>x \<in> set xs. lt (fst x) k \<Longrightarrow> om_assign lt k v xs = xs @ [(k, v)]"
  by (induction xs) auto

lemma find_map_of: "om_ok lt (\<lambda>k. True) xs \<Longrightarrow> om_find lt xs k = map_of xs k"
proof (induction xs)
  case (Cons x xs)
  obtain k' v where x: "x = (k', v)" by (cases x)
  have xs: "om_find lt xs k = map_of xs k" using Cons x by (simp add: om_ok_Cons)
  show ?case
  proof (cases k' k rule: three_way)
    case before
    then have "k \<noteq> k'" using irrefl [of k] by auto
    then show ?thesis using before xs x by simp
  next
    case after
    then have "k \<notin> fst ` set xs" using later_keys [of k' v xs k] Cons.prems x by simp
    moreover have "\<not> lt k' k" "k \<noteq> k'" using after asym [of k k'] irrefl [of k] by auto
    ultimately show ?thesis using after x map_of_eq_None_iff [of xs k] by simp
  next
    case equiv
    then show ?thesis using x irrefl [of k] by (simp add: equiv_eq)
  qed
qed simp

lemma find_None: "om_ok lt (\<lambda>k. True) xs \<Longrightarrow> om_find lt xs k = None \<longleftrightarrow> k \<notin> fst ` set xs"
  by (simp add: find_map_of map_of_eq_None_iff)

end

lemma upd_entry_keys: "map fst (upd_entry k f xs) = map fst xs"
  by (induction xs) (auto simp: upd_entry_def)

lemma om_ok_same_keys: "map fst xs = map fst ys \<Longrightarrow> om_ok lt key_ok xs \<Longrightarrow> om_ok lt key_ok ys"
  by (simp add: om_ok_def list_all_iff flip: sorted_wrt_map) (metis image_iff list.set_map)

lemma upd_entry_entries:
  assumes "entries_ok lt key_ok xs" "\<And>w. value_ok w \<Longrightarrow> value_ok (f w)"
  shows "entries_ok lt key_ok (upd_entry k f xs)"
proof -
  have "om_ok lt key_ok (upd_entry k f xs)" using assms(1) om_ok_same_keys [OF upd_entry_keys [symmetric]] by (auto simp: entries_ok_def)
  moreover have "value_ok w" if "w \<in> snd ` set (upd_entry k f xs)" for w
    using that assms by (auto simp: entries_ok_def upd_entry_def split: if_splits)
  ultimately show ?thesis by (simp add: entries_ok_def)
qed


section \<open>Operations\<close>

lemma czstring_short_name: "short_name (czstring k)"
proof -
  have "nat (int (length k) mod 2 ^ 30) < 2 ^ 30" by (simp add: nat_less_iff)
  then show ?thesis unfolding short_name_def czstring_def by (simp add: min_def)
qed

lemma array_ref_ok: "value_ok v \<Longrightarrow> array_ref i v = Inr w \<Longrightarrow> value_ok w"
  by (cases "payload v") (auto simp: array_ref_def init_basic_def slots.ensure_entries)

lemma resolve_reference_ok: "value_ok v \<Longrightarrow> resolve_reference k v = Inr w \<Longrightarrow> value_ok w"
  by (cases "payload v") (auto simp: resolve_reference_def init_basic_def names.ensure_entries czstring_short_name)

lemma child_ok: "value_ok v \<Longrightarrow> child k v = Some w \<Longrightarrow> value_ok w"
  by (cases "payload v"; cases k) (auto simp: child_def dest!: map_of_SomeD dest: entries_value)

lemma upd_child_ok:
  assumes "value_ok v" "\<And>w. value_ok w \<Longrightarrow> value_ok (f w)"
  shows "value_ok (upd_child k f v)"
proof (cases "payload v")
  case (vt_array xs)
  then show ?thesis using assms upd_entry_entries [of "(<)" "\<lambda>i. True" xs f] by (cases k) (simp_all add: upd_child_def)
next
  case (vt_object xs)
  then show ?thesis using assms upd_entry_entries [of czstring_less short_name xs f] by (cases k) (simp_all add: upd_child_def)
qed (auto intro!: value_ok_scalar simp: upd_child_def split: key.splits)

lemma upd_at_ok: "value_ok v \<Longrightarrow> (\<And>w. value_ok w \<Longrightarrow> value_ok (f w)) \<Longrightarrow> value_ok (upd_at p f v)"
  by (induction p arbitrary: v) (auto intro: upd_child_ok)

lemma value_clear_ok: "value_clear v = Inr w \<Longrightarrow> value_ok w"
  by (cases "payload v") (auto simp: value_clear_def intro: value_ok_scalar)

lemma erase_range_ok: "entries_ok (<) (\<lambda>i. True) xs \<Longrightarrow> entries_ok (<) (\<lambda>i. True) (erase_range lo hi xs)"
  unfolding erase_range_def by (rule fold_invariant [where Q = "\<lambda>x. True"]) (auto intro: slots.erase_entries)

lemma value_resize_ok:
  assumes "value_ok v" "value_resize n v = Some (Inr w)"
  shows "value_ok w"
proof -
  define v' where "v' = (if is_null v then init_basic (vt_array []) else v)"
  have v': "value_ok v'" using assms(1) by (simp add: v'_def init_basic_def)
  have "value_clear v' = Inr w \<or> array_ref (n - 1) v' = Inr w \<or> w = v' \<or>
      (\<exists>xs c a b. payload v' = vt_array xs \<and> Value (vt_array (erase_range (unat n) (unat (value_size v')) xs)) c a b = w)"
    using assms(2) unfolding value_resize_def v'_def [symmetric] by (auto simp: Let_def split: if_splits payload.splits)
  then show ?thesis using v' value_clear_ok array_ref_ok erase_range_ok by fastforce
qed

lemma append_value_ok: "value_ok v \<Longrightarrow> value_ok w \<Longrightarrow> append_value w v = Inr u \<Longrightarrow> value_ok u"
  using array_ref_ok [of v "value_size v"] by (cases "array_ref (value_size v) v") (auto simp: append_value_def intro: upd_child_ok)

lemma remove_member_ok: "value_ok v \<Longrightarrow> remove_member k v = (b, w, r) \<Longrightarrow> value_ok w \<and> (\<forall>u. r = Some u \<longrightarrow> value_ok u)"
  by (cases "payload v") (auto simp: remove_member_def intro: names.erase_entries names.find_value split: option.splits)

lemma take_member_ok:
  assumes "value_ok v" "take_member k v = Inr (w, u)"
  shows "value_ok w \<and> value_ok u"
proof (cases "payload v")
  case (vt_object xs)
  obtain b w' r where rm: "remove_member (takeWhile (\<lambda>c. c \<noteq> 0) k) v = (b, w', r)" using prod_cases3 by blast
  then have "w' = w" "u = (case r of None \<Rightarrow> null_ref | Some x \<Rightarrow> x)" using assms(2) vt_object by (auto simp: take_member_def)
  then show ?thesis using remove_member_ok [OF assms(1) rm] by (simp split: option.split)
qed (use assms in \<open>auto simp: take_member_def\<close>)

lemma shift_left_ok: "entries_ok (<) (\<lambda>i. True) xs \<Longrightarrow> entries_ok (<) (\<lambda>i. True) (shift_left i xs)"
  unfolding shift_left_def Let_def
  by (intro slots.assign_entries slots.ensure_entries) (auto split: option.splits intro: slots.find_value slots.ensure_entries)

lemma shifts_left_ok: "entries_ok (<) (\<lambda>i. True) xs \<Longrightarrow> entries_ok (<) (\<lambda>i. True) (fold shift_left js xs)"
  by (induction js arbitrary: xs) (simp_all add: shift_left_ok)

lemma remove_index_ok: "value_ok v \<Longrightarrow> remove_index i v = (b, w, r) \<Longrightarrow> value_ok w \<and> (\<forall>u. r = Some u \<longrightarrow> value_ok u)"
proof (cases "payload v")
  case (vt_array xs)
  assume a: "value_ok v" "remove_index i v = (b, w, r)"
  then have xs: "entries_ok (<) (\<lambda>i. True) xs" using vt_array by simp
  show ?thesis using a xs vt_array
    by (auto simp: remove_index_def Let_def slots.erase_entries shifts_left_ok intro: slots.find_value split: option.splits)
qed (auto simp: remove_index_def)

lemma path_make_ok: "value_ok v \<Longrightarrow> path_make as v = Inr (w, p) \<Longrightarrow> value_ok w"
proof (induction as arbitrary: v w p)
  case (Cons a as)
  have step: "value_ok w" if v': "value_ok v'" and m:
    "(case child k v' of None \<Rightarrow> Inr (v', []) | Some x \<Rightarrow>
       (case path_make as x of Inl e \<Rightarrow> Inl e | Inr (w', ks) \<Rightarrow> Inr (upd_child k (\<lambda>_. w') v', k # ks))) = Inr (w, p)" for v' k
  proof (cases "child k v'")
    case (Some x)
    then obtain w' ks where "path_make as x = Inr (w', ks)" "w = upd_child k (\<lambda>_. w') v'" using m by (auto split: sum.splits)
    moreover from this(1) have "value_ok w'" by (rule Cons.IH [OF child_ok [OF v' Some]])
    ultimately show ?thesis using upd_child_ok [OF v', of "\<lambda>_. w'"] by simp
  qed (use v' m in auto)
  show ?case
  proof (cases a)
    case (kind_index i)
    then obtain v' where "array_ref i v = Inr v'" using Cons.prems(2) by (auto split: sum.splits)
    then show ?thesis using step [of v' "key_index i"] array_ref_ok [OF Cons.prems(1)] Cons.prems(2) kind_index by simp
  next
    case (kind_key s)
    then obtain v' where "resolve_reference s v = Inr v'" using Cons.prems(2) by (auto split: sum.splits)
    then show ?thesis using step [of v' "key_name (czstring s)"] resolve_reference_ok [OF Cons.prems(1)] Cons.prems(2) kind_key by simp
  qed (use Cons in auto)
qed simp


section \<open>Values that a program can build\<close>

text \<open>A program starts from constructors and applies the operations, to a value or to an element of it that a reference
  denotes. The results that operations return or hand over are values of the program, too.\<close>

inductive built_value :: "'d real_ops \<Rightarrow> 'd json_value \<Rightarrow> bool" for R where
  b_type: "built_value R (value_of_type R t)"
| b_int: "built_value R (value_int64 i)"
| b_uint: "built_value R (value_uint64 u)"
| b_double: "built_value R (value_double d)"
| b_bool: "built_value R (value_bool b)"
| b_string: "value_string s = Inr v \<Longrightarrow> built_value R v"
| b_static: "built_value R (value_static_string s)"
| b_swap: "built_value R v \<Longrightarrow> built_value R w \<Longrightarrow> swap_payload v w = (v', w') \<Longrightarrow> built_value R v'"
| b_offset: "built_value R v \<Longrightarrow> built_value R (set_offset_limit n (set_offset_start m v))"
| b_comment: "built_value R v \<Longrightarrow> set_comment c pl v = Inr w \<Longrightarrow> built_value R w"
| b_clear: "built_value R v \<Longrightarrow> value_clear v = Inr w \<Longrightarrow> built_value R w"
| b_index: "built_value R v \<Longrightarrow> array_ref i v = Inr w \<Longrightarrow> built_value R w"
| b_key: "built_value R v \<Longrightarrow> resolve_reference k v = Inr w \<Longrightarrow> built_value R w"
| b_resize: "built_value R v \<Longrightarrow> value_resize n v = Some (Inr w) \<Longrightarrow> built_value R w"
| b_append: "built_value R v \<Longrightarrow> built_value R u \<Longrightarrow> append_value u v = Inr w \<Longrightarrow> built_value R w"
| b_remove: "built_value R v \<Longrightarrow> remove_member k v = (b, w, r) \<Longrightarrow> built_value R w"
| b_removed: "built_value R v \<Longrightarrow> remove_member k v = (b, w, Some u) \<Longrightarrow> built_value R u"
| b_take: "built_value R v \<Longrightarrow> take_member k v = Inr (w, u) \<Longrightarrow> built_value R w"
| b_remove_index: "built_value R v \<Longrightarrow> remove_index i v = (b, w, r) \<Longrightarrow> built_value R w"
| b_path: "built_value R v \<Longrightarrow> path_make as v = Inr (w, p) \<Longrightarrow> built_value R w"
| b_element: "built_value R v \<Longrightarrow> value_at p v = Some w \<Longrightarrow> built_value R w"
| b_assign: "built_value R v \<Longrightarrow> built_value R u \<Longrightarrow> built_value R (upd_at p (\<lambda>_. u) v)"

lemma value_at_ok: "value_ok v \<Longrightarrow> value_at p v = Some w \<Longrightarrow> value_ok w"
  by (induction p arbitrary: v) (auto split: option.splits dest: child_ok)

lemma constructed_ok:
  "value_ok (value_int64 i)" "value_ok (value_uint64 u)" "value_ok (value_double d)" "value_ok (value_bool b)" "value_ok (value_static_string s)"
  by (rule value_ok_scalar; simp add: value_int64_def value_uint64_def value_double_def value_bool_def value_static_string_def init_basic_def)+

lemma built_value_ok: "built_value R v \<Longrightarrow> value_ok v"
proof (induction rule: built_value.induct)
  case (b_type t)
  show ?case by (cases t) (auto intro!: value_ok_scalar simp: value_of_type_def init_basic_def)
next
  case (b_string s v)
  then have "\<exists>t. payload v = vt_string t" by (auto simp: value_string_def init_basic_def map_sum_def split: sum.splits)
  then show ?case by (auto intro: value_ok_scalar)
next
  case (b_swap v w v' w')
  then show ?case using value_ok_payload [of w v'] by (auto simp: swap_payload_def)
next
  case (b_offset v n m)
  then show ?case using value_ok_payload [of v] by (simp add: set_offset_limit_def set_offset_start_def)
next
  case (b_comment v c pl w)
  then show ?case using value_ok_payload [of v w] by (auto simp: set_comment_def json_assert_def Let_def split: if_splits)
next
  case (b_assign v u p)
  then show ?case by (blast intro: upd_at_ok)
qed (simp_all add: constructed_ok, (blast dest: value_clear_ok array_ref_ok resolve_reference_ok value_resize_ok append_value_ok
    remove_member_ok take_member_ok remove_index_ok path_make_ok value_at_ok)+)


lemma czstring_short: "length k < 2 ^ 30 \<Longrightarrow> czstring k = k"
  by (simp add: czstring_def)

lemma member_names:
  assumes "value_ok v" "get_member_names v = Inr names"
  shows "sorted_wrt czstring_less names \<and> distinct names \<and> (\<forall>k \<in> set names. is_member k v = Inr True)"
proof (cases "payload v")
  case (vt_object xs)
  then have xs: "om_ok czstring_less (\<lambda>k. True) xs" "\<forall>k \<in> fst ` set xs. short_name k" "names = map fst xs"
    using assms om_ok_keys_iff [of czstring_less short_name xs] by (auto simp: get_member_names_def entries_ok_def)
  have sorted: "sorted_wrt czstring_less names" using xs(1,3) by (simp add: om_ok_def sorted_wrt_map)
  then have "distinct names" using names.irrefl by (induction names) auto
  moreover have "is_member k v = Inr True" if k: "k \<in> set names" for k
  proof -
    obtain i where i: "i < length xs" "fst (xs ! i) = k" using k xs(3) by (auto simp: in_set_conv_nth)
    then have "om_find czstring_less xs k \<noteq> None" using names.find_nth [OF xs(1) i(1)] i(2) by simp
    moreover have "czstring k = k" using xs(2,3) k by (intro czstring_short) (auto simp: short_name_def)
    ultimately show ?thesis using vt_object by (simp add: is_member_def find_member_def)
  qed
  ultimately show ?thesis using sorted by blast
qed (use assms in \<open>auto simp: get_member_names_def\<close>)

text \<open>Every value that a program can build with the operations of the class, at any depth, is well formed: the maps of its
  arrays and objects are ordered by \<open>operator<\<close> of their keys and hold no key twice, in all of its elements. So the names that
  \<open>get_member_names\<close> returns are in strict order, without duplicates, and each of them is a member.\<close>

theorem built_values_well_formed:
  assumes "built_value R v"
  shows "value_ok v \<and> (\<forall>names. get_member_names v = Inr names \<longrightarrow>
    sorted_wrt czstring_less names \<and> distinct names \<and> (\<forall>k \<in> set names. is_member k v = Inr True))"
  using built_value_ok [OF assms] member_names by blast

text \<open>The object with the members \<open>b\<close> and \<open>a\<close>, added in this order.\<close>

theorem built_values_well_formed_witness:
  "let R = \<lparr> rl_eq = (\<lambda>x y :: unit. True), rl_less = (\<lambda>x y. False), rl_of_int = (\<lambda>i. ()), rl_trunc = (\<lambda>x. 0), rl_integral = (\<lambda>x. True) \<rparr>;
       v = init_basic (vt_object [(lit ''a'', null_ref), (lit ''b'', null_ref)])
   in built_value R v \<and> get_member_names v = Inr [lit ''a'', lit ''b''] \<and> value_ok v"
proof -
  let ?R = "\<lparr> rl_eq = (\<lambda>x y :: unit. True), rl_less = (\<lambda>x y. False), rl_of_int = (\<lambda>i. ()), rl_trunc = (\<lambda>x. 0), rl_integral = (\<lambda>x. True) \<rparr>"
  let ?v = "init_basic (vt_object [(lit ''a'', null_ref), (lit ''b'', null_ref)])"
  have "built_value ?R (init_basic (vt_object [(lit ''b'', null_ref)]))"
    by (rule b_key [OF b_type [of _ ty_object], of "lit ''b''"])
      (simp add: value_of_type_def resolve_reference_def init_basic_def ensure_def czstring_def)
  then have "built_value ?R ?v"
    by (rule b_key [of _ _ "lit ''a''"]) (simp add: resolve_reference_def init_basic_def ensure_def czstring_def)
  then show ?thesis using built_values_well_formed [of ?R ?v] by (simp add: get_member_names_def init_basic_def Let_def)
qed


section \<open>Arrays as lists\<close>

text \<open>The elements of an array by their positions. A position without an entry reads as a null value.\<close>

definition array_list :: "'d json_value \<Rightarrow> 'd json_value list" where
  "array_list v = elements (unat (value_size v)) v"

definition slot :: "(32 word \<times> 'd json_value) list \<Rightarrow> nat \<Rightarrow> 'd json_value" where
  "slot xs i = (case om_find (<) xs (of_nat i) of None \<Rightarrow> null_ref | Some w \<Rightarrow> w)"

text \<open>The greatest index wraps the size to 0, so it is excluded.\<close>

definition array_ok :: "'d json_value \<Rightarrow> bool" where
  "array_ok v \<longleftrightarrow> value_ok v \<and> (case payload v of vt_array xs \<Rightarrow> - 1 \<notin> fst ` set xs | _ \<Rightarrow> False)"

lemma array_okE:
  assumes "array_ok v"
  obtains xs where "payload v = vt_array xs" "om_ok (<) (\<lambda>k. True) xs" "- 1 \<notin> fst ` set xs" "entries_ok (<) (\<lambda>k. True) xs"
  using assms by (cases "payload v") (auto simp: array_ok_def entries_ok_def)

lemma array_list_slots: "payload v = vt_array xs \<Longrightarrow> array_list v = map (slot xs) [0..<unat (value_size v)]"
  by (simp add: array_list_def elements_def array_at_def slot_def)

lemma unat_succ: "i \<noteq> - 1 \<Longrightarrow> unat (i + 1) = Suc (unat i)" for i :: "32 word"
  using unatSuc [of i] by (simp add: add.commute eq_neg_iff_add_eq_0)

lemma unat32: "unat i < 2 ^ 32" for i :: "32 word"
  using unsigned_less [of i] by simp

lemma unat_of_nat32: "i < 2 ^ 32 \<Longrightarrow> unat (of_nat i :: 32 word) = i"
  by (simp add: unat_of_nat)

lemma last_key: "om_ok (<) (\<lambda>k. True) xs \<Longrightarrow> x \<in> set xs \<Longrightarrow> fst x \<le> fst (last xs)" for xs :: "(32 word \<times> 'a) list"
  by (induction xs) (auto simp: om_ok_def less_imp_le)

lemma keys_below_size:
  assumes "payload v = vt_array xs" "om_ok (<) (\<lambda>k. True) xs" "- 1 \<notin> fst ` set xs" "k \<in> fst ` set xs"
  shows "k < value_size v"
proof -
  obtain x where x: "x \<in> set xs" "fst x = k" using assms(4) by auto
  then have "last xs \<in> set xs" by (cases xs) auto
  then have "fst (last xs) \<noteq> - 1" using assms(3) by force
  then have "unat (fst (last xs) + 1) = Suc (unat (fst (last xs)))" by (rule unat_succ)
  moreover have "k \<le> fst (last xs)" using last_key [OF assms(2) x(1)] x(2) by simp
  ultimately have "k < fst (last xs) + 1" by (simp add: word_less_nat_alt word_le_nat_alt)
  then show ?thesis using assms(1) x(1) by (auto simp: value_size_def)
qed

text \<open>The size is one more than the greatest index that has an entry.\<close>

lemma size_by_entries:
  assumes "payload v = vt_array xs" "om_ok (<) (\<lambda>k. True) xs" "om_find (<) xs n \<noteq> None" "\<And>j. n < j \<Longrightarrow> om_find (<) xs j = None"
  shows "value_size v = n + 1"
proof -
  obtain x where x: "x \<in> set xs" "fst x = n" using assms(3) slots.find_None [OF assms(2), of n] by auto
  then have "last xs \<in> set xs" by (cases xs) auto
  then have "fst (last xs) \<in> fst ` set xs" by (rule imageI)
  then have "om_find (<) xs (fst (last xs)) \<noteq> None" using slots.find_None [OF assms(2), of "fst (last xs)"] by simp
  then have "\<not> n < fst (last xs)" using assms(4) by auto
  then have "fst (last xs) = n" using last_key [OF assms(2) x(1)] x(2) by simp
  then show ?thesis using assms(1) x(1) by (auto simp: value_size_def)
qed

lemma find_below_size:
  assumes "payload v = vt_array xs" "om_ok (<) (\<lambda>k. True) xs" "- 1 \<notin> fst ` set xs" "value_size v \<le> k"
  shows "om_find (<) xs k = None"
proof -
  have "k \<notin> fst ` set xs" using keys_below_size [OF assms(1-3), of k] assms(4) leD by blast
  then show ?thesis using slots.find_None [OF assms(2)] by blast
qed

text \<open>A new entry behind the last one; the positions between are null values.\<close>

lemma entry_behind:
  assumes "payload v = vt_array xs" "om_ok (<) (\<lambda>k. True) xs" "- 1 \<notin> fst ` set xs" "value_size v \<le> k" "k \<noteq> - 1"
    "payload v' = vt_array (om_assign (<) k w xs)"
  shows "value_size v' = k + 1"
    and "array_list v' = array_list v @ replicate (unat k - unat (value_size v)) null_ref @ [w]"
proof -
  have find: "om_find (<) (om_assign (<) k w xs) j = (if k = j then Some w else om_find (<) xs j)" for j
    using assms(2) by (rule slots.find_assigned)
  show size: "value_size v' = k + 1"
    using assms(6) om_linorder.assign_ok [OF assms(2)] find find_below_size [OF assms(1-3)] assms(4) by (intro size_by_entries) auto
  have n: "unat (k + 1) = Suc (unat k)" using assms(5) by (rule unat_succ)
  have old: "unat (value_size v) \<le> unat k" using assms(4) by (simp add: word_le_nat_alt)
  have at: "slot (om_assign (<) k w xs) i = (if i = unat k then w else if i < unat (value_size v) then slot xs i else null_ref)" if "i \<le> unat k" for i
  proof -
    have "i < 2 ^ 32" using that unat32 [of k] by simp
    then have "unat (of_nat i :: 32 word) = i" by (simp add: unat_of_nat)
    then have "k = of_nat i \<longleftrightarrow> i = unat k" "value_size v \<le> of_nat i \<longleftrightarrow> \<not> i < unat (value_size v)" by (auto simp: word_le_nat_alt)
    then show ?thesis using find_below_size [OF assms(1-3), of "of_nat i"] by (simp add: slot_def find)
  qed
  show "array_list v' = array_list v @ replicate (unat k - unat (value_size v)) null_ref @ [w]"
    unfolding array_list_slots [OF assms(1)] array_list_slots [OF assms(6)] size n
    using at old by (intro nth_equalityI) (auto simp: nth_append)
qed


lemma ensure_behind: "om_find lt xs k = None \<Longrightarrow> ensure lt k xs = om_assign lt k null_ref xs"
  by (simp add: ensure_def)

lemma append_list:
  assumes "array_ok v" "value_size v \<noteq> - 1"
  shows "\<exists>v'. append_value w v = Inr v' \<and> array_list v' = array_list v @ [w]"
proof -
  obtain xs where xs: "payload v = vt_array xs" "om_ok (<) (\<lambda>k. True) xs" "- 1 \<notin> fst ` set xs" using assms(1) by (rule array_okE)
  let ?n = "value_size v"
  have behind: "\<forall>x \<in> set xs. fst x < ?n" using keys_below_size [OF xs] by blast
  have "ensure (<) ?n xs = xs @ [(?n, null_ref)]"
    using find_below_size [OF xs order_refl] slots.assign_behind [OF behind] by (simp add: ensure_behind)
  moreover have "upd_entry ?n (\<lambda>_. w) (xs @ [(?n, null_ref)]) = om_assign (<) ?n w xs"
    using behind slots.assign_behind [OF behind] by (auto simp: upd_entry_def intro!: map_idI)
  ultimately obtain v' where "append_value w v = Inr v'" "payload v' = vt_array (om_assign (<) ?n w xs)"
    using xs(1) by (simp add: append_value_def array_ref_def upd_child_def)
  then show ?thesis using entry_behind(2) [OF xs order_refl assms(2)] by auto
qed

lemma resize_grow_list:
  assumes "array_ok v" "value_size v < n"
  shows "\<exists>v'. value_resize n v = Some (Inr v') \<and> value_size v' = n \<and>
    array_list v' = array_list v @ replicate (unat n - unat (value_size v)) null_ref"
proof -
  obtain xs where xs: "payload v = vt_array xs" "om_ok (<) (\<lambda>k. True) xs" "- 1 \<notin> fst ` set xs" using assms(1) by (rule array_okE)
  have n: "n \<noteq> 0" "n - 1 \<noteq> - 1" using assms(2) by auto
  then have u: "unat n = Suc (unat (n - 1))" using unat_succ [of "n - 1"] by simp
  have le: "value_size v \<le> n - 1" using assms(2) u by (simp add: word_less_nat_alt word_le_nat_alt)
  have "array_ref (n - 1) v = Inr (Value (vt_array (om_assign (<) (n - 1) null_ref xs)) (comments v) (offset_start v) (offset_limit v))"
    using xs(1) find_below_size [OF xs le] by (simp add: array_ref_def ensure_behind)
  moreover have "value_resize n v = Some (array_ref (n - 1) v)"
    using xs(1) n assms(2) by (simp add: value_resize_def is_null_def is_array_def type_of_def)
  moreover have "unat n - unat (value_size v) = Suc (unat (n - 1) - unat (value_size v))"
    using u le by (simp add: Suc_diff_le word_le_nat_alt)
  ultimately show ?thesis using entry_behind [OF xs le n(2)] by (simp add: replicate_append_same)
qed

lemma find_erase_range:
  "om_ok (<) (\<lambda>k. True) xs \<Longrightarrow> hi \<le> 2 ^ 32 \<Longrightarrow> om_ok (<) (\<lambda>k. True) (erase_range lo hi xs) \<and>
    (\<forall>j. om_find (<) (erase_range lo hi xs) j = (if lo \<le> unat j \<and> unat j < hi then None else om_find (<) xs j))"
proof (induction hi)
  case (Suc hi)
  show ?case
  proof (cases "lo \<le> hi")
    case True
    have "unat (of_nat hi :: 32 word) = hi" using Suc.prems(2) by (simp add: unat_of_nat)
    then have "of_nat hi = j \<longleftrightarrow> unat j = hi" for j :: "32 word" by auto
    moreover have "erase_range lo (Suc hi) xs = om_erase (<) (of_nat hi) (erase_range lo hi xs)"
      using True by (simp add: erase_range_def)
    moreover have "om_ok (<) (\<lambda>k. True) (erase_range lo hi xs)" using Suc by simp
    ultimately show ?thesis using Suc True om_linorder.erase_ok [of "erase_range lo hi xs"]
      slots.find_erased [of "erase_range lo hi xs" "of_nat hi"] by simp
  next
    case False
    then show ?thesis using Suc.prems by (auto simp: erase_range_def)
  qed
qed (simp add: erase_range_def)

lemma resize_shrink_list:
  assumes "array_ok v" "0 < n" "n \<le> value_size v" "child (key_index (n - 1)) v \<noteq> None"
  shows "\<exists>v'. value_resize n v = Some (Inr v') \<and> array_list v' = take (unat n) (array_list v)"
proof -
  obtain xs where xs: "payload v = vt_array xs" "om_ok (<) (\<lambda>k. True) xs" "- 1 \<notin> fst ` set xs" using assms(1) by (rule array_okE)
  let ?ys = "erase_range (unat n) (unat (value_size v)) xs"
  let ?v = "Value (vt_array ?ys) (comments v) (offset_start v) (offset_limit v)"
  have u: "unat n = Suc (unat (n - 1))" using assms(2) unat_succ [of "n - 1"] by auto
  have ys: "om_ok (<) (\<lambda>k. True) ?ys"
    "\<And>j. om_find (<) ?ys j = (if unat n \<le> unat j \<and> unat j < unat (value_size v) then None else om_find (<) xs j)"
    using find_erase_range [OF xs(2) less_imp_le [OF unat32 [of "value_size v"]]] by auto
  have "om_find (<) xs (n - 1) \<noteq> None" using assms(4) xs by (simp add: child_def slots.find_map_of)
  moreover have "om_find (<) ?ys j = None" if "n - 1 < j" for j
    using that u ys(2) [of j] find_below_size [OF xs, of j] by (auto simp: word_less_nat_alt word_le_nat_alt)
  ultimately have "value_size ?v = n - 1 + 1" using ys(1) ys(2) [of "n - 1"] u by (intro size_by_entries [of ?v ?ys]) simp_all
  then have size: "value_size ?v = n" by simp
  have slots: "slot ?ys i = slot xs i" if "i < unat n" for i
  proof -
    have "unat (of_nat i :: 32 word) = i" using that unat32 [of n] by (simp add: unat_of_nat)
    then show ?thesis using that by (simp add: slot_def ys(2))
  qed
  have "array_list ?v = map (slot ?ys) [0..<unat n]" using array_list_slots [of ?v] size by simp
  also have "\<dots> = take (unat n) (array_list v)"
    unfolding array_list_slots [OF xs(1)] using assms(3) slots by (auto simp: take_map word_le_nat_alt intro!: map_cong)
  finally have "array_list ?v = take (unat n) (array_list v)" .
  moreover have "n \<noteq> 0" "\<not> value_size v < n" using assms(2,3) by auto
  then have "value_resize n v = Some (Inr ?v)"
    using xs(1) size by (simp add: value_resize_def is_null_def is_array_def type_of_def Let_def)
  ultimately show ?thesis by blast
qed


text \<open>Where there is no entry at the new last position, the assertion at the end of \<open>resize\<close> fails.\<close>

lemma resize_shrink_fails:
  assumes "array_ok v" "0 < n" "n \<le> value_size v" "child (key_index (n - 1)) v = None"
  shows "value_resize n v = None"
proof -
  obtain xs where xs: "payload v = vt_array xs" "om_ok (<) (\<lambda>k. True) xs" "- 1 \<notin> fst ` set xs" using assms(1) by (rule array_okE)
  let ?ys = "erase_range (unat n) (unat (value_size v)) xs"
  let ?v = "Value (vt_array ?ys) (comments v) (offset_start v) (offset_limit v)"
  have u: "unat n = Suc (unat (n - 1))" using assms(2) unat_succ [of "n - 1"] by auto
  have ys: "om_ok (<) (\<lambda>k. True) ?ys"
    "om_find (<) ?ys (n - 1) = (if unat n \<le> unat (n - 1) \<and> unat (n - 1) < unat (value_size v) then None else om_find (<) xs (n - 1))"
    using find_erase_range [OF xs(2) less_imp_le [OF unat32 [of "value_size v"]]] by auto
  have "om_find (<) xs (n - 1) = None" using assms(4) xs by (simp add: child_def slots.find_map_of)
  then have "om_find (<) ?ys (n - 1) = None" using ys(2) by simp
  then have none: "n - 1 \<notin> fst ` set ?ys" using slots.find_None [OF ys(1)] by blast
  have "value_size ?v \<noteq> n"
  proof
    assume n: "value_size ?v = n"
    have "value_size ?v = (if ?ys = [] then 0 else fst (last ?ys) + 1)" by (subst value_size_def) simp
    then have "?ys \<noteq> []" "fst (last ?ys) = n - 1" using n assms(2) by (auto simp: eq_diff_eq split: if_splits)
    then have "n - 1 \<in> fst ` set ?ys" by (metis imageI last_in_set)
    then show False using none by simp
  qed
  moreover have "n \<noteq> 0" "\<not> value_size v < n" using assms(2,3) by auto
  ultimately show ?thesis
    using xs(1) by (simp add: value_resize_def is_null_def is_array_def type_of_def Let_def)
qed

lemma resize_clears:
  assumes "array_ok v"
  shows "\<exists>v'. value_resize 0 v = Some (Inr v') \<and> array_list v' = []"
proof -
  obtain xs where "payload v = vt_array xs" using assms by (rule array_okE)
  then show ?thesis
    by (simp add: value_resize_def is_null_def is_array_def type_of_def value_clear_def array_list_def value_size_def elements_def)
qed

text \<open>The loop of \<open>remove_index\<close> up to position \<open>m\<close>.\<close>

definition shifted :: "nat \<Rightarrow> nat \<Rightarrow> (32 word \<times> 'd json_value) list \<Rightarrow> nat \<Rightarrow> 'd json_value option" where
  "shifted i m xs j =
     (if i \<le> j \<and> j < m then Some (slot xs (Suc j)) else if j = m \<and> i < m then Some (slot xs m) else om_find (<) xs (of_nat j))"

lemma of_nat_inj32: "i < 2 ^ 32 \<Longrightarrow> j < 2 ^ 32 \<Longrightarrow> (of_nat i :: 32 word) = of_nat j \<longleftrightarrow> i = j"
proof -
  assume "i < 2 ^ 32" "j < 2 ^ 32"
  then have "unat (of_nat i :: 32 word) = i" "unat (of_nat j :: 32 word) = j" by (simp_all only: unat_of_nat32)
  then show ?thesis by metis
qed

lemma find_shift_left:
  assumes "om_ok (<) (\<lambda>k. True) xs" "Suc m < 2 ^ 32" "j < 2 ^ 32"
  shows "om_find (<) (shift_left m xs) (of_nat j) = (if j = m \<or> j = Suc m then Some (slot xs (Suc m)) else om_find (<) xs (of_nat j))"
proof -
  let ?ys = "ensure (<) (of_nat m + 1) xs"
  have s: "(of_nat m + 1 :: 32 word) = of_nat (Suc m)" by simp
  have ys: "om_ok (<) (\<lambda>k. True) ?ys" using assms(1) by (rule slots.ensure_sorted)
  have find: "om_find (<) ?ys k = (if of_nat m + 1 = k then Some (slot xs (Suc m)) else om_find (<) xs k)" for k
    using slots.find_ensure [OF assms(1), of "of_nat m + 1" k] by (simp add: slot_def add.commute)
  have "shift_left m xs = om_assign (<) (of_nat m) (slot xs (Suc m)) ?ys" by (simp add: shift_left_def Let_def find)
  then have a: "om_find (<) (shift_left m xs) (of_nat j) = (if (of_nat m :: 32 word) = of_nat j then Some (slot xs (Suc m)) else om_find (<) ?ys (of_nat j))"
    using slots.find_assigned [OF ys, of "of_nat m"] by simp
  have b: "om_find (<) ?ys (of_nat j) = (if Suc m = j then Some (slot xs (Suc m)) else om_find (<) xs (of_nat j))"
    using find [of "of_nat j"] of_nat_inj32 [OF assms(2,3)] unfolding s by simp
  show ?thesis unfolding a b using of_nat_inj32 [of m j] assms(2,3) by simp
qed

lemma shift_left_sorted: "om_ok (<) (\<lambda>k. True) xs \<Longrightarrow> om_ok (<) (\<lambda>k. True) (shift_left m xs)"
  by (simp add: shift_left_def Let_def om_linorder.assign_ok slots.ensure_sorted)

lemma find_shifted:
  assumes "om_ok (<) (\<lambda>k. True) xs" "i \<le> m" "m < 2 ^ 32"
  shows "om_ok (<) (\<lambda>k. True) (fold shift_left [i..<m] xs) \<and> (\<forall>j < 2 ^ 32. om_find (<) (fold shift_left [i..<m] xs) (of_nat j) = shifted i m xs j)"
  using assms(2,3)
proof (induction m rule: dec_induct)
  case base
  then show ?case using assms(1) by (auto simp: shifted_def)
next
  case (step m)
  let ?ys = "fold shift_left [i..<m] xs"
  have ys: "om_ok (<) (\<lambda>k. True) ?ys" "\<forall>j < 2 ^ 32. om_find (<) ?ys (of_nat j) = shifted i m xs j" using step by auto
  have "slot ?ys (Suc m) = slot xs (Suc m)" using ys(2) step.prems by (simp add: slot_def shifted_def del: of_nat_Suc)
  then have "om_find (<) (shift_left m ?ys) (of_nat j) = shifted i (Suc m) xs j" if "j < 2 ^ 32" for j
    using find_shift_left [OF ys(1) step.prems that] ys(2) that step.hyps by (auto simp: shifted_def)
  then show ?case using shift_left_sorted [OF ys(1), of m] step.hyps by simp
qed


lemma no_entries: "om_ok (<) (\<lambda>k. True) xs \<Longrightarrow> (\<And>j. om_find (<) xs j = None) \<Longrightarrow> xs = []" for xs :: "(32 word \<times> 'a) list"
  using slots.find_nth [of xs 0] by (cases xs) auto

lemma remove_index_list:
  assumes "array_ok v" "child (key_index i) v \<noteq> None" "i + 1 < value_size v \<or> i = 0 \<or> child (key_index (i - 1)) v \<noteq> None"
  shows "\<exists>v'. remove_index i v = (True, v', Some (array_list v ! unat i)) \<and>
    array_list v' = take (unat i) (array_list v) @ drop (Suc (unat i)) (array_list v)"
proof -
  obtain xs where xs: "payload v = vt_array xs" "om_ok (<) (\<lambda>k. True) xs" "- 1 \<notin> fst ` set xs" using assms(1) by (rule array_okE)
  define n where "n = unat (value_size v)"
  define m where "m = n - 1"
  have i: "om_find (<) xs i \<noteq> None" using assms(2) xs by (simp add: child_def slots.find_map_of)
  then have "i < value_size v" using find_below_size [OF xs, of i] by force
  then have below: "unat i < n" "value_size v \<noteq> 0" by (auto simp: n_def word_less_nat_alt)
  then have n: "n = Suc m" "unat i \<le> m" "unat (value_size v - 1) = m"
    using unat_succ [of "value_size v - 1"] by (auto simp: n_def m_def)
  have n32: "n < 2 ^ 32" unfolding n_def by (rule unat32)
  let ?zs = "fold shift_left [unat i..<m] xs"
  let ?ys = "om_erase (<) (value_size v - 1) ?zs"
  let ?v = "Value (vt_array ?ys) (comments v) (offset_start v) (offset_limit v)"
  have zs: "om_ok (<) (\<lambda>k. True) ?zs" "\<forall>j < 2 ^ 32. om_find (<) ?zs (of_nat j) = shifted (unat i) m xs j"
    using find_shifted [OF xs(2) n(2)] n(1) n32 by auto
  have "value_size v - 1 = of_nat m" using n(3) by auto
  then have ys: "om_find (<) ?ys (of_nat j) = (if j = m then None else shifted (unat i) m xs j)" if "j < 2 ^ 32" for j
    using slots.find_erased [OF zs(1), of "of_nat m" "of_nat j"] zs(2) that of_nat_inj32 [of m j] n(1) n32 by auto
  have ys_ok: "om_ok (<) (\<lambda>k. True) ?ys" using zs(1) by (rule om_linorder.erase_ok)
  have behind: "om_find (<) ?ys j = None" if "m \<le> unat j" for j
    using ys [of "unat j"] unat32 [of j] find_below_size [OF xs, of j] that n(1,2)
    by (auto simp: shifted_def n_def word_le_nat_alt)
  have size: "unat (value_size ?v) = m"
  proof (cases m)
    case 0
    then have "?ys = []" using ys_ok behind by (intro no_entries) auto
    then show ?thesis using 0 by (simp add: value_size_def)
  next
    case (Suc k)
    have k: "(of_nat k :: 32 word) + 1 = of_nat m" using Suc by simp
    have u: "unat (of_nat m :: 32 word) = m" "unat (of_nat k :: 32 word) = k" using Suc n(1) n32 by (simp_all only: unat_of_nat32)
    have "om_find (<) ?ys (of_nat k) \<noteq> None"
    proof (cases "unat i \<le> k")
      case False
      then have i_k: "unat i = Suc k" using n(2) Suc by simp
      have "i = of_nat (unat i)" "value_size v = of_nat n" by (simp_all add: n_def)
      then have "i - 1 = of_nat k" "value_size v = i + 1" unfolding i_k n(1) Suc by simp_all
      then have "child (key_index (of_nat k)) v \<noteq> None" using assms(3) i_k by auto
      then have "om_find (<) xs (of_nat k) \<noteq> None" using xs by (simp add: child_def slots.find_map_of)
      then show ?thesis using ys [of k] Suc n(1) n32 i_k by (simp add: shifted_def)
    qed (use ys [of k] Suc n(1) n32 in \<open>simp add: shifted_def\<close>)
    moreover have "om_find (<) ?ys j = None" if "of_nat k < j" for j using behind that Suc u(2) by (simp add: word_less_nat_alt)
    ultimately have "value_size ?v = of_nat k + 1" using ys_ok by (intro size_by_entries [of ?v ?ys]) auto
    then show ?thesis using k u(1) by simp
  qed
  have slots: "slot ?ys j = slot xs (if j < unat i then j else Suc j)" if "j < m" for j
    using that ys [of j] n(1) n32 by (auto simp: slot_def shifted_def)
  have "array_list ?v = map (slot ?ys) [0..<m]" using array_list_slots [of ?v] size by simp
  also have "\<dots> = take (unat i) (array_list v) @ drop (Suc (unat i)) (array_list v)"
    unfolding array_list_slots [OF xs(1)] n_def [symmetric] using slots n(1,2)
    by (intro nth_equalityI) (auto simp: nth_append min_def simp del: upt_Suc)
  finally have "array_list ?v = take (unat i) (array_list v) @ drop (Suc (unat i)) (array_list v)" .
  moreover obtain w where w: "om_find (<) xs i = Some w" using i by auto
  have "array_list v ! unat i = w"
    using array_list_slots [OF xs(1)] below(1) w by (simp add: n_def slot_def del: upt_Suc)
  then have "remove_index i v = (True, ?v, Some (array_list v ! unat i))" using xs(1) w n(3) by (simp add: remove_index_def Let_def)
  ultimately show ?thesis by blast
qed


text \<open>C10: Arrays are lists. Let \<open>l\<close> be the elements of an array by position, where a position without an entry reads as null.
  \<open>append\<close> adds a value behind \<open>l\<close>, if the size is below the maximum of \<open>array_index\<close>; \<open>resize\<close> to a greater size adds nulls,
  to 0 it clears the array; \<open>resize\<close> to a smaller positive size takes a prefix of \<open>l\<close> if the array has an entry at the new last
  position, and otherwise fails its assertion; \<open>remove_index\<close> at an entry hands the element over and removes it from \<open>l\<close>, if it is
  not the last one or an entry stands immediately before it. The array is well formed and has no entry at the greatest index.\<close>

theorem array_refines_list:
  assumes "array_ok v"
  shows "(value_size v \<noteq> - 1 \<longrightarrow> (\<exists>v'. append_value w v = Inr v' \<and> array_list v' = array_list v @ [w])) \<and>
    (value_size v < n \<longrightarrow> (\<exists>v'. value_resize n v = Some (Inr v') \<and> value_size v' = n \<and>
       array_list v' = array_list v @ replicate (unat n - unat (value_size v)) null_ref)) \<and>
    (0 < n \<and> n \<le> value_size v \<and> child (key_index (n - 1)) v \<noteq> None \<longrightarrow>
       (\<exists>v'. value_resize n v = Some (Inr v') \<and> array_list v' = take (unat n) (array_list v))) \<and>
    (0 < n \<and> n \<le> value_size v \<and> child (key_index (n - 1)) v = None \<longrightarrow> value_resize n v = None) \<and>
    (\<exists>v'. value_resize 0 v = Some (Inr v') \<and> array_list v' = []) \<and>
    (child (key_index i) v \<noteq> None \<and> (i + 1 < value_size v \<or> i = 0 \<or> child (key_index (i - 1)) v \<noteq> None) \<longrightarrow>
       (\<exists>v'. remove_index i v = (True, v', Some (array_list v ! unat i)) \<and>
          array_list v' = take (unat i) (array_list v) @ drop (Suc (unat i)) (array_list v)))"
  by (intro conjI impI append_list [OF assms] resize_grow_list [OF assms] resize_shrink_list [OF assms] resize_shrink_fails [OF assms]
      resize_clears [OF assms] remove_index_list [OF assms]) auto

text \<open>The array of a true and a false value.\<close>

theorem array_refines_list_witness:
  "let v = init_basic (vt_array [(0, value_bool True), (1, value_bool False)]) :: unit json_value
   in array_list v = [value_bool True, value_bool False] \<and>
     (\<exists>v'. append_value null_ref v = Inr v' \<and> array_list v' = [value_bool True, value_bool False, null_ref]) \<and>
     (\<exists>v'. value_resize 4 v = Some (Inr v') \<and> array_list v' = [value_bool True, value_bool False, null_ref, null_ref]) \<and>
     (\<exists>v'. value_resize 1 v = Some (Inr v') \<and> array_list v' = [value_bool True]) \<and>
     (\<exists>v'. remove_index 0 v = (True, v', Some (value_bool True)) \<and> array_list v' = [value_bool False])"
proof -
  let ?v = "init_basic (vt_array [(0, value_bool True), (1, value_bool False)]) :: unit json_value"
  have ok: "array_ok ?v" by (auto simp: array_ok_def init_basic_def entries_ok_def om_ok_def constructed_ok)
  have s: "value_size ?v = 2" by (simp add: value_size_def init_basic_def)
  have l: "array_list ?v = [value_bool True, value_bool False]"
    by (simp add: array_list_def s elements_def upt_rec) (simp add: array_at_def init_basic_def)
  note r = array_refines_list [OF ok, of null_ref, unfolded s l]
  have "replicate 2 x = [x, x]" for x :: "unit json_value" by (simp add: numeral_2_eq_2)
  then show ?thesis using r [of 4 0] r [of 1 0] l unfolding Let_def by (auto simp: child_def init_basic_def)
qed

end
