(* ===== verification/Json_Object.thy ===== *)
theory Json_Object
  imports Json_Invariant
begin

text \<open>
  Objects as finite maps. The operations of \<open>core/data/json/value.cpp\<close> that work on an object by names (access with
  \<open>operator[]\<close>, \<open>find\<close>, \<open>get\<close>, \<open>is_member\<close>, the two kinds of \<open>remove_member\<close>, \<open>get_member_names\<close>, \<open>size\<close>, \<open>empty\<close>,
  \<open>clear\<close>) are run in any order on a value that is null or an object, and compared with the operations of a
  finite map from names to values.
\<close>

section \<open>Programs\<close>

datatype 'd object_op =
    op_assign "byte list" "'d json_value"
  | op_touch "byte list"
  | op_find "byte list"
  | op_get "byte list" "'d json_value"
  | op_is_member "byte list"
  | op_remove "byte list"
  | op_take "byte list"
  | op_names
  | op_size
  | op_empty
  | op_clear

datatype 'd object_result =
    res_done
  | res_value "'d json_value"
  | res_found "'d json_value option"
  | res_bool bool
  | res_removed bool "'d json_value option"
  | res_names "byte list list"
  | res_size "32 word"

text \<open>The step that an operation makes on a value: \<open>v[key] = w\<close> assigns to the reference that \<open>resolve_reference\<close> returns.\<close>

definition assign_member :: "byte list \<Rightarrow> 'd json_value \<Rightarrow> 'd json_value \<Rightarrow> 'd json_value throws" where
  "assign_member k w v = map_sum id (upd_child (key_name (czstring k)) (\<lambda>_. w)) (resolve_reference k v)"

fun object_step :: "'d object_op \<Rightarrow> 'd json_value \<Rightarrow> ('d object_result \<times> 'd json_value) throws" where
  "object_step (op_assign k w) v = map_sum id (\<lambda>v'. (res_done, v')) (assign_member k w v)"
| "object_step (op_touch k) v = map_sum id (\<lambda>v'. (res_done, v')) (resolve_reference k v)"
| "object_step (op_find k) v = map_sum id (\<lambda>r. (res_found r, v)) (find_member k v)"
| "object_step (op_get k d) v = map_sum id (\<lambda>w. (res_value w, v)) (get_member k d v)"
| "object_step (op_is_member k) v = map_sum id (\<lambda>b. (res_bool b, v)) (is_member k v)"
| "object_step (op_remove k) v = (case remove_member k v of (b, v', r) \<Rightarrow> Inr (res_removed b r, v'))"
| "object_step (op_take k) v = map_sum id (\<lambda>(v', w). (res_value w, v')) (take_member k v)"
| "object_step op_names v = map_sum id (\<lambda>ns. (res_names ns, v)) (get_member_names v)"
| "object_step op_size v = Inr (res_size (value_size v), v)"
| "object_step op_empty v = Inr (res_bool (value_empty v), v)"
| "object_step op_clear v = map_sum id (\<lambda>v'. (res_done, v')) (value_clear v)"

fun object_run :: "'d object_op list \<Rightarrow> 'd json_value \<Rightarrow> ('d object_result list \<times> 'd json_value) throws" where
  "object_run [] v = Inr ([], v)"
| "object_run (op # ops) v = (case object_step op v of
     Inl e \<Rightarrow> Inl e
   | Inr (r, v') \<Rightarrow> map_sum id (\<lambda>(rs, u). (r # rs, u)) (object_run ops v'))"

section \<open>Finite maps\<close>

text \<open>The same operations on a map from names to values. Names come in the order of \<open>czstring::operator<\<close>; the size is a
  32-bit number.\<close>

definition or_null :: "'d json_value option \<Rightarrow> 'd json_value" where
  "or_null r = (case r of None \<Rightarrow> null_ref | Some w \<Rightarrow> w)"

fun map_step :: "'d object_op \<Rightarrow> (byte list \<rightharpoonup> 'd json_value) \<Rightarrow> 'd object_result \<Rightarrow> (byte list \<rightharpoonup> 'd json_value) \<Rightarrow> bool" where
  "map_step (op_assign k w) m r m' \<longleftrightarrow> r = res_done \<and> m' = m(k \<mapsto> w)"
| "map_step (op_touch k) m r m' \<longleftrightarrow> r = res_done \<and> m' = m(k \<mapsto> or_null (m k))"
| "map_step (op_find k) m r m' \<longleftrightarrow> r = res_found (m k) \<and> m' = m"
| "map_step (op_get k d) m r m' \<longleftrightarrow> r = res_value (case m k of None \<Rightarrow> d | Some w \<Rightarrow> w) \<and> m' = m"
| "map_step (op_is_member k) m r m' \<longleftrightarrow> r = res_bool (k \<in> dom m) \<and> m' = m"
| "map_step (op_remove k) m r m' \<longleftrightarrow> r = res_removed (k \<in> dom m) (m k) \<and> m' = m(k := None)"
| "map_step (op_take k) m r m' \<longleftrightarrow> r = res_value (or_null (m k)) \<and> m' = m(k := None)"
| "map_step op_names m r m' \<longleftrightarrow> (\<exists>ns. r = res_names ns \<and> sorted_wrt czstring_less ns \<and> distinct ns \<and> set ns = dom m) \<and> m' = m"
| "map_step op_size m r m' \<longleftrightarrow> r = res_size (of_nat (card (dom m))) \<and> m' = m"
| "map_step op_empty m r m' \<longleftrightarrow> r = res_bool (of_nat (card (dom m)) = (0 :: 32 word)) \<and> m' = m"
| "map_step op_clear m r m' \<longleftrightarrow> r = res_done \<and> m' = Map.empty"

fun map_run :: "'d object_op list \<Rightarrow> (byte list \<rightharpoonup> 'd json_value) \<Rightarrow> 'd object_result list \<Rightarrow> (byte list \<rightharpoonup> 'd json_value) \<Rightarrow> bool" where
  "map_run [] m rs m' \<longleftrightarrow> rs = [] \<and> m' = m"
| "map_run (op # ops) m rs m' \<longleftrightarrow> (\<exists>r rs' u. rs = r # rs' \<and> map_step op m r u \<and> map_run ops u rs' m')"

text \<open>Names have less than \<open>2 ^ 30\<close> characters; the name that the \<open>remove_member\<close> with one argument takes is null-terminated.\<close>

fun op_ok :: "'d object_op \<Rightarrow> bool" where
  "op_ok (op_assign k w) = short_name k"
| "op_ok (op_touch k) = short_name k"
| "op_ok (op_find k) = short_name k"
| "op_ok (op_get k d) = short_name k"
| "op_ok (op_is_member k) = short_name k"
| "op_ok (op_remove k) = short_name k"
| "op_ok (op_take k) = (short_name k \<and> 0 \<notin> set k)"
| "op_ok op = True"

section \<open>Simulation\<close>

definition object_entries :: "'d json_value \<Rightarrow> (byte list \<times> 'd json_value) list" where
  "object_entries v = (case payload v of vt_object xs \<Rightarrow> xs | _ \<Rightarrow> [])"

definition object_map :: "'d json_value \<Rightarrow> byte list \<rightharpoonup> 'd json_value" where
  "object_map v = map_of (object_entries v)"

definition object_ok :: "'d json_value \<Rightarrow> bool" where
  "object_ok v \<longleftrightarrow> (is_null v \<or> is_object v) \<and> om_ok czstring_less short_name (object_entries v)"

lemma object_okE:
  assumes "object_ok v"
  obtains (null) "payload v = vt_null" "object_map v = Map.empty" "object_entries v = []"
    | (object) xs where "payload v = vt_object xs" "object_map v = map_of xs" "object_entries v = xs"
       "om_ok czstring_less short_name xs" "om_ok czstring_less (\<lambda>k. True) xs"
  using assms om_ok_True [of czstring_less short_name]
  by (cases "payload v") (auto simp: object_ok_def object_map_def object_entries_def is_null_def is_object_def type_of_def)

lemma object_payload:
  assumes "payload v = vt_object xs" "om_ok czstring_less short_name xs"
  shows "object_ok v" "object_map v = map_of xs"
  using assms by (auto simp: object_ok_def object_map_def object_entries_def is_object_def type_of_def)

lemma short_czstring: "short_name k \<Longrightarrow> czstring k = k"
  by (rule czstring_short) (simp add: short_name_def)

lemma sorted_keys:
  assumes "om_ok czstring_less (\<lambda>k. True) xs"
  shows "sorted_wrt czstring_less (map fst xs)" "distinct (map fst xs)"
proof -
  show "sorted_wrt czstring_less (map fst xs)" using assms by (simp add: om_ok_def sorted_wrt_map)
  moreover have "sorted_wrt czstring_less ns \<Longrightarrow> distinct ns" for ns using names.irrefl by (induction ns) auto
  ultimately show "distinct (map fst xs)" by blast
qed

text \<open>Lookup, insertion and removal in the entries, as a map.\<close>

lemma map_of_assign:
  assumes "om_ok czstring_less (\<lambda>k. True) xs"
  shows "map_of (om_assign czstring_less k w xs) = (map_of xs)(k \<mapsto> w)"
proof
  fix j
  show "map_of (om_assign czstring_less k w xs) j = ((map_of xs)(k \<mapsto> w)) j"
    using names.find_assigned [OF assms, of k w j] names.find_map_of [OF assms] names.find_map_of [OF names.assign_ok [OF assms]] by simp
qed

lemma map_of_erase:
  assumes "om_ok czstring_less (\<lambda>k. True) xs"
  shows "map_of (om_erase czstring_less k xs) = (map_of xs)(k := None)"
proof
  fix j
  show "map_of (om_erase czstring_less k xs) j = ((map_of xs)(k := None)) j"
    using names.find_erased [OF assms, of k j] names.find_map_of [OF assms] names.find_map_of [OF names.erase_ok [OF assms]] by simp
qed

lemma om_ok_assign: "om_ok czstring_less short_name xs \<Longrightarrow> short_name k \<Longrightarrow> om_ok czstring_less short_name (om_assign czstring_less k w xs)"
  using names.assign_ok [of xs k w] names.keys_assign [of k w xs] unfolding om_ok_keys_iff [of czstring_less short_name] by blast

lemma om_ok_erase: "om_ok czstring_less short_name xs \<Longrightarrow> om_ok czstring_less short_name (om_erase czstring_less k xs)"
  using names.erase_ok [of xs k] names.erase_subset [of k xs] unfolding om_ok_keys_iff [of czstring_less short_name] by blast

lemma ensure_as_assign:
  assumes "om_ok czstring_less (\<lambda>k. True) xs"
  shows "ensure czstring_less k xs = om_assign czstring_less k (or_null (map_of xs k)) xs"
proof (cases "map_of xs k")
  case None
  then show ?thesis using names.find_map_of [OF assms, of k] by (simp add: ensure_def or_null_def)
next
  case (Some w)
  then have f: "om_find czstring_less xs k = Some w" using names.find_map_of [OF assms, of k] by simp
  obtain u where u: "map_of (ensure czstring_less k xs) k = Some u"
      "\<And>f. upd_entry k f (ensure czstring_less k xs) = om_assign czstring_less k (f u) xs"
    using names.upd_ensure [OF assms, of k] by blast
  have "ensure czstring_less k xs = xs" using f by (simp add: ensure_def)
  moreover have "upd_entry k (\<lambda>x. x) xs = xs" by (auto simp: upd_entry_def intro: map_idI)
  ultimately show ?thesis using u(1) u(2) [of "\<lambda>x. x"] Some by (simp add: or_null_def)
qed

lemma resolved:
  assumes "object_ok v" "short_name k"
  obtains v' xs where "resolve_reference k v = Inr v'" "payload v' = vt_object (ensure czstring_less k xs)"
    "object_map v = map_of xs" "om_ok czstring_less short_name xs"
  using assms(1)
proof (cases rule: object_okE)
  case null
  then show thesis using that [of "init_basic (vt_object (ensure czstring_less k []))" "[]"] short_czstring [OF assms(2)]
    by (simp add: resolve_reference_def init_basic_def om_ok_def)
next
  case (object xs)
  then show thesis using that [of "Value (vt_object (ensure czstring_less k xs)) (comments v) (offset_start v) (offset_limit v)" xs]
      short_czstring [OF assms(2)] by (simp add: resolve_reference_def)
qed

lemma touch_simulated:
  assumes "object_ok v" "short_name k"
  shows "\<exists>v'. resolve_reference k v = Inr v' \<and> object_ok v' \<and> object_map v' = (object_map v)(k \<mapsto> or_null (object_map v k))"
proof -
  obtain v' xs where v': "resolve_reference k v = Inr v'" "payload v' = vt_object (ensure czstring_less k xs)"
    "object_map v = map_of xs" "om_ok czstring_less short_name xs" by (rule resolved [OF assms])
  note xs = om_ok_True [OF v'(4)]
  show ?thesis using v' object_payload [of v'] om_ok_assign [OF v'(4) assms(2)] map_of_assign [OF xs]
    by (simp add: ensure_as_assign [OF xs])
qed

lemma assign_simulated:
  assumes "object_ok v" "short_name k"
  shows "\<exists>v'. assign_member k w v = Inr v' \<and> object_ok v' \<and> object_map v' = (object_map v)(k \<mapsto> w)"
proof -
  obtain v' xs where v': "resolve_reference k v = Inr v'" "payload v' = vt_object (ensure czstring_less k xs)"
    "object_map v = map_of xs" "om_ok czstring_less short_name xs" by (rule resolved [OF assms])
  note xs = om_ok_True [OF v'(4)]
  let ?v = "upd_child (key_name k) (\<lambda>_. w) v'"
  have "payload ?v = vt_object (om_assign czstring_less k w xs)"
    using names.upd_ensure [OF xs, of k] v'(2) by (auto simp: upd_child_def)
  from object_payload [OF this om_ok_assign [OF v'(4) assms(2)]] show ?thesis
    using v'(1,3) short_czstring [OF assms(2)] by (simp add: assign_member_def map_of_assign [OF xs])
qed

lemma find_simulated: "object_ok v \<Longrightarrow> short_name k \<Longrightarrow> find_member k v = Inr (object_map v k)"
  by (erule object_okE) (simp_all add: find_member_def short_czstring names.find_map_of)

lemma remove_simulated:
  assumes "object_ok v" "short_name k"
  shows "\<exists>v'. remove_member k v = (k \<in> dom (object_map v), v', object_map v k) \<and> object_ok v' \<and> object_map v' = (object_map v)(k := None)"
  using assms(1)
proof (cases rule: object_okE)
  case null
  then show ?thesis using assms(1) by (simp add: remove_member_def fun_upd_idem)
next
  case (object xs)
  note found = names.find_map_of [OF object(5), of k]
  show ?thesis
  proof (cases "map_of xs k")
    case None
    then show ?thesis using object assms(1) found short_czstring [OF assms(2)] by (simp add: remove_member_def dom_def fun_upd_idem)
  next
    case (Some w)
    let ?v = "Value (vt_object (om_erase czstring_less k xs)) (comments v) (offset_start v) (offset_limit v)"
    have "object_ok ?v" "object_map ?v = (map_of xs)(k := None)"
      using object_payload [OF _ om_ok_erase [OF object(4)], of ?v k] map_of_erase [OF object(5)] by simp_all
    then show ?thesis using object(1,2) Some found short_czstring [OF assms(2)] by (simp add: remove_member_def dom_def)
  qed
qed

lemma take_simulated:
  assumes "object_ok v" "short_name k" "0 \<notin> set k"
  shows "\<exists>v'. take_member k v = Inr (v', or_null (object_map v k)) \<and> object_ok v' \<and> object_map v' = (object_map v)(k := None)"
proof -
  have whole: "takeWhile (\<lambda>c. c \<noteq> 0) k = k" using assms(3) by (auto simp: takeWhile_eq_all_conv)
  obtain v' where "remove_member k v = (k \<in> dom (object_map v), v', object_map v k)" "object_ok v'"
      "object_map v' = (object_map v)(k := None)"
    using remove_simulated [OF assms(1,2)] by blast
  moreover have "payload v = vt_null \<and> object_map v = Map.empty \<or> (\<exists>xs. payload v = vt_object xs)"
    using assms(1) by (cases rule: object_okE) auto
  ultimately show ?thesis using assms(1) by (auto simp: take_member_def whole or_null_def fun_upd_idem)
qed

lemma names_simulated:
  "object_ok v \<Longrightarrow> \<exists>ns. get_member_names v = Inr ns \<and> sorted_wrt czstring_less ns \<and> distinct ns \<and> set ns = dom (object_map v)"
  by (erule object_okE) (simp_all add: get_member_names_def sorted_keys dom_map_of_conv_image_fst)

lemma size_simulated: "object_ok v \<Longrightarrow> value_size v = of_nat (card (dom (object_map v)))"
proof (erule object_okE)
  fix xs
  assume "payload v = vt_object xs" "object_map v = map_of xs" "om_ok czstring_less (\<lambda>k. True) xs"
  moreover from this(3) have "card (dom (map_of xs)) = length xs"
    using distinct_card [OF sorted_keys(2), of xs] by (simp add: dom_map_of_conv_image_fst)
  ultimately show ?thesis by (simp add: value_size_def)
qed (simp add: value_size_def)

lemma empty_simulated: "object_ok v \<Longrightarrow> value_empty v \<longleftrightarrow> of_nat (card (dom (object_map v))) = (0 :: 32 word)"
  using size_simulated [of v] by (auto simp: value_empty_def object_ok_def)

lemma clear_simulated: "object_ok v \<Longrightarrow> \<exists>v'. value_clear v = Inr v' \<and> object_ok v' \<and> object_map v' = Map.empty"
  by (erule object_okE) (simp_all add: value_clear_def object_ok_def object_map_def object_entries_def is_null_def is_object_def type_of_def om_ok_def)

lemma step_simulated:
  assumes "object_ok v" "op_ok op"
  shows "\<exists>r v'. object_step op v = Inr (r, v') \<and> object_ok v' \<and> map_step op (object_map v) r (object_map v')"
proof (cases op)
  case (op_get k d)
  then show ?thesis using assms find_simulated [of v k] by (auto simp: get_member_def)
next
  case (op_is_member k)
  then show ?thesis using assms find_simulated [of v k] by (auto simp: is_member_def)
next
  case (op_assign k w)
  then show ?thesis using assms assign_simulated [of v k w] by auto
next
  case (op_touch k)
  then show ?thesis using assms touch_simulated [of v k] by auto
next
  case (op_find k)
  then show ?thesis using assms find_simulated [of v k] by auto
next
  case (op_remove k)
  then show ?thesis using assms remove_simulated [of v k] by auto
next
  case (op_take k)
  then show ?thesis using assms take_simulated [of v k] by auto
qed (use assms names_simulated [of v] size_simulated [of v] empty_simulated [of v] clear_simulated [of v] in \<open>auto\<close>)

lemma run_simulated:
  "object_ok v \<Longrightarrow> list_all op_ok ops \<Longrightarrow>
    \<exists>rs v'. object_run ops v = Inr (rs, v') \<and> object_ok v' \<and> map_run ops (object_map v) rs (object_map v')"
proof (induction ops arbitrary: v)
  case (Cons op ops)
  obtain r v' where v': "object_step op v = Inr (r, v')" "object_ok v'" "map_step op (object_map v) r (object_map v')"
    using step_simulated [of v op] Cons.prems by auto
  obtain rs u where "object_run ops v' = Inr (rs, u)" "object_ok u" "map_run ops (object_map v') rs (object_map u)"
    using Cons.IH [OF v'(2)] Cons.prems by auto
  then show ?case using v' by auto
qed simp



end
