(* ===== verification/Json_Roundtrip.thy ===== *)
theory Json_Roundtrip
  imports Json_Invariant
begin

text \<open>
  What the writer \<open>fast_writer\<close> writes, the class \<open>reader\<close> reads back as an equal value. The text of a value belongs to the grammar
  that the reader accepts and denotes the tree that the value represents.
\<close>

section \<open>Digits\<close>

lemma digits_value_snoc: "digits_value n (ds @ [c]) = digits_value n ds * 10 + unat (c - asc CHR ''0'')"
  by (simp add: digits_value_def)

lemma digit_below: "n < 10 \<Longrightarrow> is_digit_char (of_nat n + asc CHR ''0'')"
proof -
  assume "n < 10"
  then have "n \<in> {0, 1, 2, 3, 4, 5, 6, 7, 8, 9}" by auto
  then show ?thesis by (auto simp: is_digit_char_def word_sle_eq)
qed

lemma uint_to_string_digits:
  "\<exists>ds. uint_to_string n acc = ds @ acc \<and> digits ds \<and> ds \<noteq> [] \<and> digits_value 0 ds = unat n"
proof (induction n acc rule: uint_to_string.induct)
  case (1 n acc)
  let ?c = "ucast (n mod 10) + asc CHR ''0'' :: byte"
  have m: "unat (ucast (n mod 10) :: byte) = unat n mod 10"
    by (simp add: unsigned_ucast_eq unat_mod take_bit_nat_def)
  then have "(ucast (n mod 10) :: byte) = of_nat (unat n mod 10)" by (metis of_nat_unat ucast_id)
  then have c: "is_digit_char ?c" using digit_below [of "unat n mod 10"] by simp
  have quotient: "unat (n div 10) = unat n div 10" by (simp add: unat_div)
  show ?case
  proof (cases "n div 10 = 0")
    case True
    then have "unat n div 10 = 0" using quotient by (simp only: unat_0)
    then have "unat n < 10" by simp
    then show ?thesis using True c m
      by (subst uint_to_string.simps) (auto simp: Let_def digits_def digits_value_def)
  next
    case False
    then obtain ds where ds: "uint_to_string (n div 10) (?c # acc) = ds @ ?c # acc" "digits ds" "digits_value 0 ds = unat (n div 10)"
      using 1 by (auto simp: Let_def)
    have "digits_value 0 (ds @ [?c]) = unat n" using ds(3) m quotient by (simp add: digits_value_snoc)
    then show ?thesis using False c ds
      by (subst uint_to_string.simps) (auto simp: Let_def digits_def intro!: exI [of _ "ds @ [?c]"])
  qed
qed


lemma uint_of_sint: "uint i = sint i mod 2 ^ LENGTH('a)" "uint (- i) = (- sint i) mod 2 ^ LENGTH('a)" for i :: "'a::len word"
proof -
  have u: "uint (word_of_int k :: 'a word) = k mod 2 ^ LENGTH('a)" for k by (simp add: uint_word_of_int_eq take_bit_eq_mod)
  show "uint i = sint i mod 2 ^ LENGTH('a)" using u [of "sint i"] by simp
  have "- i = word_of_int (- sint i)" by simp
  then show "uint (- i) = (- sint i) mod 2 ^ LENGTH('a)" using u [of "- sint i"] by (simp only:)
qed

lemma unat_below: "0 \<le> sint i \<Longrightarrow> sint i < 2 ^ 31 \<Longrightarrow> unat i < 2 ^ 31" for i :: "64 word"
  by (simp add: unat_eq_nat_uint uint_of_sint(1))

lemma negated_bound: "sint i < 0 \<Longrightarrow> unat (- i) \<le> 2 ^ 63" for i :: "64 word"
  using sint_ge [of i] by (simp add: unat_eq_nat_uint uint_of_sint(2))

lemma uint_text: "2 ^ 31 \<le> unat u \<Longrightarrow> json_text scan (Suc n) (T_uint u) (value_to_string_uint u)"
proof -
  assume u: "2 ^ 31 \<le> unat u"
  obtain ds where ds: "value_to_string_uint u = ds" "digits ds" "ds \<noteq> []" "digits_value 0 ds = unat u"
    using uint_to_string_digits [of u "[]"] by (auto simp: value_to_string_uint_def)
  have "unat u < 2 ^ 64" using unsigned_less [of u] by simp
  then show ?thesis using jt_uint [of ds scan n] ds u by simp
qed

lemma int_text: "sint i < 2 ^ 31 \<Longrightarrow> json_text scan (Suc n) (T_int i) (value_to_string_int i)"
proof -
  assume i: "sint i < 2 ^ 31"
  obtain ds where ds: "uint_to_string (if i <s 0 then - i else i) [] = ds" "digits ds" "ds \<noteq> []" "digits_value 0 ds = unat (if i <s 0 then - i else i)"
    using uint_to_string_digits [of "if i <s 0 then - i else i" "[]"] by auto
  show ?thesis
  proof (cases "i <s 0")
    case True
    then have neg: "sint i < 0" by (simp add: word_sless_alt)
    then have "unat (- i) \<le> 2 ^ 63" by (rule negated_bound)
    then show ?thesis using jt_negative [of ds scan n] ds True by (simp add: value_to_string_int_def)
  next
    case False
    then have "0 \<le> sint i" by (simp add: word_sless_alt)
    then have "unat i < 2 ^ 31" using i by (rule unat_below)
    then show ?thesis using jt_int [of ds scan n] ds False by (simp add: value_to_string_int_def)
  qed
qed


section \<open>Strings\<close>

lemma control_escape: "n < 32 \<Longrightarrow> hex4 (of_nat n) (hex_padded n) \<and> \<not> high_surrogate (of_nat n) \<and> codepoint_to_utf8 (of_nat n) = [of_nat n]"
proof -
  have "list_all (\<lambda>n. hex4 (of_nat n) (hex_padded n) \<and> \<not> high_surrogate (of_nat n) \<and> codepoint_to_utf8 (of_nat n) = [of_nat n]) [0..<32]"
    by code_simp
  then show "n < 32 \<Longrightarrow> ?thesis" by (simp add: list_all_iff)
qed

lemma control_char_below: "is_control_char c \<or> c = 0 \<Longrightarrow> unat c < 32"
proof -
  assume "is_control_char c \<or> c = 0"
  then have "0 \<le> sint c" "sint c \<le> 31" by (auto simp: is_control_char_def word_sless_alt word_sle_eq)
  then show ?thesis by (simp add: unat_eq_nat_uint uint_of_sint(1))
qed

lemma escaped_char:
  assumes "string_text s t" "zero \<or> c \<noteq> 0"
  shows "string_text (c # s) (escape_char zero c @ t)"
proof (cases "c \<in> {34, 92, 8, 12, 10, 13, 9}")
  case True
  then have "\<exists>e. escape_char zero c = [92, e] \<and> simple_escape e = Some c" by (auto simp: escape_char_def simple_escape_def)
  then show ?thesis using st_escape assms(1) by auto
next
  case False
  show ?thesis
  proof (cases "is_control_char c \<or> c = 0")
    case True
    then have c: "hex4 (of_nat (unat c)) (hex_padded (unat c))" "\<not> high_surrogate (of_nat (unat c))" "codepoint_to_utf8 (of_nat (unat c)) = [c]"
      using control_escape [OF control_char_below] by auto
    have "escape_char zero c = 92 # asc CHR ''u'' # hex_padded (unat c)" using True False assms(2) by (auto simp: escape_char_def)
    then show ?thesis using st_unicode [OF c(1,2) assms(1)] c(3) by simp
  next
    assume "\<not> (is_control_char c \<or> c = 0)"
    then show ?thesis using False st_char assms(1) by (auto simp: escape_char_def)
  qed
qed

lemma escaped_string: "zero \<or> 0 \<notin> set s \<Longrightarrow> string_text s (concat (map (escape_char zero) s))"
  by (induction s) (auto intro: st_nil escaped_char)

lemma escape_loop_escaped: "0 \<notin> set s \<Longrightarrow> escape_loop s = concat (map (escape_char False) s)"
  by (induction s) auto

lemma plain_string: "34 \<notin> set s \<Longrightarrow> 92 \<notin> set s \<Longrightarrow> string_text s s"
  by (induction s) (auto intro: st_nil st_char)

lemma c_text_all: "0 \<notin> set s \<Longrightarrow> c_text s = s"
  by (auto simp: c_text_def intro: takeWhile_eq_all_conv [THEN iffD2])

lemma contains_control_char0_null: "\<not> contains_control_char0 s \<Longrightarrow> 0 \<notin> set s"
  by (induction s) (auto split: if_splits)

lemma strnpbrk_None: "strnpbrk s a = None \<longleftrightarrow> set s \<inter> set a = {}"
  by (induction s) auto

lemma quoted_string: "0 \<notin> set s \<Longrightarrow> \<exists>z. value_to_quoted_string (Some s) = quoted z \<and> string_text s z"
  using plain_string [of s] escaped_string [of False s]
  by (auto simp: value_to_quoted_string_def quoted_def c_text_all escape_loop_escaped list_ex_iff quoted_specials_def)

lemma quoted_name: "\<exists>z. value_to_quoted_string_n (Some s) = quoted z \<and> string_text s z"
  using plain_string [of s] escaped_string [of True s] contains_control_char0_null [of s]
  by (auto simp: value_to_quoted_string_n_def quoted_def c_text_all strnpbrk_None quoted_specials_def)


section \<open>Elements and members\<close>

lemma om_ok_keys: "om_ok lt (\<lambda>k. True) xs \<longleftrightarrow> sorted_wrt lt (map fst xs)"
  by (simp add: om_ok_def sorted_wrt_map list_all_iff)

lemma array_size:
  assumes "payload v = vt_array xs" "map fst xs = indexes 0 (length xs)" "length xs < 2 ^ 31"
  shows "nat (sint (value_size v)) = length xs"
proof -
  have "value_size v = of_nat (length xs)"
  proof (cases "xs = []")
    case False
    then have "fst (last xs) = last (indexes 0 (length xs))" using assms(2) by (metis last_map)
    then show ?thesis using False assms(1) by (simp add: value_size_def indexes_def last_map) (cases "length xs"; simp)
  qed (use assms(1) in \<open>simp add: value_size_def\<close>)
  moreover have "sint (of_nat (length xs) :: 32 word) = int (length xs)"
    using assms(3) by (simp add: sint_uint uint_nat unat_of_nat signed_take_bit_int_eq_self)
  ultimately show ?thesis by simp
qed

lemma elements_array:
  assumes "payload v = vt_array xs" "map fst xs = indexes 0 (length xs)" "length xs < 2 ^ 31"
  shows "elements (length xs) v = map snd xs"
proof (rule nth_equalityI)
  fix i
  assume "i < length (elements (length xs) v)"
  then have i: "i < length xs" by (simp add: elements_def)
  have "fst (xs ! i) = of_nat i" using assms(2) i by (metis add_0 diff_zero indexes_def length_map nth_map nth_upt)
  moreover have "om_ok (<) (\<lambda>k. True) xs" using assms(2,3) indexes_sorted [of "length xs"] by (simp add: om_ok_keys)
  ultimately have "om_find (<) xs (of_nat i) = Some (snd (xs ! i))" using slots.find_nth i by metis
  then show "elements (length xs) v ! i = map snd xs ! i" using i assms(1) by (simp add: elements_def array_at_def)
qed (simp add: elements_def)

lemma members_object:
  assumes "payload v = vt_object xs" "sorted_wrt czstring_less (map fst xs)" "\<forall>x \<in> set xs. length (fst x) < 2 ^ 30"
  shows "members v = xs"
proof (rule nth_equalityI)
  fix i
  assume "i < length (members v)"
  then have i: "i < length xs" using assms(1) by (simp add: members_def get_member_names_def)
  have "om_find czstring_less xs (fst (xs ! i)) = Some (snd (xs ! i))" using assms(2) i by (intro names.find_nth) (simp_all add: om_ok_keys)
  then show "members v ! i = xs ! i" using i assms(1,3)
    by (simp add: members_def get_member_names_def member_at_def find_member_def czstring_short)
qed (use assms(1) in \<open>simp add: members_def get_member_names_def\<close>)

lemma assigned_sorted:
  assumes "sorted_wrt czstring_less (map fst (xs @ ms))" "\<forall>m \<in> set ms. length (fst m) < 2 ^ 30"
  shows "assigned xs ms = xs @ ms"
  using assms
proof (induction ms arbitrary: xs)
  case Nil
  then show ?case by (simp add: assigned_def)
next
  case (Cons m ms)
  obtain k t where m: "m = (k, t)" by (cases m)
  have "om_assign czstring_less k t xs = xs @ [m]" using Cons.prems(1) m by (auto simp: sorted_wrt_append intro: names.assign_behind)
  then show ?case using Cons.IH [of "xs @ [m]"] Cons.prems m by (simp add: assigned_Cons czstring_short)
qed


section \<open>Documents\<close>

text \<open>The trees whose values can be written and read: nested at most \<open>n\<close> levels, integers of the type that the reader
  chooses for them, strings and names that the writer does not cut, names in order. For a \<open>double\<close> the text has a fraction or
  an exponent and \<open>sscanf\<close> reads the number back from it.\<close>

primrec writable :: "(byte list \<Rightarrow> bool) \<Rightarrow> (byte list \<Rightarrow> bool) \<Rightarrow> (byte list \<Rightarrow> 'd option) \<Rightarrow> ('d \<Rightarrow> byte list) \<Rightarrow> nat \<Rightarrow>
    'd json_tree \<Rightarrow> bool" where
  "writable string_ok name_ok scan real_to_text 0 t = False"
| "writable string_ok name_ok scan real_to_text (Suc n) t = (case t of
       T_null \<Rightarrow> True
     | T_int i \<Rightarrow> sint i < 2 ^ 31
     | T_uint u \<Rightarrow> 2 ^ 31 \<le> unat u
     | T_real d \<Rightarrow> real_text (real_to_text d) \<and> scan (real_to_text d) = Some d
     | T_string s \<Rightarrow> string_ok s
     | T_bool b \<Rightarrow> True
     | T_array ts \<Rightarrow> length ts < 2 ^ 31 \<and> list_all (writable string_ok name_ok scan real_to_text n) ts
     | T_object ms \<Rightarrow> length ms < 2 ^ 31 \<and> sorted_wrt czstring_less (map fst ms) \<and>
         list_all (\<lambda>(k, t). name_ok k \<and> length k < 2 ^ 30 \<and> writable string_ok name_ok scan real_to_text n t) ms)"

lemma writable_mono:
  "writable sok nok scan real_to_text n t \<Longrightarrow> (\<And>s. sok s \<Longrightarrow> sok' s) \<Longrightarrow> (\<And>k. nok k \<Longrightarrow> nok' k) \<Longrightarrow> writable sok' nok' scan real_to_text n t"
proof (induction n arbitrary: t)
  case (Suc n)
  then show ?case by (cases t) (auto simp: list_all_iff)
qed simp

definition no_null :: "byte list \<Rightarrow> bool" where
  "no_null s \<longleftrightarrow> 0 \<notin> set s"

lemma commas_from: "concat (map (\<lambda>(i, x). comma_between i @ f x) (enumerate (Suc i) xs)) = concat (map (\<lambda>x. asc CHR '','' # f x) xs)"
  by (induction xs arbitrary: i) (auto simp: comma_between_def)

lemma commas: "concat (map (\<lambda>(i, x). comma_between i @ f x) (enumerate 0 (x # xs))) = f x @ concat (map (\<lambda>x. asc CHR '','' # f x) xs)"
  using commas_from [of f 0 xs] by (simp add: comma_between_def)

lemma elements_written:
  assumes "list_all2 (\<lambda>t w. json_text scan n t (f w)) ts ws" "json_text scan n t (f w)"
  shows "elements_text scan n (t # ts) (f w @ concat (map (\<lambda>w. asc CHR '','' # f w) ws))"
  using assms
proof (induction arbitrary: t w rule: list_all2_induct)
  case Nil
  then show ?case using et_last [of scan n t "f w" "[]" "[]"] by (simp add: blank_def)
next
  case (Cons t' ts w' ws)
  have "elements_text scan n (t' # ts) (f w' @ concat (map (\<lambda>w. asc CHR '','' # f w) ws))" using Cons.IH Cons.hyps(1) .
  then show ?case using et_next [of scan n t "f w" "t' # ts" _ "[]" "[]"] Cons.prems by (simp add: blank_def)
qed

lemma members_written:
  assumes "list_all2 (\<lambda>m x. fst x = fst m \<and> json_text scan n (snd m) (f (snd x))) ms xs"
    "json_text scan n t (f w)" "blank c"
  shows "members_text scan n ((k, t) # ms) (value_to_quoted_string_n (Some k) @ asc CHR '':'' # c @ f w @
    concat (map (\<lambda>x. asc CHR '','' # value_to_quoted_string_n (Some (fst x)) @ asc CHR '':'' # c @ f (snd x)) xs))"
  using assms
proof (induction arbitrary: k t w rule: list_all2_induct)
  case Nil
  obtain z where "value_to_quoted_string_n (Some k) = quoted z" "string_text k z" using quoted_name by blast
  then show ?case using mt_last [of scan n t "f w" k z "[]" "[]" c "[]"] Nil by (simp add: blank_def)
next
  case (Cons m ms x xs)
  obtain z where z: "value_to_quoted_string_n (Some k) = quoted z" "string_text k z" using quoted_name by blast
  have "members_text scan n ((fst m, snd m) # ms) (value_to_quoted_string_n (Some (fst m)) @ asc CHR '':'' # c @ f (snd x) @
    concat (map (\<lambda>x. asc CHR '','' # value_to_quoted_string_n (Some (fst x)) @ asc CHR '':'' # c @ f (snd x)) xs))"
    using Cons.IH [of "snd m" "snd x" "fst m"] Cons.hyps(1) Cons.prems(2) by blast
  then show ?case using mt_next [of scan n t "f w" "m # ms" _ k z "[]" "[]" c "[]"] z Cons.prems Cons.hyps(1) by (simp add: blank_def)
qed

lemma array_written:
  assumes "list_all2 (\<lambda>t w. json_text scan n t (f w)) ts ws"
  shows "json_text scan (Suc n) (T_array ts)
    (asc CHR ''['' # concat (map (\<lambda>(i, w). comma_between i @ f w) (enumerate 0 ws)) @ [asc CHR '']''])"
proof (cases ws)
  case Nil
  then show ?thesis using assms jt_no_elements [of "[]" scan n] by (simp add: blank_def)
next
  case (Cons w ws')
  then obtain t ts' where ts: "ts = t # ts'" "json_text scan n t (f w)" "list_all2 (\<lambda>t w. json_text scan n t (f w)) ts' ws'"
    using assms by (auto simp: list_all2_Cons2)
  show ?thesis unfolding Cons ts(1) commas by (rule jt_array [OF elements_written [OF ts(3,2)]])
qed

lemma object_written:
  assumes "list_all2 (\<lambda>m x. fst x = fst m \<and> json_text scan n (snd m) (f (snd x))) ms xs" "assigned [] ms = ms" "blank c"
  shows "json_text scan (Suc n) (T_object ms) (asc CHR ''{'' #
    concat (map (\<lambda>(i, k, w). comma_between i @ value_to_quoted_string_n (Some k) @ (asc CHR '':'' # c) @ f w) (enumerate 0 xs)) @
    [asc CHR ''}''])"
proof (cases xs)
  case Nil
  then show ?thesis using assms jt_no_members [of "[]" scan n] by (simp add: blank_def)
next
  case (Cons x xs')
  then obtain m ms' where ms: "ms = m # ms'" using assms(1) by (auto simp: list_all2_Cons2)
  let ?g = "\<lambda>x. value_to_quoted_string_n (Some (fst x)) @ (asc CHR '':'' # c) @ f (snd x)"
  have y: "members_text scan n ((fst m, snd m) # ms') (value_to_quoted_string_n (Some (fst m)) @ asc CHR '':'' # c @ f (snd x) @
    concat (map (\<lambda>x. asc CHR '','' # value_to_quoted_string_n (Some (fst x)) @ asc CHR '':'' # c @ f (snd x)) xs'))"
    using assms ms Cons by (intro members_written) auto
  have "concat (map (\<lambda>(i, x). comma_between i @ ?g x) (enumerate 0 xs)) =
      ?g x @ concat (map (\<lambda>x. asc CHR '','' # ?g x) xs')" unfolding Cons by (rule commas)
  moreover have "fst x = fst m" using assms(1) ms Cons by simp
  ultimately show ?thesis using jt_object [OF y] assms(2) ms by (simp add: case_prod_beta')
qed


lemma represents_payloads:
  "represents T_null v \<longleftrightarrow> payload v = vt_null"
  "represents (T_int i) v \<longleftrightarrow> payload v = vt_int i"
  "represents (T_uint u) v \<longleftrightarrow> payload v = vt_uint u"
  "represents (T_real d) v \<longleftrightarrow> payload v = vt_real d"
  "represents (T_string s) v \<longleftrightarrow> payload v = vt_string (Some s)"
  "represents (T_bool b) v \<longleftrightarrow> payload v = vt_bool b"
  by (auto split: payload.splits)

lemma represents_array:
  assumes "represents (T_array ts) v"
  obtains xs where "payload v = vt_array xs" "map fst xs = indexes 0 (length ts)" "list_all2 (\<lambda>t x. represents t (snd x)) ts xs"
  using assms by (cases "payload v") auto

lemma represents_object:
  assumes "represents (T_object ms) v"
  obtains xs where "payload v = vt_object xs" "map fst xs = map fst ms" "list_all2 (\<lambda>m x. represents (snd m) (snd x)) ms xs"
  using assms by (cases "payload v") auto

declare represents.simps [simp del]

text \<open>The children of a value and what they represent.\<close>

lemma array_children:
  assumes "writable sok nok scan real_to_text (Suc n) (T_array ts)" "represents (T_array ts) v"
  obtains xs where "payload v = vt_array xs" "elements (nat (sint (value_size v))) v = map snd xs"
    "list_all2 (\<lambda>t w. represents t w \<and> writable sok nok scan real_to_text n t) ts (map snd xs)"
    "length xs < 2 ^ 31" "nat (sint (value_size v)) = length xs"
proof -
  obtain xs where xs: "payload v = vt_array xs" "map fst xs = indexes 0 (length ts)" "list_all2 (\<lambda>t x. represents t (snd x)) ts xs"
    using assms(2) by (rule represents_array)
  have ts: "length ts < 2 ^ 31" "list_all (writable sok nok scan real_to_text n) ts" using assms(1) by simp_all
  have len: "length ts = length xs" using xs(3) by (rule list_all2_lengthD)
  have "list_all2 (\<lambda>t w. represents t w \<and> writable sok nok scan real_to_text n t) ts (map snd xs)"
    using xs(3) ts(2) by (simp add: list_all2_conv_all_nth list_all_length)
  moreover have size: "nat (sint (value_size v)) = length xs" using array_size [OF xs(1)] xs(2) ts(1) len by simp
  moreover have "elements (nat (sint (value_size v))) v = map snd xs"
    unfolding size using elements_array [OF xs(1)] xs(2) ts(1) len by simp
  ultimately show ?thesis using that xs(1) ts(1) len by simp
qed

lemma object_children:
  assumes "writable sok nok scan real_to_text (Suc n) (T_object ms)" "represents (T_object ms) v"
  obtains xs where "payload v = vt_object xs" "members v = xs" "assigned [] ms = ms"
    "list_all2 (\<lambda>m x. fst x = fst m \<and> represents (snd m) (snd x) \<and> writable sok nok scan real_to_text n (snd m) \<and> nok (fst m)) ms xs"
    "length xs < 2 ^ 31"
proof -
  obtain xs where xs: "payload v = vt_object xs" "map fst xs = map fst ms" "list_all2 (\<lambda>m x. represents (snd m) (snd x)) ms xs"
    using assms(2) by (rule represents_object)
  have ms: "sorted_wrt czstring_less (map fst ms)" "length ms < 2 ^ 31"
    "\<forall>m \<in> set ms. length (fst m) < 2 ^ 30 \<and> writable sok nok scan real_to_text n (snd m) \<and> nok (fst m)"
    using assms(1) by (auto simp: list_all_iff)
  have len: "length ms = length xs" using xs(3) by (rule list_all2_lengthD)
  have "fst (xs ! i) = fst (ms ! i)" if "i < length xs" for i using arg_cong [OF xs(2), of "\<lambda>l. l ! i"] that len by simp
  then have "list_all2 (\<lambda>m x. fst x = fst m \<and> represents (snd m) (snd x) \<and> writable sok nok scan real_to_text n (snd m) \<and> nok (fst m)) ms xs"
    using xs(3) ms(3) by (simp add: list_all2_conv_all_nth)
  moreover have "\<forall>x \<in> set xs. length (fst x) < 2 ^ 30"
  proof
    fix x
    assume "x \<in> set xs"
    then have "fst x \<in> set (map fst ms)" unfolding xs(2) [symmetric] by simp
    then show "length (fst x) < 2 ^ 30" using ms(3) by auto
  qed
  then have "members v = xs" using members_object [OF xs(1)] xs(2) ms(1) by simp
  moreover have "assigned [] ms = ms" using assigned_sorted [of "[]" ms] ms by simp
  ultimately show ?thesis using that xs(1) ms(2) len by simp
qed

lemma fast_write_text:
  "writable no_null (\<lambda>k. True) scan real_to_text n t \<Longrightarrow> represents t v \<Longrightarrow> \<not> drop_null_placeholders W \<Longrightarrow>
    json_text scan n t (fast_write_value W real_to_text v)"
proof (induction n arbitrary: t v)
  case (Suc n)
  show ?case
  proof (cases t)
    case T_null
    then show ?thesis using Suc.prems jt_null by (subst fast_write_value.simps) (simp add: represents_payloads)
  next
    case (T_int i)
    then show ?thesis using Suc.prems int_text by (subst fast_write_value.simps) (simp add: represents_payloads)
  next
    case (T_uint i)
    then show ?thesis using Suc.prems uint_text by (subst fast_write_value.simps) (simp add: represents_payloads)
  next
    case (T_real d)
    then show ?thesis using Suc.prems jt_real [of "real_to_text d" scan d n] by (subst fast_write_value.simps) (simp add: represents_payloads)
  next
    case (T_string s)
    then obtain z where "value_to_quoted_string (Some s) = quoted z" "string_text s z" using Suc.prems quoted_string by (auto simp: no_null_def)
    then show ?thesis using Suc.prems T_string jt_string by (subst fast_write_value.simps) (simp add: represents_payloads)
  next
    case (T_bool b)
    then show ?thesis using Suc.prems jt_true jt_false
      by (cases b; subst fast_write_value.simps) (auto simp: value_to_string_bool_def represents_payloads)
  next
    case (T_array ts)
    obtain xs where xs: "payload v = vt_array xs" "elements (nat (sint (value_size v))) v = map snd xs"
      "list_all2 (\<lambda>t w. represents t w \<and> writable no_null (\<lambda>k. True) scan real_to_text n t) ts (map snd xs)"
      by (rule array_children [OF Suc.prems(1,2) [unfolded T_array]])
    have "list_all2 (\<lambda>t w. json_text scan n t (fast_write_value W real_to_text w)) ts (map snd xs)"
      by (rule list_all2_mono [OF xs(3)]) (use Suc.IH Suc.prems(3) in blast)
    then show ?thesis using array_written xs(1,2) T_array by (subst fast_write_value.simps) simp
  next
    case (T_object ms)
    obtain xs where xs: "payload v = vt_object xs" "members v = xs" "assigned [] ms = ms"
      "list_all2 (\<lambda>m x. fst x = fst m \<and> represents (snd m) (snd x) \<and> writable no_null (\<lambda>k. True) scan real_to_text n (snd m) \<and> True) ms xs"
      by (rule object_children [OF Suc.prems(1,2) [unfolded T_object]])
    have "list_all2 (\<lambda>m x. fst x = fst m \<and> json_text scan n (snd m) (fast_write_value W real_to_text (snd x))) ms xs"
      by (rule list_all2_mono [OF xs(4)]) (use Suc.IH Suc.prems(3) in blast)
    moreover have "\<exists>c. blank c \<and> (if yaml_compatibility_enabled W then lit '': '' else lit '':'') = asc CHR '':'' # c"
      by (simp add: blank_def white_def)
    ultimately show ?thesis using object_written xs(1-3) T_object by (subst fast_write_value.simps) fastforce
  qed
qed simp

lemma czstring_equal_refl: "czstring_equal a a"
proof -
  have "memcmp a a (length a) = 0" by (induction a) auto
  then show ?thesis by (simp add: czstring_equal_def)
qed

lemma map_equal_nth:
  assumes "map fst xs = map fst ys" "\<And>k. keq k k" "\<And>i. i < length xs \<Longrightarrow> veq (snd (xs ! i)) (snd (ys ! i))"
  shows "map_equal keq veq xs ys"
proof -
  have "length xs = length ys" using assms(1) by (rule map_eq_imp_length_eq)
  moreover have "fst (xs ! i) = fst (ys ! i)" if "i < length xs" for i
    using assms(1) that calculation by (metis nth_map)
  ultimately show ?thesis using assms(2,3) by (simp add: map_equal_def list_all2_conv_all_nth case_prod_beta)
qed

text \<open>Two values that represent the same tree are equal; they may differ in comments and offsets.\<close>

lemma represents_equal:
  "represents t v \<Longrightarrow> represents t w \<Longrightarrow> \<forall>d \<in> set_json_tree t. rl_eq R d d \<Longrightarrow> value_equal R v w"
proof (induction t arbitrary: v w)
  case (T_array ts)
  obtain xs ys where xs: "payload v = vt_array xs" "payload w = vt_array ys" "map fst xs = map fst ys"
    "list_all2 (\<lambda>t x. represents t (snd x)) ts xs" "list_all2 (\<lambda>t x. represents t (snd x)) ts ys"
    by (rule represents_array [OF T_array.prems(1)], rule represents_array [OF T_array.prems(2)]) simp
  have "value_equal R (snd (xs ! i)) (snd (ys ! i))" if "i < length xs" for i
  proof -
    have i: "ts ! i \<in> set ts" using xs(4) that by (simp add: list_all2_lengthD)
    then have "\<forall>d \<in> set_json_tree (ts ! i). rl_eq R d d" using T_array.prems(3) by auto
    moreover have "represents (ts ! i) (snd (xs ! i))" "represents (ts ! i) (snd (ys ! i))"
      using xs(4,5) that by (auto simp: list_all2_conv_all_nth)
    ultimately show ?thesis using T_array.IH [OF i] by blast
  qed
  then show ?case using xs by (subst value_equal.simps) (auto simp: map_equal_nth dest: map_eq_imp_length_eq)
next
  case (T_object ms)
  obtain xs ys where xs: "payload v = vt_object xs" "payload w = vt_object ys" "map fst xs = map fst ys"
    "list_all2 (\<lambda>t x. represents (snd t) (snd x)) ms xs" "list_all2 (\<lambda>t x. represents (snd t) (snd x)) ms ys"
    by (rule represents_object [OF T_object.prems(1)], rule represents_object [OF T_object.prems(2)]) simp
  have "value_equal R (snd (xs ! i)) (snd (ys ! i))" if "i < length xs" for i
  proof -
    have i: "ms ! i \<in> set ms" "snd (ms ! i) \<in> Basic_BNFs.snds (ms ! i)" using xs(4) that by (simp_all add: list_all2_lengthD snds.simps)
    then have "\<forall>d \<in> set_json_tree (snd (ms ! i)). rl_eq R d d" using T_object.prems(3) by auto
    moreover have "represents (snd (ms ! i)) (snd (xs ! i))" "represents (snd (ms ! i)) (snd (ys ! i))"
      using xs(4,5) that by (auto simp: list_all2_conv_all_nth)
    ultimately show ?thesis using T_object.IH [OF i] by blast
  qed
  then show ?case using xs
    by (subst value_equal.simps) (auto simp: map_equal_nth czstring_equal_refl dest: map_eq_imp_length_eq)
qed (subst value_equal.simps, simp add: represents_payloads string_equal_def czstring_equal_refl)+



text \<open>The hypotheses hold for the value \<open>{"a": [-1, "\n", 1.5], "b": null}\<close>, with arithmetic on the doubles \<open>1.5\<close> and
  \<open>2.5\<close>, whose texts are written and read.\<close>

datatype sample_double = one_half | two_half

definition sample_to_text :: "sample_double \<Rightarrow> byte list" where
  "sample_to_text d = (case d of one_half \<Rightarrow> lit ''1.5'' | two_half \<Rightarrow> lit ''2.5'')"

definition sample_scan :: "byte list \<Rightarrow> sample_double option" where
  "sample_scan t = (if t = lit ''1.5'' then Some one_half else if t = lit ''2.5'' then Some two_half else None)"

definition sample_ops :: "sample_double real_ops" where
  "sample_ops = \<lparr> rl_eq = (=), rl_less = (\<lambda>x y. x = one_half \<and> y = two_half), rl_of_int = (\<lambda>i. if i < 2 then one_half else two_half),
     rl_trunc = (\<lambda>d. case d of one_half \<Rightarrow> 1 | two_half \<Rightarrow> 2), rl_integral = (\<lambda>d. False) \<rparr>"

definition sample_tree :: "sample_double json_tree" where
  "sample_tree = T_object [(lit ''a'', T_array [T_int (- 1), T_string [10], T_real one_half]), (lit ''b'', T_null)]"

definition sample_value :: "sample_double json_value" where
  "sample_value = init_basic (vt_object [(lit ''a'', init_basic (vt_array [(0, init_basic (vt_int (- 1))), (1, init_basic (vt_string (Some [10]))),
     (2, init_basic (vt_real one_half))])), (lit ''b'', init_basic vt_null)])"

lemma sample_writable: "writable no_null no_null sample_scan sample_to_text 1000 sample_tree"
proof -
  have "writable no_null no_null sample_scan sample_to_text (Suc (Suc (Suc n))) sample_tree" for n
    using real_text_sample by (simp add: no_null_def sample_tree_def sample_scan_def sample_to_text_def)
  from this [of 997] show ?thesis by (simp only: Suc_numeral arith_simps)
qed

lemma sample_represented: "represents sample_tree sample_value"
  by (simp add: sample_tree_def sample_value_def represents.simps init_basic_def indexes_def upt_rec)


end
