(* ===== verification/Json_Styled_Writer.thy ===== *)
theory Json_Styled_Writer
  imports Json_Writer
begin

text \<open>
  \<open>core/data/json/writer.cpp\<close>: the classes \<open>styled_writer\<close>, \<open>styled_stream_writer\<close> and \<open>built_styled_stream_writer\<close>, and the builder
  of the last one. The three classes repeat one another: the methods \<open>write_value\<close>, \<open>write_array_value\<close> and \<open>is_multiline_array\<close> are
  the same but for the texts they write and the methods they call. Here they are written once, over a record of these
  texts and methods, which each class fills in. \<^term>\<open>None\<close> stands for a failed assertion or an access behind the end of
  \<open>child_values_\<close>.
\<close>

section \<open>State\<close>

record styled_writer =
  child_values :: "byte list list"
  document :: "byte list"
  indent_string :: "byte list"
  add_child_values :: bool

text \<open>The stream writers also remember whether they have indented; the stream they write to is the document.\<close>

record stream_writer = styled_writer +
  indented :: bool

record ('d, 'z) layout =
  lay_null :: "byte list"
  lay_string :: "byte list option \<Rightarrow> byte list"
  lay_name :: "byte list \<Rightarrow> byte list"
  lay_colon :: "byte list"
  lay_indentation :: "byte list"
  lay_open :: "byte list"
  lay_close :: "byte list"
  lay_multiline :: bool
  lay_with_indent :: "byte list \<Rightarrow> 'z styled_writer_scheme \<Rightarrow> 'z styled_writer_scheme"
  lay_before_child :: "'z styled_writer_scheme \<Rightarrow> 'z styled_writer_scheme"
  lay_after_child :: "'z styled_writer_scheme \<Rightarrow> 'z styled_writer_scheme"
  lay_comment_before :: "'d json_value \<Rightarrow> 'z styled_writer_scheme \<Rightarrow> 'z styled_writer_scheme"
  lay_comment_after :: "'d json_value \<Rightarrow> 'z styled_writer_scheme \<Rightarrow> 'z styled_writer_scheme"

definition right_margin :: int where
  "right_margin = 74"

definition append_document :: "byte list \<Rightarrow> 'z styled_writer_scheme \<Rightarrow> 'z styled_writer_scheme" where
  "append_document t s = s\<lparr> document := document s @ t \<rparr>"

definition push_value :: "byte list \<Rightarrow> 'z styled_writer_scheme \<Rightarrow> 'z styled_writer_scheme" where
  "push_value t s = (if add_child_values s then s\<lparr> child_values := child_values s @ [t] \<rparr> else append_document t s)"

definition indent :: "('d, 'z) layout \<Rightarrow> 'z styled_writer_scheme \<Rightarrow> 'z styled_writer_scheme" where
  "indent L s = s\<lparr> indent_string := indent_string s @ lay_indentation L \<rparr>"

definition unindent :: "('d, 'z) layout \<Rightarrow> 'z styled_writer_scheme \<Rightarrow> 'z styled_writer_scheme option" where
  "unindent L s =
     (if length (indent_string s) < length (lay_indentation L) then None
      else Some (s\<lparr> indent_string := take (length (indent_string s) - length (lay_indentation L)) (indent_string s) \<rparr>))"

definition has_comment_for_value :: "'d json_value \<Rightarrow> bool" where
  "has_comment_for_value v \<longleftrightarrow>
     has_comment comment_before v \<or> has_comment comment_after_on_same_line v \<or> has_comment comment_after v"

section \<open>Values\<close>

text \<open>The methods take the recursive call of \<open>write_value\<close> as an argument.\<close>

type_synonym ('d, 'z) value_writer = "'d json_value \<Rightarrow> 'z styled_writer_scheme \<Rightarrow> 'z styled_writer_scheme option"

fun measure_children :: "('d, 'z) value_writer \<Rightarrow> nat \<Rightarrow> 'd json_value list \<Rightarrow> bool \<Rightarrow> 32 word \<Rightarrow> 'z styled_writer_scheme \<Rightarrow>
    (bool \<times> 32 word \<times> 'z styled_writer_scheme) option" where
  "measure_children rec i [] multi len s = Some (multi, len, s)"
| "measure_children rec i (w # ws) multi len s =
     do {
       s \<leftarrow> rec w s;
       if i < length (child_values s)
       then measure_children rec (Suc i) ws (multi \<or> has_comment_for_value w) (len + of_nat (length (child_values s ! i))) s
       else None
     }"

definition is_multiline_array :: "('d, 'z) value_writer \<Rightarrow> 'd json_value \<Rightarrow> 'z styled_writer_scheme \<Rightarrow>
    (bool \<times> 'z styled_writer_scheme) option" where
  "is_multiline_array rec v s =
     (let size = value_size v;
          children = elements (nat (sint size)) v;
          multi = (right_margin \<le> sint (size * 3) \<or>
            list_ex (\<lambda>w. (is_array w \<or> is_object w) \<and> 0 < value_size w) children);
          s = s\<lparr> child_values := [] \<rparr>
      in if multi then Some (True, s)
         else do {
           (multi, len, s) \<leftarrow> measure_children rec 0 children False (4 + (size - 1) * 2) (s\<lparr> add_child_values := True \<rparr>);
           Some (multi \<or> right_margin \<le> sint len, s\<lparr> add_child_values := False \<rparr>)
         })"

definition write_item :: "('d, 'z) layout \<Rightarrow> ('d, 'z) value_writer \<Rightarrow> bool \<Rightarrow> nat \<Rightarrow> 'd json_value \<Rightarrow> 'z styled_writer_scheme \<Rightarrow>
    'z styled_writer_scheme option" where
  "write_item L rec has_child_value i w s =
     (let s = lay_comment_before L w s
      in if has_child_value
         then (if i < length (child_values s) then Some (lay_with_indent L (child_values s ! i) s) else None)
         else map_option (lay_after_child L) (rec w (lay_before_child L s)))"

fun write_items :: "('d, 'z) layout \<Rightarrow> ('d, 'z) value_writer \<Rightarrow> bool \<Rightarrow> nat \<Rightarrow> 'd json_value list \<Rightarrow> 'z styled_writer_scheme \<Rightarrow>
    'z styled_writer_scheme option" where
  "write_items L rec has_child_value i [] s = Some s"
| "write_items L rec has_child_value i (w # ws) s =
     do {
       s \<leftarrow> write_item L rec has_child_value i w s;
       let s = lay_comment_after L w (if ws = [] then s else append_document [asc CHR '',''] s);
       write_items L rec has_child_value (Suc i) ws s
     }"

fun write_child_values :: "nat \<Rightarrow> byte list list \<Rightarrow> 'z styled_writer_scheme \<Rightarrow> 'z styled_writer_scheme" where
  "write_child_values i [] s = s"
| "write_child_values i (t # ts) s =
     write_child_values (Suc i) ts (append_document ((if i > 0 then lit '', '' else []) @ t) s)"

definition write_array_value :: "('d, 'z) layout \<Rightarrow> ('d, 'z) value_writer \<Rightarrow> 'd json_value \<Rightarrow> 'z styled_writer_scheme \<Rightarrow>
    'z styled_writer_scheme option" where
  "write_array_value L rec v s =
     (let size = value_size v
      in if size = 0 then Some (push_value (lit ''[]'') s)
         else do {
           (multi, s) \<leftarrow> (if lay_multiline L then Some (True, s) else is_multiline_array rec v s);
           if multi
           then do {
             let s = indent L (lay_with_indent L (lit ''['') s);
             s \<leftarrow> write_items L rec (child_values s \<noteq> []) 0 (elements (unat size) v) s;
             s \<leftarrow> unindent L s;
             Some (lay_with_indent L (lit '']'') s)
           }
           else if length (child_values s) \<noteq> unat size then None
           else Some (append_document (lay_close L) (write_child_values 0 (child_values s) (append_document (lay_open L) s)))
         })"

fun write_members :: "('d, 'z) layout \<Rightarrow> ('d, 'z) value_writer \<Rightarrow> (byte list \<times> 'd json_value) list \<Rightarrow> 'z styled_writer_scheme \<Rightarrow>
    'z styled_writer_scheme option" where
  "write_members L rec [] s = Some s"
| "write_members L rec ((name, w) # ms) s =
     do {
       let s = append_document (lay_colon L) (lay_with_indent L (lay_name L name) (lay_comment_before L w s));
       s \<leftarrow> rec w s;
       write_members L rec ms (lay_comment_after L w (if ms = [] then s else append_document [asc CHR '',''] s))
     }"

definition write_object_value :: "('d, 'z) layout \<Rightarrow> ('d, 'z) value_writer \<Rightarrow> 'd json_value \<Rightarrow> 'z styled_writer_scheme \<Rightarrow>
    'z styled_writer_scheme option" where
  "write_object_value L rec v s =
     (if members v = [] then Some (push_value (lit ''{}'') s)
      else do {
        s \<leftarrow> write_members L rec (members v) (indent L (lay_with_indent L (lit ''{'') s));
        s \<leftarrow> unindent L s;
        Some (lay_with_indent L (lit ''}'') s)
      })"

lemma measure_children_cong:
  "(\<And>w s. w \<in> set ws \<Longrightarrow> rec w s = rec' w s) \<Longrightarrow> measure_children rec i ws multi len s = measure_children rec' i ws multi len s"
  by (induction rec i ws multi len s rule: measure_children.induct) (auto intro!: bind_option_cong)

lemma write_items_cong:
  "(\<And>w s. w \<in> set ws \<Longrightarrow> rec w s = rec' w s) \<Longrightarrow> write_items L rec h i ws s = write_items L rec' h i ws s"
  by (induction L rec h i ws s rule: write_items.induct) (auto simp: write_item_def Let_def intro!: bind_option_cong)

lemma write_members_cong:
  "(\<And>w s. w \<in> snd ` set ms \<Longrightarrow> rec w s = rec' w s) \<Longrightarrow> write_members L rec ms s = write_members L rec' ms s"
  by (induction L rec ms s rule: write_members.induct) (auto simp: Let_def intro!: bind_option_cong)

lemma write_array_cong [fundef_cong]:
  assumes "v = v'" "s = s'" "\<And>n w t. w \<in> set (elements n v') \<Longrightarrow> rec w t = rec' w t"
  shows "write_array_value L rec v s = write_array_value L rec' v' s'"
proof -
  have m: "measure_children rec i (elements n v') multi len t = measure_children rec' i (elements n v') multi len t" for i n multi len t
    by (rule measure_children_cong) (rule assms(3))
  have w: "write_items L rec h i (elements n v') t = write_items L rec' h i (elements n v') t" for h i n t
    by (rule write_items_cong) (rule assms(3))
  show ?thesis unfolding write_array_value_def is_multiline_array_def Let_def assms(1,2) m w ..
qed

lemma write_object_cong [fundef_cong]:
  assumes "v = v'" "s = s'" "\<And>n w t. (n, w) \<in> set (members v') \<Longrightarrow> rec w t = rec' w t"
  shows "write_object_value L rec v s = write_object_value L rec' v' s'"
proof -
  have "write_members L rec (members v') t = write_members L rec' (members v') t" for t
    by (rule write_members_cong) (use assms(3) in auto)
  then show ?thesis using assms(1,2) by (simp add: write_object_value_def Let_def)
qed

function write_value :: "('d, 'z) layout \<Rightarrow> ('d \<Rightarrow> byte list) \<Rightarrow> 'd json_value \<Rightarrow> 'z styled_writer_scheme \<Rightarrow> 'z styled_writer_scheme option" where
  "write_value L real_text v s = (case payload v of
       vt_null \<Rightarrow> Some (push_value (lay_null L) s)
     | vt_int i \<Rightarrow> Some (push_value (value_to_string_int i) s)
     | vt_uint u \<Rightarrow> Some (push_value (value_to_string_uint u) s)
     | vt_real d \<Rightarrow> Some (push_value (real_text d) s)
     | vt_string t \<Rightarrow> Some (push_value (lay_string L t) s)
     | vt_bool b \<Rightarrow> Some (push_value (value_to_string_bool b) s)
     | vt_array xs \<Rightarrow> write_array_value L (\<lambda>w s. write_value L real_text w s) v s
     | vt_object xs \<Rightarrow> write_object_value L (\<lambda>w s. write_value L real_text w s) v s)"
  by pat_completeness auto
termination
  by (relation "measure (\<lambda>(L, real_text, v, s). weight v)") (auto intro: weight_elements weight_members)

declare write_value.simps [simp del]


section \<open>The class \<open>styled_writer\<close>\<close>

definition indent_size :: nat where
  "indent_size = 3"

definition write_indent :: "styled_writer \<Rightarrow> styled_writer" where
  "write_indent s =
     (if document s \<noteq> [] \<and> last (document s) = 32 then s
      else append_document ((if document s \<noteq> [] \<and> last (document s) \<noteq> 10 then [10] else []) @ indent_string s) s)"

definition write_with_indent :: "byte list \<Rightarrow> styled_writer \<Rightarrow> styled_writer" where
  "write_with_indent t s = append_document t (write_indent s)"

text \<open>The character behind the last one of a \<open>std::string\<close> is the null character.\<close>

fun write_comment_lines :: "byte list \<Rightarrow> styled_writer \<Rightarrow> styled_writer" where
  "write_comment_lines [] s = s"
| "write_comment_lines (c # cs) s =
     write_comment_lines cs
       (if c = 10 \<and> (case cs of [] \<Rightarrow> False | d # _ \<Rightarrow> d = asc CHR ''/'') then write_indent (append_document [c] s)
        else append_document [c] s)"

definition write_comment_before_value :: "'d json_value \<Rightarrow> styled_writer \<Rightarrow> styled_writer" where
  "write_comment_before_value root s =
     (if \<not> has_comment comment_before root then s
      else append_document [10] (write_comment_lines (get_comment comment_before root) (write_indent (append_document [10] s))))"

definition write_comment_after_value_on_same_line :: "'d json_value \<Rightarrow> styled_writer \<Rightarrow> styled_writer" where
  "write_comment_after_value_on_same_line root s =
     (let s = (if has_comment comment_after_on_same_line root
               then append_document ([32] @ get_comment comment_after_on_same_line root) s else s)
      in if has_comment comment_after root then append_document ([10] @ get_comment comment_after root @ [10]) s else s)"

definition styled_layout :: "('d, unit) layout" where
  "styled_layout =
     \<lparr> lay_null = lit ''null'', lay_string = value_to_quoted_string_n, lay_name = (\<lambda>name. value_to_quoted_string (Some name)),
       lay_colon = lit '' : '', lay_indentation = replicate indent_size 32, lay_open = lit ''[ '', lay_close = lit '' ]'',
       lay_multiline = False, lay_with_indent = write_with_indent, lay_before_child = write_indent, lay_after_child = (\<lambda>s. s),
       lay_comment_before = write_comment_before_value, lay_comment_after = write_comment_after_value_on_same_line \<rparr>"

definition styled_write :: "('d \<Rightarrow> byte list) \<Rightarrow> 'd json_value \<Rightarrow> byte list option" where
  "styled_write real_text root =
     do {
       let s = \<lparr> child_values = [], document = [], indent_string = [], add_child_values = False \<rparr>;
       s \<leftarrow> write_value styled_layout real_text root (write_comment_before_value root s);
       Some (document (write_comment_after_value_on_same_line root s) @ [10])
     }"

section \<open>The class \<open>styled_stream_writer\<close>\<close>

definition stream_write_indent :: "stream_writer \<Rightarrow> stream_writer" where
  "stream_write_indent s = append_document (10 # indent_string s) s"

definition stream_ensure_indented :: "stream_writer \<Rightarrow> stream_writer" where
  "stream_ensure_indented s = (if indented s then s else stream_write_indent s)"

definition stream_write_with_indent :: "byte list \<Rightarrow> stream_writer \<Rightarrow> stream_writer" where
  "stream_write_with_indent t s = (append_document t (stream_ensure_indented s))\<lparr> indented := False \<rparr>"

fun stream_comment_lines :: "byte list \<Rightarrow> stream_writer \<Rightarrow> stream_writer" where
  "stream_comment_lines [] s = s"
| "stream_comment_lines (c # cs) s =
     stream_comment_lines cs
       (if c = 10 \<and> (case cs of [] \<Rightarrow> False | d # _ \<Rightarrow> d = asc CHR ''/'') then append_document (c # indent_string s) s
        else append_document [c] s)"

definition stream_comment_before_value :: "'d json_value \<Rightarrow> stream_writer \<Rightarrow> stream_writer" where
  "stream_comment_before_value root s =
     (if \<not> has_comment comment_before root then s
      else (stream_comment_lines (get_comment comment_before root) (stream_ensure_indented s))\<lparr> indented := False \<rparr>)"

definition stream_comment_after_value :: "'d json_value \<Rightarrow> stream_writer \<Rightarrow> stream_writer" where
  "stream_comment_after_value root s =
     (let s = (if has_comment comment_after_on_same_line root
               then append_document ([32] @ get_comment comment_after_on_same_line root) s else s);
          s = (if has_comment comment_after root then append_document (get_comment comment_after root) (stream_write_indent s) else s)
      in s\<lparr> indented := False \<rparr>)"

definition stream_before_child :: "stream_writer \<Rightarrow> stream_writer" where
  "stream_before_child s = (stream_ensure_indented s)\<lparr> indented := True \<rparr>"

definition stream_after_child :: "stream_writer \<Rightarrow> stream_writer" where
  "stream_after_child s = s\<lparr> indented := False \<rparr>"

definition stream_layout :: "byte list \<Rightarrow> ('d, \<lparr> indented :: bool \<rparr>) layout" where
  "stream_layout indentation =
     \<lparr> lay_null = lit ''null'', lay_string = value_to_quoted_string, lay_name = (\<lambda>name. value_to_quoted_string (Some name)),
       lay_colon = lit '' : '', lay_indentation = indentation, lay_open = lit ''[ '', lay_close = lit '' ]'',
       lay_multiline = False, lay_with_indent = stream_write_with_indent, lay_before_child = stream_before_child,
       lay_after_child = stream_after_child,
       lay_comment_before = stream_comment_before_value, lay_comment_after = stream_comment_after_value \<rparr>"

definition stream_write_value :: "byte list \<Rightarrow> ('d \<Rightarrow> byte list) \<Rightarrow> ('d, \<lparr> indented :: bool \<rparr>) value_writer" where
  "stream_write_value indentation real_text v s = write_value (stream_layout indentation) real_text v s"

definition stream_write :: "byte list \<Rightarrow> ('d \<Rightarrow> byte list) \<Rightarrow> 'd json_value \<Rightarrow> byte list option" where
  "stream_write indentation real_text root =
     do {
       let s = \<lparr> child_values = [], document = [], indent_string = [], add_child_values = False, indented = True \<rparr>;
       let s = stream_before_child (stream_comment_before_value root s);
       s \<leftarrow> stream_write_value indentation real_text root s;
       Some (document (stream_comment_after_value root s) @ [10])
     }"

section \<open>The class \<open>built_styled_stream_writer\<close>\<close>

datatype comment_style = style_none | style_most | style_all

record built_config =
  bc_indentation :: "byte list"
  bc_style :: comment_style
  bc_colon_symbol :: "byte list"
  bc_null_symbol :: "byte list"
  bc_ending_linefeed_symbol :: "byte list"

definition built_write_indent :: "built_config \<Rightarrow> stream_writer \<Rightarrow> stream_writer" where
  "built_write_indent cfg s = (if bc_indentation cfg \<noteq> [] then append_document (10 # indent_string s) s else s)"

definition built_ensure_indented :: "built_config \<Rightarrow> stream_writer \<Rightarrow> stream_writer" where
  "built_ensure_indented cfg s = (if indented s then s else built_write_indent cfg s)"

definition built_write_with_indent :: "built_config \<Rightarrow> byte list \<Rightarrow> stream_writer \<Rightarrow> stream_writer" where
  "built_write_with_indent cfg t s = (append_document t (built_ensure_indented cfg s))\<lparr> indented := False \<rparr>"

definition built_comment_before_value :: "built_config \<Rightarrow> 'd json_value \<Rightarrow> stream_writer \<Rightarrow> stream_writer" where
  "built_comment_before_value cfg root s =
     (if bc_style cfg = style_none then s
      else if \<not> has_comment comment_before root then s
      else (stream_comment_lines (get_comment comment_before root) (built_ensure_indented cfg s))\<lparr> indented := False \<rparr>)"

definition built_comment_after_value :: "built_config \<Rightarrow> 'd json_value \<Rightarrow> stream_writer \<Rightarrow> stream_writer" where
  "built_comment_after_value cfg root s =
     (if bc_style cfg = style_none then s
      else let s = (if has_comment comment_after_on_same_line root
                    then append_document ([32] @ get_comment comment_after_on_same_line root) s else s)
           in if has_comment comment_after root then append_document (get_comment comment_after root) (built_write_indent cfg s) else s)"

definition built_before_child :: "built_config \<Rightarrow> stream_writer \<Rightarrow> stream_writer" where
  "built_before_child cfg s = (built_ensure_indented cfg s)\<lparr> indented := True \<rparr>"

definition built_layout :: "built_config \<Rightarrow> ('d, \<lparr> indented :: bool \<rparr>) layout" where
  "built_layout cfg =
     (let gap = (if bc_indentation cfg \<noteq> [] then [32] else [])
      in \<lparr> lay_null = bc_null_symbol cfg, lay_string = value_to_quoted_string_n, lay_name = (\<lambda>name. value_to_quoted_string_n (Some name)),
           lay_colon = bc_colon_symbol cfg, lay_indentation = bc_indentation cfg, lay_open = lit ''['' @ gap, lay_close = gap @ lit '']'',
           lay_multiline = (bc_style cfg = style_all), lay_with_indent = built_write_with_indent cfg,
           lay_before_child = built_before_child cfg, lay_after_child = stream_after_child,
           lay_comment_before = built_comment_before_value cfg, lay_comment_after = built_comment_after_value cfg \<rparr>)"

definition built_write_value :: "built_config \<Rightarrow> ('d \<Rightarrow> byte list) \<Rightarrow> ('d, \<lparr> indented :: bool \<rparr>) value_writer" where
  "built_write_value cfg real_text v s = write_value (built_layout cfg) real_text v s"

definition built_write :: "built_config \<Rightarrow> ('d \<Rightarrow> byte list) \<Rightarrow> 'd json_value \<Rightarrow> byte list option" where
  "built_write cfg real_text root =
     do {
       let s = \<lparr> child_values = [], document = [], indent_string = [], add_child_values = False, indented = True \<rparr>;
       let s = built_before_child cfg (built_comment_before_value cfg root s);
       s \<leftarrow> built_write_value cfg real_text root s;
       Some (document (built_comment_after_value cfg root s) @ bc_ending_linefeed_symbol cfg)
     }"

section \<open>The builder\<close>

definition setting :: "byte list \<Rightarrow> ('d json_value \<Rightarrow> 'a throws) \<Rightarrow> 'd json_value \<Rightarrow> 'a throws" where
  "setting key get settings = (case member_at key settings of Inl e \<Rightarrow> Inl e | Inr w \<Rightarrow> get w)"

definition new_stream_writer :: "'d real_ops \<Rightarrow> ('d \<Rightarrow> byte list) \<Rightarrow> 'd json_value \<Rightarrow> built_config throws" where
  "new_stream_writer R real_text settings =
     (case setting (lit ''indentation'') (as_string real_text) settings of Inl e \<Rightarrow> Inl e | Inr indentation \<Rightarrow>
      case setting (lit ''comment_style'') (as_string real_text) settings of Inl e \<Rightarrow> Inl e | Inr cs_str \<Rightarrow>
      case setting (lit ''enable_yaml_compatibility'') (as_bool R) settings of Inl e \<Rightarrow> Inl e | Inr eyc \<Rightarrow>
      case setting (lit ''drop_null_placeholders'') (as_bool R) settings of Inl e \<Rightarrow> Inl e | Inr dnp \<Rightarrow>
        if cs_str = lit ''all'' \<or> cs_str = lit ''none''
        then Inr \<lparr> bc_indentation = indentation,
               bc_style = (if cs_str = lit ''all'' then style_all else style_none),
               bc_colon_symbol = (if eyc then lit '': '' else if indentation = [] then lit '':'' else lit '' : ''),
               bc_null_symbol = (if dnp then [] else lit ''null''),
               bc_ending_linefeed_symbol = [] \<rparr>
        else Inl json_runtime_error)"

definition valid_writer_keys :: "byte list list" where
  "valid_writer_keys =
     [lit ''indentation'', lit ''comment_style'', lit ''enable_yaml_compatibility'', lit ''drop_null_placeholders'']"

text \<open>\<open>(*settings)[key] = value\<close>.\<close>

definition put_member :: "byte list \<Rightarrow> 'd json_value \<Rightarrow> 'd json_value \<Rightarrow> 'd json_value throws" where
  "put_member key w v = map_sum id (upd_child (key_name (czstring key)) (\<lambda>_. w)) (resolve_reference key v)"

definition set_defaults :: "'d json_value \<Rightarrow> 'd json_value throws" where
  "set_defaults settings =
     fold (\<lambda>(key, w) r. case r of Inl e \<Rightarrow> Inl e | Inr v \<Rightarrow> put_member key w v)
       [(lit ''comment_style'', init_basic (vt_string (Some (lit ''all'')))),
        (lit ''indentation'', init_basic (vt_string (Some [9]))),
        (lit ''enable_yaml_compatibility'', value_bool False),
        (lit ''drop_null_placeholders'', value_bool False)]
       (Inr settings)"

definition validate :: "'d json_value \<Rightarrow> 'd json_value \<Rightarrow> (bool \<times> 'd json_value) throws" where
  "validate settings bad = (case get_member_names settings of Inl e \<Rightarrow> Inl e | Inr keys \<Rightarrow>
     map_sum id (\<lambda>bad. (value_size bad = 0, bad))
       (fold (\<lambda>key r. case r of Inl e \<Rightarrow> Inl e | Inr bad \<Rightarrow>
            if key \<in> set valid_writer_keys then Inr bad
            else case member_at key settings of Inl e \<Rightarrow> Inl e | Inr w \<Rightarrow> put_member key w bad)
          keys (Inr bad)))"

definition write_string :: "'d real_ops \<Rightarrow> ('d \<Rightarrow> byte list) \<Rightarrow> 'd json_value \<Rightarrow> 'd json_value \<Rightarrow> byte list throws option" where
  "write_string R real_text settings root = (case new_stream_writer R real_text settings of
       Inl e \<Rightarrow> Some (Inl e)
     | Inr cfg \<Rightarrow> map_option Inr (built_write cfg real_text root))"

end
