(* ===== verification/Json_Styled_Roundtrip.thy ===== *)
theory Json_Styled_Roundtrip
  imports Json_Roundtrip Json_Styled_Writer
begin

text \<open>
  What the styled writers write is read back, too. The locale \<open>printer\<close> states what the texts and methods of a class have to satisfy; in it the
  text of a value is shown to belong to the grammar. The three classes are interpretations.
\<close>

section \<open>Values without comments\<close>

function uncommented :: "'d json_value \<Rightarrow> bool" where
  "uncommented v \<longleftrightarrow> \<not> has_comment_for_value v \<and> (case payload v of
       vt_array xs \<Rightarrow> \<forall>w \<in> snd ` set xs. uncommented w
     | vt_object xs \<Rightarrow> \<forall>w \<in> snd ` set xs. uncommented w
     | _ \<Rightarrow> True)"
  by pat_completeness auto
termination
  by (relation "measure size") (auto intro: size_array size_object)

declare uncommented.simps [simp del]

lemma uncommented_array: "uncommented v \<Longrightarrow> payload v = vt_array xs \<Longrightarrow> (i, w) \<in> set xs \<Longrightarrow> uncommented w"
  by (subst (asm) uncommented.simps) force

lemma uncommented_object: "uncommented v \<Longrightarrow> payload v = vt_object xs \<Longrightarrow> (k, w) \<in> set xs \<Longrightarrow> uncommented w"
  by (subst (asm) uncommented.simps) force

lemma uncommented_value: "uncommented v \<Longrightarrow> \<not> has_comment pl v"
  by (subst (asm) uncommented.simps, cases pl) (simp_all add: has_comment_for_value_def)

lemma blank_append [simp]: "blank (a @ b) \<longleftrightarrow> blank a \<and> blank b" "blank []"
  by (simp_all add: blank_def)

lemma blank_white: "blank [32]" "blank [10]"
  by (simp_all add: blank_def white_def)

text \<open>A method that only appends to the document.\<close>

definition wrote :: "'z styled_writer_scheme \<Rightarrow> byte list \<Rightarrow> 'z styled_writer_scheme \<Rightarrow> bool" where
  "wrote s x s' \<longleftrightarrow> child_values s' = child_values s \<and> indent_string s' = indent_string s \<and>
     add_child_values s' = add_child_values s \<and> document s' = document s @ x"

lemma wrote_append [simp]: "wrote s x (append_document x s)"
  by (simp add: wrote_def append_document_def)

definition is_atom :: "'d json_tree \<Rightarrow> bool" where
  "is_atom t \<longleftrightarrow> (case t of T_array ts \<Rightarrow> ts = [] | T_object ms \<Rightarrow> ms = [] | _ \<Rightarrow> True)"

text \<open>Blanks behind the last element or member belong to it.\<close>

lemma elements_blank: "elements_text scan n ts y \<Longrightarrow> blank c \<Longrightarrow> elements_text scan n ts (y @ c)"
proof (induction ts arbitrary: y)
  case Nil
  then show ?case by (auto elim: elements_text.cases)
next
  case (Cons t ts)
  from Cons.prems(1) show ?case
  proof (cases rule: elements_text.cases)
    case (et_last x a b)
    then show ?thesis using Json_Grammar.et_last [of scan n t x a "b @ c"] Cons.prems(2) by simp
  next
    case (et_next x y' a b)
    then show ?thesis using Json_Grammar.et_next [OF et_next(2) Cons.IH [OF et_next(3) Cons.prems(2)] et_next(4,5)] by simp
  qed
qed

lemma members_blank: "members_text scan n ms y \<Longrightarrow> blank c' \<Longrightarrow> members_text scan n ms (y @ c')"
proof (induction ms arbitrary: y)
  case Nil
  then show ?case by (auto elim: members_text.cases)
next
  case (Cons m ms)
  from Cons.prems(1) show ?case
  proof (cases rule: members_text.cases)
    case (mt_last t x k z a b c d)
    then show ?thesis using Json_Grammar.mt_last [of scan n t x k z a b c "d @ c'"] Cons.prems(2) by simp
  next
    case (mt_next t x y' k z a b c d)
    then show ?thesis using Json_Grammar.mt_next [OF mt_next(3) Cons.IH [OF mt_next(4) Cons.prems(2)] mt_next(5-9)] by simp
  qed
qed

section \<open>Printers\<close>

locale printer =
  fixes L :: "('d, 'z) layout"
    and string_ok name_ok :: "byte list \<Rightarrow> bool"
    and quiet :: "'d json_value \<Rightarrow> bool"
  assumes null_symbol: "lay_null L = lit ''null''"
    and strings: "string_ok t \<Longrightarrow> \<exists>z. lay_string L (Some t) = quoted z \<and> string_text t z"
    and names: "name_ok k \<Longrightarrow> \<exists>z. lay_name L k = quoted z \<and> string_text k z"
    and colon: "\<exists>a c. blank a \<and> blank c \<and> lay_colon L = a @ asc CHR '':'' # c"
    and indentation: "blank (lay_indentation L)"
    and brackets: "\<exists>a c. blank a \<and> blank c \<and> lay_open L = asc CHR ''['' # a \<and> lay_close L = c @ [asc CHR '']'']"
    and with_indent: "blank (indent_string s) \<Longrightarrow> \<exists>b. blank b \<and> wrote s (b @ t) (lay_with_indent L t s)"
    and before_child: "blank (indent_string s) \<Longrightarrow> \<exists>b. blank b \<and> wrote s b (lay_before_child L s)"
    and after_child: "wrote s [] (lay_after_child L s)"
    and comments: "quiet v \<Longrightarrow> wrote s [] (lay_comment_before L v s) \<and> wrote s [] (lay_comment_after L v s)"
    and quiet_array: "quiet v \<Longrightarrow> payload v = vt_array xs \<Longrightarrow> w \<in> snd ` set xs \<Longrightarrow> quiet w"
    and quiet_object: "quiet v \<Longrightarrow> payload v = vt_object ys \<Longrightarrow> w \<in> snd ` set ys \<Longrightarrow> quiet w"
begin

definition printing :: "'z styled_writer_scheme \<Rightarrow> bool" where
  "printing s \<longleftrightarrow> blank (indent_string s) \<and> \<not> add_child_values s \<and> (lay_multiline L \<longrightarrow> child_values s = [])"

definition went :: "'z styled_writer_scheme \<Rightarrow> byte list \<Rightarrow> 'z styled_writer_scheme \<Rightarrow> bool" where
  "went s x s' \<longleftrightarrow> printing s' \<and> indent_string s' = indent_string s \<and> document s' = document s @ x"

lemma wrote_went: "wrote s x s' \<Longrightarrow> printing s \<Longrightarrow> went s x s'"
  by (simp add: wrote_def went_def printing_def)

lemma went_trans: "went s x s' \<Longrightarrow> went s' y s'' \<Longrightarrow> went s (x @ y) s''"
  by (simp add: went_def)

lemma went_printing: "went s x s' \<Longrightarrow> printing s'"
  by (simp add: went_def)

text \<open>What the recursive call makes of a child.\<close>

definition prints :: "(byte list \<Rightarrow> 'd option) \<Rightarrow> nat \<Rightarrow> ('d, 'z) value_writer \<Rightarrow> 'd json_tree \<Rightarrow> 'd json_value \<Rightarrow> bool" where
  "prints scan n rec t w \<longleftrightarrow> (\<forall>s. printing s \<longrightarrow>
     (\<exists>s' b x. rec w s = Some s' \<and> blank b \<and> json_text scan n t x \<and> went s (b @ x) s'))"

definition pushes :: "(byte list \<Rightarrow> 'd option) \<Rightarrow> nat \<Rightarrow> ('d, 'z) value_writer \<Rightarrow> 'd json_tree \<Rightarrow> 'd json_value \<Rightarrow> bool" where
  "pushes scan n rec t w \<longleftrightarrow> (\<exists>x. json_text scan n t x \<and> (\<forall>s. rec w s = Some (push_value x s)))"

lemma pushes_prints: "pushes scan n rec t w \<Longrightarrow> prints scan n rec t w"
proof -
  assume "pushes scan n rec t w"
  then obtain x where x: "json_text scan n t x" "\<And>s. rec w s = Some (push_value x s)" by (auto simp: pushes_def)
  have "went s ([] @ x) (push_value x s)" if "printing s" for s
    using that wrote_went [OF wrote_append that] by (simp add: push_value_def printing_def)
  then show ?thesis using x unfolding prints_def by (metis blank_append(2))
qed

section \<open>Arrays\<close>

lemma children_measured:
  assumes "list_all2 (pushes scan n rec) ts ws" "add_child_values s" "i = length (child_values s)"
  shows "\<exists>xs multi' len'. measure_children rec i ws multi len s = Some (multi', len', s\<lparr> child_values := child_values s @ xs \<rparr>) \<and>
    list_all2 (json_text scan n) ts xs"
  using assms
proof (induction arbitrary: i s multi len rule: list_all2_induct)
  case Nil
  then show ?case by simp
next
  case (Cons t ts w ws)
  obtain x where x: "json_text scan n t x" "\<And>s. rec w s = Some (push_value x s)" using Cons.hyps(1) by (auto simp: pushes_def)
  let ?s = "s\<lparr> child_values := child_values s @ [x] \<rparr>"
  have push: "push_value x s = ?s" using Cons.prems(1) by (simp add: push_value_def)
  obtain xs multi' len' where xs: "measure_children rec (Suc i) ws (multi \<or> has_comment_for_value w) (len + of_nat (length x)) ?s =
      Some (multi', len', ?s\<lparr> child_values := child_values ?s @ xs \<rparr>)" "list_all2 (json_text scan n) ts xs"
    using Cons.IH [of ?s "Suc i" "multi \<or> has_comment_for_value w" "len + of_nat (length x)"] Cons.prems by auto
  then have "measure_children rec i (w # ws) multi len s = Some (multi', len', s\<lparr> child_values := child_values s @ x # xs \<rparr>)"
    using x(2) push Cons.prems(2) by simp
  then show ?case using xs(2) x(1) by (intro exI [of _ "x # xs"]) auto
qed

text \<open>The elements of an array on several lines, from the texts of the children or by the recursive call.\<close>

definition prints_item :: "(byte list \<Rightarrow> 'd option) \<Rightarrow> nat \<Rightarrow> ('d, 'z) value_writer \<Rightarrow> bool \<Rightarrow> byte list list \<Rightarrow> nat \<Rightarrow> 'd json_tree \<Rightarrow>
    'd json_value \<Rightarrow> bool" where
  "prints_item scan n rec has cs i t w \<longleftrightarrow> (\<forall>s. printing s \<and> (has \<longrightarrow> child_values s = cs) \<longrightarrow>
     (\<exists>s' b x. write_item L rec has i w s = Some s' \<and> blank b \<and> json_text scan n t x \<and> went s (b @ x) s' \<and> (has \<longrightarrow> child_values s' = cs)))"

lemma item_by_text:
  assumes "quiet w" "i < length cs" "json_text scan n t (cs ! i)"
  shows "prints_item scan n rec True cs i t w"
  unfolding prints_item_def
proof (intro allI impI, elim conjE)
  fix s
  assume s: "printing s" "True \<longrightarrow> child_values s = cs"
  let ?s = "lay_comment_before L w s"
  have c: "wrote s [] ?s" using comments [OF assms(1)] by blast
  then obtain b where b: "blank b" "wrote ?s (b @ cs ! i) (lay_with_indent L (cs ! i) ?s)"
    using with_indent [of ?s "cs ! i"] s(1) by (auto simp: wrote_def printing_def)
  then have "wrote s (b @ cs ! i) (lay_with_indent L (cs ! i) ?s)" using c by (simp add: wrote_def)
  then show "\<exists>s' b x. write_item L rec True i w s = Some s' \<and> blank b \<and> json_text scan n t x \<and> went s (b @ x) s' \<and> (True \<longrightarrow> child_values s' = cs)"
    using assms(2,3) b(1) c s wrote_went [OF _ s(1)] by (auto simp: write_item_def Let_def wrote_def)
qed

lemma item_by_call:
  assumes "quiet w" "prints scan n rec t w"
  shows "prints_item scan n rec False cs i t w"
  unfolding prints_item_def
proof (intro allI impI, elim conjE)
  fix s
  assume s: "printing s"
  let ?s = "lay_comment_before L w s"
  have c: "went s [] ?s" using comments [OF assms(1)] wrote_went [OF _ s] by blast
  then obtain b where b: "blank b" "went ?s b (lay_before_child L ?s)"
    using before_child [of ?s] wrote_went went_printing by (metis printing_def)
  obtain s' b' x where x: "rec w (lay_before_child L ?s) = Some s'" "blank b'" "json_text scan n t x" "went (lay_before_child L ?s) (b' @ x) s'"
    using assms(2) went_printing [OF b(2)] unfolding prints_def by blast
  have "went s' [] (lay_after_child L s')" using after_child wrote_went went_printing [OF x(4)] by blast
  then have "went s ([] @ b @ (b' @ x) @ []) (lay_after_child L s')" using c b(2) x(4) went_trans by blast
  then show "\<exists>s' b x. write_item L rec False i w s = Some s' \<and> blank b \<and> json_text scan n t x \<and> went s (b @ x) s' \<and> (False \<longrightarrow> child_values s' = cs)"
    using x(1-3) b(1) by (intro exI [of _ "lay_after_child L s'"] exI [of _ "b @ b'"] exI [of _ x]) (simp add: write_item_def Let_def)
qed


lemma items_printed:
  assumes "list_all2 (\<lambda>t w. quiet w) ts ws" "\<And>j. j < length ws \<Longrightarrow> prints_item scan n rec has cs (i + j) (ts ! j) (ws ! j)"
    "ws \<noteq> []" "printing s" "has \<longrightarrow> child_values s = cs"
  shows "\<exists>s' y. write_items L rec has i ws s = Some s' \<and> elements_text scan n ts y \<and> went s y s'"
  using assms
proof (induction arbitrary: i s rule: list_all2_induct)
  case Nil
  then show ?case by simp
next
  case (Cons t ts w ws)
  obtain s1 b x where s1: "write_item L rec has i w s = Some s1" "blank b" "json_text scan n t x" "went s (b @ x) s1" "has \<longrightarrow> child_values s1 = cs"
    using Cons.prems(1) [of 0] Cons.prems(3,4) unfolding prints_item_def by auto
  show ?case
  proof (cases "ws = []")
    case True
    then have "ts = []" using Cons.hyps(2) by simp
    have "went s1 [] (lay_comment_after L w s1)" using comments [OF Cons.hyps(1)] wrote_went went_printing [OF s1(4)] by blast
    from went_trans [OF s1(4) this] have "went s (b @ x @ []) (lay_comment_after L w s1)" by simp
    moreover have "elements_text scan n [t] (b @ x @ [])" using s1(2,3) by (intro et_last) simp_all
    ultimately show ?thesis using s1(1) True \<open>ts = []\<close> by auto
  next
    case False
    let ?s = "append_document [asc CHR '',''] s1" let ?u = "lay_comment_after L w ?s"
    have "wrote s1 [asc CHR '',''] ?u" using comments [OF Cons.hyps(1), of ?s] by (simp add: wrote_def append_document_def)
    then have u: "went s1 [asc CHR '',''] ?u" "has \<longrightarrow> child_values ?u = cs"
      using wrote_went [OF _ went_printing [OF s1(4)]] s1(5) by (auto simp: wrote_def)
    have "prints_item scan n rec has cs (Suc i + j) (ts ! j) (ws ! j)" if "j < length ws" for j
      using Cons.prems(1) [of "Suc j"] that by simp
    then obtain s' y where y: "write_items L rec has (Suc i) ws ?u = Some s'" "elements_text scan n ts y" "went ?u y s'"
      using Cons.IH [OF _ False went_printing [OF u(1)] u(2)] by blast
    have "went s ((b @ x) @ [asc CHR '',''] @ y) s'" using went_trans [OF s1(4) went_trans [OF u(1) y(3)]] .
    moreover have "elements_text scan n (t # ts) (b @ x @ [] @ asc CHR '','' # y)" using s1(2,3) y(2) by (intro et_next) simp_all
    ultimately show ?thesis using s1(1) y(1) False by (auto simp: Let_def)
  qed
qed

text \<open>On one line.\<close>

lemma child_values_written:
  "list_all2 (json_text scan n) ts xs \<Longrightarrow> wrote s (concat (map (\<lambda>x. lit '', '' @ x) xs)) (write_child_values (Suc i) xs s)"
proof (induction arbitrary: s i rule: list_all2_induct)
  case (Cons t ts x xs)
  have "wrote (append_document (lit '', '' @ x) s) (concat (map (\<lambda>x. lit '', '' @ x) xs)) (write_child_values (Suc (Suc i)) xs (append_document (lit '', '' @ x) s))"
    by (rule Cons.IH)
  then show ?case by (simp add: wrote_def append_document_def)
qed (simp add: wrote_def)

lemma line_text:
  "list_all2 (json_text scan n) ts xs \<Longrightarrow> json_text scan n t x \<Longrightarrow> blank a \<Longrightarrow> blank c \<Longrightarrow>
    elements_text scan n (t # ts) (a @ x @ concat (map (\<lambda>x. lit '', '' @ x) xs) @ c)"
proof (induction arbitrary: t x a rule: list_all2_induct)
  case Nil
  then show ?case using et_last [of scan n t x a c] by simp
next
  case (Cons t' ts x' xs)
  have "elements_text scan n (t' # ts) ([32] @ x' @ concat (map (\<lambda>x. lit '', '' @ x) xs) @ c)"
    using Cons.IH [of t' x' "[32]"] Cons.hyps(1) Cons.prems(3) blank_white by blast
  then show ?case using et_next [of scan n t x "t' # ts" _ a "[]"] Cons.prems by simp
qed


text \<open>Brackets around the elements of an array or the members of an object, with the indentation of the level inside.\<close>

lemma indented_block:
  assumes "printing s" "\<And>u. printing u \<Longrightarrow> child_values u = child_values s \<Longrightarrow> \<exists>u' y. body u = Some u' \<and> P y \<and> went u y u'"
  shows "\<exists>s' b y c. do { u \<leftarrow> body (indent L (lay_with_indent L p s)); u \<leftarrow> unindent L u; Some (lay_with_indent L q u) } = Some s' \<and>
    blank b \<and> P y \<and> blank c \<and> went s (b @ p @ y @ c @ q) s'"
proof -
  let ?s = "lay_with_indent L p s"
  obtain b where b: "blank b" "wrote s (b @ p) ?s" using with_indent [of s p] assms(1) by (auto simp: printing_def)
  have "printing (indent L ?s)" "child_values (indent L ?s) = child_values s"
    using b(2) assms(1) indentation by (auto simp: printing_def wrote_def indent_def)
  then obtain u y where u: "body (indent L ?s) = Some u" "P y" "went (indent L ?s) y u" using assms(2) by blast
  let ?u = "u\<lparr> indent_string := indent_string s \<rparr>"
  have "unindent L u = Some ?u" using u(3) b(2) by (simp add: unindent_def went_def indent_def wrote_def)
  moreover obtain c where c: "blank c" "wrote ?u (c @ q) (lay_with_indent L q ?u)" using with_indent [of ?u q] assms(1) by (auto simp: printing_def)
  moreover have "went s (b @ p @ y) ?u" using u(3) b(2) assms(1) by (simp add: went_def wrote_def indent_def printing_def)
  then have "went s ((b @ p @ y) @ (c @ q)) (lay_with_indent L q ?u)" using went_trans wrote_went [OF c(2)] went_printing by blast
  ultimately show ?thesis using u(1,2) b(1) by (intro exI [of _ "lay_with_indent L q ?u"] exI [of _ b] exI [of _ y] exI [of _ c]) simp
qed

text \<open>The decision of \<open>is_multiline_array\<close>: the texts of the children are at hand if there are any.\<close>

lemma multiline_decided:
  assumes "elements (nat (sint (value_size v))) v = ws" "printing s" "\<not> lay_multiline L"
    "list_all2 (\<lambda>t w. \<not> ((is_array w \<or> is_object w) \<and> 0 < value_size w) \<longrightarrow> pushes scan n rec t w) ts ws" "ws \<noteq> []"
  shows "\<exists>multi s1. is_multiline_array rec v s = Some (multi, s1) \<and> went s [] s1 \<and>
    (multi \<and> child_values s1 = [] \<or> list_all2 (json_text scan n) ts (child_values s1))"
proof -
  let ?multi = "right_margin \<le> sint (value_size v * 3) \<or> list_ex (\<lambda>w. (is_array w \<or> is_object w) \<and> 0 < value_size w) ws"
  let ?s = "s\<lparr> child_values := [], add_child_values := True \<rparr>"
  show ?thesis
  proof (cases ?multi)
    case True
    then show ?thesis using assms(1-3) by (intro exI [of _ True]) (simp add: is_multiline_array_def Let_def went_def printing_def)
  next
    case False
    then have "list_all2 (pushes scan n rec) ts ws"
      using assms(4) by (auto simp: list_all2_conv_all_nth list_ex_length)
    then obtain xs multi len where "measure_children rec 0 ws False (4 + (value_size v - 1) * 2) ?s =
        Some (multi, len, ?s\<lparr> child_values := child_values ?s @ xs \<rparr>)" "list_all2 (json_text scan n) ts xs"
      using children_measured [of scan n rec ts ws ?s 0 False "4 + (value_size v - 1) * 2"] by auto
    then show ?thesis using False assms(1-3) by (simp add: is_multiline_array_def Let_def went_def printing_def)
  qed
qed

lemma unat_of_nat_sint: "nat (sint i) = k \<Longrightarrow> 0 < k \<Longrightarrow> unat i = k" for i :: "32 word"
proof -
  assume "nat (sint i) = k" "0 < k"
  then have "0 \<le> sint i" "int k = sint i" by auto
  moreover have "uint i = sint i" using sint_lt [of i] calculation(1) by (simp add: uint_of_sint(1))
  ultimately show ?thesis by (metis nat_int unat_eq_nat_uint)
qed

lemma array_printed:
  assumes "elements (nat (sint (value_size v))) v = ws" "nat (sint (value_size v)) = length ws" "ws \<noteq> []"
    "list_all2 (\<lambda>t w. quiet w \<and> prints scan n rec t w \<and> (\<not> ((is_array w \<or> is_object w) \<and> 0 < value_size w) \<longrightarrow> pushes scan n rec t w)) ts ws"
    "printing s"
  shows "\<exists>s' b x. write_array_value L rec v s = Some s' \<and> blank b \<and> json_text scan (Suc n) (T_array ts) x \<and> went s (b @ x) s'"
proof -
  have size: "unat (value_size v) = length ws" using unat_of_nat_sint [OF assms(2)] assms(3) by simp
  then have nonzero: "value_size v \<noteq> 0" and ws: "elements (unat (value_size v)) v = ws" using assms(1-3) by auto
  have len: "length ts = length ws" using assms(4) by (rule list_all2_lengthD)
  have "\<exists>multi s1. (if lay_multiline L then Some (True, s) else is_multiline_array rec v s) = Some (multi, s1) \<and> went s [] s1 \<and>
    (multi \<and> child_values s1 = [] \<or> list_all2 (json_text scan n) ts (child_values s1))"
  proof (cases "lay_multiline L")
    case True
    then show ?thesis using assms(5) by (intro exI [of _ True]) (simp add: went_def printing_def)
  next
    case False
    have "list_all2 (\<lambda>t w. \<not> ((is_array w \<or> is_object w) \<and> 0 < value_size w) \<longrightarrow> pushes scan n rec t w) ts ws"
      by (rule list_all2_mono [OF assms(4)]) blast
    from multiline_decided [OF assms(1,5) False this assms(3)] show ?thesis using False by simp
  qed
  then obtain multi s1 where s1: "(if lay_multiline L then Some (True, s) else is_multiline_array rec v s) = Some (multi, s1)" "went s [] s1"
    "multi \<and> child_values s1 = [] \<or> list_all2 (json_text scan n) ts (child_values s1)" by blast
  note p1 = went_printing [OF s1(2)]
  show ?thesis
  proof (cases multi)
    case True
    let ?has = "child_values s1 \<noteq> []"
    have "prints_item scan n rec ?has (child_values s1) j (ts ! j) (ws ! j)" if "j < length ws" for j
    proof (cases ?has)
      case True
      then have "list_all2 (json_text scan n) ts (child_values s1)" using s1(3) by blast
      then show ?thesis using item_by_text [of "ws ! j" j "child_values s1" scan n "ts ! j" rec] True that assms(4)
        by (simp add: list_all2_conv_all_nth)
    next
      case False
      then show ?thesis using item_by_call [of "ws ! j" scan n rec "ts ! j"] that assms(4) by (simp add: list_all2_conv_all_nth)
    qed
    moreover have "list_all2 (\<lambda>t w. quiet w) ts ws" by (rule list_all2_mono [OF assms(4)]) blast
    ultimately have "\<exists>u' y. write_items L rec (child_values u \<noteq> []) 0 ws u = Some u' \<and> elements_text scan n ts y \<and> went u y u'"
      if "printing u" "child_values u = child_values s1" for u
      using items_printed [of ts ws scan n rec ?has "child_values s1" 0 u] assms(3) that by simp
    from indented_block [OF p1 this, where p = "lit ''[''" and q = "lit '']''"]
    obtain s' b y c where s': "do { u \<leftarrow> write_items L rec (child_values (indent L (lay_with_indent L (lit ''['') s1)) \<noteq> []) 0 ws
          (indent L (lay_with_indent L (lit ''['') s1)); u \<leftarrow> unindent L u; Some (lay_with_indent L (lit '']'') u) } = Some s'"
      "blank b" "elements_text scan n ts y" "blank c" "went s1 (b @ lit ''['' @ y @ c @ lit '']'') s'" by blast
    have "went s ([] @ b @ lit ''['' @ y @ c @ lit '']'') s'" using went_trans [OF s1(2) s'(5)] .
    moreover have "write_array_value L rec v s = Some s'" using s'(1) s1(1) nonzero True ws by (simp add: write_array_value_def Let_def)
    moreover have "json_text scan (Suc n) (T_array ts) (asc CHR ''['' # (y @ c) @ [asc CHR '']''])"
      using jt_array [OF elements_blank [OF s'(3,4)]] .
    ultimately show ?thesis using s'(2) by (intro exI [of _ s'] exI [of _ b] exI) auto
  next
    case False
    then have xs: "list_all2 (json_text scan n) ts (child_values s1)" using s1(3) by simp
    then obtain t ts' x xs' where split: "ts = t # ts'" "child_values s1 = x # xs'" "json_text scan n t x" "list_all2 (json_text scan n) ts' xs'"
      using assms(3) len by (cases ts; cases "child_values s1") auto
    obtain a c where ac: "blank a" "blank c" "lay_open L = asc CHR ''['' # a" "lay_close L = c @ [asc CHR '']'']" using brackets by blast
    let ?s = "append_document (lay_close L) (write_child_values 0 (child_values s1) (append_document (lay_open L) s1))"
    let ?y = "a @ x @ concat (map (\<lambda>x. lit '', '' @ x) xs') @ c"
    have "wrote (append_document x (append_document (lay_open L) s1)) (concat (map (\<lambda>x. lit '', '' @ x) xs'))
        (write_child_values (Suc 0) xs' (append_document x (append_document (lay_open L) s1)))"
      using split(4) by (rule child_values_written)
    then have "wrote s1 (asc CHR ''['' # ?y @ [asc CHR '']'']) ?s" using split(2) ac(3,4) by (simp add: wrote_def append_document_def)
    then have "went s1 (asc CHR ''['' # ?y @ [asc CHR '']'']) ?s" using p1 by (rule wrote_went)
    then have "went s ([] @ asc CHR ''['' # ?y @ [asc CHR '']'']) ?s" using went_trans s1(2) by blast
    moreover have "write_array_value L rec v s = Some ?s"
      using s1(1) nonzero False size len list_all2_lengthD [OF xs] by (simp add: write_array_value_def Let_def)
    moreover have "json_text scan (Suc n) (T_array ts) (asc CHR ''['' # ?y @ [asc CHR '']''])"
      unfolding split(1) by (rule jt_array [OF line_text [OF split(4,3) ac(1,2)]])
    ultimately show ?thesis by (intro exI [of _ ?s] exI [of _ "[]"] exI) auto
  qed
qed

section \<open>Objects\<close>

lemma member_printed:
  assumes "quiet w" "name_ok k" "prints scan n rec t w" "printing s"
  shows "\<exists>s' a z b c x. rec w (append_document (lay_colon L) (lay_with_indent L (lay_name L k) (lay_comment_before L w s))) = Some s' \<and>
    string_text k z \<and> json_text scan n t x \<and> blank a \<and> blank b \<and> blank c \<and> went s (a @ quoted z @ b @ asc CHR '':'' # c @ x) s'"
proof -
  let ?s = "lay_comment_before L w s"
  have c: "went s [] ?s" using comments [OF assms(1)] wrote_went [OF _ assms(4)] by blast
  obtain z where z: "lay_name L k = quoted z" "string_text k z" using names [OF assms(2)] by blast
  obtain a where a: "blank a" "wrote ?s (a @ quoted z) (lay_with_indent L (quoted z) ?s)"
    using with_indent [of ?s "quoted z"] went_printing [OF c] by (auto simp: printing_def)
  obtain b c' where colon': "blank b" "blank c'" "lay_colon L = b @ asc CHR '':'' # c'" using colon by blast
  let ?u = "append_document (lay_colon L) (lay_with_indent L (quoted z) ?s)"
  have "wrote ?s (a @ quoted z @ b @ asc CHR '':'' # c') ?u" using a(2) colon'(3) by (simp add: wrote_def append_document_def)
  then have u: "went ?s (a @ quoted z @ b @ asc CHR '':'' # c') ?u" using went_printing [OF c] by (rule wrote_went)
  obtain s' b' x where x: "rec w ?u = Some s'" "blank b'" "json_text scan n t x" "went ?u (b' @ x) s'"
    using assms(3) went_printing [OF u] unfolding prints_def by blast
  have "went s ([] @ (a @ quoted z @ b @ asc CHR '':'' # c') @ b' @ x) s'" using went_trans [OF c went_trans [OF u x(4)]] .
  then show ?thesis using x(1-3) z a(1) colon'(1,2)
    by (intro exI [of _ s'] exI [of _ a] exI [of _ z] exI [of _ b] exI [of _ "c' @ b'"] exI [of _ x]) simp
qed

lemma members_printed:
  assumes "list_all2 (\<lambda>m x. fst x = fst m \<and> quiet (snd x) \<and> name_ok (fst m) \<and> prints scan n rec (snd m) (snd x)) ms xs" "xs \<noteq> []" "printing s"
  shows "\<exists>s' y. write_members L rec xs s = Some s' \<and> members_text scan n ms y \<and> went s y s'"
  using assms
proof (induction arbitrary: s rule: list_all2_induct)
  case Nil
  then show ?case by simp
next
  case (Cons m ms x xs)
  obtain k t w where kt: "m = (k, t)" "x = (k, w)" using Cons.hyps(1) by (cases m; cases x) auto
  obtain s1 a z b c y where s1: "rec w (append_document (lay_colon L) (lay_with_indent L (lay_name L k) (lay_comment_before L w s))) = Some s1"
    "string_text k z" "json_text scan n t y" "blank a" "blank b" "blank c" "went s (a @ quoted z @ b @ asc CHR '':'' # c @ y) s1"
    using member_printed [of w k scan n rec t s] Cons.hyps(1) Cons.prems(2) kt by auto
  note p1 = went_printing [OF s1(7)]
  have q: "quiet w" using Cons.hyps(1) kt by simp
  show ?case
  proof (cases "xs = []")
    case True
    then have "ms = []" using Cons.hyps(2) by simp
    have "went s1 [] (lay_comment_after L w s1)" using comments [OF q] wrote_went [OF _ p1] by blast
    from went_trans [OF s1(7) this] have "went s (a @ quoted z @ b @ asc CHR '':'' # c @ y @ []) (lay_comment_after L w s1)" by simp
    moreover have "members_text scan n [(k, t)] (a @ quoted z @ b @ asc CHR '':'' # c @ y @ [])" using s1(2-6) by (intro mt_last) simp_all
    ultimately show ?thesis using s1(1) True kt \<open>ms = []\<close> by (auto simp: Let_def)
  next
    case False
    let ?s = "append_document [asc CHR '',''] s1" let ?u = "lay_comment_after L w ?s"
    have "wrote s1 [asc CHR '',''] ?u" using comments [OF q, of ?s] by (simp add: wrote_def append_document_def)
    then have u: "went s1 [asc CHR '',''] ?u" using p1 by (rule wrote_went)
    obtain s' y' where y': "write_members L rec xs ?u = Some s'" "members_text scan n ms y'" "went ?u y' s'"
      using Cons.IH [OF False went_printing [OF u]] by blast
    have "went s ((a @ quoted z @ b @ asc CHR '':'' # c @ y) @ [asc CHR '',''] @ y') s'" using went_trans [OF s1(7) went_trans [OF u y'(3)]] .
    moreover have "members_text scan n ((k, t) # ms) (a @ quoted z @ b @ asc CHR '':'' # c @ y @ [] @ asc CHR '','' # y')"
      using s1(2-6) y'(2) by (intro mt_next) simp_all
    ultimately show ?thesis using s1(1) y'(1) False kt by (auto simp: Let_def)
  qed
qed

lemma object_printed:
  assumes "members v = xs" "xs \<noteq> []" "assigned [] ms = ms"
    "list_all2 (\<lambda>m x. fst x = fst m \<and> quiet (snd x) \<and> name_ok (fst m) \<and> prints scan n rec (snd m) (snd x)) ms xs" "printing s"
  shows "\<exists>s' b x. write_object_value L rec v s = Some s' \<and> blank b \<and> json_text scan (Suc n) (T_object ms) x \<and> went s (b @ x) s'"
proof -
  have "\<exists>u' y. write_members L rec xs u = Some u' \<and> members_text scan n ms y \<and> went u y u'"
    if "printing u" "child_values u = child_values s" for u using members_printed [OF assms(4,2) that(1)] .
  from indented_block [OF assms(5) this, where p = "lit ''{''" and q = "lit ''}''"]
  obtain s' b y c where s': "do { u \<leftarrow> write_members L rec xs (indent L (lay_with_indent L (lit ''{'') s)); u \<leftarrow> unindent L u;
      Some (lay_with_indent L (lit ''}'') u) } = Some s'"
    "blank b" "members_text scan n ms y" "blank c" "went s (b @ lit ''{'' @ y @ c @ lit ''}'') s'" by blast
  moreover have "write_object_value L rec v s = Some s'" using s'(1) assms(1,2) by (simp add: write_object_value_def)
  moreover have "json_text scan (Suc n) (T_object ms) (asc CHR ''{'' # (y @ c) @ [asc CHR ''}''])"
    using jt_object [OF members_blank [OF s'(3,4)]] assms(3) by simp
  ultimately show ?thesis by (intro exI [of _ s'] exI [of _ b] exI) auto
qed

section \<open>Documents\<close>

lemma atom_pushed:
  assumes "writable string_ok name_ok scan real_to_text (Suc n) t" "represents t v" "is_atom t"
  shows "pushes scan (Suc n) (write_value L real_to_text) t v"
proof (cases t)
  case T_null
  then show ?thesis using assms jt_null null_symbol unfolding pushes_def by (subst write_value.simps) (auto simp: represents_payloads)
next
  case (T_int i)
  then show ?thesis using assms int_text unfolding pushes_def by (subst write_value.simps) (auto simp: represents_payloads)
next
  case (T_uint i)
  then show ?thesis using assms uint_text unfolding pushes_def by (subst write_value.simps) (auto simp: represents_payloads)
next
  case (T_real d)
  then show ?thesis using assms jt_real [of "real_to_text d" scan d n] unfolding pushes_def
    by (subst write_value.simps) (auto simp: represents_payloads)
next
  case (T_string r)
  then obtain z where z: "lay_string L (Some r) = quoted z" "string_text r z" using assms(1) strings by auto
  then show ?thesis using assms T_string jt_string [OF z(2), of scan n] unfolding pushes_def by (subst write_value.simps) (auto simp: represents_payloads)
next
  case (T_bool b)
  then show ?thesis using assms jt_true [of scan n] jt_false [of scan n] unfolding pushes_def
    by (cases b; subst write_value.simps) (auto simp: value_to_string_bool_def represents_payloads)
next
  case (T_array ts)
  then have "payload v = vt_array []" using assms(2,3) by (auto simp: is_atom_def elim: represents_array)
  moreover have "json_text scan (Suc n) t (lit ''[]'')" using jt_no_elements [of "[]" scan n] T_array assms(3) by (simp add: is_atom_def)
  ultimately show ?thesis unfolding pushes_def
    by (intro exI [of _ "lit ''[]''"]) (subst write_value.simps, simp add: write_array_value_def value_size_def)
next
  case (T_object ms)
  then have "payload v = vt_object []" using assms(2,3) by (auto simp: is_atom_def elim: represents_object)
  moreover have "json_text scan (Suc n) t (lit ''{}'')" using jt_no_members [of "[]" scan n] T_object assms(3) by (simp add: is_atom_def)
  ultimately show ?thesis unfolding pushes_def
    by (intro exI [of _ "lit ''{}''"])
      (subst write_value.simps, simp add: write_object_value_def members_def get_member_names_def)
qed

lemma small_atom:
  assumes "writable string_ok name_ok scan real_to_text n t" "represents t w" "\<not> ((is_array w \<or> is_object w) \<and> 0 < value_size w)"
  shows "is_atom t"
proof -
  obtain m where n: "n = Suc m" using assms(1) by (cases n) auto
  note wr = assms(1) [unfolded n]
  show ?thesis
  proof (cases t)
    case (T_array ts)
    obtain xs where xs: "payload w = vt_array xs" "list_all2 (\<lambda>t w. represents t w \<and> writable string_ok name_ok scan real_to_text m t) ts (map snd xs)"
      "nat (sint (value_size w)) = length xs"
      using array_children [OF wr [unfolded T_array] assms(2) [unfolded T_array]] by blast
    have "value_size w = 0" using assms(3) xs(1) by (simp add: is_array_def type_of_def word_gt_0)
    then have "xs = []" using xs(3) by simp
    then show ?thesis using xs(2) T_array by (simp add: is_atom_def)
  next
    case (T_object ms)
    obtain xs where xs: "payload w = vt_object xs" "members w = xs" "assigned [] ms = ms"
      "list_all2 (\<lambda>a x. fst x = fst a \<and> represents (snd a) (snd x) \<and> writable string_ok name_ok scan real_to_text m (snd a) \<and> name_ok (fst a)) ms xs"
      "length xs < 2 ^ 31"
      by (rule object_children [OF wr [unfolded T_object] assms(2) [unfolded T_object]])
    have "value_size w = 0" using assms(3) xs(1) by (simp add: is_object_def type_of_def word_gt_0)
    then have "unat (of_nat (length xs) :: 32 word) = 0" using xs(1) by (simp add: value_size_def)
    then have "length xs = 0" using unat_of_nat32 [of "length xs"] xs(5) by simp
    then show ?thesis using list_all2_lengthD [OF xs(4)] T_object by (simp add: is_atom_def)
  qed (simp_all add: is_atom_def)
qed

lemma atom_pushed_at:
  "writable string_ok name_ok scan real_to_text n t \<Longrightarrow> represents t w \<Longrightarrow> \<not> ((is_array w \<or> is_object w) \<and> 0 < value_size w) \<Longrightarrow>
    pushes scan n (write_value L real_to_text) t w"
proof -
  assume w: "writable string_ok name_ok scan real_to_text n t" "represents t w"
  assume "\<not> ((is_array w \<or> is_object w) \<and> 0 < value_size w)"
  then have a: "is_atom t" by (rule small_atom [OF w])
  obtain m where n: "n = Suc m" using w(1) by (cases n) auto
  show ?thesis using atom_pushed [OF w(1) [unfolded n] w(2) a] n by simp
qed

lemma value_printed:
  "writable string_ok name_ok scan real_to_text n t \<Longrightarrow> represents t v \<Longrightarrow> quiet v \<Longrightarrow> prints scan n (write_value L real_to_text) t v"
proof (induction n arbitrary: t v)
  case (Suc n)
  let ?rec = "write_value L real_to_text"
  show ?case
  proof (cases "is_atom t")
    case True
    then show ?thesis using atom_pushed [OF Suc.prems(1,2)] pushes_prints by blast
  next
    case False
    then consider (array) ts where "t = T_array ts" "ts \<noteq> []" | (object) ms where "t = T_object ms" "ms \<noteq> []"
      by (cases t) (auto simp: is_atom_def)
    then show ?thesis
    proof cases
      case array
      obtain xs where xs: "payload v = vt_array xs" "elements (nat (sint (value_size v))) v = map snd xs"
        "list_all2 (\<lambda>t w. represents t w \<and> writable string_ok name_ok scan real_to_text n t) ts (map snd xs)"
        "length xs < 2 ^ 31" "nat (sint (value_size v)) = length xs"
        by (rule array_children [OF Suc.prems(1,2) [unfolded array(1)]])
      have "quiet w" if "w \<in> set (map snd xs)" for w using quiet_array [OF Suc.prems(3) xs(1)] that by simp
      then have ws: "list_all2 (\<lambda>t w. quiet w \<and> prints scan n ?rec t w \<and>
          (\<not> ((is_array w \<or> is_object w) \<and> 0 < value_size w) \<longrightarrow> pushes scan n ?rec t w)) ts (map snd xs)"
        using xs(3) Suc.IH atom_pushed_at by (auto simp: list_all2_conv_all_nth)
      have "map snd xs \<noteq> []" using xs(3) array(2) by auto
      moreover have "nat (sint (value_size v)) = length (map snd xs)" using xs(5) by simp
      ultimately have "\<exists>s' b x. write_array_value L ?rec v s = Some s' \<and> blank b \<and> json_text scan (Suc n) (T_array ts) x \<and> went s (b @ x) s'"
        if "printing s" for s using array_printed [OF xs(2) _ _ ws that] by blast
      then show ?thesis using xs(1) array(1) unfolding prints_def by (subst write_value.simps) simp
    next
      case object
      obtain xs where xs: "payload v = vt_object xs" "members v = xs" "assigned [] ms = ms"
        "list_all2 (\<lambda>m x. fst x = fst m \<and> represents (snd m) (snd x) \<and> writable string_ok name_ok scan real_to_text n (snd m) \<and> name_ok (fst m)) ms xs"
        by (rule object_children [OF Suc.prems(1,2) [unfolded object(1)]])
      have "quiet (snd x)" if "x \<in> set xs" for x using quiet_object [OF Suc.prems(3) xs(1)] that by simp
      then have ms: "list_all2 (\<lambda>m x. fst x = fst m \<and> quiet (snd x) \<and> name_ok (fst m) \<and> prints scan n ?rec (snd m) (snd x)) ms xs"
        using xs(4) Suc.IH by (auto simp: list_all2_conv_all_nth)
      have "xs \<noteq> []" using xs(4) object(2) by auto
      then have "\<exists>s' b x. write_object_value L ?rec v s = Some s' \<and> blank b \<and> json_text scan (Suc n) (T_object ms) x \<and> went s (b @ x) s'"
        if "printing s" for s using object_printed [OF xs(2) _ xs(3) ms that] by blast
      then show ?thesis using xs(1) object(1) unfolding prints_def by (subst write_value.simps) simp
    qed
  qed
qed simp

lemma document_printed:
  assumes "writable string_ok name_ok scan real_to_text n t" "represents t v" "quiet v"
    "blank (indent_string s)" "\<not> add_child_values s" "child_values s = []"
  shows "\<exists>s' b x. write_value L real_to_text v s = Some s' \<and> blank b \<and> json_text scan n t x \<and>
    document (lay_comment_after L v s') = document s @ b @ x"
proof -
  have s: "printing s" using assms(4-6) by (simp add: printing_def)
  obtain s' b x where s': "write_value L real_to_text v s = Some s'" "blank b" "json_text scan n t x" "went s (b @ x) s'"
    using value_printed [OF assms(1-3)] s unfolding prints_def by blast
  have "went s' [] (lay_comment_after L v s')" using comments [OF assms(3)] wrote_went went_printing [OF s'(4)] by blast
  from went_trans [OF s'(4) this] show ?thesis using s'(1-3) by (auto simp: went_def)
qed

end

section \<open>The three classes\<close>

lemma wrote_refl [simp]: "wrote s [] s"
  by (simp add: wrote_def)

lemma write_indent_wrote: "blank (indent_string s) \<Longrightarrow> \<exists>b. blank b \<and> wrote s b (write_indent s)"
  using blank_white by (cases "document s \<noteq> [] \<and> last (document s) \<noteq> 10")
    (auto simp: write_indent_def wrote_def append_document_def intro: exI [of _ "[10] @ indent_string s"])

interpretation styled: printer styled_layout "\<lambda>s. True" no_null uncommented
proof unfold_locales
  fix s :: styled_writer and t
  assume "blank (indent_string s)"
  then obtain b where "blank b" "wrote s b (write_indent s)" using write_indent_wrote by blast
  then show "\<exists>b. blank b \<and> wrote s (b @ t) (lay_with_indent styled_layout t s)"
    and "\<exists>b. blank b \<and> wrote s b (lay_before_child styled_layout s)"
    by (intro exI [of _ b], simp add: styled_layout_def write_with_indent_def wrote_def append_document_def)+
qed (auto simp: styled_layout_def no_null_def write_comment_before_value_def write_comment_after_value_on_same_line_def
    uncommented_value quoted_name quoted_string blank_def white_def indent_size_def numeral_3_eq_3
    dest: uncommented_array uncommented_object intro!: exI [of _ "[32]"])

lemma stream_ensure_wrote: "blank (indent_string s) \<Longrightarrow> \<exists>b. blank b \<and> wrote s b (stream_ensure_indented s)"
  using blank_white by (cases "indented s")
    (auto simp: stream_ensure_indented_def stream_write_indent_def wrote_def append_document_def intro: exI [of _ "[10] @ indent_string s"])

lemma stream_printer:
  assumes "blank indentation"
  shows "printer (stream_layout indentation) no_null no_null uncommented"
proof unfold_locales
  fix s :: stream_writer and t
  assume "blank (indent_string s)"
  then obtain b where "blank b" "wrote s b (stream_ensure_indented s)" using stream_ensure_wrote by blast
  then show "\<exists>b. blank b \<and> wrote s (b @ t) (lay_with_indent (stream_layout indentation) t s)"
    and "\<exists>b. blank b \<and> wrote s b (lay_before_child (stream_layout indentation) s)"
    by (intro exI [of _ b], simp add: stream_layout_def stream_write_with_indent_def stream_before_child_def wrote_def append_document_def)+
qed (use assms in \<open>auto simp: stream_layout_def no_null_def stream_comment_before_value_def stream_comment_after_value_def
    stream_after_child_def wrote_def uncommented_value quoted_string blank_def white_def
    dest: uncommented_array uncommented_object intro!: exI [of _ "[32]"]\<close>)

interpretation stream: printer "stream_layout [9]" no_null no_null uncommented
  by (rule stream_printer) (simp add: blank_def white_def)

lemma built_ensure_wrote: "blank (indent_string s) \<Longrightarrow> \<exists>b. blank b \<and> wrote s b (built_ensure_indented cfg s)"
  using blank_white by (cases "indented s \<or> bc_indentation cfg = []")
    (auto simp: built_ensure_indented_def built_write_indent_def wrote_def append_document_def intro: exI [of _ "[10] @ indent_string s"])

lemma built_printer:
  assumes "blank (bc_indentation cfg)" "bc_null_symbol cfg = lit ''null''" "\<exists>a c. blank a \<and> blank c \<and> bc_colon_symbol cfg = a @ asc CHR '':'' # c"
  shows "printer (built_layout cfg) (\<lambda>s. True) (\<lambda>k. True) (\<lambda>v. bc_style cfg = style_none \<or> uncommented v)"
proof unfold_locales
  fix s :: stream_writer and t
  assume "blank (indent_string s)"
  then obtain b where "blank b" "wrote s b (built_ensure_indented cfg s)" using built_ensure_wrote by blast
  then show "\<exists>b. blank b \<and> wrote s (b @ t) (lay_with_indent (built_layout cfg) t s)"
    and "\<exists>b. blank b \<and> wrote s b (lay_before_child (built_layout cfg) s)"
    by (intro exI [of _ b], simp add: built_layout_def Let_def built_write_with_indent_def built_before_child_def wrote_def append_document_def)+
next
  show "\<exists>a c. blank a \<and> blank c \<and> lay_open (built_layout cfg) = asc CHR ''['' # a \<and> lay_close (built_layout cfg) = c @ [asc CHR '']'']"
    using blank_white by (intro exI [of _ "if bc_indentation cfg \<noteq> [] then [32] else []"]) (simp add: built_layout_def Let_def)
qed (use assms in \<open>auto simp: built_layout_def Let_def built_comment_before_value_def built_comment_after_value_def
    stream_after_child_def wrote_def uncommented_value quoted_name dest: uncommented_array uncommented_object\<close>)


section \<open>Round trips\<close>

definition reads_back :: "(byte list \<Rightarrow> 'd option) \<Rightarrow> ('d \<Rightarrow> byte list) \<Rightarrow> 'd real_ops \<Rightarrow> features \<Rightarrow> 'd json_value \<Rightarrow> byte list \<Rightarrow> bool" where
  "reads_back scan_double real_to_text R features v text \<longleftrightarrow> (\<forall>root collect. \<exists>s.
     parse_string scan_double real_to_text features text root collect = Some (Inr (True, s)) \<and> good s \<and> value_equal R (r_root s) v)"

lemma text_reads_back:
  assumes "json_text scan_double 1000 t x" "blank a" "blank b" "length (a @ x @ b) < 2 ^ 30" "strict_root features \<longrightarrow> is_container t"
    "represents t v" "\<forall>d \<in> set_json_tree t. rl_eq R d d"
  shows "reads_back scan_double real_to_text R features v (a @ x @ b)"
  unfolding reads_back_def
proof (intro allI)
  fix root collect
  obtain s where "parse_string scan_double real_to_text features (a @ x @ b) root collect = Some (Inr (True, s))" "good s" "represents t (r_root s)"
    using parse_text [OF assms(1-5)] by blast
  then show "\<exists>s. parse_string scan_double real_to_text features (a @ x @ b) root collect = Some (Inr (True, s)) \<and> good s \<and> value_equal R (r_root s) v"
    using represents_equal assms(6,7) by blast
qed

lemma comment_methods [simp]:
  "lay_comment_after styled_layout = write_comment_after_value_on_same_line"
  "lay_comment_after (stream_layout indentation) = stream_comment_after_value"
  "lay_comment_after (built_layout cfg) = built_comment_after_value cfg"
  by (simp_all add: styled_layout_def stream_layout_def built_layout_def Let_def)

lemma styled_written:
  assumes "writable (\<lambda>s. True) no_null scan real_to_text n t" "represents t v" "uncommented v"
  shows "\<exists>b x. styled_write real_to_text v = Some (b @ x @ [10]) \<and> blank b \<and> json_text scan n t x"
proof -
  let ?s = "\<lparr> child_values = [], document = [], indent_string = [], add_child_values = False \<rparr>"
  have "write_comment_before_value v ?s = ?s" using assms(3) by (simp add: write_comment_before_value_def uncommented_value)
  moreover obtain s' b x where "write_value styled_layout real_to_text v ?s = Some s'" "blank b" "json_text scan n t x"
    "document (write_comment_after_value_on_same_line v s') = b @ x"
    using styled.document_printed [OF assms, of ?s] by auto
  ultimately show ?thesis by (intro exI [of _ b] exI [of _ x]) (simp add: styled_write_def)
qed

lemma stream_written:
  assumes "writable no_null no_null scan real_to_text n t" "represents t v" "uncommented v" "blank indentation"
  shows "\<exists>b x. stream_write indentation real_to_text v = Some (b @ x @ [10]) \<and> blank b \<and> json_text scan n t x"
proof -
  let ?s = "\<lparr> child_values = [], document = [], indent_string = [], add_child_values = False, indented = True \<rparr>"
  have "stream_before_child (stream_comment_before_value v ?s) = ?s"
    using assms(3) by (simp add: stream_comment_before_value_def uncommented_value stream_before_child_def stream_ensure_indented_def)
  moreover obtain s' b x where "write_value (stream_layout indentation) real_to_text v ?s = Some s'" "blank b" "json_text scan n t x"
    "document (stream_comment_after_value v s') = b @ x"
    using printer.document_printed [OF stream_printer [OF assms(4)] assms(1-3), of ?s] by auto
  ultimately show ?thesis by (intro exI [of _ b] exI [of _ x]) (simp add: stream_write_def stream_write_value_def)
qed

lemma built_written:
  assumes "writable (\<lambda>s. True) (\<lambda>k. True) scan real_to_text n t" "represents t v" "bc_style cfg = style_none \<or> uncommented v"
    "blank (bc_indentation cfg)" "bc_null_symbol cfg = lit ''null''" "\<exists>a c. blank a \<and> blank c \<and> bc_colon_symbol cfg = a @ asc CHR '':'' # c"
  shows "\<exists>b x. built_write cfg real_to_text v = Some (b @ x @ bc_ending_linefeed_symbol cfg) \<and> blank b \<and> json_text scan n t x"
proof -
  let ?s = "\<lparr> child_values = [], document = [], indent_string = [], add_child_values = False, indented = True \<rparr>"
  have "built_before_child cfg (built_comment_before_value cfg v ?s) = ?s"
    using assms(3) by (auto simp: built_comment_before_value_def uncommented_value built_before_child_def built_ensure_indented_def)
  moreover obtain s' b x where "write_value (built_layout cfg) real_to_text v ?s = Some s'" "blank b" "json_text scan n t x"
    "document (built_comment_after_value cfg v s') = b @ x"
    using printer.document_printed [OF built_printer [OF assms(4-6)] assms(1-3), of ?s] by auto
  ultimately show ?thesis by (intro exI [of _ b] exI [of _ x]) (simp add: built_write_def built_write_value_def)
qed


lemma new_stream_writer_symbols:
  assumes "new_stream_writer R real_to_text settings = Inr cfg"
  shows "\<exists>a c. blank a \<and> blank c \<and> bc_colon_symbol cfg = a @ asc CHR '':'' # c" "bc_ending_linefeed_symbol cfg = []"
    "bc_null_symbol cfg = [] \<or> bc_null_symbol cfg = lit ''null''"
proof -
  have "bc_colon_symbol cfg \<in> {lit '': '', lit '':'', lit '' : ''} \<and> bc_ending_linefeed_symbol cfg = [] \<and>
      (bc_null_symbol cfg = [] \<or> bc_null_symbol cfg = lit ''null'')"
    using assms by (auto simp: new_stream_writer_def split: sum.splits if_splits)
  moreover have "lit '': '' = [] @ asc CHR '':'' # [32]" "lit '':'' = [] @ asc CHR '':'' # []" "lit '' : '' = [32] @ asc CHR '':'' # [32]" by simp_all
  ultimately show "\<exists>a c. blank a \<and> blank c \<and> bc_colon_symbol cfg = a @ asc CHR '':'' # c" "bc_ending_linefeed_symbol cfg = []"
    "bc_null_symbol cfg = [] \<or> bc_null_symbol cfg = lit ''null''"
    using blank_white(1) blank_append(2) by (metis empty_iff insert_iff)+
qed




end
