(* ===== verification/Spec2Isabelle.thy ===== *)
theory Spec2Isabelle
  imports Prelude Strutil Scan_Numbers Unicode Str_View Token_Type Lexer Lexer_Operators Lexer_Safety Lexer_Progress
    Simulation Ordered_Map Clock Stopwatch Headers Http_Method Line_Iterator Base_X Punycode Punycode_Roundtrip
    Unicode_Range Progress_Tracker Util Ast_Node Wrap_Lines Interp
    Json_Value Json_Reader Json_Safety Json_Grammar Json_Accepts Json_Writer Json_Invariant Json_Object Json_Roundtrip
    Json_Styled_Writer Json_Styled_Roundtrip
begin

text \<open>
  A verification library of the C++ program of the repository: the front end of the language Intent and its
  core library, below \<open>src/old/src\<close>. Paths in this development are relative to that directory. The program has a
  text library (\<open>core/text\<close>), a tokenizer with its tables and syntax tree (\<open>lang\<close>), and smaller libraries for time,
  errors, the network, progress of work and utilities (\<open>core/time\<close>, \<open>core/err\<close>, \<open>core/net\<close>, \<open>core/work\<close>,
  \<open>core/util\<close>). The tokenizer is built on the text library: it scans numbers with \<open>scan_numbers\<close>, characters with
  \<open>unicode\<close> and \<open>strutil\<close>, stores tokens as \<open>str_view\<close>, and classifies operators with the tables of token types.

  \<^bold>\<open>How the code is modelled.\<close> A pointer is an offset into one array of bytes, a null pointer is \<^term>\<open>None\<close>, and a
  read or write outside the array makes the function \<^term>\<open>None\<close>; so a theorem that a function returns \<^term>\<open>Some\<close>
  includes that it stays in memory. Machine integers are words of their width and wrap as the code does; \<open>char\<close>
  is signed. An exception or an early return with an error is a value of a sum type. Objects that are shared
  through pointers live on a heap, a map from addresses. The accesses of several threads are steps of an
  interleaving. Operations on \<open>double\<close>, the clock of the system, the success of allocations and the contents of
  memory that is not initialised are arguments.

  \<^bold>\<open>Theories and source files.\<close>
  \<^item> \<open>Prelude\<close>: machine types, memory, the scanning loop that the text library shares, \<open>std::lower_bound\<close>, contracts
    (\<open>core/util/dbc.h\<close>); the locale \<open>sorted_table\<close> states what bisection needs of a table.
  \<^item> \<open>Ordered_Map\<close>: \<open>std::map\<close> with a comparison object; the locale \<open>ordered_map\<close> derives its laws from a strict weak
    order. It is interpreted for the comparison of headers and for linear orders. \<open>Simulation\<close>: the locales
    \<open>simulation\<close> and \<open>invariant_kept\<close>, interpreted for the stopwatch, the clock and the tracker.
  \<^item> \<open>Strutil\<close> (\<open>core/text/strutil*\<close>): case, comparison, searching, trimming, splitting. \<open>Str_View\<close>
    (\<open>core/text/str_view*\<close>): views, moving their ends, comparing them. \<open>Line_Iterator\<close> (\<open>core/text/line_iterator.*\<close>).
  \<^item> \<open>Scan_Numbers\<close> (\<open>core/text/scan_numbers.*\<close>): digits, numbers of all formats. \<open>Unicode\<close> (\<open>core/text/unicode*\<close>):
    the UTF-8 decoder and encoder, escape sequences, well-formedness. \<open>Unicode_Range\<close> (\<open>core/text/unicode_range.*\<close>).
    \<open>Base_X\<close> (\<open>core/text/base_x_encode.h\<close>). \<open>Wrap_Lines\<close> (\<open>core/text/wrap_lines.*\<close>).
    \<open>Interp\<close> (\<open>core/text/interp.*\<close>, \<open>core/text/arg*\<close>): arguments and their interpolation into formats. \<open>Punycode\<close> and \<open>Punycode_Roundtrip\<close> (\<open>core/text/punycode.*\<close>).
  \<^item> \<open>Token_Type\<close> (\<open>lang/token_type*\<close>, \<open>lang/issue.*\<close>, \<open>lang/*.tuples\<close>): the generated tables and their lookups.
    \<open>Lexer\<close> (\<open>lang/lexer*\<close>, \<open>lang/token.*\<close>, \<open>lang/note.*\<close>): the whole tokenizer, one definition per method, with the
    queue of pending indents and the iterator. \<open>Lexer_Operators\<close>, \<open>Lexer_Safety\<close>, \<open>Lexer_Progress\<close>: its lemmas.
  \<^item> \<open>Ast_Node\<close> (\<open>lang/ast/node*\<close>): the nodes of the syntax tree. \<open>Headers\<close> (\<open>core/net/headers.*\<close>): layered collections
    of headers with reference counts. \<open>Http_Method\<close> (\<open>core/net/http_method.*\<close>).
  \<^item> \<open>Clock\<close> (\<open>core/time/assignable_clock*\<close>), \<open>Stopwatch\<close> (\<open>core/time/stopwatch*\<close>, \<open>core/err/circuit_breaker.h\<close>),
    \<open>Progress_Tracker\<close> (\<open>core/work/work_type.h\<close>, \<open>core/work/progress_tracker.*\<close>), \<open>Util\<close> (\<open>core/util/range*\<close>,
    \<open>monotonic_id.h\<close>, \<open>dbc.cpp\<close>, \<open>core/text/numeric_formats.*\<close>).
  \<^item> \<open>Json_Value\<close> (\<open>core/data/json/value.*\<close>): values, comparison, conversion, access, paths. \<open>Json_Reader\<close>
    (\<open>core/data/json/reader.*\<close>, \<open>tool.h\<close>, \<open>features.h\<close>): the class \<open>reader\<close>, from characters to documents and reports.
    \<open>Json_Safety\<close>: the reader on arbitrary documents. \<open>Json_Grammar\<close>: the trees and texts of JSON, as a specification.
    \<open>Json_Accepts\<close>: the reader on the texts of the grammar; the locale \<open>entries\<close>, interpreted for the names of objects and the
    indexes of arrays, has the updates of the value under construction. \<open>Json_Writer\<close> (\<open>core/data/json/writer.*\<close>):
    quoting and \<open>fast_writer\<close>. \<open>Json_Styled_Writer\<close> (the same file): \<open>styled_writer\<close>, the stream writers, the builder. \<open>Json_Invariant\<close>: the type invariant of values, arrays as lists.
    \<open>Json_Object\<close>: objects as finite maps. \<open>Json_Roundtrip\<close>: reading what
    \<open>fast_writer\<close> has written. \<open>Json_Styled_Roundtrip\<close>: the same for the other writers, through the locale \<open>printer\<close>, which states what the
    methods of a class have to satisfy and is interpreted for the three classes.

  \<^bold>\<open>What is shown.\<close>
  \<^item> Tokenizer: on a null-terminated text whose runs of blanks are at most 63 columns wide every call of \<open>advance\<close> returns, stays in
    memory and inside \<open>indent_stack\<close>, and keeps the invariant of the indents; the iterator reaches the end, and the
    tokens do not overlap. Operators are recognised by longest match (\<open>+\<close>, \<open>-\<close> and \<open>.\<close> before a digit start
    numbers instead). Once the queued dedent is wider than all stored widths, the iterator returns dedents for ever; an
    indent of 256 columns leads there.
  \<^item> Punycode: decoding is the inverse of encoding. The proof is a simulation: after each code point the decoder holds
    the subsequence of the input that the encoder has handled. The hypothesis excludes numbers so large that
    \<open>punycode_uint\<close> overflows; a lemma shows that it is needed. The decoder returns what it has written also with
    an error, so that its bounds hold on every input.
  \<^item> Text: round trips of UTF-8 and of escape sequences; safety of the decoder; values of digit scanners; wrapping
    keeps the visible text, with columns of 32 bits that wrap around; what a template of references expands to; equivalence of \<open>split\<close> and of the line iterator with definitions on lists; the comparison functions as lexicographic orders, and
    where they are not.
  \<^item> JSON: on every document the reader returns, stays in memory, keeps its pointers into the value valid, fails no
    assertion and throws only the error of the nesting limit; it returns true exactly if it recorded no error.
    It accepts every text of the grammar, integers beyond 64 bits included, and the value it builds represents the tree of the text. What the
    writers write belongs to the grammar, and is read back as an equal value. Every value that the operations build is well formed;
    the operations on arrays are those of lists, those on objects are those of finite maps.
  \<^item> Refinements: the stopwatch against a meter, the progress tracker against a ledger, lookup in headers against the
    list of layers. Invariants: the counter of clock sessions in every interleaving without forced deactivation, well-formed trees.
  \<^item> Divergences of code and documentation, each proved on a concrete input or for a class of inputs.

  \<^bold>\<open>Bounds and fuel.\<close> Loops are recursive functions with termination proofs where they end. \<open>advance\<close>, the search of
  the headers' layers and the loops of \<open>wrap_lines\<close>, which need not end, are partial functions into \<^term>\<open>option\<close> types. Fuel appears in the
  loop over the tokens of a text, where \<open>65 * (n + 2)\<close> increments are shown to reach the end of \<open>n\<close> characters (each
  character ends at most 64 indents and begins at most one token); in \<open>lines_from\<close>, where two more than the
  number of characters suffice; in the main loop of the Punycode encoder, where each round handles at
  least one code point, so that one more than the length of the input suffices; in the loop over the bits of
  \<open>numeric_formats\<close>, with its five rounds; and in the mutual recursion of JSON values, objects and arrays, where
  twice the rest of the document and two suffice, since of two nested calls one consumes a character.

  \<^bold>\<open>Not modelled.\<close> The class \<open>our_reader\<close> of the JSON reader and its builder, \<open>core/cli\<close>, \<open>normalize_identifier\<close>,
  and \<open>escape_sequence\<close> are not modelled yet. \<open>core/net/curl\<close>, \<open>core/io\<close>, \<open>core/dev\<close> and \<open>core/process\<close> call
  libraries and the operating system. \<open>trie\<close>, \<open>xsv\<close>, \<open>discrete_task\<close> and \<open>lang/parser\<close> are unfinished: their operations
  are stubs, disabled, or do not compile. The destructor of a syntax tree, entry points, performance tests and
  vendored libraries are left out.
\<close>

end
